(* ===== verification/Prelude.thy ===== *)
theory Prelude
  imports Main "HOL-Library.Word"
begin

text \<open>
  Shared vocabulary of the development: the machine types of \<^verbatim>\<open>types.h\<close>, the outcome of
  running kernel code (a value, a \<^verbatim>\<open>panic\<close> with its message, or a thread that sleeps or spins),
  its sequencing operator with a total-correctness calculus, byte-addressed memory with the
  little-endian word accesses a C \<^verbatim>\<open>uint*\<close> makes on x86, and the list lemmas that the scans over
  the kernel's tables need.
\<close>

unbundle bit_operations_syntax

named_theorems outcome_simps \<open>rewriting of sequenced outcomes\<close>
named_theorems returns_intro \<open>total-correctness rules of kernel operations\<close>

section \<open>Machine types\<close>

type_synonym u8 = "8 word"
type_synonym u16 = "16 word"
type_synonym u32 = "32 word"
type_synonym mem = "u32 \<Rightarrow> u8"

section \<open>Outcomes of kernel code\<close>

text \<open>
  \<open>Panic msg\<close> is a call of \<^verbatim>\<open>panic(msg)\<close>, which never returns. \<open>Blocked\<close> is a thread that cannot
  go on by itself: it spins on a lock another CPU holds, or has gone to sleep.
\<close>

datatype 'a outcome = Ret 'a | Panic string | Blocked

text \<open>An access the C standard leaves undefined (a write outside an array) ends the modelled run.\<close>

abbreviation (input) UB :: "'a outcome" where "UB \<equiv> Panic ''undefined behaviour''"

primrec bindO :: "'a outcome \<Rightarrow> ('a \<Rightarrow> 'b outcome) \<Rightarrow> 'b outcome" where
  "bindO (Ret x) f = f x"
| "bindO (Panic e) f = Panic e"
| "bindO Blocked f = Blocked"

text \<open>\<open>returns m P\<close>: the code returns (no panic, no blocking) and its result satisfies \<open>P\<close>.\<close>

definition returns :: "'a outcome \<Rightarrow> ('a \<Rightarrow> bool) \<Rightarrow> bool" where
  "returns m P = (case m of Ret x \<Rightarrow> P x | _ \<Rightarrow> False)"

text \<open>\<open>whenever m P\<close>: if the code returns, its result satisfies \<open>P\<close>.\<close>

definition whenever :: "'a outcome \<Rightarrow> ('a \<Rightarrow> bool) \<Rightarrow> bool" where
  "whenever m P = (case m of Ret x \<Rightarrow> P x | _ \<Rightarrow> True)"

section \<open>Word access to byte memory\<close>

definition load32 :: "mem \<Rightarrow> u32 \<Rightarrow> u32" where
  "load32 m a = ucast (m a) OR push_bit 8 (ucast (m (a + 1)))
     OR push_bit 16 (ucast (m (a + 2))) OR push_bit 24 (ucast (m (a + 3)))"

definition store32 :: "mem \<Rightarrow> u32 \<Rightarrow> u32 \<Rightarrow> mem" where
  "store32 m a v = m(a := ucast v, a + 1 := ucast (drop_bit 8 v),
     a + 2 := ucast (drop_bit 16 v), a + 3 := ucast (drop_bit 24 v))"

definition bytes_at :: "mem \<Rightarrow> u32 \<Rightarrow> nat \<Rightarrow> u8 list" where
  "bytes_at m a n = map (\<lambda>i. m (a + of_nat i)) [0..<n]"

section \<open>Table scans\<close>

text \<open>
  \<^verbatim>\<open>for(p = tab; p < &tab[N]; p++) if(P(p)) ...\<close>: the index of the first entry that satisfies the
  test, if any.
\<close>

primrec find_from :: "nat \<Rightarrow> ('a \<Rightarrow> bool) \<Rightarrow> 'a list \<Rightarrow> nat option" where
  "find_from k P [] = None"
| "find_from k P (x # xs) = (if P x then Some k else find_from (Suc k) P xs)"

definition find_index :: "('a \<Rightarrow> bool) \<Rightarrow> 'a list \<Rightarrow> nat option" where
  "find_index P xs = find_from 0 P xs"

section \<open>Lemmas on outcomes\<close>

lemma bindO_assoc [outcome_simps]: "bindO (bindO m f) g = bindO m (\<lambda>x. bindO (f x) g)"
  by (cases m) simp_all

lemma bindO_Ret_right [simp]: "bindO m Ret = m"
  by (cases m) simp_all

lemma bindO_eq_Ret_iff [outcome_simps]: "bindO m f = Ret y \<longleftrightarrow> (\<exists>x. m = Ret x \<and> f x = Ret y)"
  by (cases m) simp_all

lemma bindO_eq_Panic_iff:
  "bindO m f = Panic e \<longleftrightarrow> m = Panic e \<or> (\<exists>x. m = Ret x \<and> f x = Panic e)"
  by (cases m) auto

lemma bindO_cong [fundef_cong]:
  "m = m' \<Longrightarrow> (\<And>x. m' = Ret x \<Longrightarrow> f x = f' x) \<Longrightarrow> bindO m f = bindO m' f'"
  by (cases m') simp_all

lemma returns_Ret [simp]: "returns (Ret x) P \<longleftrightarrow> P x"
  by (simp add: returns_def)

lemma returns_Panic [simp]: "\<not> returns (Panic e) P"
  by (simp add: returns_def)

lemma returns_Blocked [simp]: "\<not> returns Blocked P"
  by (simp add: returns_def)

lemma returns_bindO [simp]: "returns (bindO m f) P \<longleftrightarrow> returns m (\<lambda>x. returns (f x) P)"
  by (cases m) simp_all

lemma returns_iff: "returns m P \<longleftrightarrow> (\<exists>x. m = Ret x \<and> P x)"
  by (cases m) simp_all

lemma returnsE: "returns m P \<Longrightarrow> (\<And>x. m = Ret x \<Longrightarrow> P x \<Longrightarrow> thesis) \<Longrightarrow> thesis"
  by (cases m) simp_all

lemma returns_mono: "returns m P \<Longrightarrow> (\<And>x. P x \<Longrightarrow> Q x) \<Longrightarrow> returns m Q"
  by (cases m) simp_all

lemma returns_conj: "returns m P \<Longrightarrow> returns m Q \<Longrightarrow> returns m (\<lambda>x. P x \<and> Q x)"
  by (cases m) simp_all

lemma whenever_Ret [simp]: "whenever (Ret x) P \<longleftrightarrow> P x"
  by (simp add: whenever_def)

lemma whenever_Panic [simp]: "whenever (Panic e) P"
  by (simp add: whenever_def)

lemma whenever_Blocked [simp]: "whenever Blocked P"
  by (simp add: whenever_def)

lemma whenever_bindO [simp]: "whenever (bindO m f) P \<longleftrightarrow> whenever m (\<lambda>x. whenever (f x) P)"
  by (cases m) simp_all

lemma wheneverD: "whenever m P \<Longrightarrow> m = Ret x \<Longrightarrow> P x"
  by simp

lemma wheneverI: "(\<And>x. m = Ret x \<Longrightarrow> P x) \<Longrightarrow> whenever m P"
  by (cases m) simp_all

lemma whenever_mono: "whenever m P \<Longrightarrow> (\<And>x. P x \<Longrightarrow> Q x) \<Longrightarrow> whenever m Q"
  by (cases m) simp_all

lemma returns_whenever: "returns m P \<Longrightarrow> whenever m P"
  by (cases m) simp_all

section \<open>Lemmas on table scans\<close>

lemma find_from_None: "find_from k P xs = None \<longleftrightarrow> (\<forall>x\<in>set xs. \<not> P x)"
  by (induction xs arbitrary: k) auto

lemma find_from_Some:
  "find_from k P xs = Some i \<Longrightarrow>
     k \<le> i \<and> i - k < length xs \<and> P (xs ! (i - k)) \<and> (\<forall>j<i - k. \<not> P (xs ! j))"
proof (induction xs arbitrary: k)
  case Nil
  then show ?case by simp
next
  case (Cons x xs)
  show ?case
  proof (cases "P x")
    case True
    with Cons.prems show ?thesis by simp
  next
    case False
    with Cons.prems have ih: "Suc k \<le> i \<and> i - Suc k < length xs \<and> P (xs ! (i - Suc k)) \<and>
        (\<forall>j<i - Suc k. \<not> P (xs ! j))"
      using Cons.IH [of "Suc k"] by simp
    then have e: "i - k = Suc (i - Suc k)" by linarith
    show ?thesis
      using ih False unfolding e by (auto simp: less_Suc_eq_0_disj)
  qed
qed

lemma find_index_None: "find_index P xs = None \<longleftrightarrow> (\<forall>x\<in>set xs. \<not> P x)"
  by (simp add: find_index_def find_from_None)

lemma find_index_Some:
  "find_index P xs = Some i \<Longrightarrow> i < length xs \<and> P (xs ! i) \<and> (\<forall>j<i. \<not> P (xs ! j))"
  using find_from_Some [of 0 P xs i] by (simp add: find_index_def)

lemma find_index_exists: "i < length xs \<Longrightarrow> P (xs ! i) \<Longrightarrow> \<exists>j. find_index P xs = Some j"
  using find_index_None [of P xs] by (metis not_None_eq nth_mem)

lemma find_index_cong:
  "length xs = length ys \<Longrightarrow> (\<And>i. i < length xs \<Longrightarrow> P (xs ! i) = Q (ys ! i)) \<Longrightarrow>
     find_index P xs = find_index Q ys"
proof -
  have "length xs = length ys \<Longrightarrow> (\<And>i. i < length xs \<Longrightarrow> P (xs ! i) = Q (ys ! i)) \<Longrightarrow>
     find_from k P xs = find_from k Q ys" for k
  proof (induction xs ys arbitrary: k rule: list_induct2)
    case Nil
    then show ?case by simp
  next
    case (Cons x xs y ys)
    have "P x = Q y" using Cons.prems [of 0] by simp
    moreover have "\<And>i. i < length xs \<Longrightarrow> P (xs ! i) = Q (ys ! i)"
      using Cons.prems [of "Suc _"] by simp
    ultimately show ?case using Cons.IH by simp
  qed
  then show "length xs = length ys \<Longrightarrow> (\<And>i. i < length xs \<Longrightarrow> P (xs ! i) = Q (ys ! i)) \<Longrightarrow>
     find_index P xs = find_index Q ys"
    by (simp add: find_index_def)
qed

section \<open>Lemmas on memory words\<close>

lemma u32_bound: "unat (x :: u32) < 4294967296"
  using unsigned_less [of x, where ?'a = nat] by simp

lemma u32_bound_le [simp]: "unat (x :: u32) \<le> 4294967296"
  using u32_bound [of x] by simp

lemma unat_minus_1_u32 [simp]: "unat (- 1 :: u32) = 4294967295"
  by (simp add: unsigned_minus_1_eq_mask mask_eq_exp_minus_1)

lemma word_add_cancel_small [simp]:
  fixes a :: u32
  shows "a + 1 \<noteq> a" "a + 2 \<noteq> a" "a + 3 \<noteq> a" "a \<noteq> a + 1" "a \<noteq> a + 2" "a \<noteq> a + 3"
  by simp_all

lemma load32_store32_same [simp]: "load32 (store32 m a v) a = v"
proof (rule bit_word_eqI)
  fix n :: nat
  assume n: "n < LENGTH(32)"
  show "bit (load32 (store32 m a v) a) n = bit v n"
    using n
    by (cases "n < 8"; cases "n < 16"; cases "n < 24") (auto simp: load32_def store32_def bit_or_iff bit_push_bit_iff bit_ucast_iff bit_drop_bit_eq
        dest: bit_imp_le_length)
qed

lemma load32_cong:
  "m a = m' a \<Longrightarrow> m (a + 1) = m' (a + 1) \<Longrightarrow> m (a + 2) = m' (a + 2) \<Longrightarrow> m (a + 3) = m' (a + 3)
     \<Longrightarrow> load32 m a = load32 m' a"
  by (simp add: load32_def)

lemma store32_other:
  "x \<noteq> a \<Longrightarrow> x \<noteq> a + 1 \<Longrightarrow> x \<noteq> a + 2 \<Longrightarrow> x \<noteq> a + 3 \<Longrightarrow> store32 m a v x = m x"
  by (simp add: store32_def)

lemma length_bytes_at [simp]: "length (bytes_at m a n) = n"
  by (simp add: bytes_at_def)

lemma nth_bytes_at [simp]: "i < n \<Longrightarrow> bytes_at m a n ! i = m (a + of_nat i)"
  by (simp add: bytes_at_def)

text \<open>Two aligned words are the same or do not overlap.\<close>

lemma aligned_unat_add:
  fixes a i :: u32
  assumes "unat a mod 4 = 0" and "i < 4"
  shows "unat (a + i) = unat a + unat i"
proof -
  have "unat i < 4" using assms(2) by (simp add: word_less_nat_alt)
  moreover have "unat a < 4294967296" by (rule u32_bound)
  ultimately have "unat a + unat i < 4294967296" using assms(1) by presburger
  then show ?thesis by (simp add: unat_word_ariths)
qed

lemma aligned_words_disjoint:
  fixes a b :: u32
  assumes "unat a mod 4 = 0" and "unat b mod 4 = 0" and "a \<noteq> b" and "i < 4" and "j < 4"
  shows "a + i \<noteq> b + j"
proof
  assume "a + i = b + j"
  then have e: "unat a + unat i = unat b + unat j"
    using assms by (metis aligned_unat_add)
  moreover have "unat i < 4" "unat j < 4"
    using assms(4,5) by (simp_all add: word_less_nat_alt)
  ultimately have "unat a = unat b" using assms(1,2) by presburger
  with assms(3) show False by (simp add: word_unat_eq_iff)
qed

lemma load32_store32_other:
  fixes a b :: u32
  assumes "unat a mod 4 = 0" and "unat b mod 4 = 0" and "a \<noteq> b"
  shows "load32 (store32 m b v) a = load32 m a"
proof -
  have d: "a + i \<noteq> b + j" if "i < 4" "j < 4" for i j
    using assms that by (rule aligned_words_disjoint)
  have "store32 m b v (a + i) = m (a + i)" if "i < 4" for i
    using d [OF that, of 0] d [OF that, of 1] d [OF that, of 2] d [OF that, of 3]
    by (simp add: store32_other)
  from this [of 0] this [of 1] this [of 2] this [of 3] show ?thesis
    by (intro load32_cong) simp_all
qed

section \<open>Bounded byte queues\<close>

text \<open>
  The contract of a bounded first-in first-out buffer of bytes: \<open>contents\<close> is the list it stands for.
  The pipe of \<^verbatim>\<open>pipe.c\<close> and the input ring of \<^verbatim>\<open>console.c\<close> provide it.
\<close>

locale byte_queue =
  fixes put :: "u8 \<Rightarrow> 'q \<Rightarrow> 'q" and get :: "'q \<Rightarrow> u8 \<times> 'q"
    and full :: "'q \<Rightarrow> bool" and empty :: "'q \<Rightarrow> bool"
    and ok :: "'q \<Rightarrow> bool" and contents :: "'q \<Rightarrow> u8 list" and cap :: nat
  assumes ok_bound: "ok q \<Longrightarrow> length (contents q) \<le> cap"
    and full_iff: "ok q \<Longrightarrow> full q \<longleftrightarrow> length (contents q) = cap"
    and empty_iff: "ok q \<Longrightarrow> empty q \<longleftrightarrow> contents q = []"
    and put_law: "ok q \<Longrightarrow> \<not> full q \<Longrightarrow> ok (put b q) \<and> contents (put b q) = contents q @ [b]"
    and get_law: "ok q \<Longrightarrow> \<not> empty q \<Longrightarrow> ok (snd (get q)) \<and> contents q = fst (get q) # contents (snd (get q))"
begin

primrec put_all :: "u8 list \<Rightarrow> 'q \<Rightarrow> 'q" where
  "put_all [] q = q"
| "put_all (b # bs) q = put_all bs (put b q)"

primrec get_many :: "nat \<Rightarrow> 'q \<Rightarrow> u8 list \<times> 'q" where
  "get_many 0 q = ([], q)"
| "get_many (Suc n) q =
     (if empty q then ([], q) else let (b, q) = get q; (bs, q) = get_many n q in (b # bs, q))"

lemma put_all_contents:
  "ok q \<Longrightarrow> length (contents q) + length bs \<le> cap \<Longrightarrow>
     ok (put_all bs q) \<and> contents (put_all bs q) = contents q @ bs"
proof (induction bs arbitrary: q)
  case Nil
  then show ?case by simp
next
  case (Cons b bs)
  then have "\<not> full q" using full_iff by simp
  then show ?case using Cons put_law [OF Cons.prems(1), of b] by simp
qed

lemma get_many_contents:
  "ok q \<Longrightarrow> fst (get_many n q) = take n (contents q) \<and> ok (snd (get_many n q)) \<and>
     contents (snd (get_many n q)) = drop n (contents q)"
proof (induction n arbitrary: q)
  case 0
  then show ?case by simp
next
  case (Suc n)
  show ?case
  proof (cases "empty q")
    case True
    then show ?thesis using Suc.prems empty_iff by simp
  next
    case False
    note g = get_law [OF Suc.prems False]
    have ih: "fst (get_many n (snd (get q))) = take n (contents (snd (get q))) \<and>
        ok (snd (get_many n (snd (get q)))) \<and>
        contents (snd (get_many n (snd (get q)))) = drop n (contents (snd (get q)))"
      using Suc.IH g by blast
    have "get_many (Suc n) q =
        (fst (get q) # fst (get_many n (snd (get q))), snd (get_many n (snd (get q))))"
      using False by (simp add: split_def Let_def)
    moreover obtain b cs where "contents q = b # cs" "b = fst (get q)" "cs = contents (snd (get q))"
      using g by blast
    ultimately show ?thesis using ih by simp
  qed
qed

lemma fifo:
  assumes "ok q" and "contents q = []" and "length bs \<le> cap"
  shows "fst (get_many (length bs) (put_all bs q)) = bs"
  using get_many_contents [of "put_all bs q" "length bs"] put_all_contents [OF assms(1), of bs] assms(2,3)
  by simp

end

section \<open>Rings addressed by wrapping counters\<close>

text \<open>
  \<open>ring_list m buf r n\<close>: the \<open>n\<close> entries from counter value \<open>r\<close> on of a ring of \<open>m\<close> entries. The counters are
  32-bit words that wrap; since \<open>m\<close> divides $2^{32}$, positions go on without a jump.
\<close>

definition ring_list :: "nat \<Rightarrow> 'a list \<Rightarrow> u32 \<Rightarrow> nat \<Rightarrow> 'a list" where
  "ring_list m buf r n = map (\<lambda>i. buf ! (unat (r + of_nat i) mod m)) [0..<n]"

lemma length_ring_list [simp]: "length (ring_list m buf r n) = n"
  by (simp add: ring_list_def)

lemma ring_list_0 [simp]: "ring_list m buf r 0 = []"
  by (simp add: ring_list_def)

lemma ring_list_Cons: "ring_list m buf r (Suc n) = buf ! (unat r mod m) # ring_list m buf (r + 1) n"
  by (simp add: ring_list_def upt_conv_Cons map_Suc_upt [symmetric] add.assoc del: upt_Suc)

lemma ring_list_append:
  "ring_list m buf r (n + k) = ring_list m buf r n @ ring_list m buf (r + of_nat n) k"
proof -
  have "map (\<lambda>i. buf ! (unat (r + of_nat i) mod m)) [n..<n + k]
      = map (\<lambda>i. buf ! (unat (r + of_nat n + of_nat i) mod m)) [0..<k]"
    using map_add_upt [of n k] by (simp add: list_eq_iff_nth_eq add.assoc)
  then show ?thesis by (simp add: ring_list_def upt_add_eq_append [of 0 n k])
qed

lemma nat_mod_add_cancel: "(a + i) mod n = (a + j) mod n \<longleftrightarrow> i mod n = (j :: nat) mod n"
proof -
  have "(int a + int i) mod int n = (int a + int j) mod int n \<longleftrightarrow> int i mod int n = int j mod int n"
    by (simp add: mod_eq_dvd_iff)
  then show ?thesis by (simp only: of_nat_add [symmetric] of_nat_mod [symmetric] of_nat_eq_iff)
qed

lemma ring_position:
  assumes "m dvd 4294967296"
  shows "unat (r + of_nat i :: u32) mod m = (unat r + i) mod m"
  using assms by (simp add: unat_word_ariths unat_of_nat mod_mod_cancel mod_add_right_eq)

lemma ring_positions_differ:
  assumes "m dvd 4294967296" and "i < m" and "j < m" and "i \<noteq> j"
  shows "unat (r + of_nat i :: u32) mod m \<noteq> unat (r + of_nat j) mod m"
  using assms by (simp add: ring_position nat_mod_add_cancel)

lemma ring_list_update_other:
  assumes "m dvd 4294967296" and "n \<le> k" and "k < m"
  shows "ring_list m (buf[unat (r + of_nat k) mod m := b]) r n = ring_list m buf r n"
proof -
  have "unat (r + of_nat k :: u32) mod m \<noteq> unat (r + of_nat i) mod m" if "i < n" for i
    using ring_positions_differ [OF assms(1,3), of i r] that assms(2,3) by simp
  then show ?thesis by (simp add: ring_list_def)
qed

lemma ring_list_snoc:
  assumes "m dvd 4294967296" and "n < m" and "length buf = m"
  shows "ring_list m (buf[unat (r + of_nat n) mod m := b]) r (Suc n) = ring_list m buf r n @ [b]"
  using ring_list_append [of m "buf[unat (r + of_nat n) mod m := b]" r n 1]
    ring_list_update_other [OF assms(1) order_refl assms(2), of buf r b] assms(2,3)
  by (simp add: ring_list_Cons)

lemma ring_list_butlast: "0 < n \<Longrightarrow> ring_list m buf r (n - 1) = butlast (ring_list m buf r n)"
  using ring_list_append [of m buf r "n - 1" 1] by (simp add: ring_list_Cons)

lemma u32_diff_add1: "unat (b - a :: u32) < 4294967295 \<Longrightarrow> unat (b + 1 - a) = Suc (unat (b - a))"
  and u32_diff_sub1: "b \<noteq> a \<Longrightarrow> unat (b - 1 - a) = unat (b - a :: u32) - 1"
  and u32_diff_sub1': "b \<noteq> a \<Longrightarrow> unat (b - (a + 1)) = unat (b - a :: u32) - 1"
proof -
  have e: "b + 1 - a = (b - a) + 1" "b - 1 - a = (b - a) - 1" "b - (a + 1) = (b - a) - 1" by simp_all
  show "unat (b - a) < 4294967295 \<Longrightarrow> unat (b + 1 - a) = Suc (unat (b - a))"
    unfolding e by (subst unat_word_ariths) simp
  have "unat ((b - a) - 1) = unat (b - a) - 1" if "b \<noteq> a"
  proof -
    have "unat (b - a) \<noteq> 0" using that by (simp add: unat_eq_0)
    then show ?thesis by (subst unat_sub_if') (simp add: word_le_nat_alt)
  qed
  then show "b \<noteq> a \<Longrightarrow> unat (b - 1 - a) = unat (b - a) - 1" "b \<noteq> a \<Longrightarrow> unat (b - (a + 1)) = unat (b - a) - 1"
    unfolding e by blast+
qed

end
