(* ===== verification/Layout.thy ===== *)
theory Layout
  imports Prelude
begin

text \<open>
  The constants and address macros of \<^verbatim>\<open>param.h\<close>, \<^verbatim>\<open>memlayout.h\<close> and \<^verbatim>\<open>mmu.h\<close>: sizes of the kernel's
  tables, the physical and virtual memory layout, and the decomposition of a linear address and of a
  page-table entry, with the arithmetic facts that the memory components share.
\<close>

section \<open>Constants\<close>

abbreviation (input) NPROC :: nat where "NPROC \<equiv> 64"
abbreviation (input) KSTACKSIZE :: u32 where "KSTACKSIZE \<equiv> 4096"
abbreviation (input) NCPU :: nat where "NCPU \<equiv> 8"
abbreviation (input) NOFILE :: nat where "NOFILE \<equiv> 16"
abbreviation (input) NFILE :: nat where "NFILE \<equiv> 100"
abbreviation (input) NINODE :: nat where "NINODE \<equiv> 50"
abbreviation (input) NDEV :: nat where "NDEV \<equiv> 10"
abbreviation (input) ROOTDEV :: u32 where "ROOTDEV \<equiv> 1"
abbreviation (input) MAXARG :: nat where "MAXARG \<equiv> 32"
abbreviation (input) MAXOPBLOCKS :: nat where "MAXOPBLOCKS \<equiv> 10"
abbreviation (input) LOGSIZE :: nat where "LOGSIZE \<equiv> 30"
abbreviation (input) NBUF :: nat where "NBUF \<equiv> 30"
abbreviation (input) FSSIZE :: nat where "FSSIZE \<equiv> 1000"

abbreviation (input) EXTMEM :: u32 where "EXTMEM \<equiv> 0x100000"
abbreviation (input) PHYSTOP :: u32 where "PHYSTOP \<equiv> 0xE000000"
abbreviation (input) DEVSPACE :: u32 where "DEVSPACE \<equiv> 0xFE000000"
abbreviation (input) KERNBASE :: u32 where "KERNBASE \<equiv> 0x80000000"
abbreviation (input) KERNLINK :: u32 where "KERNLINK \<equiv> 0x80100000"
abbreviation (input) STACKBASE :: u32 where "STACKBASE \<equiv> 0x7FFFFFFF"

abbreviation (input) PGSIZE :: u32 where "PGSIZE \<equiv> 4096"
abbreviation (input) NPDENTRIES :: nat where "NPDENTRIES \<equiv> 1024"
abbreviation (input) PTE_P :: u32 where "PTE_P \<equiv> 1"
abbreviation (input) PTE_W :: u32 where "PTE_W \<equiv> 2"
abbreviation (input) PTE_U :: u32 where "PTE_U \<equiv> 4"

section \<open>Address macros\<close>

definition V2P :: "u32 \<Rightarrow> u32" where "V2P a = a - KERNBASE"

definition P2V :: "u32 \<Rightarrow> u32" where "P2V a = a + KERNBASE"

definition PDX :: "u32 \<Rightarrow> u32" where "PDX va = drop_bit 22 va AND 0x3FF"

definition PTX :: "u32 \<Rightarrow> u32" where "PTX va = drop_bit 12 va AND 0x3FF"

definition PGADDR :: "u32 \<Rightarrow> u32 \<Rightarrow> u32 \<Rightarrow> u32" where
  "PGADDR d t off = push_bit 22 d OR push_bit 12 t OR off"

definition PGROUNDUP :: "u32 \<Rightarrow> u32" where "PGROUNDUP sz = (sz + PGSIZE - 1) AND NOT (PGSIZE - 1)"

definition PGROUNDDOWN :: "u32 \<Rightarrow> u32" where "PGROUNDDOWN a = a AND NOT (PGSIZE - 1)"

definition PTE_ADDR :: "u32 \<Rightarrow> u32" where "PTE_ADDR pte = pte AND NOT 0xFFF"

definition PTE_FLAGS :: "u32 \<Rightarrow> u32" where "PTE_FLAGS pte = pte AND 0xFFF"

section \<open>Arithmetic of the macros\<close>

lemma V2P_P2V [simp]: "V2P (P2V a) = a" "P2V (V2P a) = a"
  by (simp_all add: V2P_def P2V_def)

lemma mask12: "(0xFFF :: u32) = mask 12" and mask10: "(0x3FF :: u32) = mask 10"
  by (simp_all add: mask_eq_exp_minus_1)

lemma unat_take_bit: "unat (take_bit n a) = unat a mod 2 ^ n" for a :: u32
  by (simp only: unsigned_take_bit_eq) (simp only: take_bit_eq_mod)

lemma and_not_mask_div:
  fixes a :: u32
  shows "unat (a AND NOT (mask n)) = unat a div 2 ^ n * 2 ^ n"
proof -
  have "a AND NOT (mask n) = push_bit n (drop_bit n a)"
    by (rule bit_word_eqI) (auto simp: bit_and_iff bit_not_iff bit_mask_iff bit_push_bit_iff bit_drop_bit_eq)
  also have "\<dots> = a - take_bit n a" using bits_ident [of n a] by (metis add_diff_cancel_right')
  also have "unat \<dots> = unat a - unat (take_bit n a)"
    by (rule unat_sub) (simp add: word_le_nat_alt unat_take_bit)
  finally show ?thesis by (simp add: unat_take_bit minus_mod_eq_div_mult)
qed

lemma and_mask_mod:
  fixes a :: u32
  shows "unat (a AND mask n) = unat a mod 2 ^ n"
  by (simp add: unat_take_bit flip: take_bit_eq_mask)

lemma unat_PGROUNDDOWN: "unat (PGROUNDDOWN a) = unat a div 4096 * 4096"
  using and_not_mask_div [of a 12] by (simp add: PGROUNDDOWN_def mask12)

lemma unat_PTE_ADDR: "unat (PTE_ADDR a) = unat a div 4096 * 4096"
  using and_not_mask_div [of a 12] by (simp add: PTE_ADDR_def mask12)

lemma unat_PGROUNDUP:
  assumes "unat a \<le> 4294963200"
  shows "unat (PGROUNDUP a) = (unat a + 4095) div 4096 * 4096"
proof -
  have "unat (a + 4095) = unat a + 4095" using assms by (simp add: unat_word_ariths)
  moreover have "a + PGSIZE - 1 = a + 4095" by simp
  ultimately show ?thesis
    using and_not_mask_div [of "a + 4095" 12] unfolding PGROUNDUP_def mask12 [symmetric]
    by (simp add: add.commute)
qed

lemma unat_PDX: "unat (PDX va) = unat va div 4194304"
proof -
  have "unat va div 4194304 < 1024" using u32_bound [of va] by simp
  then show ?thesis
    by (simp add: PDX_def mask10 and_mask_mod drop_bit_eq_div unat_div)
qed

lemma unat_PTX: "unat (PTX va) = unat va div 4096 mod 1024"
  by (simp add: PTX_def mask10 and_mask_mod drop_bit_eq_div unat_div)

section \<open>Segment descriptors and gates\<close>

text \<open>The bit fields of \<^verbatim>\<open>struct segdesc\<close> and \<^verbatim>\<open>struct gatedesc\<close> are words of their width.\<close>

record segdesc =
  lim_15_0 :: u16
  base_15_0 :: u16
  base_23_16 :: u8
  sd_type :: "4 word"
  sd_s :: "1 word"
  sd_dpl :: "2 word"
  sd_p :: "1 word"
  lim_19_16 :: "4 word"
  sd_avl :: "1 word"
  sd_rsv1 :: "1 word"
  sd_db :: "1 word"
  sd_g :: "1 word"
  base_31_24 :: u8

definition SEG :: "4 word \<Rightarrow> u32 \<Rightarrow> u32 \<Rightarrow> 2 word \<Rightarrow> segdesc" where
  "SEG t base lim dpl = \<lparr>lim_15_0 = ucast (drop_bit 12 lim AND 0xFFFF), base_15_0 = ucast (base AND 0xFFFF),
     base_23_16 = ucast (drop_bit 16 base AND 0xFF), sd_type = t, sd_s = 1, sd_dpl = dpl, sd_p = 1,
     lim_19_16 = ucast (drop_bit 28 lim), sd_avl = 0, sd_rsv1 = 0, sd_db = 1, sd_g = 1,
     base_31_24 = ucast (drop_bit 24 base)\<rparr>"

definition SEG16 :: "4 word \<Rightarrow> u32 \<Rightarrow> u32 \<Rightarrow> 2 word \<Rightarrow> segdesc" where
  "SEG16 t base lim dpl = \<lparr>lim_15_0 = ucast (lim AND 0xFFFF), base_15_0 = ucast (base AND 0xFFFF),
     base_23_16 = ucast (drop_bit 16 base AND 0xFF), sd_type = t, sd_s = 1, sd_dpl = dpl, sd_p = 1,
     lim_19_16 = ucast (drop_bit 16 lim), sd_avl = 0, sd_rsv1 = 0, sd_db = 1, sd_g = 0,
     base_31_24 = ucast (drop_bit 24 base)\<rparr>"

abbreviation (input) SEG_KCODE :: nat where "SEG_KCODE \<equiv> 1"
abbreviation (input) SEG_KDATA :: nat where "SEG_KDATA \<equiv> 2"
abbreviation (input) SEG_UCODE :: nat where "SEG_UCODE \<equiv> 3"
abbreviation (input) SEG_UDATA :: nat where "SEG_UDATA \<equiv> 4"
abbreviation (input) SEG_TSS :: nat where "SEG_TSS \<equiv> 5"
abbreviation (input) NSEGS :: nat where "NSEGS \<equiv> 6"
abbreviation (input) DPL_USER :: "2 word" where "DPL_USER \<equiv> 3"
abbreviation (input) FL_IF :: u32 where "FL_IF \<equiv> 0x200"

text \<open>The base address a descriptor denotes.\<close>

definition seg_base :: "segdesc \<Rightarrow> u32" where
  "seg_base d = push_bit 24 (ucast (base_31_24 d)) OR push_bit 16 (ucast (base_23_16 d)) OR ucast (base_15_0 d)"

lemma seg_base_SEG16: "seg_base (SEG16 t base lim dpl) = base"
proof (rule bit_word_eqI)
  fix n :: nat
  assume n: "n < LENGTH(32)"
  have m: "(0xFFFF :: u32) = mask 16" "(0xFF :: u32) = mask 8" by (simp_all add: mask_eq_exp_minus_1)
  show "bit (seg_base (SEG16 t base lim dpl)) n = bit base n"
    using n unfolding seg_base_def SEG16_def m
    by (cases "n < 16"; cases "n < 24")
      (auto simp: bit_or_iff bit_and_iff bit_push_bit_iff bit_ucast_iff bit_drop_bit_eq bit_mask_iff
        dest: bit_imp_le_length)
qed

record taskstate =
  ts_esp0 :: u32
  ts_ss0 :: u16
  ts_iomb :: u16

record gatedesc =
  off_15_0 :: u16
  gd_cs :: u16
  gd_args :: "5 word"
  gd_rsv1 :: "3 word"
  gd_type :: "4 word"
  gd_s :: "1 word"
  gd_dpl :: "2 word"
  gd_p :: "1 word"
  off_31_16 :: u16

definition SETGATE :: "bool \<Rightarrow> u16 \<Rightarrow> u32 \<Rightarrow> 2 word \<Rightarrow> gatedesc" where
  "SETGATE istrap sel off d = \<lparr>off_15_0 = ucast (off AND 0xFFFF), gd_cs = sel, gd_args = 0, gd_rsv1 = 0,
     gd_type = (if istrap then 0xF else 0xE), gd_s = 0, gd_dpl = d, gd_p = 1,
     off_31_16 = ucast (drop_bit 16 off)\<rparr>"

end
