(* ===== verification/Cstring.thy ===== *)
theory Cstring
  imports Prelude
begin

text \<open>
  The byte and string routines of \<^verbatim>\<open>string.c\<close> over byte-addressed memory, with the \<^verbatim>\<open>rep stos\<close>
  primitives of \<^verbatim>\<open>x86.h\<close> they rest on. Pointers are 32-bit and wrap; every loop of the C code is a
  recursion over its counter, and \<open>strlen\<close>, whose loop only a NUL byte ends, is a partial function.
  The lemmas give each routine's effect on every address of memory.
\<close>

section \<open>Definitions\<close>

primrec stosb :: "nat \<Rightarrow> u32 \<Rightarrow> u8 \<Rightarrow> mem \<Rightarrow> mem" where
  "stosb 0 addr data m = m"
| "stosb (Suc cnt) addr data m = stosb cnt (addr + 1) data (m(addr := data))"

primrec stosl :: "nat \<Rightarrow> u32 \<Rightarrow> u32 \<Rightarrow> mem \<Rightarrow> mem" where
  "stosl 0 addr data m = m"
| "stosl (Suc cnt) addr data m = stosl cnt (addr + 4) data (store32 m addr data)"

definition memset :: "u32 \<Rightarrow> u32 \<Rightarrow> u32 \<Rightarrow> mem \<Rightarrow> mem" where
  "memset dst c n m =
     (if dst mod 4 = 0 \<and> n mod 4 = 0 then
        let c = c AND 0xFF in
        stosl (unat (n div 4)) dst
          (push_bit 24 c OR push_bit 16 c OR push_bit 8 c OR c) m
      else stosb (unat n) dst (ucast c) m)"

primrec memcmp_loop :: "nat \<Rightarrow> u32 \<Rightarrow> u32 \<Rightarrow> mem \<Rightarrow> int" where
  "memcmp_loop 0 s1 s2 m = 0"
| "memcmp_loop (Suc n) s1 s2 m =
     (if m s1 \<noteq> m s2 then uint (m s1) - uint (m s2) else memcmp_loop n (s1 + 1) (s2 + 1) m)"

definition memcmp :: "u32 \<Rightarrow> u32 \<Rightarrow> u32 \<Rightarrow> mem \<Rightarrow> int" where
  "memcmp v1 v2 n m = memcmp_loop (unat n) v1 v2 m"

primrec copy_up :: "nat \<Rightarrow> u32 \<Rightarrow> u32 \<Rightarrow> mem \<Rightarrow> mem" where
  "copy_up 0 d s m = m"
| "copy_up (Suc n) d s m = copy_up n (d + 1) (s + 1) (m(d := m s))"

primrec copy_down :: "nat \<Rightarrow> u32 \<Rightarrow> u32 \<Rightarrow> mem \<Rightarrow> mem" where
  "copy_down 0 d s m = m"
| "copy_down (Suc n) d s m = copy_down n (d - 1) (s - 1) (m(d - 1 := m (s - 1)))"

definition memmove :: "u32 \<Rightarrow> u32 \<Rightarrow> u32 \<Rightarrow> mem \<Rightarrow> mem" where
  "memmove dst src n m =
     (if src < dst \<and> src + n > dst then copy_down (unat n) (dst + n) (src + n) m
      else copy_up (unat n) dst src m)"

definition memcpy :: "u32 \<Rightarrow> u32 \<Rightarrow> u32 \<Rightarrow> mem \<Rightarrow> mem" where
  "memcpy dst src n m = memmove dst src n m"

primrec strncmp :: "u32 \<Rightarrow> u32 \<Rightarrow> nat \<Rightarrow> mem \<Rightarrow> int" where
  "strncmp p q 0 m = 0"
| "strncmp p q (Suc n) m =
     (if m p \<noteq> 0 \<and> m p = m q then strncmp (p + 1) (q + 1) n m
      else uint (m p) - uint (m q))"

primrec strncpy_loop :: "nat \<Rightarrow> u32 \<Rightarrow> u32 \<Rightarrow> mem \<Rightarrow> mem" where
  "strncpy_loop 0 s t m = m"
| "strncpy_loop (Suc n) s t m =
     (let c = m t; m = m(s := c) in
      if c \<noteq> 0 then strncpy_loop n (s + 1) (t + 1) m else stosb n (s + 1) 0 m)"

definition strncpy :: "u32 \<Rightarrow> u32 \<Rightarrow> int \<Rightarrow> mem \<Rightarrow> mem" where
  "strncpy s t n m = strncpy_loop (nat n) s t m"

text \<open>
  \<^verbatim>\<open>while(--n > 0 && (*s++ = *t++) != 0); *s = 0;\<close> stores a second zero after a copied NUL, which
  the pre-decrement keeps inside the \<^verbatim>\<open>n\<close> bytes of the buffer.
\<close>

primrec safestrcpy_loop :: "nat \<Rightarrow> u32 \<Rightarrow> u32 \<Rightarrow> mem \<Rightarrow> mem" where
  "safestrcpy_loop 0 s t m = m(s := 0)"
| "safestrcpy_loop (Suc n) s t m =
     (let c = m t; m = m(s := c) in
      if c \<noteq> 0 then safestrcpy_loop n (s + 1) (t + 1) m else m(s + 1 := 0))"

definition safestrcpy :: "u32 \<Rightarrow> u32 \<Rightarrow> int \<Rightarrow> mem \<Rightarrow> mem" where
  "safestrcpy s t n m = (if n \<le> 0 then m else safestrcpy_loop (nat (n - 1)) s t m)"

partial_function (option) strlen_loop :: "u32 \<Rightarrow> u32 \<Rightarrow> mem \<Rightarrow> u32 option" where
  "strlen_loop s n m = (if m (s + n) = 0 then Some n else strlen_loop s (n + 1) m)"

definition strlen :: "u32 \<Rightarrow> mem \<Rightarrow> u32 option" where
  "strlen s m = strlen_loop s 0 m"

section \<open>Address arithmetic\<close>

lemma unat_sub_Suc:
  fixes a d :: u32
  assumes "a \<noteq> d"
  shows "unat (a - d) = Suc (unat (a - (d + 1)))"
proof -
  have "a - d \<noteq> 0" using assms by simp
  then have "unat (a - d - 1) = unat (a - d) - 1" by (rule unat_minus_one)
  moreover have "unat (a - d) \<noteq> 0" using \<open>a - d \<noteq> 0\<close> by (simp add: unat_eq_0)
  ultimately show ?thesis by (simp add: algebra_simps)
qed

lemma window_Suc:
  fixes a d :: u32
  assumes "Suc n \<le> 4294967296"
  shows "unat (a - d) < Suc n \<longleftrightarrow> a = d \<or> unat (a - (d + 1)) < n"
    and "\<not> unat (d - (d + 1)) < n"
proof -
  show "\<not> unat (d - (d + 1)) < n" using assms by simp
  show "unat (a - d) < Suc n \<longleftrightarrow> a = d \<or> unat (a - (d + 1)) < n"
    by (cases "a = d") (simp_all add: unat_sub_Suc)
qed

section \<open>Filling memory\<close>

lemma stosb_apply:
  "n \<le> 4294967296 \<Longrightarrow> stosb n d v m a = (if unat (a - d) < n then v else m a)"
proof (induction n arbitrary: d m)
  case 0
  then show ?case by simp
next
  case (Suc n)
  then have "stosb (Suc n) d v m a = (if unat (a - (d + 1)) < n then v else (m(d := v)) a)"
    by simp
  also have "\<dots> = (if unat (a - d) < Suc n then v else m a)"
    using window_Suc(1) [OF Suc.prems, of a d] window_Suc(2) [OF Suc.prems, of d] by auto
  finally show ?case .
qed

definition splat :: "u8 \<Rightarrow> u32" where
  "splat v = push_bit 24 (ucast v) OR push_bit 16 (ucast v) OR push_bit 8 (ucast v) OR ucast v"

lemma splat_bytes:
  "ucast (splat v) = v" "ucast (drop_bit 8 (splat v)) = v"
  "ucast (drop_bit 16 (splat v)) = v" "ucast (drop_bit 24 (splat v)) = v"
  by (rule bit_word_eqI;
      auto simp: splat_def bit_or_iff bit_push_bit_iff bit_ucast_iff bit_drop_bit_eq
        dest: bit_imp_le_length)+

lemma store32_splat: "store32 m a (splat v) = stosb 4 a v m"
proof -
  have "stosb 4 a v m = m(a := v, a + 1 := v, a + 2 := v, a + 3 := v)"
    by (simp add: numeral_eq_Suc [of "num.Bit0 (num.Bit0 num.One)"] pred_numeral_simps
        numeral_3_eq_3 add.assoc)
  then show ?thesis by (simp add: store32_def splat_bytes)
qed

lemma stosb_add: "stosb (k + n) d v m = stosb n (d + of_nat k) v (stosb k d v m)"
  by (induction k arbitrary: d m) (simp_all add: algebra_simps)

lemma stosl_splat: "stosl n d (splat v) m = stosb (4 * n) d v m"
proof (induction n arbitrary: d m)
  case 0
  then show ?case by simp
next
  case (Suc n)
  have "stosb (4 * Suc n) d v m = stosb (4 + 4 * n) d v m" by (simp add: algebra_simps)
  also have "\<dots> = stosb (4 * n) (d + 4) v (stosb 4 d v m)"
    by (simp only: stosb_add of_nat_numeral)
  finally show ?case by (simp add: Suc store32_splat)
qed

lemma and_255_splat:
  fixes c :: u32
  shows "push_bit 24 (c AND 0xFF) OR push_bit 16 (c AND 0xFF) OR push_bit 8 (c AND 0xFF) OR (c AND 0xFF)
    = splat (ucast c)"
proof -
  have m: "c AND 0xFF = (ucast (ucast c :: u8) :: u32)"
  proof (rule bit_word_eqI)
    fix n :: nat
    assume "n < LENGTH(32)"
    have "(0xFF :: u32) = mask 8" by (simp add: mask_eq_exp_minus_1)
    then show "bit (c AND 0xFF) n = bit (ucast (ucast c :: u8) :: u32) n"
      using \<open>n < LENGTH(32)\<close> by (simp only: bit_and_iff bit_mask_iff bit_ucast_iff) auto
  qed
  show ?thesis by (simp add: splat_def m)
qed

lemma unat_mod_eq_0: "(n :: u32) mod 4 = 0 \<longleftrightarrow> unat n mod 4 = 0"
proof -
  have "unat (n mod 4) = unat n mod 4" by (simp add: unat_mod)
  then show ?thesis by (metis unat_eq_0)
qed

text \<open>
  The word-sized fast path of \<^verbatim>\<open>memset\<close> agrees with the byte loop: either way exactly the bytes at
  \<open>dst\<close>, \<dots>, \<open>dst + n - 1\<close> become the low byte of \<open>c\<close>.
\<close>

lemma memset_stosb: "memset dst c n m = stosb (unat n) dst (ucast c) m"
proof (cases "dst mod 4 = 0 \<and> n mod 4 = 0")
  case True
  then have "unat n mod 4 = 0"
    by (metis unat_mod_eq_0)
  then have "4 * unat (n div 4) = unat n"
    by (simp add: unat_div) presburger
  then show ?thesis
    using True unfolding memset_def Let_def and_255_splat stosl_splat by simp
next
  case False
  then have "memset dst c n m = (if False then stosl 0 dst 0 m else stosb (unat n) dst (ucast c) m)"
    unfolding memset_def by (simp only: if_False)
  then show ?thesis by simp
qed

lemma memset_apply:
  "memset dst c n m a = (if a - dst < n then ucast c else m a)"
  by (simp add: memset_stosb stosb_apply word_less_nat_alt)

section \<open>Copying memory\<close>

lemma copy_up_apply:
  assumes "n \<le> 4294967296" and "d = s \<or> n \<le> unat (d - s)"
  shows "copy_up n d s m a = (if unat (a - d) < n then m (s + (a - d)) else m a)"
  using assms
proof (induction n arbitrary: d s m)
  case 0
  then show ?case by simp
next
  case (Suc n)
  let ?m = "m(d := m s)"
  have "copy_up (Suc n) d s m a
      = (if unat (a - (d + 1)) < n then ?m (s + 1 + (a - (d + 1))) else ?m a)"
    unfolding copy_up.simps by (rule Suc.IH) (use Suc.prems in auto)
  also have "s + 1 + (a - (d + 1)) = s + (a - d)" by (simp add: algebra_simps)
  finally have step: "copy_up (Suc n) d s m a
      = (if unat (a - (d + 1)) < n then ?m (s + (a - d)) else ?m a)" .
  have "s + (a - d) \<noteq> d" if "unat (a - (d + 1)) < n"
  proof
    assume "s + (a - d) = d"
    then have e: "a - d = d - s" by (simp add: algebra_simps)
    have "a \<noteq> d" using that window_Suc(2) [OF Suc.prems(1)] by auto
    then have "unat (a - d) < Suc n" using that by (simp add: unat_sub_Suc)
    with Suc.prems(2) e \<open>a \<noteq> d\<close> show False by auto
  qed
  with step window_Suc(1) [OF Suc.prems(1), of a d] window_Suc(2) [OF Suc.prems(1), of d]
  show ?case by auto
qed

lemma copy_down_apply:
  assumes "n \<le> 4294967296" and "d = s \<or> n \<le> unat (s - d)"
  shows "copy_down n d s m a = (if unat (d - 1 - a) < n then m (s - (d - a)) else m a)"
  using assms
proof (induction n arbitrary: d s m)
  case 0
  then show ?case by simp
next
  case (Suc n)
  let ?m = "m(d - 1 := m (s - 1))"
  have "copy_down (Suc n) d s m a
      = (if unat (d - 1 - 1 - a) < n then ?m (s - 1 - (d - 1 - a)) else ?m a)"
    unfolding copy_down.simps by (rule Suc.IH) (use Suc.prems in auto)
  also have "s - 1 - (d - 1 - a) = s - (d - a)" by (simp add: algebra_simps)
  finally have step: "copy_down (Suc n) d s m a
      = (if unat (d - 1 - 1 - a) < n then ?m (s - (d - a)) else ?m a)" .
  have w: "unat (d - 1 - a) < Suc n \<longleftrightarrow> a = d - 1 \<or> unat (d - 1 - 1 - a) < n"
    and w2: "\<not> unat (d - 1 - 1 - (d - 1)) < n"
    using window_Suc(1) [OF Suc.prems(1), of "d - 1" a] Suc.prems(1) by (auto simp: algebra_simps)
  have "s - (d - a) \<noteq> d - 1" if "unat (d - 1 - 1 - a) < n"
  proof
    assume "s - (d - a) = d - 1"
    then have e: "s - d = d - 1 - a" by (simp add: algebra_simps)
    have "a \<noteq> d - 1" using that w2 by auto
    then have "unat (d - 1 - a) < Suc n" using that w by simp
    with Suc.prems(2) e \<open>a \<noteq> d - 1\<close> show False by auto
  qed
  with step w w2 show ?case by (auto simp: algebra_simps)
qed

lemma unat_sub_wrap:
  fixes a b :: u32
  assumes "a < b"
  shows "unat (a - b) = 4294967296 - (unat b - unat a)"
  using assms u32_bound [of b] by (simp add: unat_sub_if' word_less_nat_alt)

lemma window_reverse:
  fixes n x :: u32
  shows "unat (n - 1 - x) < unat n \<longleftrightarrow> x < n"
proof (cases "n = 0")
  case True
  then show ?thesis by simp
next
  case False
  then have n1: "unat (n - 1) = unat n - 1" and "0 < unat n"
    by (simp_all add: unat_minus_one unat_gt_0)
  show ?thesis
  proof (cases "x \<le> n - 1")
    case True
    then have "unat (n - 1 - x) = unat n - 1 - unat x" by (simp add: unat_sub n1)
    moreover have "unat x \<le> unat n - 1" using True n1 by (simp add: word_le_nat_alt)
    ultimately show ?thesis using \<open>0 < unat n\<close> by (simp add: word_less_nat_alt)
  next
    case False
    then have "unat (n - 1 - x) = 4294967296 - (unat x - (unat n - 1))"
      using unat_sub_wrap [of "n - 1" x] n1 by simp
    moreover have "unat n - 1 < unat x" using False n1 by (simp add: word_le_nat_alt)
    ultimately show ?thesis
      using u32_bound [of x] \<open>0 < unat n\<close> unfolding word_less_nat_alt by linarith
  qed
qed

text \<open>
  \<^verbatim>\<open>memmove\<close> copies correctly however the two regions overlap: every destination byte gets what the
  source byte held before the call, and no other byte changes.
\<close>

lemma memmove_apply:
  assumes "unat src + unat n < 4294967296" and "unat dst + unat n \<le> 4294967296"
  shows "memmove dst src n m a = (if a - dst < n then m (src + (a - dst)) else m a)"
proof (cases "src < dst \<and> src + n > dst")
  case True
  then have "unat (src - dst) = 4294967296 - (unat dst - unat src)"
    by (simp add: unat_sub_wrap)
  then have far: "unat n \<le> unat (src + n - (dst + n))"
    using assms(2) True by (simp add: word_less_nat_alt)
  have "unat (dst + n - 1 - a) < unat n \<longleftrightarrow> a - dst < n"
    using window_reverse [of n "a - dst"] by (simp add: algebra_simps)
  then show ?thesis
    using True copy_down_apply [of "unat n" "dst + n" "src + n" m a] far
    by (simp add: memmove_def algebra_simps)
next
  case False
  have "dst = src \<or> unat n \<le> unat (dst - src)"
  proof (cases "src < dst")
    case True
    with False have "src + n \<le> dst" by simp
    then have "unat src + unat n \<le> unat dst"
      using assms(1) by (simp add: word_le_nat_alt unat_word_ariths)
    then show ?thesis using True by (simp add: unat_sub word_le_nat_alt word_less_nat_alt) linarith
  next
    case False
    then show ?thesis using assms(1) by (cases "dst = src") (auto simp: unat_sub_wrap)
  qed
  then have "copy_up (unat n) dst src m a = (if a - dst < n then m (src + (a - dst)) else m a)"
    by (simp add: copy_up_apply word_less_nat_alt)
  with False show ?thesis unfolding memmove_def by (simp only: if_False)
qed

section \<open>Strings\<close>

text \<open>\<open>cstr m a k\<close>: a NUL-terminated string of length \<open>k\<close> starts at \<open>a\<close>.\<close>

definition cstr :: "mem \<Rightarrow> u32 \<Rightarrow> nat \<Rightarrow> bool" where
  "cstr m a k \<longleftrightarrow> (\<forall>i<k. m (a + of_nat i) \<noteq> 0) \<and> m (a + of_nat k) = 0"

lemma cstr_0 [simp]: "cstr m a 0 \<longleftrightarrow> m a = 0"
  by (simp add: cstr_def)

lemma cstr_Suc [simp]: "cstr m a (Suc k) \<longleftrightarrow> m a \<noteq> 0 \<and> cstr m (a + 1) k"
  by (auto simp: cstr_def All_less_Suc2 algebra_simps)

lemma strlen_loop_cstr: "cstr m (s + n) k \<Longrightarrow> strlen_loop s n m = Some (n + of_nat k)"
proof (induction k arbitrary: n)
  case 0
  then show ?case by (subst strlen_loop.simps) simp
next
  case (Suc k)
  then have "strlen_loop s (n + 1) m = Some (n + 1 + of_nat k)"
    by (intro Suc.IH) (simp add: algebra_simps)
  then show ?case
    using Suc.prems by (subst strlen_loop.simps) (simp add: algebra_simps)
qed

lemma strlen_cstr: "cstr m s k \<Longrightarrow> strlen s m = Some (of_nat k)"
  using strlen_loop_cstr [of m s 0 k] by (simp add: strlen_def)

lemma strncpy_loop_outside:
  "n \<le> 4294967296 \<Longrightarrow> \<not> unat (a - s) < n \<Longrightarrow> strncpy_loop n s t m a = m a"
proof (induction n arbitrary: s t m)
  case 0
  then show ?case by simp
next
  case (Suc n)
  have "a \<noteq> s" "\<not> unat (a - (s + 1)) < n"
    using Suc.prems window_Suc(1) [OF Suc.prems(1), of a s] by auto
  then show ?case
    using Suc.prems by (simp add: Let_def Suc.IH stosb_apply)
qed

lemma safestrcpy_loop_outside:
  "n < 4294967296 \<Longrightarrow> \<not> unat (a - s) < Suc n \<Longrightarrow> safestrcpy_loop n s t m a = m a"
proof (induction n arbitrary: s t m)
  case 0
  then have "a \<noteq> s" by auto
  then show ?case by simp
next
  case (Suc n)
  have a: "a \<noteq> s" "\<not> unat (a - (s + 1)) < Suc n"
    using Suc.prems window_Suc(1) [of "Suc n" a s] by auto
  then have "a \<noteq> s + 1" by auto
  with a show ?case using Suc.prems by (simp add: Let_def Suc.IH)
qed

text \<open>
  The copied prefix: while the source does not overlap the part of the destination already written,
  byte \<open>i\<close> of the result is byte \<open>i\<close> of the source up to its NUL, and the loop stores a NUL no later
  than at index \<open>n\<close>.
\<close>

lemma safestrcpy_loop_terminated:
  "n < 4294967295 \<Longrightarrow> \<exists>k\<le>n. cstr (safestrcpy_loop n s t m) s k"
proof (induction n arbitrary: s t m)
  case 0
  then show ?case by simp
next
  case (Suc n)
  let ?m = "m(s := m t)"
  show ?case
  proof (cases "m t = 0")
    case True
    then show ?thesis by (intro exI [of _ 0]) (simp add: Let_def)
  next
    case False
    from Suc.prems obtain k where k: "k \<le> n" "cstr (safestrcpy_loop n (s + 1) (t + 1) ?m) (s + 1) k"
      using Suc.IH [of "s + 1" "t + 1" ?m] by (auto simp del: fun_upd_apply)
    have "safestrcpy_loop n (s + 1) (t + 1) ?m s = m t"
      using safestrcpy_loop_outside [of n s "s + 1" "t + 1" ?m] Suc.prems by simp
    with k False show ?thesis by (intro exI [of _ "Suc k"]) (simp add: Let_def)
  qed
qed

section \<open>Properties\<close>

text \<open>
  \<^verbatim>\<open>memmove(dst, src, n)\<close> is correct for every overlap of the two regions (as long as neither
  runs past the end of the address space): afterwards the byte at offset \<open>i < n\<close> from \<open>dst\<close> is what
  the byte at offset \<open>i\<close> from \<open>src\<close> was before the call, and every other byte is unchanged.
\<close>

lemma memmove_copies_overlapping:
  assumes "unat src + unat n < 4294967296" and "unat dst + unat n \<le> 4294967296"
  shows "memmove dst src n m = (\<lambda>a. if a - dst < n then m (src + (a - dst)) else m a)"
  using memmove_apply [OF assms] by (rule ext)

text \<open>
  Both code paths of \<^verbatim>\<open>memset\<close>, the \<^verbatim>\<open>rep stosl\<close> one for aligned regions and the \<^verbatim>\<open>rep stosb\<close>
  one, set exactly the \<open>n\<close> bytes from \<open>dst\<close> to the low byte of \<open>c\<close>.
\<close>

lemma memset_fills: "memset dst c n m = (\<lambda>a. if a - dst < n then ucast c else m a)"
  by (rule ext) (rule memset_apply)

text \<open>
  \<^verbatim>\<open>safestrcpy(s, t, n)\<close> with a buffer of \<open>n > 0\<close> bytes always leaves a NUL-terminated string of
  length below \<open>n\<close> in it, whatever the source holds, and writes nothing outside the buffer.
\<close>

lemma safestrcpy_terminates_string:
  assumes "0 < n" and "n < 4294967295"
  shows "(\<exists>k<nat n. cstr (safestrcpy s t n m) s k) \<and>
    (\<forall>a. \<not> unat (a - s) < nat n \<longrightarrow> safestrcpy s t n m a = m a)"
proof -
  have n: "nat (n - 1) < 4294967295" "Suc (nat (n - 1)) = nat n" using assms by simp_all
  obtain k where "k \<le> nat (n - 1)" "cstr (safestrcpy s t n m) s k"
    using safestrcpy_loop_terminated [OF n(1), of s t m] assms by (auto simp: safestrcpy_def)
  moreover have "safestrcpy s t n m a = m a" if "\<not> unat (a - s) < nat n" for a
    using safestrcpy_loop_outside [of "nat (n - 1)" a s t m] that n assms by (simp add: safestrcpy_def)
  moreover have "k < nat n" if "k \<le> nat (n - 1)" for k using that n(2) by linarith
  ultimately show ?thesis by blast
qed

lemma safestrcpy_terminates_string_witness:
  "(0 :: int) < 16 \<and> (16 :: int) < 4294967295 \<and>
   (\<exists>k. k < nat 16 \<and> cstr (safestrcpy 4096 64 16 (\<lambda>_. 65)) 4096 k) \<and>
   safestrcpy 4096 64 16 (\<lambda>_. 65) 4112 = 65"
proof -
  have "(\<exists>k<nat 16. cstr (safestrcpy 4096 64 16 (\<lambda>_. 65)) 4096 k) \<and>
    (\<forall>a. \<not> unat (a - 4096) < nat 16 \<longrightarrow> safestrcpy 4096 64 16 (\<lambda>_. 65) a = 65)"
    by (rule safestrcpy_terminates_string) simp_all
  then show ?thesis by simp
qed

end
