(* ===== verification/Spinlock.thy ===== *)
theory Spinlock
  imports Layout
begin

text \<open>
  CPUs, the interrupt flag and the mutual-exclusion spin locks of \<^verbatim>\<open>spinlock.c\<close>, with \<^verbatim>\<open>mycpu\<close> and
  \<^verbatim>\<open>cpuid\<close> of \<^verbatim>\<open>proc.c\<close>. The sequential model runs on the CPU whose local APIC id is \<open>lapicid\<close>: an
  \<open>acquire\<close> of a lock that another CPU holds spins, which is the outcome \<open>Blocked\<close>. The theory ends with
  the interleaving of several CPUs at the granularity of the single memory accesses of \<^verbatim>\<open>acquire\<close> and
  \<^verbatim>\<open>release\<close>, as a step relation. The call-stack record \<^verbatim>\<open>pcs\<close> of a lock, kept for debugging only, is
  left out.
\<close>

section \<open>State\<close>

text \<open>The locks of the kernel, one name for each \<^verbatim>\<open>struct spinlock\<close> object.\<close>

datatype lockid =
    KmemLock | PtableLock | TicksLock | BcacheLock | LogLock | IcacheLock | FtableLock
  | ConsLock | IdeLock | BufLk nat | InodeLk nat | PipeLock u32

record spinlock =
  lk_name :: string
  lk_locked :: bool
  lk_cpu :: "nat option"

record cpu =
  apicid :: u8
  ncli :: int
  intena :: bool
  cpu_proc :: "nat option"
  started :: bool
  gdt :: "segdesc list"
  ts :: taskstate

text \<open>
  \<open>eflags\<close> is the interrupt-enable flag (\<^verbatim>\<open>FL_IF\<close>) of each processor, by its APIC id; \<open>cpus\<close> lists the
  \<^verbatim>\<open>ncpu\<close> processors found at boot.
\<close>

record machine =
  lapicid :: u8
  eflags :: "u8 \<Rightarrow> bool"
  cpus :: "cpu list"
  locks :: "lockid \<Rightarrow> spinlock"

section \<open>Operations\<close>

definition readeflags_IF :: "'a machine_scheme \<Rightarrow> bool" where
  "readeflags_IF s = eflags s (lapicid s)"

definition cli :: "'a machine_scheme \<Rightarrow> 'a machine_scheme" where
  "cli s = s\<lparr>eflags := (eflags s)(lapicid s := False)\<rparr>"

definition sti :: "'a machine_scheme \<Rightarrow> 'a machine_scheme" where
  "sti s = s\<lparr>eflags := (eflags s)(lapicid s := True)\<rparr>"

definition mycpu :: "'a machine_scheme \<Rightarrow> nat outcome" where
  "mycpu s =
     (if readeflags_IF s then Panic (''mycpu called with interrupts enabled'' @ [CHR 0x0A])
      else case find_index (\<lambda>c. apicid c = lapicid s) (cpus s) of
             Some i \<Rightarrow> Ret i
           | None \<Rightarrow> Panic (''unknown apicid'' @ [CHR 0x0A]))"

definition cpuid :: "'a machine_scheme \<Rightarrow> nat outcome" where
  "cpuid s = mycpu s"

definition initlock :: "lockid \<Rightarrow> string \<Rightarrow> 'a machine_scheme \<Rightarrow> 'a machine_scheme" where
  "initlock l name s =
     s\<lparr>locks := (locks s)(l := \<lparr>lk_name = name, lk_locked = False, lk_cpu = None\<rparr>)\<rparr>"

definition pushcli :: "'a machine_scheme \<Rightarrow> 'a machine_scheme outcome" where
  "pushcli s =
     (let ef = readeflags_IF s; s = cli s in
      bindO (mycpu s) (\<lambda>i.
        let c = cpus s ! i;
            c = (if ncli c = 0 then c\<lparr>intena := ef\<rparr> else c) in
        Ret (s\<lparr>cpus := (cpus s)[i := c\<lparr>ncli := ncli c + 1\<rparr>]\<rparr>)))"

definition popcli :: "'a machine_scheme \<Rightarrow> 'a machine_scheme outcome" where
  "popcli s =
     (if readeflags_IF s then Panic ''popcli - interruptible''
      else bindO (mycpu s) (\<lambda>i.
        let c = (cpus s ! i)\<lparr>ncli := ncli (cpus s ! i) - 1\<rparr>;
            s = s\<lparr>cpus := (cpus s)[i := c]\<rparr> in
        if ncli c < 0 then Panic ''popcli''
        else if ncli c = 0 \<and> intena c then Ret (sti s) else Ret s))"

definition holding :: "lockid \<Rightarrow> 'a machine_scheme \<Rightarrow> (bool \<times> 'a machine_scheme) outcome" where
  "holding l s =
     bindO (pushcli s) (\<lambda>s.
     bindO (mycpu s) (\<lambda>i.
       let r = (lk_locked (locks s l) \<and> lk_cpu (locks s l) = Some i) in
       bindO (popcli s) (\<lambda>s. Ret (r, s))))"

definition acquire :: "lockid \<Rightarrow> 'a machine_scheme \<Rightarrow> 'a machine_scheme outcome" where
  "acquire l s =
     bindO (pushcli s) (\<lambda>s.
     bindO (holding l s) (\<lambda>(h, s).
       if h then Panic ''acquire''
       else if lk_locked (locks s l) then Blocked
       else
         let s = s\<lparr>locks := (locks s)(l := (locks s l)\<lparr>lk_locked := True\<rparr>)\<rparr> in
         bindO (mycpu s) (\<lambda>i.
           Ret (s\<lparr>locks := (locks s)(l := (locks s l)\<lparr>lk_cpu := Some i\<rparr>)\<rparr>))))"

definition release :: "lockid \<Rightarrow> 'a machine_scheme \<Rightarrow> 'a machine_scheme outcome" where
  "release l s =
     bindO (holding l s) (\<lambda>(h, s).
       if \<not> h then Panic ''release''
       else
         let s = s\<lparr>locks := (locks s)(l := (locks s l)\<lparr>lk_cpu := None\<rparr>)\<rparr>;
             s = s\<lparr>locks := (locks s)(l := (locks s l)\<lparr>lk_locked := False\<rparr>)\<rparr> in
         popcli s)"

text \<open>
  A critical section \<^verbatim>\<open>acquire(&l); \<dots> release(&l); return r;\<close> in which every path releases the lock
  before it returns.
\<close>

definition locked :: "lockid \<Rightarrow> ('a machine_scheme \<Rightarrow> ('r \<times> 'a machine_scheme) outcome) \<Rightarrow>
    'a machine_scheme \<Rightarrow> ('r \<times> 'a machine_scheme) outcome" where
  "locked l f s =
     bindO (acquire l s) (\<lambda>s. bindO (f s) (\<lambda>(r, s). bindO (release l s) (\<lambda>s. Ret (r, s))))"

section \<open>Well-formed machine states\<close>

text \<open>
  The executing processor is one of \<open>cpus\<close>, its nesting depth is not negative, and interrupts are off
  while the depth is positive.
\<close>

definition cpu_ok :: "'a machine_scheme \<Rightarrow> bool" where
  "cpu_ok s \<longleftrightarrow>
     (case find_index (\<lambda>c. apicid c = lapicid s) (cpus s) of
        None \<Rightarrow> False
      | Some i \<Rightarrow> 0 \<le> ncli (cpus s ! i) \<and>
          (0 < ncli (cpus s ! i) \<longrightarrow> \<not> readeflags_IF s) \<and>
          (ncli (cpus s ! i) = 0 \<longrightarrow> intena (cpus s ! i) = readeflags_IF s))"

definition me :: "'a machine_scheme \<Rightarrow> nat" where
  "me s = the (find_index (\<lambda>c. apicid c = lapicid s) (cpus s))"

definition lock_free :: "lockid \<Rightarrow> 'a machine_scheme \<Rightarrow> bool" where
  "lock_free l s \<longleftrightarrow> \<not> lk_locked (locks s l) \<and> lk_cpu (locks s l) = None"

definition pushed :: "'a machine_scheme \<Rightarrow> 'a machine_scheme" where
  "pushed s = s\<lparr>eflags := (eflags s)(lapicid s := False),
     cpus := (cpus s)[me s := (cpus s ! me s)\<lparr>ncli := ncli (cpus s ! me s) + 1\<rparr>]\<rparr>"

definition acquired :: "lockid \<Rightarrow> 'a machine_scheme \<Rightarrow> 'a machine_scheme" where
  "acquired l s = (pushed s)\<lparr>locks := (locks s)(l := (locks s l)\<lparr>lk_locked := True, lk_cpu := Some (me s)\<rparr>)\<rparr>"

definition restored :: "'a machine_scheme \<Rightarrow> 'a machine_scheme \<Rightarrow> 'a machine_scheme" where
  "restored s t = t\<lparr>eflags := eflags s, cpus := cpus s, locks := locks s\<rparr>"

section \<open>Sequential lemmas\<close>

lemma cpu_ok_me:
  assumes "cpu_ok s"
  shows "find_index (\<lambda>c. apicid c = lapicid s) (cpus s) = Some (me s)"
    and "me s < length (cpus s)" and "apicid (cpus s ! me s) = lapicid s"
    and "0 \<le> ncli (cpus s ! me s)"
    and "0 < ncli (cpus s ! me s) \<Longrightarrow> \<not> readeflags_IF s"
    and "ncli (cpus s ! me s) = 0 \<Longrightarrow> intena (cpus s ! me s) = readeflags_IF s"
proof -
  obtain i where i: "find_index (\<lambda>c. apicid c = lapicid s) (cpus s) = Some i"
    using assms by (auto simp: cpu_ok_def split: option.splits)
  then have m: "me s = i" by (simp add: me_def)
  show "find_index (\<lambda>c. apicid c = lapicid s) (cpus s) = Some (me s)" using i m by simp
  show "me s < length (cpus s)" "apicid (cpus s ! me s) = lapicid s"
    using find_index_Some [OF i] m by simp_all
  show "0 \<le> ncli (cpus s ! me s)" "0 < ncli (cpus s ! me s) \<Longrightarrow> \<not> readeflags_IF s"
    "ncli (cpus s ! me s) = 0 \<Longrightarrow> intena (cpus s ! me s) = readeflags_IF s"
    using assms i m by (auto simp: cpu_ok_def)
qed

lemma find_cpu_update:
  assumes "apicid c = apicid (cs ! i)"
  shows "find_index (\<lambda>c. apicid c = a) (cs[i := c]) = find_index (\<lambda>c. apicid c = a) cs"
proof (cases "i < length cs")
  case True
  then show ?thesis
    by (intro find_index_cong) (simp_all add: nth_list_update assms)
next
  case False
  then show ?thesis by (simp add: list_update_beyond)
qed

text \<open>Both notions depend on the processor part of the state only.\<close>

lemma cpu_ok_cong:
  "lapicid t = lapicid s \<Longrightarrow> eflags t = eflags s \<Longrightarrow> cpus t = cpus s \<Longrightarrow> cpu_ok t = cpu_ok s"
  by (simp add: cpu_ok_def readeflags_IF_def cong: option.case_cong)

lemma me_cong: "lapicid t = lapicid s \<Longrightarrow> cpus t = cpus s \<Longrightarrow> me t = me s"
  by (simp add: me_def)

lemma mycpu_cong:
  "lapicid t = lapicid s \<Longrightarrow> eflags t = eflags s \<Longrightarrow> cpus t = cpus s \<Longrightarrow> mycpu t = mycpu s"
  by (simp add: mycpu_def readeflags_IF_def)

lemma mycpu_ok: "cpu_ok s \<Longrightarrow> \<not> readeflags_IF s \<Longrightarrow> mycpu s = Ret (me s)"
  by (simp add: mycpu_def cpu_ok_me)

lemma pushcli_ok:
  assumes "cpu_ok s"
  shows "pushcli s = Ret (pushed s)"
proof -
  have "mycpu (cli s) = Ret (me s)"
    using cpu_ok_me [OF assms] by (simp add: mycpu_def cli_def readeflags_IF_def)
  moreover have "(cpus s ! me s)\<lparr>intena := readeflags_IF s\<rparr> = cpus s ! me s"
    if "ncli (cpus s ! me s) = 0"
    using cpu_ok_me(6) [OF assms that] by simp
  ultimately have "pushcli s = Ret ((cli s)\<lparr>cpus := (cpus (cli s))[me s :=
      (cpus s ! me s)\<lparr>ncli := ncli (cpus s ! me s) + 1\<rparr>]\<rparr>)"
    unfolding pushcli_def Let_def by (simp add: cli_def)
  then show ?thesis by (simp add: pushed_def cli_def)
qed

lemma me_pushed: "cpu_ok s \<Longrightarrow> me (pushed s) = me s"
  by (simp add: me_def pushed_def find_cpu_update)

lemma pushed_ok: "cpu_ok s \<Longrightarrow> cpu_ok (pushed s)"
  using cpu_ok_me [of s]
  by (simp add: cpu_ok_def pushed_def find_cpu_update readeflags_IF_def)

lemma pushed_IF [simp]: "\<not> readeflags_IF (pushed s)"
  by (simp add: readeflags_IF_def pushed_def)

text \<open>\<^verbatim>\<open>popcli\<close> undoes \<^verbatim>\<open>pushcli\<close>, also after the rest of the state has changed.\<close>

lemma popcli_pushed:
  assumes "cpu_ok s" and "lapicid t = lapicid s" and "eflags t = eflags (pushed s)"
    and "cpus t = cpus (pushed s)"
  shows "popcli t = Ret (t\<lparr>eflags := eflags s, cpus := cpus s\<rparr>)"
proof -
  note me = cpu_ok_me [OF assms(1)]
  have i: "mycpu t = Ret (me s)" and IF: "\<not> readeflags_IF t"
    using me assms(2-4) by (simp_all add: mycpu_def readeflags_IF_def pushed_def find_cpu_update)
  have upd: "(cpus t)[me s := (cpus t ! me s)\<lparr>ncli := ncli (cpus t ! me s) - 1\<rparr>] = cpus s"
    using me assms(4) by (simp add: pushed_def)
  have e: "(eflags t)(lapicid t := True) = eflags s" if "readeflags_IF s"
    using that assms(2,3) by (auto simp: pushed_def readeflags_IF_def fun_eq_iff)
  have e': "eflags t = eflags s" if "\<not> readeflags_IF s"
    using that assms(2,3) by (auto simp: pushed_def readeflags_IF_def fun_eq_iff)
  have n: "ncli (cpus t ! me s) - 1 = ncli (cpus s ! me s)"
      "intena (cpus t ! me s) = intena (cpus s ! me s)"
    using me assms(4) by (simp_all add: pushed_def)
  show ?thesis
  proof (cases "ncli (cpus s ! me s) = 0 \<and> intena (cpus s ! me s)")
    case True
    then have "readeflags_IF s" using me(6) by simp
    then show ?thesis
      using i IF upd n True e by (simp add: popcli_def Let_def sti_def)
  next
    case False
    then have "\<not> readeflags_IF s" using me(4-6) by force
    then show ?thesis
      using i IF upd n False me(4) e' by (auto simp: popcli_def Let_def)
  qed
qed

lemma holding_eq:
  assumes "cpu_ok s"
  shows "holding l s = Ret (lk_locked (locks s l) \<and> lk_cpu (locks s l) = Some (me s), s)"
proof -
  have "mycpu (pushed s) = Ret (me s)"
    using assms by (simp add: mycpu_ok pushed_ok me_pushed)
  moreover have "popcli (pushed s) = Ret s"
    using popcli_pushed [OF assms, of "pushed s"] by (simp add: pushed_def)
  ultimately show ?thesis
    by (simp add: holding_def pushcli_ok assms Let_def) (simp add: pushed_def)
qed

lemma acquire_free:
  assumes "cpu_ok s" and "lock_free l s"
  shows "acquire l s = Ret (acquired l s)"
proof -
  have f: "\<not> lk_locked (locks (pushed s) l)"
    using assms(2) by (simp add: lock_free_def pushed_def)
  have m: "mycpu ((pushed s)\<lparr>locks := L\<rparr>) = Ret (me s)" for L
    using mycpu_ok [OF pushed_ok [OF assms(1)]] me_pushed [OF assms(1)]
      mycpu_cong [of "(pushed s)\<lparr>locks := L\<rparr>" "pushed s"] by simp
  have "holding l (pushed s) = Ret (False, pushed s)"
    using holding_eq [OF pushed_ok [OF assms(1)], of l] f by simp
  then show ?thesis
    using f m by (simp add: acquire_def pushcli_ok assms(1) Let_def acquired_def)
      (simp add: pushed_def)
qed

lemma acquired_sel [simp]:
  "lapicid (acquired l s) = lapicid s" "machine.more (acquired l s) = machine.more s"
  by (simp_all add: acquired_def pushed_def)

lemma acquired_ok: "cpu_ok s \<Longrightarrow> cpu_ok (acquired l s)"
  using pushed_ok [of s] cpu_ok_cong [of "acquired l s" "pushed s"] by (simp add: acquired_def)

lemma me_acquired: "cpu_ok s \<Longrightarrow> me (acquired l s) = me s"
  using me_pushed [of s] by (simp add: acquired_def me_def)

lemma acquire_held_panics:
  assumes "cpu_ok s" and "lk_locked (locks s l)" and "lk_cpu (locks s l) = Some (me s)"
  shows "acquire l s = Panic ''acquire''"
proof -
  have "holding l (pushed s) = Ret (True, pushed s)"
    using holding_eq [OF pushed_ok [OF assms(1)], of l] assms by (simp add: me_pushed) (simp add: pushed_def)
  then show ?thesis by (simp add: acquire_def pushcli_ok assms(1))
qed

lemma acquire_other_blocks:
  assumes "cpu_ok s" and "lk_locked (locks s l)" and "lk_cpu (locks s l) \<noteq> Some (me s)"
  shows "acquire l s = Blocked"
proof -
  have "holding l (pushed s) = Ret (False, pushed s)"
    using holding_eq [OF pushed_ok [OF assms(1)], of l] assms by (simp add: me_pushed) (simp add: pushed_def)
  then show ?thesis using assms by (simp add: acquire_def pushcli_ok) (simp add: pushed_def)
qed

lemma release_not_held_panics:
  assumes "cpu_ok s" and "\<not> (lk_locked (locks s l) \<and> lk_cpu (locks s l) = Some (me s))"
  shows "release l s = Panic ''release''"
  using holding_eq [OF assms(1), of l] assms(2) by (auto simp: release_def)

text \<open>
  Releasing a lock after a critical section that changed only the protected data gives back the
  processor and lock state of before the \<^verbatim>\<open>acquire\<close>.
\<close>

lemma release_acquired:
  assumes "cpu_ok s" and "lock_free l s" and "lapicid t = lapicid s"
    and "eflags t = eflags (acquired l s)" and "cpus t = cpus (acquired l s)"
    and "locks t = locks (acquired l s)"
  shows "release l t = Ret (restored s t)"
proof -
  have ok: "cpu_ok t" and met: "me t = me s"
    using acquired_ok [OF assms(1), of l] me_acquired [OF assms(1), of l] assms(3-5)
      cpu_ok_cong [of t "acquired l s"] me_cong [of t "acquired l s"] by simp_all
  have h: "holding l t = Ret (True, t)"
    using holding_eq [OF ok, of l] met assms(6) by (simp add: acquired_def)
  let ?t = "t\<lparr>locks := locks s\<rparr>"
  have "(locks t)(l := (locks t l)\<lparr>lk_cpu := None, lk_locked := False\<rparr>) = locks s"
    using assms(2,6) by (auto simp: acquired_def lock_free_def)
  moreover have "popcli ?t = Ret (?t\<lparr>eflags := eflags s, cpus := cpus s\<rparr>)"
    using assms by (intro popcli_pushed) (simp_all add: acquired_def)
  ultimately show ?thesis
    using h by (simp add: release_def Let_def restored_def)
qed

definition same_machine :: "'a machine_scheme \<Rightarrow> 'b machine_scheme \<Rightarrow> bool" where
  "same_machine t s \<longleftrightarrow> lapicid t = lapicid s \<and> eflags t = eflags s \<and> cpus t = cpus s \<and> locks t = locks s"

lemma same_machine_refl [simp]: "same_machine s s"
  by (simp add: same_machine_def)

lemma same_machine_trans [trans]: "same_machine u t \<Longrightarrow> same_machine t s \<Longrightarrow> same_machine u s"
  by (simp add: same_machine_def)

lemma same_machine_ok:
  assumes "same_machine t s"
  shows "cpu_ok t = cpu_ok s" "lock_free l t = lock_free l s" "me t = me s"
  using assms by (simp_all add: same_machine_def lock_free_def me_def cpu_ok_def readeflags_IF_def cong: option.case_cong)

lemma release_same:
  assumes "cpu_ok s" and "lock_free l s" and "same_machine t (acquired l s)"
  shows "release l t = Ret (restored s t)"
  using assms(3) by (intro release_acquired assms) (simp_all add: same_machine_def)

lemma restored_same [simp]: "lapicid t = lapicid s \<Longrightarrow> same_machine (restored s t) s"
  by (simp add: same_machine_def restored_def)

lemma locked_eq:
  assumes "cpu_ok s" and "lock_free l s"
    and "\<And>r t. f (acquired l s) = Ret (r, t) \<Longrightarrow>
      lapicid t = lapicid s \<and> eflags t = eflags (acquired l s) \<and> cpus t = cpus (acquired l s) \<and>
      locks t = locks (acquired l s)"
  shows "locked l f s = bindO (f (acquired l s)) (\<lambda>(r, t). Ret (r, restored s t))"
proof (cases "f (acquired l s)")
  case (Ret rt)
  obtain r t where "rt = (r, t)" by force
  with Ret assms show ?thesis
    by (simp add: locked_def acquire_free release_acquired [OF assms(1,2)])
qed (simp_all add: locked_def acquire_free assms)

section \<open>Frame rules\<close>

text \<open>
  None of the operations touches a field beyond the processor and lock state: whatever a component
  adds to the machine record is unchanged.
\<close>

lemma pushcli_more: "pushcli s = Ret s' \<Longrightarrow> machine.more s' = machine.more s \<and> lapicid s' = lapicid s"
  by (auto simp: pushcli_def cli_def Let_def bindO_eq_Ret_iff)

lemma popcli_more: "popcli s = Ret s' \<Longrightarrow> machine.more s' = machine.more s \<and> lapicid s' = lapicid s"
  by (auto simp: popcli_def sti_def Let_def bindO_eq_Ret_iff split: if_splits)

lemma holding_more: "holding l s = Ret (r, s') \<Longrightarrow> machine.more s' = machine.more s \<and> lapicid s' = lapicid s"
  by (auto simp: holding_def Let_def bindO_eq_Ret_iff dest!: pushcli_more popcli_more)

lemma acquire_more: "acquire l s = Ret s' \<Longrightarrow> machine.more s' = machine.more s \<and> lapicid s' = lapicid s"
  by (auto simp: acquire_def Let_def bindO_eq_Ret_iff split: if_splits
      dest!: pushcli_more holding_more)

lemma release_more: "release l s = Ret s' \<Longrightarrow> machine.more s' = machine.more s \<and> lapicid s' = lapicid s"
  by (auto simp: release_def Let_def bindO_eq_Ret_iff split: if_splits
      dest!: popcli_more holding_more)

text \<open>
  An invariant of the protected data that the body of a critical section keeps is kept by the whole
  section.
\<close>

lemma locked_invariant:
  assumes "\<And>t t'. machine.more t = machine.more t' \<Longrightarrow> I t \<Longrightarrow> I t'"
    and "\<And>t. I t \<Longrightarrow> whenever (f t) (\<lambda>(r, t'). I t')" and "I s"
  shows "whenever (locked l f s) (\<lambda>(r, s'). I s')"
proof (rule wheneverI)
  fix x
  assume "locked l f s = Ret x"
  then obtain t r t' u where "acquire l s = Ret t" "f t = Ret (r, t')" "release l t' = Ret u" "x = (r, u)"
    by (auto simp: locked_def bindO_eq_Ret_iff)
  moreover from this have "machine.more t = machine.more s" "machine.more u = machine.more t'"
    using acquire_more release_more by blast+
  ultimately show "case x of (r, s') \<Rightarrow> I s'"
    using assms(1) [of s t] assms(1) [of t' u] assms(2) [of t] assms(3) by auto
qed

section \<open>Several processors\<close>

text \<open>
  The interleaving semantics: a processor's progress on one lock, one step per shared memory access of
  \<^verbatim>\<open>acquire\<close> (the atomic \<^verbatim>\<open>xchg\<close>, then the store to \<^verbatim>\<open>lk->cpu\<close>) and \<^verbatim>\<open>release\<close> (the store to
  \<^verbatim>\<open>lk->cpu\<close>, then the store of 0 to \<^verbatim>\<open>lk->locked\<close>). Which processor moves next is arbitrary.
\<close>

datatype lockpc = Outside | Spinning | Exchanged | Inside | Clearing

record smp =
  smp_pc :: "nat \<Rightarrow> lockid \<Rightarrow> lockpc"
  smp_lock :: "lockid \<Rightarrow> spinlock"

definition smp_init :: "(lockid \<Rightarrow> string) \<Rightarrow> smp" where
  "smp_init names = \<lparr>smp_pc = (\<lambda>_ _. Outside),
     smp_lock = (\<lambda>l. \<lparr>lk_name = names l, lk_locked = False, lk_cpu = None\<rparr>)\<rparr>"

definition at_pc :: "smp \<Rightarrow> nat \<Rightarrow> lockid \<Rightarrow> lockpc \<Rightarrow> smp" where
  "at_pc s i l p = s\<lparr>smp_pc := (smp_pc s)(i := (smp_pc s i)(l := p))\<rparr>"

definition upd_lock :: "smp \<Rightarrow> lockid \<Rightarrow> (spinlock \<Rightarrow> spinlock) \<Rightarrow> smp" where
  "upd_lock s l f = s\<lparr>smp_lock := (smp_lock s)(l := f (smp_lock s l))\<rparr>"

definition smp_holding :: "smp \<Rightarrow> nat \<Rightarrow> lockid \<Rightarrow> bool" where
  "smp_holding s i l \<longleftrightarrow> lk_locked (smp_lock s l) \<and> lk_cpu (smp_lock s l) = Some i"

inductive smp_step :: "smp \<Rightarrow> smp \<Rightarrow> bool" where
  enter: "smp_pc s i l = Outside \<Longrightarrow> \<not> smp_holding s i l \<Longrightarrow> smp_step s (at_pc s i l Spinning)"
| spin: "smp_pc s i l = Spinning \<Longrightarrow> lk_locked (smp_lock s l) \<Longrightarrow>
     smp_step s (upd_lock s l (\<lambda>k. k\<lparr>lk_locked := True\<rparr>))"
| xchg: "smp_pc s i l = Spinning \<Longrightarrow> \<not> lk_locked (smp_lock s l) \<Longrightarrow>
     smp_step s (at_pc (upd_lock s l (\<lambda>k. k\<lparr>lk_locked := True\<rparr>)) i l Exchanged)"
| own: "smp_pc s i l = Exchanged \<Longrightarrow>
     smp_step s (at_pc (upd_lock s l (\<lambda>k. k\<lparr>lk_cpu := Some i\<rparr>)) i l Inside)"
| disown: "smp_pc s i l = Inside \<Longrightarrow> smp_holding s i l \<Longrightarrow>
     smp_step s (at_pc (upd_lock s l (\<lambda>k. k\<lparr>lk_cpu := None\<rparr>)) i l Clearing)"
| unlock: "smp_pc s i l = Clearing \<Longrightarrow>
     smp_step s (at_pc (upd_lock s l (\<lambda>k. k\<lparr>lk_locked := False\<rparr>)) i l Outside)"

inductive smp_reachable :: "(lockid \<Rightarrow> string) \<Rightarrow> smp \<Rightarrow> bool" for names where
  smp_start: "smp_reachable names (smp_init names)"
| smp_next: "smp_reachable names s \<Longrightarrow> smp_step s t \<Longrightarrow> smp_reachable names t"

definition owns :: "smp \<Rightarrow> nat \<Rightarrow> lockid \<Rightarrow> bool" where
  "owns s i l \<longleftrightarrow> smp_pc s i l \<in> {Exchanged, Inside, Clearing}"

text \<open>
  The invariant ties the lock word to the one processor between its \<^verbatim>\<open>xchg\<close> and its unlocking store, and
  the \<^verbatim>\<open>lk->cpu\<close> field to the processor inside the critical section.
\<close>

definition lock_inv :: "smp \<Rightarrow> lockid \<Rightarrow> bool" where
  "lock_inv s l \<longleftrightarrow>
     (\<forall>i j. owns s i l \<longrightarrow> owns s j l \<longrightarrow> i = j) \<and>
     (\<forall>i. owns s i l \<longrightarrow> lk_locked (smp_lock s l)) \<and>
     (\<forall>i. lk_cpu (smp_lock s l) = Some i \<longleftrightarrow> smp_pc s i l = Inside)"

definition smp_inv :: "smp \<Rightarrow> bool" where
  "smp_inv s \<longleftrightarrow> (\<forall>l. lock_inv s l)"

lemma smp_inv_init: "smp_inv (smp_init names)"
  by (simp add: smp_inv_def lock_inv_def smp_init_def owns_def)

lemma smp_pc_at_pc [simp]:
  "smp_pc (at_pc s i l p) j k = (if j = i \<and> k = l then p else smp_pc s j k)"
  "smp_lock (at_pc s i l p) = smp_lock s"
  "smp_pc (upd_lock s l f) = smp_pc s"
  "smp_lock (upd_lock s l f) k = (if k = l then f (smp_lock s l) else smp_lock s k)"
  by (simp_all add: at_pc_def upd_lock_def)

lemma lock_inv_cong:
  "(\<And>i. smp_pc t i l = smp_pc s i l) \<Longrightarrow> smp_lock t l = smp_lock s l \<Longrightarrow> lock_inv t l = lock_inv s l"
  by (simp add: lock_inv_def owns_def)

lemma lock_inv_owner: "lock_inv s l \<Longrightarrow> owns s i l \<Longrightarrow> j \<noteq> i \<Longrightarrow> \<not> owns s j l"
  by (auto simp: lock_inv_def)

lemma lock_inv_locked: "lock_inv s l \<Longrightarrow> owns s i l \<Longrightarrow> lk_locked (smp_lock s l)"
  unfolding lock_inv_def by blast

lemma lock_inv_cpu: "lock_inv s l \<Longrightarrow> lk_cpu (smp_lock s l) = Some i \<longleftrightarrow> smp_pc s i l = Inside"
  unfolding lock_inv_def by blast

text \<open>A step on lock \<open>l\<close> leaves the other locks alone.\<close>

lemma smp_inv_stepI:
  assumes "smp_inv s" and "\<And>k i. k \<noteq> l \<Longrightarrow> smp_pc t i k = smp_pc s i k"
    and "\<And>k. k \<noteq> l \<Longrightarrow> smp_lock t k = smp_lock s k" and "lock_inv s l \<Longrightarrow> lock_inv t l"
  shows "smp_inv t"
proof -
  have "lock_inv t k" for k
  proof (cases "k = l")
    case True
    then show ?thesis using assms(1,4) by (simp add: smp_inv_def)
  next
    case False
    then have "lock_inv t k = lock_inv s k" using assms(2,3) by (intro lock_inv_cong) simp_all
    then show ?thesis using assms(1) by (simp add: smp_inv_def)
  qed
  then show ?thesis by (simp add: smp_inv_def)
qed

lemma lock_inv_same:
  assumes "lock_inv s l" and "\<And>j. owns t j l = owns s j l"
    and "\<And>j. smp_pc t j l = Inside \<longleftrightarrow> smp_pc s j l = Inside"
    and "lk_locked (smp_lock t l) = lk_locked (smp_lock s l)"
    and "lk_cpu (smp_lock t l) = lk_cpu (smp_lock s l)"
  shows "lock_inv t l"
  using assms(1) unfolding lock_inv_def assms(2-5) .

lemma lock_inv_single:
  assumes "\<And>j. j \<noteq> i \<Longrightarrow> \<not> owns t j l" and "lk_locked (smp_lock t l) \<or> \<not> owns t i l"
    and "\<And>j. lk_cpu (smp_lock t l) = Some j \<longleftrightarrow> smp_pc t j l = Inside"
  shows "lock_inv t l"
proof -
  have self: "j = i" if "owns t j l" for j using assms(1) [of j] that by (cases "j = i") simp_all
  have one: "j = k" if "owns t j l" "owns t k l" for j k
    using self [OF that(1)] self [OF that(2)] by (rule trans [OF _ sym])
  have held: "lk_locked (smp_lock t l)" if "owns t j l" for j
    using assms(2) that unfolding self [OF that] by blast
  show ?thesis
    unfolding lock_inv_def by (intro conjI allI impI) (erule (1) one, erule held, rule assms(3))
qed

lemma smp_inv_step: "smp_step s t \<Longrightarrow> smp_inv s \<Longrightarrow> smp_inv t"
proof (induct rule: smp_step.induct)
  case (enter s i l)
  show ?case
  proof (rule smp_inv_stepI [OF enter.prems, of l])
    show "lock_inv (at_pc s i l Spinning) l" if "lock_inv s l"
      by (rule lock_inv_same [OF that]) (use enter.hyps in \<open>auto simp: owns_def\<close>)
  qed simp_all
next
  case (spin s i l)
  show ?case
  proof (rule smp_inv_stepI [OF spin.prems, of l])
    show "lock_inv (upd_lock s l (\<lambda>k. k\<lparr>lk_locked := True\<rparr>)) l" if "lock_inv s l"
      by (rule lock_inv_same [OF that]) (use spin.hyps in \<open>auto simp: owns_def\<close>)
  qed simp_all
next
  case (xchg s i l)
  show ?case
  proof (rule smp_inv_stepI [OF xchg.prems, of l])
    assume inv: "lock_inv s l"
    then have none: "\<not> owns s j l" for j using xchg.hyps(2) lock_inv_locked by blast
    then have "smp_pc s j l \<noteq> Inside" for j unfolding owns_def by blast
    then show "lock_inv (at_pc (upd_lock s l (\<lambda>k. k\<lparr>lk_locked := True\<rparr>)) i l Exchanged) l"
      using none lock_inv_cpu [OF inv] by (intro lock_inv_single [where i = i]) (simp_all add: owns_def)
  qed simp_all
next
  case (own s i l)
  show ?case
  proof (rule smp_inv_stepI [OF own.prems, of l])
    assume inv: "lock_inv s l"
    have "owns s i l" using own.hyps by (simp add: owns_def)
    then have others: "\<not> owns s j l" if "j \<noteq> i" for j using lock_inv_owner [OF inv] that by blast
    have "smp_pc s j l \<noteq> Inside" if "j \<noteq> i" for j using others [OF that] unfolding owns_def by blast
    then show "lock_inv (at_pc (upd_lock s l (\<lambda>k. k\<lparr>lk_cpu := Some i\<rparr>)) i l Inside) l"
      using others lock_inv_locked [OF inv \<open>owns s i l\<close>]
      by (intro lock_inv_single [where i = i]) (simp_all add: owns_def eq_commute [of i])
  qed simp_all
next
  case (disown s i l)
  show ?case
  proof (rule smp_inv_stepI [OF disown.prems, of l])
    assume inv: "lock_inv s l"
    have "owns s i l" using disown.hyps by (simp add: owns_def)
    then have others: "\<not> owns s j l" if "j \<noteq> i" for j using lock_inv_owner [OF inv] that by blast
    have "smp_pc s j l \<noteq> Inside" if "j \<noteq> i" for j using others [OF that] unfolding owns_def by blast
    then show "lock_inv (at_pc (upd_lock s l (\<lambda>k. k\<lparr>lk_cpu := None\<rparr>)) i l Clearing) l"
      using others lock_inv_locked [OF inv \<open>owns s i l\<close>]
      by (intro lock_inv_single [where i = i]) (simp_all add: owns_def)
  qed simp_all
next
  case (unlock s i l)
  show ?case
  proof (rule smp_inv_stepI [OF unlock.prems, of l])
    assume inv: "lock_inv s l"
    have "owns s i l" using unlock.hyps by (simp add: owns_def)
    then have others: "\<not> owns s j l" if "j \<noteq> i" for j using lock_inv_owner [OF inv] that by blast
    have "smp_pc s j l \<noteq> Inside" for j
      using others [of j] unlock.hyps by (cases "j = i") (auto simp: owns_def)
    then show "lock_inv (at_pc (upd_lock s l (\<lambda>k. k\<lparr>lk_locked := False\<rparr>)) i l Outside) l"
      using others lock_inv_cpu [OF inv] by (intro lock_inv_single [where i = i]) (simp_all add: owns_def)
  qed simp_all
qed

lemma smp_reachable_inv: "smp_reachable names s \<Longrightarrow> smp_inv s"
  by (induction rule: smp_reachable.induct) (auto intro: smp_inv_init smp_inv_step)

section \<open>Properties\<close>

text \<open>
  C12: mutual exclusion. In every state that processors reach by running \<^verbatim>\<open>acquire\<close> and \<^verbatim>\<open>release\<close> in any
  interleaving of their memory accesses, at most one processor is inside the critical section of a
  lock, and the test \<^verbatim>\<open>holding(lk)\<close> is true on exactly that processor, so neither the \<^verbatim>\<open>panic("acquire")\<close>
  nor the \<^verbatim>\<open>panic("release")\<close> check can be fooled by another processor.
\<close>

theorem spinlock_mutual_exclusion:
  assumes "smp_reachable names s"
  shows "(smp_pc s i l = Inside \<longrightarrow> smp_pc s j l = Inside \<longrightarrow> i = j) \<and>
    (smp_holding s i l \<longleftrightarrow> smp_pc s i l = Inside)"
  using smp_reachable_inv [OF assms] by (auto simp: smp_inv_def lock_inv_def smp_holding_def owns_def)

lemma smp_inside_reachable:
  "smp_reachable names (at_pc (upd_lock (at_pc (upd_lock (at_pc (smp_init names) 0 KmemLock Spinning)
     KmemLock (\<lambda>k. k\<lparr>lk_locked := True\<rparr>)) 0 KmemLock Exchanged) KmemLock (\<lambda>k. k\<lparr>lk_cpu := Some 0\<rparr>))
     0 KmemLock Inside)"
proof (rule smp_next [OF smp_next [OF smp_next [OF smp_start]]])
  show "smp_step (smp_init names) (at_pc (smp_init names) 0 KmemLock Spinning)"
    by (rule enter) (simp_all add: smp_init_def smp_holding_def)
  show "smp_step (at_pc (smp_init names) 0 KmemLock Spinning)
     (at_pc (upd_lock (at_pc (smp_init names) 0 KmemLock Spinning)
       KmemLock (\<lambda>k. k\<lparr>lk_locked := True\<rparr>)) 0 KmemLock Exchanged)"
    by (rule xchg) (simp_all add: at_pc_def smp_init_def)
  show "smp_step (at_pc (upd_lock (at_pc (smp_init names) 0 KmemLock Spinning)
       KmemLock (\<lambda>k. k\<lparr>lk_locked := True\<rparr>)) 0 KmemLock Exchanged)
     (at_pc (upd_lock (at_pc (upd_lock (at_pc (smp_init names) 0 KmemLock Spinning)
     KmemLock (\<lambda>k. k\<lparr>lk_locked := True\<rparr>)) 0 KmemLock Exchanged) KmemLock (\<lambda>k. k\<lparr>lk_cpu := Some 0\<rparr>))
     0 KmemLock Inside)"
    by (rule own) (simp add: at_pc_def)
qed

theorem spinlock_mutual_exclusion_witness:
  "\<exists>s. smp_reachable (\<lambda>_. ''lk'') s \<and> smp_pc s 0 KmemLock = Inside \<and> smp_holding s 0 KmemLock"
proof -
  let ?s = "at_pc (upd_lock (at_pc (upd_lock (at_pc (smp_init (\<lambda>_. ''lk'')) 0 KmemLock Spinning)
     KmemLock (\<lambda>k. k\<lparr>lk_locked := True\<rparr>)) 0 KmemLock Exchanged) KmemLock (\<lambda>k. k\<lparr>lk_cpu := Some 0\<rparr>))
     0 KmemLock Inside"
  have "smp_pc ?s 0 KmemLock = Inside" by (simp add: at_pc_def)
  with spinlock_mutual_exclusion [OF smp_inside_reachable, of "\<lambda>_. ''lk''" 0 KmemLock]
  show ?thesis using smp_inside_reachable by blast
qed

text \<open>
  C33: a critical section is transparent. Started with the lock free and the processor's interrupt
  bookkeeping consistent, \<^verbatim>\<open>acquire(&l); body; release(&l)\<close> runs the body with interrupts off and the
  lock held, neither panics nor blocks by itself, and leaves the interrupt flag, the \<^verbatim>\<open>ncli\<close> nesting
  and all locks as they were, for every body that itself leaves them alone.
\<close>

theorem critical_section_restores:
  assumes "cpu_ok s" and "lock_free l s"
    and "f (acquired l s) = Ret (r, t)"
    and "lapicid t = lapicid s" and "eflags t = eflags (acquired l s)"
    and "cpus t = cpus (acquired l s)" and "locks t = locks (acquired l s)"
  shows "locked l f s = Ret (r, t\<lparr>eflags := eflags s, cpus := cpus s, locks := locks s\<rparr>) \<and>
    \<not> readeflags_IF (acquired l s)"
proof -
  have "locked l f s = bindO (f (acquired l s)) (\<lambda>(r, t). Ret (r, restored s t))"
    by (rule locked_eq [OF assms(1,2)]) (use assms(3-) in simp)
  then have "locked l f s = Ret (r, t\<lparr>eflags := eflags s, cpus := cpus s, locks := locks s\<rparr>)"
    unfolding assms(3) by (simp add: restored_def)
  moreover have "\<not> readeflags_IF (acquired l s)"
    by (simp add: readeflags_IF_def acquired_def pushed_def)
  ultimately show ?thesis by (rule conjI)
qed

text \<open>A one-processor machine with interrupts on and every lock free.\<close>

definition boot_cpu :: cpu where
  "boot_cpu = \<lparr>apicid = 0, ncli = 0, intena = True, cpu_proc = None, started = True,
     gdt = replicate NSEGS (SEG 0 0 0 0), ts = \<lparr>ts_esp0 = 0, ts_ss0 = 0, ts_iomb = 0\<rparr>\<rparr>"

definition boot_machine :: machine where
  "boot_machine = \<lparr>lapicid = 0, eflags = (\<lambda>_. True),
     cpus = [boot_cpu],
     locks = (\<lambda>_. \<lparr>lk_name = [], lk_locked = False, lk_cpu = None\<rparr>)\<rparr>"

lemma boot_machine_ok: "cpu_ok boot_machine" "lock_free l boot_machine"
  by (simp_all add: boot_machine_def boot_cpu_def cpu_ok_def lock_free_def find_index_def readeflags_IF_def)

theorem critical_section_restores_witness:
  "cpu_ok boot_machine \<and> lock_free KmemLock boot_machine \<and>
   locked KmemLock (\<lambda>s. Ret (7 :: nat, s)) boot_machine = Ret (7, boot_machine)"
  using critical_section_restores [OF boot_machine_ok, of "\<lambda>s. Ret (7 :: nat, s)" KmemLock 7
      "acquired KmemLock boot_machine"] boot_machine_ok
  by (simp add: acquired_def pushed_def)

end
