(* ===== verification/Kalloc.thy ===== *)
theory Kalloc
  imports Layout Cstring Spinlock
begin

text \<open>
  The physical page allocator, \<^verbatim>\<open>kalloc.c\<close>: a free list threaded through the free pages themselves, so
  \<open>kfree\<close> and \<open>kalloc\<close> read and write the first word of a page in kernel memory. The contract of an
  allocator of pages is the locale \<open>page_allocator\<close>; its interpretation on \<open>kalloc\<close> and \<open>kfree\<close> shows
  that the threaded list behaves as a stack of distinct pages.
\<close>

section \<open>State\<close>

text \<open>
  \<open>mem\<close> is memory at kernel virtual addresses; \<open>kernel_end\<close> is the address of the symbol \<^verbatim>\<open>end\<close> that the
  linker script defines.
\<close>

record kmem_state = machine +
  mem :: mem
  kmem_use_lock :: bool
  kmem_freelist :: u32
  kernel_end :: u32

section \<open>Operations\<close>

definition kmem_locked :: "('a kmem_state_scheme \<Rightarrow> ('r \<times> 'a kmem_state_scheme) outcome) \<Rightarrow>
    'a kmem_state_scheme \<Rightarrow> ('r \<times> 'a kmem_state_scheme) outcome" where
  "kmem_locked f s = (if kmem_use_lock s then locked KmemLock f s else f s)"

definition kfree :: "u32 \<Rightarrow> 'a kmem_state_scheme \<Rightarrow> 'a kmem_state_scheme outcome" where
  "kfree v s =
     (if v mod PGSIZE \<noteq> 0 \<or> v < kernel_end s \<or> V2P v \<ge> PHYSTOP then Panic ''kfree''
      else
        bindO (kmem_locked (\<lambda>s.
            Ret ((), s\<lparr>mem := store32 (mem s) v (kmem_freelist s), kmem_freelist := v\<rparr>))
          (s\<lparr>mem := memset v 1 PGSIZE (mem s)\<rparr>))
        (\<lambda>(_, s). Ret s))"

definition kalloc :: "'a kmem_state_scheme \<Rightarrow> (u32 \<times> 'a kmem_state_scheme) outcome" where
  "kalloc s =
     kmem_locked (\<lambda>s.
       let r = kmem_freelist s in
       if r \<noteq> 0 then Ret (r, s\<lparr>kmem_freelist := load32 (mem s) r\<rparr>) else Ret (r, s)) s"

text \<open>
  The loop of \<^verbatim>\<open>freerange\<close> ends because \<open>kfree\<close> panics on every page outside
  \<open>[end, KERNBASE + PHYSTOP)\<close>, also when \<^verbatim>\<open>p + PGSIZE\<close> wraps around.
\<close>

lemma kfree_Ret_range:
  assumes "kfree v s = Ret s'"
  shows "unat v < 2382364672"
proof -
  have "V2P v < PHYSTOP" using assms by (auto simp: kfree_def split: if_splits)
  then have "unat (v - KERNBASE) < 234881024" by (simp add: V2P_def word_less_nat_alt)
  then show ?thesis by (simp add: unat_sub_if' split: if_splits)
qed

function freerange_loop :: "u32 \<Rightarrow> u32 \<Rightarrow> 'a kmem_state_scheme \<Rightarrow> 'a kmem_state_scheme outcome" where
  "freerange_loop p vend s =
     (if p + PGSIZE \<le> vend then bindO (kfree p s) (\<lambda>s. freerange_loop (p + PGSIZE) vend s)
      else Ret s)"
  by pat_completeness auto
termination
proof (relation "measure (\<lambda>(p, _, _). 4294967296 - unat p)")
  fix p vend :: u32 and s x :: "'a kmem_state_scheme"
  assume "kfree p s = Ret x"
  then have "unat p < 2382364672" by (rule kfree_Ret_range)
  then show "((p + PGSIZE, vend, x), (p, vend, s)) \<in> measure (\<lambda>(p, _, _). 4294967296 - unat p)"
    by (simp add: unat_word_ariths)
qed simp

definition freerange :: "u32 \<Rightarrow> u32 \<Rightarrow> 'a kmem_state_scheme \<Rightarrow> 'a kmem_state_scheme outcome" where
  "freerange vstart vend s = freerange_loop (PGROUNDUP vstart) vend s"

definition kinit1 :: "u32 \<Rightarrow> u32 \<Rightarrow> 'a kmem_state_scheme \<Rightarrow> 'a kmem_state_scheme outcome" where
  "kinit1 vstart vend s =
     (let s = initlock KmemLock ''kmem'' s; s = s\<lparr>kmem_use_lock := False\<rparr> in
      freerange vstart vend s)"

definition kinit2 :: "u32 \<Rightarrow> u32 \<Rightarrow> 'a kmem_state_scheme \<Rightarrow> 'a kmem_state_scheme outcome" where
  "kinit2 vstart vend s =
     bindO (freerange vstart vend s) (\<lambda>s. Ret (s\<lparr>kmem_use_lock := True\<rparr>))"

section \<open>The contract of a page allocator\<close>

text \<open>
  \<open>free_pages s ps\<close>: the pages \<open>ps\<close> are free in state \<open>s\<close>, and \<open>alloc\<close> hands them out from the front.
  Page 0 is the failure answer, as \<^verbatim>\<open>kalloc\<close> has it.
\<close>

locale page_allocator =
  fixes alloc :: "'s \<Rightarrow> (u32 \<times> 's) outcome"
    and release_page :: "u32 \<Rightarrow> 's \<Rightarrow> 's outcome"
    and free_pages :: "'s \<Rightarrow> u32 list \<Rightarrow> bool"
    and page_ok :: "'s \<Rightarrow> u32 \<Rightarrow> bool"
  assumes alloc_none: "free_pages s [] \<Longrightarrow> alloc s = Ret (0, s)"
    and alloc_page: "free_pages s (p # ps) \<Longrightarrow>
      returns (alloc s) (\<lambda>(r, s'). r = p \<and> free_pages s' ps \<and> page_ok s' = page_ok s)"
    and free_page: "free_pages s ps \<Longrightarrow> page_ok s v \<Longrightarrow> v \<notin> set ps \<Longrightarrow>
      returns (release_page v s) (\<lambda>s'. free_pages s' (v # ps) \<and> page_ok s' = page_ok s)"
    and free_pages_ok: "free_pages s ps \<Longrightarrow> p \<in> set ps \<Longrightarrow> page_ok s p \<and> p \<noteq> 0"
    and free_pages_distinct: "free_pages s ps \<Longrightarrow> distinct ps"
begin

primrec alloc_many :: "nat \<Rightarrow> 's \<Rightarrow> (u32 list \<times> 's) outcome" where
  "alloc_many 0 s = Ret ([], s)"
| "alloc_many (Suc n) s =
     bindO (alloc s) (\<lambda>(p, s). bindO (alloc_many n s) (\<lambda>(ps, s). Ret (p # ps, s)))"

lemma alloc_many_takes:
  assumes "free_pages s ps" and "n \<le> length ps"
  shows "returns (alloc_many n s) (\<lambda>(qs, s'). qs = take n ps \<and> free_pages s' (drop n ps))"
  using assms
proof (induction n arbitrary: s ps)
  case 0
  then show ?case by simp
next
  case (Suc n)
  then obtain p qs where ps: "ps = p # qs" by (cases ps) auto
  have "returns (alloc s) (\<lambda>(r, s'). r = p \<and> free_pages s' qs)"
    using alloc_page [of s p qs] Suc.prems ps by (auto simp: returns_iff)
  then show ?case
    using Suc.IH [of _ qs] Suc.prems(2) ps by (fastforce simp: returns_iff)
qed

lemma alloc_many_distinct:
  assumes "free_pages s ps" and "n \<le> length ps"
  shows "returns (alloc_many n s) (\<lambda>(qs, s'). length qs = n \<and> distinct qs \<and> 0 \<notin> set qs \<and>
    (\<forall>rs. free_pages s' rs \<longrightarrow> rs = drop n ps \<longrightarrow> set qs \<inter> set rs = {}))"
  using alloc_many_takes [OF assms] free_pages_distinct [OF assms(1)] free_pages_ok [OF assms(1)] assms(2)
  by (fastforce simp: returns_iff set_take_disj_set_drop_if_distinct dest: in_set_takeD)

lemma alloc_after_free:
  assumes "free_pages s ps" and "page_ok s v" and "v \<notin> set ps"
  shows "returns (bindO (release_page v s) alloc) (\<lambda>(r, s'). r = v \<and> free_pages s' ps)"
  using free_page [OF assms] alloc_page [of _ v ps] by (fastforce simp: returns_iff)

lemma alloc_exhausted:
  assumes "free_pages s ps"
  shows "returns (bindO (alloc_many (length ps) s) (\<lambda>(_, s). alloc s)) (\<lambda>(r, _). r = 0)"
  using alloc_many_takes [OF assms, of "length ps"] alloc_none by (auto simp: returns_iff)

end

section \<open>The threaded free list\<close>

primrec freelist_at :: "mem \<Rightarrow> u32 \<Rightarrow> u32 list \<Rightarrow> bool" where
  "freelist_at m p [] \<longleftrightarrow> p = 0"
| "freelist_at m p (x # xs) \<longleftrightarrow> p = x \<and> p \<noteq> 0 \<and> freelist_at m (load32 m p) xs"

definition kpage_ok :: "'a kmem_state_scheme \<Rightarrow> u32 \<Rightarrow> bool" where
  "kpage_ok s v \<longleftrightarrow> v mod PGSIZE = 0 \<and> kernel_end s \<le> v \<and> V2P v < PHYSTOP"

definition kmem_ok :: "'a kmem_state_scheme \<Rightarrow> u32 list \<Rightarrow> bool" where
  "kmem_ok s ps \<longleftrightarrow> freelist_at (mem s) (kmem_freelist s) ps \<and> distinct ps \<and>
     (\<forall>p\<in>set ps. kpage_ok s p) \<and> cpu_ok s \<and> lock_free KmemLock s"

lemma page_mod: "v mod PGSIZE = (0 :: u32) \<longleftrightarrow> unat v mod 4096 = 0"
proof -
  have "unat (v mod 4096) = unat v mod 4096" by (simp add: unat_mod)
  then show ?thesis by (metis unat_eq_0)
qed

lemma kpage_ok_bounds:
  assumes "kpage_ok s v"
  shows "2147483648 \<le> unat v" "unat v < 2382364672" "unat v mod 4096 = 0" "v \<noteq> 0"
proof -
  have "unat (v - KERNBASE) < 234881024" using assms by (simp add: kpage_ok_def V2P_def word_less_nat_alt)
  then show "2147483648 \<le> unat v" "unat v < 2382364672"
    by (simp_all add: unat_sub_if' split: if_splits)
  then show "v \<noteq> 0" by auto
  show "unat v mod 4096 = 0" using assms by (simp add: kpage_ok_def page_mod)
qed

text \<open>Different pages do not share a byte.\<close>

lemma page_unat_add:
  fixes x c :: u32
  assumes "unat x mod 4096 = 0" and "c < 4096"
  shows "unat (x + c) = unat x + unat c"
proof -
  have "unat c < 4096" using assms(2) by (simp add: word_less_nat_alt)
  moreover obtain k where "unat x = 4096 * k" using assms(1) by (auto simp: mod_0_imp_dvd elim: dvdE)
  ultimately have "unat x + unat c < 4294967296" using u32_bound [of x] by simp
  then show ?thesis by (simp add: unat_word_ariths)
qed

lemma page_disjoint:
  fixes p v a :: u32
  assumes "unat p mod 4096 = 0" and "unat v mod 4096 = 0" and "p \<noteq> v" and "a < 4096"
  shows "\<not> p + a - v < 4096"
proof
  assume "p + a - v < 4096"
  define b where "b = p + a - v"
  have b: "b < 4096" using \<open>p + a - v < 4096\<close> by (simp only: b_def)
  have "p + a = v + b" by (simp add: b_def)
  then have "unat p + unat a = unat v + unat b"
    using page_unat_add [OF assms(1,4)] page_unat_add [OF assms(2) b] by simp
  moreover have "unat a < 4096" "unat b < 4096"
    using assms(4) b by (simp_all add: word_less_nat_alt)
  moreover obtain j k where jk: "unat p = 4096 * j" "unat v = 4096 * k"
    using assms(1,2) by (auto simp: mod_0_imp_dvd elim!: dvdE)
  ultimately have "(4096 * j + unat a) div 4096 = (4096 * k + unat b) div 4096" by simp
  then have "unat p = unat v" using \<open>unat a < 4096\<close> \<open>unat b < 4096\<close> jk by simp
  with assms(3) show False by (simp add: word_unat_eq_iff)
qed

text \<open>\<open>same_outside v m m'\<close>: the two memories agree outside page \<open>v\<close>.\<close>

definition same_outside :: "u32 \<Rightarrow> mem \<Rightarrow> mem \<Rightarrow> bool" where
  "same_outside v m m' \<longleftrightarrow> (\<forall>a. \<not> a - v < PGSIZE \<longrightarrow> m' a = m a)"

lemma load32_same_outside:
  assumes "same_outside v m m'" and "unat p mod 4096 = 0" and "unat v mod 4096 = 0" and "p \<noteq> v"
  shows "load32 m' p = load32 m p"
  using page_disjoint [OF assms(2-4), of 0] page_disjoint [OF assms(2-4), of 1]
    page_disjoint [OF assms(2-4), of 2] page_disjoint [OF assms(2-4), of 3] assms(1)
  by (intro load32_cong) (simp_all add: same_outside_def)

lemma freelist_at_same_outside:
  assumes "same_outside v m m'" and "unat v mod 4096 = 0" and "v \<notin> set ps"
    and "\<forall>p\<in>set ps. unat p mod 4096 = 0"
  shows "freelist_at m' p ps = freelist_at m p ps"
  using assms(3,4)
proof (induction ps arbitrary: p)
  case Nil
  then show ?case by simp
next
  case (Cons x xs)
  have "load32 m' x = load32 m x"
    using load32_same_outside [OF assms(1) _ assms(2), of x] Cons.prems by auto
  then show ?case using Cons by auto
qed

lemma kfree_writes_page:
  "same_outside v m (store32 (memset v 1 PGSIZE m) v w)"
proof -
  have n: "a \<noteq> v" "a \<noteq> v + 1" "a \<noteq> v + 2" "a \<noteq> v + 3" if "\<not> a - v < PGSIZE" for a
    using that by auto
  then show ?thesis
    by (auto simp: same_outside_def store32_other memset_apply)
qed

section \<open>What the operations do\<close>

lemma kmem_locked_pure:
  assumes "cpu_ok s" and "lock_free KmemLock s"
    and "f (acquired KmemLock s) = Ret (r, (acquired KmemLock s)\<lparr>mem := m, kmem_freelist := fl\<rparr>)"
    and "f s = Ret (r, s\<lparr>mem := m, kmem_freelist := fl\<rparr>)"
  shows "kmem_locked f s = Ret (r, s\<lparr>mem := m, kmem_freelist := fl\<rparr>)"
proof -
  have "locked KmemLock f s = bindO (f (acquired KmemLock s)) (\<lambda>(r, t). Ret (r, restored s t))"
    by (rule locked_eq [OF assms(1,2)]) (auto simp: assms(3))
  then show ?thesis
    using assms(3,4) by (simp add: kmem_locked_def restored_def acquired_def pushed_def)
qed

lemma kfree_eq:
  assumes "cpu_ok s" and "lock_free KmemLock s" and "kpage_ok s v"
  shows "kfree v s = Ret (s\<lparr>mem := store32 (memset v 1 PGSIZE (mem s)) v (kmem_freelist s),
    kmem_freelist := v\<rparr>)"
proof -
  let ?s = "s\<lparr>mem := memset v 1 PGSIZE (mem s)\<rparr>"
  have ok: "cpu_ok ?s" "lock_free KmemLock ?s"
    using assms(1,2) cpu_ok_cong [of ?s s] by (simp_all add: lock_free_def)
  have "kmem_locked (\<lambda>s. Ret ((), s\<lparr>mem := store32 (mem s) v (kmem_freelist s), kmem_freelist := v\<rparr>)) ?s
      = Ret ((), ?s\<lparr>mem := store32 (memset v 1 PGSIZE (mem s)) v (kmem_freelist s), kmem_freelist := v\<rparr>)"
    by (rule kmem_locked_pure [OF ok]) (auto simp: acquired_def pushed_def)
  moreover have "\<not> (v mod PGSIZE \<noteq> 0 \<or> v < kernel_end s \<or> V2P v \<ge> PHYSTOP)"
    using assms(3) by (auto simp: kpage_ok_def)
  ultimately show ?thesis unfolding kfree_def by simp
qed

lemma kalloc_eq:
  assumes "cpu_ok s" and "lock_free KmemLock s"
  shows "kalloc s = Ret (kmem_freelist s,
    s\<lparr>kmem_freelist := if kmem_freelist s \<noteq> 0 then load32 (mem s) (kmem_freelist s) else 0\<rparr>)"
proof -
  have "kalloc s = Ret (kmem_freelist s, s\<lparr>mem := mem s,
      kmem_freelist := if kmem_freelist s \<noteq> 0 then load32 (mem s) (kmem_freelist s) else 0\<rparr>)"
    unfolding kalloc_def
    by (rule kmem_locked_pure [OF assms]) (auto simp: Let_def acquired_def pushed_def)
  then show ?thesis by simp
qed

text \<open>Frame: the allocator touches nothing of what a component adds to its state.\<close>

lemma kmem_locked_invariant:
  assumes "\<And>t t'. machine.more t = machine.more t' \<Longrightarrow> I t \<Longrightarrow> I t'"
    and "\<And>t. I t \<Longrightarrow> whenever (f t) (\<lambda>(r, t'). I t')" and "I s"
  shows "whenever (kmem_locked f s) (\<lambda>(r, s'). I s')"
  using locked_invariant [of I f s KmemLock, OF assms] assms(2,3) by (auto simp: kmem_locked_def)

lemma more_kmem:
  "machine.more t = machine.more s \<Longrightarrow> kmem_state.more t = kmem_state.more s \<and> mem t = mem s \<and>
     kmem_freelist t = kmem_freelist s \<and> kmem_use_lock t = kmem_use_lock s \<and> kernel_end t = kernel_end s"
  for s t :: "'a kmem_state_scheme"
  by (cases s; cases t) simp

lemma kalloc_frame:
  "whenever (kalloc s) (\<lambda>(r, s'). kmem_state.more s' = kmem_state.more s \<and> mem s' = mem s \<and>
     kernel_end s' = kernel_end s)"
  unfolding kalloc_def
  by (rule kmem_locked_invariant) (auto dest!: more_kmem simp: Let_def)

lemma kfree_frame:
  "whenever (kfree v s) (\<lambda>s'. kmem_state.more s' = kmem_state.more s \<and> kernel_end s' = kernel_end s)"
proof -
  have "whenever (kmem_locked (\<lambda>s.
            Ret ((), s\<lparr>mem := store32 (mem s) v (kmem_freelist s), kmem_freelist := v\<rparr>))
          (s\<lparr>mem := memset v 1 PGSIZE (mem s)\<rparr>))
      (\<lambda>(r, s'). kmem_state.more s' = kmem_state.more s \<and> kernel_end s' = kernel_end s)"
    by (rule kmem_locked_invariant) (auto dest!: more_kmem)
  then show ?thesis by (auto simp: kfree_def elim: whenever_mono)
qed

interpretation kpages: page_allocator kalloc kfree kmem_ok kpage_ok
proof
  fix s :: "'a kmem_state_scheme" and p v :: u32 and ps :: "u32 list"
  show "kalloc s = Ret (0, s)" if "kmem_ok s []"
    using that by (simp add: kmem_ok_def kalloc_eq)
  show "returns (kalloc s) (\<lambda>(r, s'). r = p \<and> kmem_ok s' ps \<and> kpage_ok s' = kpage_ok s)"
    if "kmem_ok s (p # ps)"
    using that cpu_ok_cong [of "s\<lparr>kmem_freelist := _\<rparr>" s]
    by (auto simp: kmem_ok_def kalloc_eq kpage_ok_def lock_free_def fun_eq_iff)
  show "returns (kfree v s) (\<lambda>s'. kmem_ok s' (v # ps) \<and> kpage_ok s' = kpage_ok s)"
    if ok: "kmem_ok s ps" and v: "kpage_ok s v" and new: "v \<notin> set ps"
  proof -
    let ?m = "store32 (memset v 1 PGSIZE (mem s)) v (kmem_freelist s)"
    have "freelist_at ?m (kmem_freelist s) ps = freelist_at (mem s) (kmem_freelist s) ps"
      using ok v new
      by (intro freelist_at_same_outside [OF kfree_writes_page]) (auto simp: kmem_ok_def dest: kpage_ok_bounds)
    then show ?thesis
      using ok v new kpage_ok_bounds(4) [OF v]
        cpu_ok_cong [of "s\<lparr>mem := ?m, kmem_freelist := v\<rparr>" s]
      by (auto simp: kmem_ok_def kfree_eq kpage_ok_def lock_free_def fun_eq_iff)
  qed
  show "kpage_ok s p \<and> p \<noteq> 0" if "kmem_ok s ps" "p \<in> set ps"
    using that by (auto simp: kmem_ok_def dest: kpage_ok_bounds)
  show "distinct ps" if "kmem_ok s ps"
    using that by (simp add: kmem_ok_def)
qed

section \<open>Freeing a range\<close>

definition page_run :: "u32 \<Rightarrow> nat \<Rightarrow> u32 list" where
  "page_run p n = map (\<lambda>i. p + of_nat (4096 * i)) [0..<n]"

lemma page_run_0 [simp]: "page_run p 0 = []"
  by (simp add: page_run_def)

lemma page_run_Suc: "page_run p (Suc n) = p # page_run (p + PGSIZE) n"
proof -
  have "map (\<lambda>i. p + of_nat (4096 * i)) [0..<Suc n]
      = p # map (\<lambda>i. p + of_nat (4096 * Suc i)) [0..<n]"
    by (simp add: upt_conv_Cons map_Suc_upt [symmetric] del: upt_Suc)
  then show ?thesis by (simp add: page_run_def algebra_simps)
qed

lemma freerange_loop_frees:
  assumes "kmem_ok s ps" and "unat p + 4096 * n \<le> unat vend" and "unat vend < unat p + 4096 * n + 4096"
    and "unat p mod 4096 = 0" and "kernel_end s \<le> p" and "2147483648 \<le> unat p"
    and "unat vend \<le> 2382364672" and "set (page_run p n) \<inter> set ps = {}" and "distinct (page_run p n)"
  shows "returns (freerange_loop p vend s) (\<lambda>s'. kmem_ok s' (rev (page_run p n) @ ps))"
  using assms
proof (induction n arbitrary: p s ps)
  case 0
  have "\<not> p + PGSIZE \<le> vend"
    using 0 by (simp add: word_le_nat_alt unat_word_ariths)
  then show ?case using 0 by (subst freerange_loop.simps) simp
next
  case (Suc n)
  have up: "unat (p + PGSIZE) = unat p + 4096"
    using Suc.prems(2,7) by (simp add: unat_word_ariths)
  have le: "p + PGSIZE \<le> vend" using up Suc.prems(2) by (simp add: word_le_nat_alt)
  have "unat (p - KERNBASE) < 234881024"
    using Suc.prems(2,6,7) by (simp add: unat_sub_if')
  then have ok: "kpage_ok s p"
    using Suc.prems(4,5) by (simp add: kpage_ok_def page_mod V2P_def word_less_nat_alt)
  then have pnew: "p \<notin> set ps" using Suc.prems(8) by (simp add: page_run_Suc)
  obtain s' where s': "kfree p s = Ret s'" "kmem_ok s' (p # ps)" "kpage_ok s' = kpage_ok s"
    using kpages.free_page [OF Suc.prems(1) ok pnew] by (auto simp: returns_iff)
  have ke: "kernel_end s' = kernel_end s"
    using s'(1) Suc.prems(1) ok by (auto simp: kfree_eq kmem_ok_def)
  have "returns (freerange_loop (p + PGSIZE) vend s')
      (\<lambda>s''. kmem_ok s'' (rev (page_run (p + PGSIZE) n) @ p # ps))"
  proof (rule Suc.IH [OF s'(2)])
    show "kernel_end s' \<le> p + PGSIZE"
      using Suc.prems(5) ke up by (simp add: word_le_nat_alt)
    show "set (page_run (p + PGSIZE) n) \<inter> set (p # ps) = {}"
      using Suc.prems(8,9) by (auto simp: page_run_Suc)
    show "distinct (page_run (p + PGSIZE) n)" using Suc.prems(9) by (simp add: page_run_Suc)
  qed (use Suc.prems up in auto)
  then show ?case
    using le s'(1) by (subst freerange_loop.simps) (simp add: page_run_Suc)
qed

lemma page_run_distinct:
  assumes "unat p + 4096 * n \<le> 4294967296"
  shows "distinct (page_run p n)"
proof -
  have "unat (p + of_nat (4096 * i)) = unat p + 4096 * i" if "i < n" for i
  proof -
    have "unat (of_nat (4096 * i) :: u32) = 4096 * i"
      using that assms by (simp only: unat_of_nat) simp
    then show ?thesis using that assms by (simp add: unat_word_ariths)
  qed
  then have "inj_on (\<lambda>i. p + of_nat (4096 * i)) {0..<n}"
    by (intro inj_onI) (metis atLeastLessThan_iff add_left_cancel mult_left_cancel zero_neq_numeral)
  then show ?thesis by (simp add: page_run_def distinct_map)
qed

section \<open>Properties\<close>

text \<open>A machine whose kernel ends at 4 MB of kernel memory, with an empty free list.\<close>

definition boot_kmem :: kmem_state where
  "boot_kmem = \<lparr>lapicid = 0, eflags = (\<lambda>_. True),
     cpus = [boot_cpu],
     locks = (\<lambda>_. \<lparr>lk_name = [], lk_locked = False, lk_cpu = None\<rparr>),
     mem = (\<lambda>_. 0), kmem_use_lock = True, kmem_freelist = 0, kernel_end = 0x80400000\<rparr>"

lemma boot_kmem_ok: "kmem_ok boot_kmem []"
  by (simp add: boot_kmem_def boot_cpu_def kmem_ok_def cpu_ok_def lock_free_def find_index_def readeflags_IF_def)

text \<open>
  C9: the free list threaded through the pages is a stack. Freeing a page and allocating again returns
  that page and leaves the list of the other free pages as it was, although \<^verbatim>\<open>kfree\<close> overwrites the
  whole page with junk and then its first word with the link.
\<close>

theorem kfree_kalloc_stack:
  assumes "kmem_ok s ps" and "kpage_ok s v" and "v \<notin> set ps"
  shows "returns (bindO (kfree v s) kalloc) (\<lambda>(r, s'). r = v \<and> kmem_ok s' ps)"
  by (rule kpages.alloc_after_free [OF assms])

theorem kfree_kalloc_stack_witness:
  "kmem_ok boot_kmem [] \<and> kpage_ok boot_kmem 0x80400000 \<and>
   returns (bindO (kfree 0x80400000 boot_kmem) kalloc) (\<lambda>(r, s'). r = 0x80400000 \<and> kmem_ok s' [])"
proof -
  have v: "kpage_ok boot_kmem 0x80400000" by (simp add: kpage_ok_def boot_kmem_def V2P_def)
  show ?thesis using kfree_kalloc_stack [OF boot_kmem_ok v] boot_kmem_ok v by simp
qed

text \<open>
  \<^verbatim>\<open>freerange(vstart, vend)\<close> puts exactly the whole pages between the rounded-up start and \<open>vend\<close> on
  the free list, each once, the last one on top; it does not panic on a range inside the free physical
  memory, and it terminates.
\<close>

lemma freerange_frees_whole_pages:
  assumes "kmem_ok s ps" and "unat vstart \<le> 4294963200" and "PGROUNDUP vstart \<le> vend"
    and "kernel_end s \<le> PGROUNDUP vstart" and "KERNBASE \<le> PGROUNDUP vstart" and "vend \<le> P2V PHYSTOP"
    and "n = (unat vend - unat (PGROUNDUP vstart)) div 4096"
    and "set (page_run (PGROUNDUP vstart) n) \<inter> set ps = {}"
  shows "returns (freerange vstart vend s) (\<lambda>s'. kmem_ok s' (rev (page_run (PGROUNDUP vstart) n) @ ps))"
proof -
  let ?p = "PGROUNDUP vstart"
  have al: "unat ?p mod 4096 = 0" using unat_PGROUNDUP [OF assms(2)] by simp
  have le: "unat ?p \<le> unat vend" using assms(3) by (simp add: word_le_nat_alt)
  have b: "unat ?p + 4096 * n \<le> unat vend" "unat vend < unat ?p + 4096 * n + 4096"
    using le assms(7) by simp_all
  show ?thesis
    unfolding freerange_def
    using assms al b u32_bound [of vend]
    by (intro freerange_loop_frees page_run_distinct) (simp_all add: word_le_nat_alt P2V_def)
qed

text \<open>No page is handed out twice, and exhausting the list makes \<^verbatim>\<open>kalloc\<close> answer 0.\<close>

lemma kalloc_no_double_allocation:
  assumes "kmem_ok s ps"
  shows "returns (kpages.alloc_many (length ps) s) (\<lambda>(qs, s'). distinct qs \<and> 0 \<notin> set qs \<and>
    kalloc s' = Ret (0, s'))"
  using kpages.alloc_many_takes [OF assms, of "length ps"] kpages.free_pages_distinct [OF assms]
    kpages.free_pages_ok [OF assms] kpages.alloc_none
  by (fastforce simp: returns_iff)

end
