(* ===== verification/Proc.thy ===== *)
theory Proc
  imports Kalloc
begin

text \<open>
  The process table of \<^verbatim>\<open>proc.h\<close> and the part of \<^verbatim>\<open>proc.c\<close> that needs no file system: allocation of a
  slot, the priority scheduler, giving up the CPU, sleeping and waking, killing, and the priority
  system calls, with the switch of the address space (\<^verbatim>\<open>switchuvm\<close>, \<^verbatim>\<open>switchkvm\<close> of \<^verbatim>\<open>vm.c\<close>). A pointer to
  a \<^verbatim>\<open>struct proc\<close> is its index in the table. What the rest of the system does between a \<^verbatim>\<open>swtch\<close> away
  from a thread and its resumption is an argument of the operations that switch.
\<close>

section \<open>State\<close>

datatype procstate = UNUSED | EMBRYO | SLEEPING | RUNNABLE | RUNNING | ZOMBIE

abbreviation (input) HIGHPRIO :: int where "HIGHPRIO \<equiv> 10"
abbreviation (input) LOWPRIO :: int where "LOWPRIO \<equiv> - 10"

record kcontext =
  ctx_edi :: u32
  ctx_esi :: u32
  ctx_ebx :: u32
  ctx_ebp :: u32
  ctx_eip :: u32

record trapframe =
  tf_edi :: u32
  tf_esi :: u32
  tf_ebp :: u32
  tf_oesp :: u32
  tf_ebx :: u32
  tf_edx :: u32
  tf_ecx :: u32
  tf_eax :: u32
  tf_gs :: u16
  tf_fs :: u16
  tf_es :: u16
  tf_ds :: u16
  tf_trapno :: u32
  tf_err :: u32
  tf_eip :: u32
  tf_cs :: u16
  tf_eflags :: u32
  tf_esp :: u32
  tf_ss :: u16

text \<open>
  A sleep channel is the address of a kernel object: one name per object the kernel sleeps on, and
  \<open>NoChan\<close> for the null pointer.
\<close>

datatype chan =
    NoChan | ChanProc nat | ChanTicks | ChanLog | ChanSleeplock lockid | ChanBuf nat
  | ChanPipeRead u32 | ChanPipeWrite u32 | ChanInput

text \<open>
  \<open>p_tf\<close> and \<open>p_context\<close> are the contents of the trap frame and the saved context on the kernel stack;
  \<open>p_tf_addr\<close> and \<open>p_context_addr\<close> are the pointers the C fields hold.
\<close>

record proc =
  p_sz :: u32
  p_pgdir :: u32
  p_kstack :: u32
  p_state :: procstate
  p_pid :: int
  p_parent :: "nat option"
  p_tf_addr :: u32
  p_tf :: trapframe
  p_context_addr :: u32
  p_context :: kcontext
  p_chan :: chan
  p_killed :: bool
  p_ofile :: "nat option list"
  p_cwd :: "nat option"
  p_name :: string
  p_exit_status :: int
  p_priority :: int
  p_stack_psize :: int

text \<open>
  \<open>cr3\<close> is the page-table register of the executing CPU; \<open>kpgdir\<close> the kernel-only page table;
  \<open>sym_forkret\<close>, \<open>sym_trapret\<close>, \<open>sym_ts\<close> and \<open>sym_data\<close> are addresses the linker fixes (the two return
  paths, the task state of CPU \<open>i\<close>, and the end of the kernel's read-only part).
\<close>

record proc_state = kmem_state +
  procs :: "proc list"
  initproc :: "nat option"
  nextpid :: int
  ticks :: u32
  cr3 :: u32
  kpgdir :: u32
  sym_forkret :: u32
  sym_trapret :: u32
  sym_ts :: "nat \<Rightarrow> u32"
  sym_data :: u32

definition upd_proc :: "nat \<Rightarrow> (proc \<Rightarrow> proc) \<Rightarrow> 'a proc_state_scheme \<Rightarrow> 'a proc_state_scheme" where
  "upd_proc i f s = s\<lparr>procs := (procs s)[i := f (procs s ! i)]\<rparr>"

definition upd_cpu :: "nat \<Rightarrow> (cpu \<Rightarrow> cpu) \<Rightarrow> 'a proc_state_scheme \<Rightarrow> 'a proc_state_scheme" where
  "upd_cpu i f s = s\<lparr>cpus := (cpus s)[i := f (cpus s ! i)]\<rparr>"

definition parent_chan :: "nat option \<Rightarrow> chan" where
  "parent_chan p = (case p of None \<Rightarrow> NoChan | Some i \<Rightarrow> ChanProc i)"

section \<open>The current process and slot allocation\<close>

definition pinit :: "'a proc_state_scheme \<Rightarrow> 'a proc_state_scheme" where
  "pinit s = initlock PtableLock ''ptable'' s"

definition myproc :: "'a proc_state_scheme \<Rightarrow> (nat option \<times> 'a proc_state_scheme) outcome" where
  "myproc s =
     bindO (pushcli s) (\<lambda>s. bindO (mycpu s) (\<lambda>c.
       let p = cpu_proc (cpus s ! c) in
       bindO (popcli s) (\<lambda>s. Ret (p, s))))"

text \<open>
  \<^verbatim>\<open>myproc()->f\<close>: without a current process the access faults at an address near 0 in kernel mode,
  which ends in \<^verbatim>\<open>panic("trap")\<close>.
\<close>

definition curproc :: "'a proc_state_scheme \<Rightarrow> (nat \<times> 'a proc_state_scheme) outcome" where
  "curproc s = bindO (myproc s) (\<lambda>(p, s). case p of None \<Rightarrow> Panic ''trap'' | Some i \<Rightarrow> Ret (i, s))"

definition sizeof_trapframe :: u32 where "sizeof_trapframe = 76"

definition sizeof_context :: u32 where "sizeof_context = 20"

definition allocproc :: "'a proc_state_scheme \<Rightarrow> (nat option \<times> 'a proc_state_scheme) outcome" where
  "allocproc s =
     bindO (locked PtableLock (\<lambda>s.
         case find_index (\<lambda>p. p_state p = UNUSED) (procs s) of
           None \<Rightarrow> Ret (None, s)
         | Some i \<Rightarrow>
             Ret (Some i, (upd_proc i (\<lambda>p. p\<lparr>p_state := EMBRYO, p_pid := nextpid s\<rparr>) s)
               \<lparr>nextpid := nextpid s + 1\<rparr>)) s) (\<lambda>(np, s).
     case np of None \<Rightarrow> Ret (None, s)
     | Some i \<Rightarrow>
         bindO (kalloc s) (\<lambda>(k, s).
           let s = upd_proc i (\<lambda>p. p\<lparr>p_kstack := k\<rparr>) s in
           if k = 0 then Ret (None, upd_proc i (\<lambda>p. p\<lparr>p_state := UNUSED\<rparr>) s)
           else
             let sp = k + KSTACKSIZE;
                 sp = sp - sizeof_trapframe;
                 s = upd_proc i (\<lambda>p. p\<lparr>p_tf_addr := sp\<rparr>) s;
                 sp = sp - 4;
                 s = s\<lparr>mem := store32 (mem s) sp (sym_trapret s)\<rparr>;
                 sp = sp - sizeof_context;
                 s = upd_proc i (\<lambda>p. p\<lparr>p_context_addr := sp,
                       p_context := \<lparr>ctx_edi = 0, ctx_esi = 0, ctx_ebx = 0, ctx_ebp = 0,
                                     ctx_eip = sym_forkret s\<rparr>\<rparr>) s
             in Ret (Some i, s)))"

section \<open>Switching address spaces\<close>

definition switchkvm :: "'a proc_state_scheme \<Rightarrow> 'a proc_state_scheme" where
  "switchkvm s = s\<lparr>cr3 := V2P (kpgdir s)\<rparr>"

definition switchuvm :: "nat option \<Rightarrow> 'a proc_state_scheme \<Rightarrow> 'a proc_state_scheme outcome" where
  "switchuvm pp s =
     (case pp of None \<Rightarrow> Panic ''switchuvm: no process''
      | Some i \<Rightarrow>
          let p = procs s ! i in
          if p_kstack p = 0 then Panic ''switchuvm: no kstack''
          else if p_pgdir p = 0 then Panic ''switchuvm: no pgdir''
          else
            bindO (pushcli s) (\<lambda>s. bindO (mycpu s) (\<lambda>c.
              let s = upd_cpu c (\<lambda>k. k\<lparr>gdt := (gdt k)[SEG_TSS :=
                        (SEG16 0x9 (sym_ts s c) 103 0)\<lparr>sd_s := 0\<rparr>]\<rparr>) s;
                  s = upd_cpu c (\<lambda>k. k\<lparr>ts := \<lparr>ts_esp0 = p_kstack p + KSTACKSIZE,
                        ts_ss0 = of_nat (SEG_KDATA * 8), ts_iomb = 0xFFFF\<rparr>\<rparr>) s;
                  s = s\<lparr>cr3 := V2P (p_pgdir p)\<rparr>
              in popcli s)))"

section \<open>The scheduler\<close>

text \<open>The first scan: the highest priority of a runnable process, if one reaches \<^verbatim>\<open>LOWPRIO - 1\<close>.\<close>

fun highest_prio_scan :: "proc list \<Rightarrow> int \<times> bool \<Rightarrow> int \<times> bool" where
  "highest_prio_scan [] acc = acc"
| "highest_prio_scan (p # ps) (highest_prio, update) =
     (if p_state p \<noteq> RUNNABLE then highest_prio_scan ps (highest_prio, update)
      else if p_priority p \<ge> highest_prio then highest_prio_scan ps (p_priority p, True)
      else highest_prio_scan ps (highest_prio, update))"

definition candidate :: "int \<Rightarrow> proc \<Rightarrow> bool" where
  "candidate hp p \<longleftrightarrow> p_state p = RUNNABLE \<and> p_priority p = hp"

text \<open>
  The choice: the first process of that priority from \<^verbatim>\<open>cur\<close> to the end of the table, else from the
  start of the table up to \<^verbatim>\<open>cur\<close>.
\<close>

definition sched_choose :: "nat \<Rightarrow> proc list \<Rightarrow> nat option" where
  "sched_choose cur ps =
     (case highest_prio_scan ps (LOWPRIO - 1, False) of
        (highest_prio, update) \<Rightarrow>
          if update then
            (case find_from cur (candidate highest_prio) (drop cur ps) of
               Some i \<Rightarrow> Some i
             | None \<Rightarrow> find_from 0 (candidate highest_prio) (take cur ps))
          else None)"

text \<open>
  One iteration of the scheduler's endless loop on this CPU. \<open>run i\<close> is what happens from the \<^verbatim>\<open>swtch\<close> to
  process \<open>i\<close> until it switches back, with \<^verbatim>\<open>ptable.lock\<close> held at both ends.
\<close>

definition scheduler_iter :: "(nat \<Rightarrow> 'a proc_state_scheme \<Rightarrow> 'a proc_state_scheme outcome) \<Rightarrow>
    nat \<Rightarrow> 'a proc_state_scheme \<Rightarrow> (nat \<times> 'a proc_state_scheme) outcome" where
  "scheduler_iter run cur s =
     locked PtableLock (\<lambda>s.
       case sched_choose cur (procs s) of
         None \<Rightarrow> Ret (cur, s)
       | Some i \<Rightarrow>
           bindO (mycpu s) (\<lambda>c.
             let s = upd_cpu c (\<lambda>k. k\<lparr>cpu_proc := Some i\<rparr>) s in
             bindO (switchuvm (Some i) s) (\<lambda>s.
             let s = upd_proc i (\<lambda>p. p\<lparr>p_state := RUNNING\<rparr>) s in
             bindO (run i s) (\<lambda>s.
             let s = switchkvm s;
                 cur = (if i + 1 \<ge> NPROC then 0 else i + 1);
                 s = upd_cpu c (\<lambda>k. k\<lparr>cpu_proc := None\<rparr>) s
             in Ret (cur, s))))) (sti s)"

text \<open>\<open>n\<close> iterations of the loop.\<close>

primrec scheduler_loop :: "nat \<Rightarrow> (nat \<Rightarrow> 'a proc_state_scheme \<Rightarrow> 'a proc_state_scheme outcome) \<Rightarrow>
    nat \<Rightarrow> 'a proc_state_scheme \<Rightarrow> (nat \<times> 'a proc_state_scheme) outcome" where
  "scheduler_loop 0 run cur s = Ret (cur, s)"
| "scheduler_loop (Suc n) run cur s = bindO (scheduler_iter run cur s) (\<lambda>(cur, s). scheduler_loop n run cur s)"

definition scheduler_start :: "'a proc_state_scheme \<Rightarrow> (nat \<times> 'a proc_state_scheme) outcome" where
  "scheduler_start s =
     bindO (locked PtableLock (\<lambda>s. Ret (0, s)) s) (\<lambda>(cur, s).
     bindO (mycpu s) (\<lambda>c. Ret (cur, upd_cpu c (\<lambda>k. k\<lparr>cpu_proc := None\<rparr>) s)))"

section \<open>Giving up the CPU\<close>

text \<open>
  \<open>resume\<close> stands for everything from \<^verbatim>\<open>swtch(&p->context, mycpu()->scheduler)\<close> until this thread is
  switched back to.
\<close>

definition sched :: "('a proc_state_scheme \<Rightarrow> 'a proc_state_scheme outcome) \<Rightarrow>
    'a proc_state_scheme \<Rightarrow> 'a proc_state_scheme outcome" where
  "sched resume s =
     bindO (myproc s) (\<lambda>(pp, s).
     bindO (holding PtableLock s) (\<lambda>(h, s).
       if \<not> h then Panic ''sched ptable.lock''
       else bindO (mycpu s) (\<lambda>c.
         if ncli (cpus s ! c) \<noteq> 1 then Panic ''sched locks''
         else case pp of None \<Rightarrow> Panic ''trap''
         | Some p \<Rightarrow>
           if p_state (procs s ! p) = RUNNING then Panic ''sched running''
           else if readeflags_IF s then Panic ''sched interruptible''
           else
             let ie = intena (cpus s ! c) in
             bindO (resume s) (\<lambda>s. bindO (mycpu s) (\<lambda>c. Ret (upd_cpu c (\<lambda>k. k\<lparr>intena := ie\<rparr>) s))))))"

definition yield :: "('a proc_state_scheme \<Rightarrow> 'a proc_state_scheme outcome) \<Rightarrow>
    'a proc_state_scheme \<Rightarrow> 'a proc_state_scheme outcome" where
  "yield resume s =
     bindO (acquire PtableLock s) (\<lambda>s.
     bindO (curproc s) (\<lambda>(p, s).
     bindO (sched resume (upd_proc p (\<lambda>q. q\<lparr>p_state := RUNNABLE\<rparr>) s)) (\<lambda>s.
     release PtableLock s)))"

definition sleep :: "('a proc_state_scheme \<Rightarrow> 'a proc_state_scheme outcome) \<Rightarrow> chan \<Rightarrow> lockid option \<Rightarrow>
    'a proc_state_scheme \<Rightarrow> 'a proc_state_scheme outcome" where
  "sleep resume ch lk s =
     bindO (myproc s) (\<lambda>(pp, s).
       case pp of None \<Rightarrow> Panic ''sleep''
       | Some p \<Rightarrow>
         (case lk of None \<Rightarrow> Panic ''sleep without lk''
          | Some l \<Rightarrow>
            bindO (if l \<noteq> PtableLock
                   then bindO (acquire PtableLock s) (\<lambda>s. release l s) else Ret s) (\<lambda>s.
            bindO (sched resume (upd_proc p (\<lambda>q. q\<lparr>p_chan := ch, p_state := SLEEPING\<rparr>) s)) (\<lambda>s.
            let s = upd_proc p (\<lambda>q. q\<lparr>p_chan := NoChan\<rparr>) s in
            if l \<noteq> PtableLock
            then bindO (release PtableLock s) (\<lambda>s. acquire l s) else Ret s))))"

section \<open>Waking and killing\<close>

definition wakeup1 :: "chan \<Rightarrow> 'a proc_state_scheme \<Rightarrow> 'a proc_state_scheme" where
  "wakeup1 ch s = s\<lparr>procs := map (\<lambda>p.
     if p_state p = SLEEPING \<and> p_chan p = ch then p\<lparr>p_state := RUNNABLE\<rparr> else p) (procs s)\<rparr>"

definition wakeup :: "chan \<Rightarrow> 'a proc_state_scheme \<Rightarrow> 'a proc_state_scheme outcome" where
  "wakeup ch s =
     bindO (locked PtableLock (\<lambda>s. Ret ((), wakeup1 ch s)) s) (\<lambda>(_, s). Ret s)"

definition kill :: "int \<Rightarrow> 'a proc_state_scheme \<Rightarrow> (int \<times> 'a proc_state_scheme) outcome" where
  "kill pid s =
     locked PtableLock (\<lambda>s.
       case find_index (\<lambda>p. p_pid p = pid) (procs s) of
         None \<Rightarrow> Ret (- 1, s)
       | Some i \<Rightarrow>
           let s = upd_proc i (\<lambda>p. p\<lparr>p_killed := True\<rparr>) s;
               s = (if p_state (procs s ! i) = SLEEPING
                    then upd_proc i (\<lambda>p. p\<lparr>p_state := RUNNABLE\<rparr>) s else s)
           in Ret (0, s)) s"

section \<open>Priorities\<close>

definition setpriority :: "('a proc_state_scheme \<Rightarrow> 'a proc_state_scheme outcome) \<Rightarrow> int \<Rightarrow> int \<Rightarrow>
    'a proc_state_scheme \<Rightarrow> (int \<times> 'a proc_state_scheme) outcome" where
  "setpriority resume pid priority s =
     (if priority < LOWPRIO \<or> priority > HIGHPRIO then Ret (- 1, s)
      else
        bindO (if pid = 0 then bindO (curproc s) (\<lambda>(p, s). Ret (p_pid (procs s ! p), s)) else Ret (pid, s))
          (\<lambda>(pid, s).
        bindO (locked PtableLock (\<lambda>s.
            case find_index (\<lambda>p. p_pid p = pid) (procs s) of
              None \<Rightarrow> Ret (False, s)
            | Some i \<Rightarrow> Ret (True, upd_proc i (\<lambda>p. p\<lparr>p_priority := priority\<rparr>) s)) s) (\<lambda>(found, s).
        if found then bindO (yield resume s) (\<lambda>s. Ret (0, s)) else Ret (- 1, s))))"

text \<open>
  \<^verbatim>\<open>getpriority(pid, priority)\<close> assigns the address of the process's priority to its own pointer
  parameter; the caller's word, here \<open>out\<close>, is left as it was. The result is the status and that word.
\<close>

definition getpriority :: "int \<Rightarrow> int \<Rightarrow> 'a proc_state_scheme \<Rightarrow>
    ((int \<times> int) \<times> 'a proc_state_scheme) outcome" where
  "getpriority pid out s =
     bindO (if pid = 0 then bindO (curproc s) (\<lambda>(p, s). Ret (p_pid (procs s ! p), s)) else Ret (pid, s))
       (\<lambda>(pid, s).
     locked PtableLock (\<lambda>s.
       case find_index (\<lambda>p. p_pid p = pid) (procs s) of
         None \<Rightarrow> Ret ((- 1, out), s)
       | Some i \<Rightarrow> Ret ((0, out), s)) s)"

section \<open>Critical sections over the table\<close>

lemma acquired_proc_sel [simp]:
  "mem (acquired l s) = mem s" "kmem_use_lock (acquired l s) = kmem_use_lock s"
  "kmem_freelist (acquired l s) = kmem_freelist s" "kernel_end (acquired l s) = kernel_end s"
  by (simp_all add: acquired_def pushed_def)

lemma acquired_procs_sel [simp]:
  "procs (acquired l s) = procs s" "initproc (acquired l s) = initproc s"
  "nextpid (acquired l s) = nextpid s" "ticks (acquired l s) = ticks s" "cr3 (acquired l s) = cr3 s"
  "kpgdir (acquired l s) = kpgdir s" "sym_forkret (acquired l s) = sym_forkret s"
  "sym_trapret (acquired l s) = sym_trapret s" "sym_ts (acquired l s) = sym_ts s"
  "sym_data (acquired l s) = sym_data s"
  by (simp_all add: acquired_def pushed_def)

lemma locked_table:
  assumes "cpu_ok s" and "lock_free l s"
    and "f (acquired l s) = Ret (r, (acquired l s)\<lparr>procs := ps, nextpid := n\<rparr>)"
  shows "locked l f s = Ret (r, s\<lparr>procs := ps, nextpid := n\<rparr>)"
proof -
  have "locked l f s = bindO (f (acquired l s)) (\<lambda>(r, t). Ret (r, restored s t))"
    by (rule locked_eq [OF assms(1,2)]) (auto simp: assms(3))
  then show ?thesis
    unfolding assms(3) by (simp add: restored_def acquired_def pushed_def)
qed

lemma myproc_ok:
  assumes "cpu_ok s"
  shows "myproc s = Ret (cpu_proc (cpus s ! me s), s)"
proof -
  have "mycpu (pushed s) = Ret (me s)"
    using assms by (simp add: mycpu_ok pushed_ok me_pushed)
  moreover have "popcli (pushed s) = Ret s"
    using popcli_pushed [OF assms, of "pushed s"] by (simp add: pushed_def)
  moreover have "cpu_proc (cpus (pushed s) ! me s) = cpu_proc (cpus s ! me s)"
    using cpu_ok_me [OF assms] by (simp add: pushed_def)
  ultimately show ?thesis by (simp add: myproc_def pushcli_ok assms Let_def)
qed

lemma curproc_ok:
  "cpu_ok s \<Longrightarrow> cpu_proc (cpus s ! me s) = Some i \<Longrightarrow> curproc s = Ret (i, s)"
  by (simp add: curproc_def myproc_ok)

section \<open>The scheduler's choice\<close>

lemma highest_prio_scan_spec:
  assumes "highest_prio_scan ps (h0, u0) = (h, u)"
  shows "h0 \<le> h \<and> (\<forall>p\<in>set ps. p_state p = RUNNABLE \<longrightarrow> p_priority p \<le> h) \<and>
    (u \<longleftrightarrow> u0 \<or> (\<exists>p\<in>set ps. p_state p = RUNNABLE \<and> h0 \<le> p_priority p)) \<and>
    (h = h0 \<or> (\<exists>p\<in>set ps. candidate h p)) \<and>
    (u \<and> \<not> u0 \<longrightarrow> (\<exists>p\<in>set ps. candidate h p))"
  using assms
proof (induction ps arbitrary: h0 u0)
  case Nil
  then show ?case by simp
next
  case (Cons p ps)
  show ?case
  proof (cases "p_state p = RUNNABLE \<and> h0 \<le> p_priority p")
    case True
    then have "highest_prio_scan ps (p_priority p, True) = (h, u)" using Cons.prems by simp
    from Cons.IH [OF this] True show ?thesis by (auto simp: candidate_def)
  next
    case False
    then have "highest_prio_scan ps (h0, u0) = (h, u)"
      using Cons.prems by (cases "p_state p = RUNNABLE") auto
    from Cons.IH [OF this] False show ?thesis by auto
  qed
qed

text \<open>How far index \<open>i\<close> lies after \<open>cur\<close>, going round a table of \<open>n\<close> entries.\<close>

definition ring_dist :: "nat \<Rightarrow> nat \<Rightarrow> nat \<Rightarrow> nat" where
  "ring_dist n cur i = (if cur \<le> i then i - cur else n - cur + i)"

lemma sched_choose_Some:
  assumes "sched_choose cur ps = Some i" and "cur \<le> length ps"
  shows "i < length ps \<and> p_state (ps ! i) = RUNNABLE \<and>
    (\<forall>p\<in>set ps. p_state p = RUNNABLE \<longrightarrow> p_priority p \<le> p_priority (ps ! i)) \<and>
    (\<forall>j<length ps. p_state (ps ! j) = RUNNABLE \<longrightarrow> p_priority (ps ! j) = p_priority (ps ! i) \<longrightarrow>
       ring_dist (length ps) cur i \<le> ring_dist (length ps) cur j)"
proof -
  obtain h u where hu: "highest_prio_scan ps (LOWPRIO - 1, False) = (h, u)" by force
  note spec = highest_prio_scan_spec [OF hu]
  have u: u using assms(1) hu by (auto simp: sched_choose_def split: if_splits)
  have cases: "find_from cur (candidate h) (drop cur ps) = Some i \<or>
     find_from cur (candidate h) (drop cur ps) = None \<and>
     find_from 0 (candidate h) (take cur ps) = Some i"
    using assms(1) hu u by (auto simp: sched_choose_def split: option.splits)
  have res: "i < length ps \<and> candidate h (ps ! i) \<and>
    (\<forall>j<length ps. candidate h (ps ! j) \<longrightarrow> ring_dist (length ps) cur i \<le> ring_dist (length ps) cur j)"
    using cases
  proof
    assume "find_from cur (candidate h) (drop cur ps) = Some i"
    from find_from_Some [OF this] assms(2)
    have i: "cur \<le> i" "i < length ps" "candidate h (ps ! i)"
      and before: "\<forall>j<i - cur. \<not> candidate h (ps ! (cur + j))"
      by (auto simp: algebra_simps)
    have "i \<le> j" if "cur \<le> j" "candidate h (ps ! j)" for j
    proof (rule ccontr)
      assume "\<not> i \<le> j"
      then have "j - cur < i - cur" using that(1) by simp
      then show False using before that by fastforce
    qed
    then show ?thesis using i by (auto simp: ring_dist_def intro!: diff_le_mono)
  next
    assume "find_from cur (candidate h) (drop cur ps) = None \<and>
      find_from 0 (candidate h) (take cur ps) = Some i"
    then have none: "\<forall>x\<in>set (drop cur ps). \<not> candidate h x"
      and some: "find_from 0 (candidate h) (take cur ps) = Some i"
      by (auto simp: find_from_None)
    from find_from_Some [OF some] have i: "i < cur" "i < length ps" "candidate h (ps ! i)"
      and before: "\<forall>j<i. \<not> candidate h (ps ! j)"
      by auto
    have "j < cur" if "j < length ps" "candidate h (ps ! j)" for j
    proof (rule ccontr)
      assume "\<not> j < cur"
      then have "ps ! j \<in> set (drop cur ps)" using nth_mem [of "j - cur" "drop cur ps"] that by simp
      then show False using none that(2) by blast
    qed
    moreover have "i \<le> j" if "candidate h (ps ! j)" for j
      using before that by (metis not_less)
    ultimately show ?thesis using i by (fastforce simp: ring_dist_def)
  qed
  then have "p_priority (ps ! i) = h" by (simp add: candidate_def)
  then show ?thesis using res spec by (auto simp: candidate_def)
qed

lemma sched_choose_None:
  assumes "cur \<le> length ps"
  shows "sched_choose cur ps = None \<longleftrightarrow>
    (\<forall>p\<in>set ps. p_state p = RUNNABLE \<longrightarrow> p_priority p < LOWPRIO - 1)"
proof -
  obtain h u where hu: "highest_prio_scan ps (LOWPRIO - 1, False) = (h, u)" by force
  note spec = highest_prio_scan_spec [OF hu]
  show ?thesis
  proof (cases u)
    case False
    then have "sched_choose cur ps = None" using hu by (simp add: sched_choose_def)
    moreover have "\<forall>p\<in>set ps. p_state p = RUNNABLE \<longrightarrow> p_priority p < LOWPRIO - 1"
      using spec False by force
    ultimately show ?thesis by simp
  next
    case True
    then obtain p where p: "p \<in> set ps" "candidate h p" using spec by auto
    then have "p \<in> set (take cur ps) \<or> p \<in> set (drop cur ps)"
      by (metis UnE append_take_drop_id set_append)
    then have "find_from cur (candidate h) (drop cur ps) \<noteq> None \<or>
        find_from 0 (candidate h) (take cur ps) \<noteq> None"
      unfolding find_from_None using p(2) by blast
    then have "sched_choose cur ps \<noteq> None"
      using hu True by (auto simp: sched_choose_def split: option.splits)
    moreover have "p_state p = RUNNABLE" "LOWPRIO - 1 \<le> p_priority p"
      using p spec by (auto simp: candidate_def)
    ultimately show ?thesis using p(1) by force
  qed
qed

section \<open>Bounded waiting\<close>

section \<open>The table invariant\<close>

text \<open>
  \<^verbatim>\<open>nextpid\<close> is a C \<^verbatim>\<open>int\<close> counted up from 1; the model keeps it as an integer, so it speaks of the runs
  before the signed overflow after $2^{31}$ allocations, which C leaves undefined.
\<close>

definition slot_ok :: "int \<Rightarrow> proc \<Rightarrow> bool" where
  "slot_ok n p \<longleftrightarrow> 0 \<le> p_pid p \<and> p_pid p < n \<and> (p_state p \<noteq> UNUSED \<longrightarrow> 0 < p_pid p) \<and>
     LOWPRIO \<le> p_priority p \<and> p_priority p \<le> HIGHPRIO"

definition table_ok :: "int \<Rightarrow> proc list \<Rightarrow> bool" where
  "table_ok n ps \<longleftrightarrow> length ps = NPROC \<and> 0 < n \<and> (\<forall>p\<in>set ps. slot_ok n p) \<and>
     (\<forall>i<NPROC. \<forall>j<NPROC. i \<noteq> j \<longrightarrow> p_pid (ps ! i) = p_pid (ps ! j) \<longrightarrow> p_pid (ps ! i) = 0)"

definition ptable_ok :: "'a proc_state_scheme \<Rightarrow> bool" where
  "ptable_ok s \<longleftrightarrow> table_ok (nextpid s) (procs s)"

lemma table_okD:
  assumes "table_ok n ps"
  shows "length ps = NPROC" "0 < n" "i < NPROC \<Longrightarrow> slot_ok n (ps ! i)"
  using assms by (simp_all add: table_ok_def)

lemma slot_ok_mono: "slot_ok n p \<Longrightarrow> n \<le> m \<Longrightarrow> slot_ok m p"
  by (auto simp: slot_ok_def)

lemma table_ok_update:
  assumes "table_ok n ps" and "n \<le> m" and "slot_ok m p"
    and "\<And>j. j < NPROC \<Longrightarrow> j \<noteq> i \<Longrightarrow> p_pid p = p_pid (ps ! j) \<Longrightarrow> p_pid p = 0"
  shows "table_ok m (ps[i := p])"
proof -
  have len: "length ps = NPROC" using assms(1) by (rule table_okD)
  have "slot_ok m q" if q: "q \<in> set (ps[i := p])" for q
  proof -
    have "q = p \<or> q \<in> set ps" using q set_update_subset_insert [of ps i p] by blast
    then show ?thesis using assms(1-3) slot_ok_mono by (auto simp: table_ok_def)
  qed
  moreover have "p_pid (ps[i := p] ! k) = 0"
    if kj: "k < NPROC" "j < NPROC" "k \<noteq> j" "p_pid (ps[i := p] ! k) = p_pid (ps[i := p] ! j)" for k j
  proof (cases "k = i \<or> j = i")
    case True
    then show ?thesis using kj assms(4) [of j] assms(4) [of k] len by (elim disjE) simp_all
  next
    case False
    then have "p_pid (ps ! k) = p_pid (ps ! j)" using kj(4) by simp
    then have "p_pid (ps ! k) = 0" using assms(1) kj(1-3) unfolding table_ok_def by blast
    then show ?thesis using False by simp
  qed
  ultimately show ?thesis using assms(1,2) by (auto simp: table_ok_def)
qed

lemma table_ok_keep_pid:
  assumes "table_ok n ps" and "p_pid p = p_pid (ps ! i)" and "slot_ok n p"
  shows "table_ok n (ps[i := p])"
proof (cases "i < NPROC")
  case True
  then show ?thesis
    using assms by (intro table_ok_update [OF assms(1)]) (auto simp: table_ok_def)
next
  case False
  then show ?thesis using assms(1) by (simp add: table_ok_def list_update_beyond)
qed

lemma upd_proc_sel [simp]:
  "procs (upd_proc i f s) = (procs s)[i := f (procs s ! i)]" "nextpid (upd_proc i f s) = nextpid s"
  "kmem_freelist (upd_proc i f s) = kmem_freelist s" "mem (upd_proc i f s) = mem s"
  "sym_trapret (upd_proc i f s) = sym_trapret s" "sym_forkret (upd_proc i f s) = sym_forkret s"
  "lapicid (upd_proc i f s) = lapicid s" "eflags (upd_proc i f s) = eflags s"
  "cpus (upd_proc i f s) = cpus s" "locks (upd_proc i f s) = locks s"
  "kernel_end (upd_proc i f s) = kernel_end s" "cr3 (upd_proc i f s) = cr3 s"
  "kpgdir (upd_proc i f s) = kpgdir s" "initproc (upd_proc i f s) = initproc s"
  "sym_ts (upd_proc i f s) = sym_ts s" "ticks (upd_proc i f s) = ticks s"
  "kmem_use_lock (upd_proc i f s) = kmem_use_lock s"
  by (simp_all add: upd_proc_def)

section \<open>What the operations do\<close>

text \<open>A machine with one processor and an empty process table.\<close>

definition zero_trapframe :: trapframe where
  "zero_trapframe = \<lparr>tf_edi = 0, tf_esi = 0, tf_ebp = 0, tf_oesp = 0, tf_ebx = 0, tf_edx = 0,
     tf_ecx = 0, tf_eax = 0, tf_gs = 0, tf_fs = 0, tf_es = 0, tf_ds = 0, tf_trapno = 0, tf_err = 0,
     tf_eip = 0, tf_cs = 0, tf_eflags = 0, tf_esp = 0, tf_ss = 0\<rparr>"

definition zero_proc :: proc where
  "zero_proc = \<lparr>p_sz = 0, p_pgdir = 0, p_kstack = 0, p_state = UNUSED, p_pid = 0, p_parent = None,
     p_tf_addr = 0, p_tf = zero_trapframe, p_context_addr = 0,
     p_context = \<lparr>ctx_edi = 0, ctx_esi = 0, ctx_ebx = 0, ctx_ebp = 0, ctx_eip = 0\<rparr>,
     p_chan = NoChan, p_killed = False, p_ofile = replicate NOFILE None, p_cwd = None,
     p_name = [], p_exit_status = 0, p_priority = 0, p_stack_psize = 0\<rparr>"

definition boot_proc :: proc_state where
  "boot_proc = kmem_state.extend boot_kmem
     \<lparr>procs = replicate NPROC zero_proc, initproc = None, nextpid = 1, ticks = 0, cr3 = 0,
      kpgdir = 0, sym_forkret = 0x80104000, sym_trapret = 0x80105000, sym_ts = (\<lambda>_. 0),
      sym_data = 0x80108000\<rparr>"

lemma boot_proc_ok:
  "cpu_ok boot_proc" "lock_free l boot_proc" "ptable_ok boot_proc"
  by (simp_all add: boot_proc_def boot_kmem_def boot_cpu_def kmem_state.defs cpu_ok_def lock_free_def
      find_index_def readeflags_IF_def ptable_ok_def table_ok_def slot_ok_def zero_proc_def)

lemma lock_free_upd [simp]:
  "lock_free l (s\<lparr>procs := ps\<rparr>) = lock_free l s" "lock_free l (s\<lparr>nextpid := n\<rparr>) = lock_free l s"
  "cpu_ok (s\<lparr>procs := ps\<rparr>) = cpu_ok s" "cpu_ok (s\<lparr>nextpid := n\<rparr>) = cpu_ok s"
  "lock_free l (upd_proc i f s) = lock_free l s" "cpu_ok (upd_proc i f s) = cpu_ok s"
  for s :: "'a proc_state_scheme"
  by (simp_all add: lock_free_def) (rule cpu_ok_cong; simp)+

lemma lock_free_acquired [simp]: "lock_free l (acquired k s) \<longleftrightarrow> l \<noteq> k \<and> lock_free l s"
  by (auto simp: lock_free_def acquired_def pushed_def)

lemma wakeup1_sel [simp]:
  "lapicid (wakeup1 ch s) = lapicid s" "eflags (wakeup1 ch s) = eflags s" "cpus (wakeup1 ch s) = cpus s"
  "locks (wakeup1 ch s) = locks s" "mem (wakeup1 ch s) = mem s" "nextpid (wakeup1 ch s) = nextpid s"
  "kmem_freelist (wakeup1 ch s) = kmem_freelist s" "kernel_end (wakeup1 ch s) = kernel_end s"
  "cr3 (wakeup1 ch s) = cr3 s" "initproc (wakeup1 ch s) = initproc s" "ticks (wakeup1 ch s) = ticks s"
  "length (procs (wakeup1 ch s)) = length (procs s)" "proc_state.more (wakeup1 ch s) = proc_state.more s"
  "lock_free l (wakeup1 ch s) = lock_free l s"
  by (simp_all add: wakeup1_def)

lemma wakeup1_ok [simp]: "cpu_ok (wakeup1 ch s) = cpu_ok s"
  by (rule cpu_ok_cong) simp_all

lemma nth_wakeup1:
  "i < length (procs s) \<Longrightarrow> procs (wakeup1 ch s) ! i =
     (if p_state (procs s ! i) = SLEEPING \<and> p_chan (procs s ! i) = ch
      then (procs s ! i)\<lparr>p_state := RUNNABLE\<rparr> else procs s ! i)"
  by (simp add: wakeup1_def)

lemma wakeup_eq:
  assumes "cpu_ok s" and "lock_free PtableLock s"
  shows "wakeup ch s = Ret (wakeup1 ch s)"
proof -
  have "locked PtableLock (\<lambda>s. Ret ((), wakeup1 ch s)) s
      = Ret ((), s\<lparr>procs := procs (wakeup1 ch s), nextpid := nextpid s\<rparr>)"
    by (rule locked_table [OF assms]) (simp add: wakeup1_def acquired_def pushed_def)
  then show ?thesis by (simp add: wakeup_def wakeup1_def)
qed

definition embryo :: "nat \<Rightarrow> 'a proc_state_scheme \<Rightarrow> proc" where
  "embryo i s = (procs s ! i)\<lparr>p_state := EMBRYO, p_pid := nextpid s\<rparr>"

lemma allocproc_eq:
  assumes "cpu_ok s" and "lock_free PtableLock s" and "lock_free KmemLock s"
  shows "allocproc s = (case find_index (\<lambda>p. p_state p = UNUSED) (procs s) of
     None \<Rightarrow> Ret (None, s)
   | Some i \<Rightarrow> let k = kmem_freelist s in
       if k = 0 then Ret (None, s\<lparr>nextpid := nextpid s + 1,
         procs := (procs s)[i := (embryo i s)\<lparr>p_kstack := 0, p_state := UNUSED\<rparr>]\<rparr>)
       else Ret (Some i, s\<lparr>nextpid := nextpid s + 1, kmem_freelist := load32 (mem s) k,
         mem := store32 (mem s) (k + 4016) (sym_trapret s),
         procs := (procs s)[i := (embryo i s)\<lparr>p_kstack := k, p_tf_addr := k + 4020,
           p_context_addr := k + 3996,
           p_context := \<lparr>ctx_edi = 0, ctx_esi = 0, ctx_ebx = 0, ctx_ebp = 0,
                         ctx_eip = sym_forkret s\<rparr>\<rparr>]\<rparr>))"
proof (cases "find_index (\<lambda>p. p_state p = UNUSED) (procs s)")
  case None
  have "locked PtableLock (\<lambda>s.
         case find_index (\<lambda>p. p_state p = UNUSED) (procs s) of
           None \<Rightarrow> Ret (None, s)
         | Some i \<Rightarrow>
             Ret (Some i, (upd_proc i (\<lambda>p. p\<lparr>p_state := EMBRYO, p_pid := nextpid s\<rparr>) s)
               \<lparr>nextpid := nextpid s + 1\<rparr>)) s = Ret (None, s\<lparr>procs := procs s, nextpid := nextpid s\<rparr>)"
    using None by (intro locked_table [OF assms(1,2)]) (simp add: acquired_def pushed_def)
  then show ?thesis using None by (simp add: allocproc_def)
next
  case (Some i)
  then have i: "i < length (procs s)" using find_index_Some by metis
  let ?s = "s\<lparr>procs := (procs s)[i := embryo i s], nextpid := nextpid s + 1\<rparr>"
  have l: "locked PtableLock (\<lambda>s.
         case find_index (\<lambda>p. p_state p = UNUSED) (procs s) of
           None \<Rightarrow> Ret (None, s)
         | Some i \<Rightarrow>
             Ret (Some i, (upd_proc i (\<lambda>p. p\<lparr>p_state := EMBRYO, p_pid := nextpid s\<rparr>) s)
               \<lparr>nextpid := nextpid s + 1\<rparr>)) s = Ret (Some i, ?s)"
    using Some by (intro locked_table [OF assms(1,2)]) (simp add: upd_proc_def embryo_def)
  have k: "kalloc ?s = Ret (kmem_freelist s, ?s\<lparr>kmem_freelist :=
      if kmem_freelist s \<noteq> 0 then load32 (mem s) (kmem_freelist s) else 0\<rparr>)"
    using kalloc_eq [of ?s] assms by simp
  show ?thesis
    using i by (simp add: allocproc_def l k Some Let_def upd_proc_def sizeof_trapframe_def
        sizeof_context_def add.commute [of "kmem_freelist s"])
qed

lemma embryo_slot_ok:
  assumes "table_ok (nextpid s) (procs s)" and "i < NPROC"
  shows "slot_ok (nextpid s + 1) (embryo i s)"
  using table_okD(2,3) [OF assms(1)] assms(2) by (auto simp: slot_ok_def embryo_def)

lemma table_ok_embryo:
  assumes "table_ok (nextpid s) (procs s)" and "i < NPROC"
    and "p_pid p = nextpid s" and "p_priority p = p_priority (procs s ! i)"
  shows "table_ok (nextpid s + 1) ((procs s)[i := p])"
proof (rule table_ok_update [OF assms(1)])
  show "slot_ok (nextpid s + 1) p"
    using embryo_slot_ok [OF assms(1,2)] table_okD(2) [OF assms(1)] assms(3,4)
    by (simp add: slot_ok_def embryo_def)
  show "p_pid p = 0" if "j < NPROC" "j \<noteq> i" "p_pid p = p_pid (procs s ! j)" for j
    using table_okD(3) [OF assms(1) that(1)] that(3) assms(3) by (simp add: slot_ok_def)
qed simp

text \<open>Switching to a process's address space.\<close>


lemma switchuvm_ok:
  assumes "cpu_ok s" and "p_kstack (procs s ! i) \<noteq> 0" and "p_pgdir (procs s ! i) \<noteq> 0"
  shows "\<exists>c. apicid c = apicid (cpus s ! me s) \<and> ncli c = ncli (cpus s ! me s) \<and>
    intena c = intena (cpus s ! me s) \<and> cpu_proc c = cpu_proc (cpus s ! me s) \<and>
    ts_esp0 (ts c) = p_kstack (procs s ! i) + KSTACKSIZE \<and>
    switchuvm (Some i) s = Ret (s\<lparr>cpus := (cpus s)[me s := c], cr3 := V2P (p_pgdir (procs s ! i))\<rparr>)"
proof -
  let ?p = "procs s ! i" and ?k = "cpus s ! me s"
  let ?c = "?k\<lparr>gdt := (gdt ?k)[SEG_TSS := (SEG16 0x9 (sym_ts s (me s)) 103 0)\<lparr>sd_s := 0\<rparr>],
    ts := \<lparr>ts_esp0 = p_kstack ?p + KSTACKSIZE, ts_ss0 = of_nat (SEG_KDATA * 8), ts_iomb = 0xFFFF\<rparr>\<rparr>"
  let ?t = "s\<lparr>cpus := (cpus s)[me s := ?c], cr3 := V2P (p_pgdir ?p)\<rparr>"
  note me = cpu_ok_me [OF assms(1)]
  have met: "me ?t = me s" by (simp add: me_def find_cpu_update)
  have okt: "cpu_ok ?t"
    using me assms(1) by (simp add: cpu_ok_def find_cpu_update readeflags_IF_def)
  have m: "mycpu (pushed s) = Ret (me s)"
    using assms(1) by (simp add: mycpu_ok pushed_ok me_pushed)
  let ?w = "(pushed s)\<lparr>cpus := (cpus s)[me s := ?k\<lparr>ncli := ncli ?k + 1, gdt := gdt ?c, ts := ts ?c\<rparr>],
      cr3 := V2P (p_pgdir ?p)\<rparr>"
  have "cpus ?w = cpus (pushed ?t)"
    unfolding pushed_def met using me(2) by simp (rule arg_cong [where f = "\<lambda>c. _[_ := c]"], simp add: cpu.equality)
  then have "popcli ?w = Ret (?w\<lparr>eflags := eflags ?t, cpus := cpus ?t\<rparr>)"
    by (intro popcli_pushed [OF okt]) (simp_all add: pushed_def)
  also have "?w\<lparr>eflags := eflags ?t, cpus := cpus ?t\<rparr> = ?t"
    by (rule proc_state.equality) (simp_all add: pushed_def)
  finally have "switchuvm (Some i) s = Ret ?t"
    using assms(2,3) me(2)
    by (simp add: switchuvm_def pushcli_ok [OF assms(1)] m Let_def upd_cpu_def) (simp add: pushed_def)
  then show ?thesis by (intro exI [of _ ?c]) simp
qed

lemma sti_sel [simp]: "procs (sti s) = procs s" "locks (sti s) = locks s"
  by (simp_all add: sti_def)

lemma upd_cpu_acquired:
  assumes "cpu_ok s"
  shows "cpus (upd_cpu (me (acquired l s)) (\<lambda>k. k\<lparr>cpu_proc := p\<rparr>) (acquired l s)) ! me (acquired l s)
    = (cpus s ! me s)\<lparr>ncli := ncli (cpus s ! me s) + 1, cpu_proc := p\<rparr>"
  using cpu_ok_me(2) [OF assms] unfolding me_acquired [OF assms] by (simp add: upd_cpu_def acquired_def pushed_def)

text \<open>
  One iteration up to the switch, and what it does with the state in which the process comes back: when the
  processor and lock state is the one of the switch, it moves \<^verbatim>\<open>cur\<close> on and leaves the critical section.
\<close>

lemma scheduler_iter_switches:
  assumes "cpu_ok (sti s)" and "lock_free PtableLock s" and "sched_choose cur (procs s) = Some i"
    and "i < length (procs s)" and "p_kstack (procs s ! i) \<noteq> 0" and "p_pgdir (procs s ! i) \<noteq> 0"
  shows "\<exists>t k. (\<forall>run. scheduler_iter run cur s = bindO (run i t) k) \<and>
    procs t = (procs s)[i := (procs s ! i)\<lparr>p_state := RUNNING\<rparr>] \<and>
    cr3 t = V2P (p_pgdir (procs s ! i)) \<and> cpu_proc (cpus t ! me t) = Some i \<and>
    ts_esp0 (ts (cpus t ! me t)) = p_kstack (procs s ! i) + KSTACKSIZE \<and>
    lk_locked (locks t PtableLock) \<and> lk_cpu (locks t PtableLock) = Some (me t) \<and>
    (\<forall>u. same_machine u t \<longrightarrow> (\<exists>v. k u = Ret (if i + 1 \<ge> NPROC then 0 else i + 1, v) \<and>
       cpu_ok (sti v) \<and> lock_free PtableLock v \<and> procs v = procs u))"
proof -
  let ?a = "acquired PtableLock (sti s)"
  have ok: "cpu_ok ?a" and ma: "me ?a = me (sti s)"
    using assms(1) by (simp_all add: acquired_ok me_acquired)
  have IF: "\<not> readeflags_IF ?a" by (simp add: acquired_def readeflags_IF_def pushed_def)
  have m: "mycpu ?a = Ret (me ?a)" by (rule mycpu_ok [OF ok IF])
  let ?b = "upd_cpu (me ?a) (\<lambda>k. k\<lparr>cpu_proc := Some i\<rparr>) ?a"
  note mea = cpu_ok_me [OF ok]
  have meb: "me ?b = me ?a" by (simp add: me_def upd_cpu_def find_cpu_update)
  have okb: "cpu_ok ?b"
    using ok mea by (simp add: cpu_ok_def upd_cpu_def find_cpu_update readeflags_IF_def)
  have pb: "procs ?b = procs s" by (simp add: upd_cpu_def)
  obtain c where c: "apicid c = apicid (cpus ?b ! me ?b)" "cpu_proc c = cpu_proc (cpus ?b ! me ?b)"
      "ts_esp0 (ts c) = p_kstack (procs s ! i) + KSTACKSIZE"
    and c2: "ncli c = ncli (cpus ?b ! me ?b)" "intena c = intena (cpus ?b ! me ?b)"
    and sw: "switchuvm (Some i) ?b = Ret (?b\<lparr>cpus := (cpus ?b)[me ?b := c],
       cr3 := V2P (p_pgdir (procs s ! i))\<rparr>)"
    using switchuvm_ok [OF okb, of i] assms(5,6) by (auto simp: pb)
  let ?t = "upd_proc i (\<lambda>p. p\<lparr>p_state := RUNNING\<rparr>) (?b\<lparr>cpus := (cpus ?b)[me ?b := c],
       cr3 := V2P (p_pgdir (procs s ! i))\<rparr>)"
  let ?fin = "\<lambda>u. upd_cpu (me ?a) (\<lambda>k. k\<lparr>cpu_proc := None\<rparr>) (switchkvm u)"
  let ?k = "\<lambda>u. bindO (release PtableLock (?fin u)) (\<lambda>v. Ret (if i + 1 \<ge> NPROC then 0 else i + 1, v))"
  have lenb: "me ?b < length (cpus ?b)" by (rule cpu_ok_me [OF okb])
  have met: "me ?t = me ?b" using c(1) by (simp add: me_def find_cpu_update)
  have acq: "acquire PtableLock (sti s) = Ret ?a"
    using assms(1,2) by (intro acquire_free) (simp_all add: lock_free_def)
  have "\<forall>run. scheduler_iter run cur s = bindO (run i ?t) ?k"
    by (simp add: scheduler_iter_def locked_def acq assms(3) m sw Let_def bindO_assoc)
  moreover have "cpu_proc (cpus ?b ! me ?b) = Some i" using mea(2) meb by (simp add: upd_cpu_def)
  moreover have "\<exists>v. ?k u = Ret (if i + 1 \<ge> NPROC then 0 else i + 1, v) \<and>
      cpu_ok (sti v) \<and> lock_free PtableLock v \<and> procs v = procs u" if u: "same_machine u ?t" for u :: "'a proc_state_scheme"
  proof -
    let ?m = "me (sti s)" and ?s = "sti s"
    let ?cpu = "c\<lparr>cpu_proc := None, ncli := ncli (cpus ?s ! ?m)\<rparr>"
    let ?base = "?s\<lparr>cpus := (cpus ?s)[?m := ?cpu]\<rparr>"
    note mes = cpu_ok_me [OF assms(1)]
    have cb: "cpus ?b ! me ?b = (cpus ?s ! ?m)\<lparr>ncli := ncli (cpus ?s ! ?m) + 1, cpu_proc := Some i\<rparr>"
      unfolding meb by (rule upd_cpu_acquired [OF assms(1)])
    have cpb: "(cpus ?b)[me ?b := c] = (cpus ?s)[?m := c]"
      unfolding meb by (simp only: ma) (simp add: upd_cpu_def acquired_def pushed_def)
    have cc: "apicid c = apicid (cpus ?s ! ?m)" "ncli c = ncli (cpus ?s ! ?m) + 1" "intena c = intena (cpus ?s ! ?m)"
      using c(1) c2 unfolding cb by simp_all
    have me0: "me ?base = ?m" using cc(1) by (simp add: me_def find_cpu_update)
    have ok0: "cpu_ok ?base"
      using assms(1) mes cc by (simp add: cpu_ok_def find_cpu_update readeflags_IF_def)
    have free0: "lock_free PtableLock ?base" using assms(2) by (simp add: lock_free_def)
    have uu: "lapicid u = lapicid s" "eflags u = eflags ?a" "locks u = locks ?a" "cpus u = (cpus ?s)[?m := c]"
      using u cpb unfolding same_machine_def by (simp_all add: upd_cpu_def) (simp_all add: acquired_def pushed_def sti_def)
    have cn: "c\<lparr>cpu_proc := None, ncli := ncli (cpus ?s ! ?m) + 1\<rparr> = c\<lparr>cpu_proc := None\<rparr>"
      using cc(2) by (intro cpu.equality) simp_all
    have rel: "release PtableLock (?fin u) = Ret (restored ?base (?fin u))"
    proof (rule release_acquired [OF ok0 free0])
      show "cpus (?fin u) = cpus (acquired PtableLock ?base)"
        using uu(4) mes(2) me0 cn unfolding ma
        by (simp add: upd_cpu_def switchkvm_def acquired_def pushed_def)
      show "locks (?fin u) = locks (acquired PtableLock ?base)"
        using uu(3) me0 by (simp add: upd_cpu_def switchkvm_def acquired_def)
    qed (use uu in \<open>simp_all add: upd_cpu_def switchkvm_def acquired_def pushed_def sti_def\<close>)
    let ?v = "restored ?base (?fin u)"
    have "cpu_ok (sti ?v) = cpu_ok ?base"
      using uu(1) by (intro cpu_ok_cong) (simp_all add: sti_def restored_def upd_cpu_def switchkvm_def)
    then show ?thesis using rel ok0 free0 by (simp add: lock_free_def restored_def) (simp add: upd_cpu_def switchkvm_def)
  qed
  ultimately show ?thesis
    using assms(4) c met lenb pb meb
    by (intro exI [of _ ?t] exI [of _ ?k]) (simp add: ma, simp add: upd_cpu_def acquired_def)
qed

section \<open>Bounded waiting\<close>

text \<open>
  Process \<open>i\<close> competes at the highest priority \<open>pr\<close>: it is runnable, no runnable process has a higher priority,
  and every runnable process has its kernel stack and page table.
\<close>

definition competes :: "nat \<Rightarrow> int \<Rightarrow> 'a proc_state_scheme \<Rightarrow> bool" where
  "competes i pr s \<longleftrightarrow> length (procs s) = NPROC \<and> i < NPROC \<and> LOWPRIO \<le> pr \<and>
     p_state (procs s ! i) = RUNNABLE \<and> p_priority (procs s ! i) = pr \<and>
     (\<forall>p\<in>set (procs s). p_state p = RUNNABLE \<longrightarrow> p_priority p \<le> pr \<and> p_kstack p \<noteq> 0 \<and> p_pgdir p \<noteq> 0)"

text \<open>
  What the other processes do while they run is arbitrary as long as they come back to the scheduler
  with the processor and lock state of the switch and process \<open>i\<close> still competes.
\<close>

definition gives_back :: "nat \<Rightarrow> int \<Rightarrow> (nat \<Rightarrow> 'a proc_state_scheme \<Rightarrow> 'a proc_state_scheme outcome) \<Rightarrow> bool" where
  "gives_back i pr run \<longleftrightarrow> (\<forall>j t. j < NPROC \<and> j \<noteq> i \<and> competes i pr t \<and> p_state (procs t ! j) = RUNNING \<and>
     p_priority (procs t ! j) = pr \<and> p_kstack (procs t ! j) \<noteq> 0 \<and> p_pgdir (procs t ! j) \<noteq> 0 \<longrightarrow>
     returns (run j t) (\<lambda>u. same_machine u t \<and> competes i pr u))"

lemma competes_choice:
  assumes "competes i pr s" and "cur < NPROC"
  obtains j where "sched_choose cur (procs s) = Some j" "j < NPROC" "p_state (procs s ! j) = RUNNABLE"
    "p_priority (procs s ! j) = pr" "p_kstack (procs s ! j) \<noteq> 0" "p_pgdir (procs s ! j) \<noteq> 0"
    "ring_dist NPROC cur j \<le> ring_dist NPROC cur i"
proof -
  let ?ps = "procs s"
  have len: "length ?ps = NPROC" and i: "i < NPROC" "p_state (?ps ! i) = RUNNABLE" "p_priority (?ps ! i) = pr" "LOWPRIO \<le> pr"
    and all: "\<And>p. p \<in> set ?ps \<Longrightarrow> p_state p = RUNNABLE \<Longrightarrow> p_priority p \<le> pr \<and> p_kstack p \<noteq> 0 \<and> p_pgdir p \<noteq> 0"
    using assms(1) by (simp_all add: competes_def)
  have mem: "?ps ! i \<in> set ?ps" using i(1) len by simp
  have "sched_choose cur ?ps \<noteq> None"
    using sched_choose_None [of cur ?ps] mem i len assms(2) by force
  then obtain j where j: "sched_choose cur ?ps = Some j" by blast
  note best = sched_choose_Some [OF j]
  have jj: "j < NPROC" "p_state (?ps ! j) = RUNNABLE" "pr \<le> p_priority (?ps ! j)"
    using best mem i len assms(2) by auto
  have "?ps ! j \<in> set ?ps" using jj(1) len by simp
  from all [OF this jj(2)] have "p_priority (?ps ! j) = pr" "p_kstack (?ps ! j) \<noteq> 0" "p_pgdir (?ps ! j) \<noteq> 0"
    using jj(3) by auto
  moreover from this(1) have "ring_dist NPROC cur j \<le> ring_dist NPROC cur i" using best i len assms(2) by auto
  ultimately show thesis using that j jj by blast
qed

lemma competes_running:
  assumes "competes i pr s" and "j \<noteq> i" and "procs t = (procs s)[j := (procs s ! j)\<lparr>p_state := RUNNING\<rparr>]"
  shows "competes i pr t"
proof -
  have "set (procs t) \<subseteq> insert ((procs s ! j)\<lparr>p_state := RUNNING\<rparr>) (set (procs s))"
    unfolding assms(3) by (rule set_update_subset_insert)
  then have "p \<in> set (procs t) \<Longrightarrow> p_state p = RUNNABLE \<Longrightarrow> p \<in> set (procs s)" for p by auto
  then show ?thesis using assms by (simp add: competes_def)
qed

lemma scheduler_loop_once:
  assumes "\<And>run. scheduler_iter run cur s = bindO (run i t) k"
  shows "scheduler_loop (Suc 0) (run(i := r)) cur s = bindO (r t) k"
  using assms [of "run(i := r)"] by (cases "bindO (r t) k") (auto split: prod.splits)

lemma scheduler_loop_reaches:
  assumes "gives_back i pr run" and "competes i pr s" and "cpu_ok (sti s)" and "lock_free PtableLock s"
    and "cur < NPROC" and "ring_dist NPROC cur i \<le> n"
  shows "\<exists>m\<le>n. \<exists>t k. (\<forall>r. scheduler_loop (Suc m) (run(i := r)) cur s = bindO (r t) k) \<and>
    p_state (procs t ! i) = RUNNING \<and> cpu_proc (cpus t ! me t) = Some i"
  using assms(2-)
proof (induction n arbitrary: cur s)
  case (0 cur s)
  obtain j where j: "sched_choose cur (procs s) = Some j" "j < NPROC" "p_kstack (procs s ! j) \<noteq> 0" "p_pgdir (procs s ! j) \<noteq> 0"
      "ring_dist NPROC cur j \<le> ring_dist NPROC cur i"
    using competes_choice [OF 0(1,4)] by metis
  have len: "length (procs s) = NPROC" "i < NPROC" using 0(1) by (simp_all add: competes_def)
  have "j = i" using j(2,5) 0(4,5) len by (auto simp: ring_dist_def split: if_splits)
  then obtain t k where "\<And>run. scheduler_iter run cur s = bindO (run i t) k" "p_state (procs t ! i) = RUNNING"
      "cpu_proc (cpus t ! me t) = Some i"
    using scheduler_iter_switches [OF 0(2,3) j(1) _ j(3,4)] len j(2) by auto
  then show ?case using scheduler_loop_once [of cur s i t k run] by blast
next
  case (Suc n cur s)
  obtain j where j: "sched_choose cur (procs s) = Some j" "j < NPROC" "p_state (procs s ! j) = RUNNABLE"
      "p_priority (procs s ! j) = pr" "p_kstack (procs s ! j) \<noteq> 0" "p_pgdir (procs s ! j) \<noteq> 0"
      "ring_dist NPROC cur j \<le> ring_dist NPROC cur i"
    using competes_choice [OF Suc.prems(1,4)] by metis
  have len: "length (procs s) = NPROC" "i < NPROC" using Suc.prems(1) by (simp_all add: competes_def)
  obtain t k where t: "\<And>run. scheduler_iter run cur s = bindO (run j t) k"
      "procs t = (procs s)[j := (procs s ! j)\<lparr>p_state := RUNNING\<rparr>]" "cpu_proc (cpus t ! me t) = Some j"
      "\<And>u. same_machine u t \<Longrightarrow> \<exists>v. k u = Ret (if j + 1 \<ge> NPROC then 0 else j + 1, v) \<and>
         cpu_ok (sti v) \<and> lock_free PtableLock v \<and> procs v = procs u"
    using scheduler_iter_switches [OF Suc.prems(2,3) j(1) _ j(5,6)] len(1) j(2) by metis
  show ?case
  proof (cases "j = i")
    case True
    then show ?thesis using t(1,2,3) len scheduler_loop_once [of cur s i t k run] by (intro exI [of _ 0]) auto
  next
    case False
    have "competes i pr t" by (rule competes_running [OF Suc.prems(1) False t(2)])
    then have "returns (run j t) (\<lambda>u. same_machine u t \<and> competes i pr u)"
      using assms(1) False j t(2) len(1) by (simp add: gives_back_def)
    then obtain u where u: "run j t = Ret u" "same_machine u t" "competes i pr u" by (auto elim: returnsE)
    let ?cur = "if j + 1 \<ge> NPROC then 0 else j + 1"
    obtain v where v: "k u = Ret (?cur, v)" "cpu_ok (sti v)" "lock_free PtableLock v" "procs v = procs u"
      using t(4) [OF u(2)] by blast
    have "competes i pr v" using u(3) v(4) by (simp add: competes_def)
    moreover have "ring_dist NPROC ?cur i \<le> n"
      using False j(2,7) Suc.prems(4,5) len(2) by (auto simp: ring_dist_def split: if_splits)
    moreover have "?cur < NPROC" by simp
    ultimately obtain m t' k' where m: "m \<le> n" "\<And>r. scheduler_loop (Suc m) (run(i := r)) ?cur v = bindO (r t') k'"
        "p_state (procs t' ! i) = RUNNING" "cpu_proc (cpus t' ! me t') = Some i"
      using Suc.IH [of v ?cur] v(2,3) by metis
    have "scheduler_loop (Suc (Suc m)) (run(i := r)) cur s = bindO (r t') k'" for r
      using m(2) False u(1) v(1) t(1) by (simp only: scheduler_loop.simps(2) [of "Suc m"]) simp
    then show ?thesis using m(1,3,4) by (intro exI [of _ "Suc m"] conjI) blast+
  qed
qed

section \<open>Properties\<close>

text \<open>A table with three runnable processes, two of them of the highest priority.\<close>

definition demo_procs :: "proc list" where
  "demo_procs = (replicate NPROC zero_proc)
     [2 := zero_proc\<lparr>p_pid := 1, p_state := RUNNABLE, p_priority := 5, p_kstack := 0x80401000, p_pgdir := 0x80402000\<rparr>,
      7 := zero_proc\<lparr>p_pid := 2, p_state := RUNNABLE, p_kstack := 0x80403000, p_pgdir := 0x80404000\<rparr>,
      9 := zero_proc\<lparr>p_pid := 3, p_state := RUNNABLE, p_priority := 5, p_kstack := 0x80405000, p_pgdir := 0x80406000\<rparr>]"

text \<open>
  C1: the scheduler runs a best process. Whenever some process is runnable, one iteration of
  \<^verbatim>\<open>scheduler()\<close> switches to a process \<open>i\<close> that was runnable, has the highest priority of all runnable
  processes, and is the first of that priority at or after the position \<^verbatim>\<open>cur\<close> going round the table; at
  the \<^verbatim>\<open>swtch\<close> it is marked \<^verbatim>\<open>RUNNING\<close>, it is the CPU's current process, its page table and kernel stack
  are loaded, and this CPU holds \<^verbatim>\<open>ptable.lock\<close>.
\<close>

theorem scheduler_runs_best_process:
  assumes "cpu_ok (sti s)" and "lock_free PtableLock s" and "length (procs s) = NPROC" and "cur < NPROC"
    and "\<forall>p\<in>set (procs s). p_state p = RUNNABLE \<longrightarrow>
      LOWPRIO \<le> p_priority p \<and> p_kstack p \<noteq> 0 \<and> p_pgdir p \<noteq> 0"
    and "\<exists>p\<in>set (procs s). p_state p = RUNNABLE"
  shows "\<exists>i t k. (\<forall>run. scheduler_iter run cur s = bindO (run i t) k) \<and>
    i < NPROC \<and> p_state (procs s ! i) = RUNNABLE \<and>
    (\<forall>p\<in>set (procs s). p_state p = RUNNABLE \<longrightarrow> p_priority p \<le> p_priority (procs s ! i)) \<and>
    (\<forall>j<NPROC. p_state (procs s ! j) = RUNNABLE \<longrightarrow> p_priority (procs s ! j) = p_priority (procs s ! i) \<longrightarrow>
       ring_dist NPROC cur i \<le> ring_dist NPROC cur j) \<and>
    procs t = (procs s)[i := (procs s ! i)\<lparr>p_state := RUNNING\<rparr>] \<and>
    cr3 t = V2P (p_pgdir (procs s ! i)) \<and> cpu_proc (cpus t ! me t) = Some i \<and>
    ts_esp0 (ts (cpus t ! me t)) = p_kstack (procs s ! i) + KSTACKSIZE \<and>
    lk_locked (locks t PtableLock) \<and> lk_cpu (locks t PtableLock) = Some (me t)"
proof -
  have "sched_choose cur (procs s) \<noteq> None"
    using sched_choose_None [of cur "procs s"] assms(3-6) by fastforce
  then obtain i where i: "sched_choose cur (procs s) = Some i" by blast
  note best = sched_choose_Some [OF i]
  have "p_kstack (procs s ! i) \<noteq> 0" "p_pgdir (procs s ! i) \<noteq> 0" "i < length (procs s)"
    using best assms(3-5) by (simp_all add: Ball_def)
  then show ?thesis
    using scheduler_iter_switches [OF assms(1,2) i] best assms(3,4) by (intro exI [of _ i]) auto
qed

lemma demo_nth: "i < NPROC \<Longrightarrow> demo_procs ! i =
    (if i = 9 then zero_proc\<lparr>p_pid := 3, p_state := RUNNABLE, p_priority := 5, p_kstack := 0x80405000, p_pgdir := 0x80406000\<rparr>
     else if i = 7 then zero_proc\<lparr>p_pid := 2, p_state := RUNNABLE, p_kstack := 0x80403000, p_pgdir := 0x80404000\<rparr>
     else if i = 2 then zero_proc\<lparr>p_pid := 1, p_state := RUNNABLE, p_priority := 5, p_kstack := 0x80401000, p_pgdir := 0x80402000\<rparr>
     else zero_proc)"
  by (simp add: demo_procs_def nth_list_update)

lemma demo_9: "p_state (demo_procs ! 9) = RUNNABLE" "demo_procs ! 9 \<in> set demo_procs"
  by (simp_all add: demo_nth) (simp add: demo_procs_def numeral_eq_Suc)

lemma demo_set: "set demo_procs = {zero_proc, demo_procs ! 2, demo_procs ! 7, demo_procs ! 9}"
  by (simp add: demo_procs_def numeral_eq_Suc) (auto simp: insert_commute)

lemma demo_table_ok: "table_ok 4 demo_procs"
proof -
  have "p_pid (demo_procs ! i) = 0" if "i < NPROC" "j < NPROC" "i \<noteq> j"
      "p_pid (demo_procs ! i) = p_pid (demo_procs ! j)" for i j
    using that by (simp add: demo_nth zero_proc_def split: if_splits)
  moreover have "\<forall>p\<in>set demo_procs. slot_ok 4 p"
    unfolding demo_set by (simp add: slot_ok_def demo_nth zero_proc_def)
  moreover have "length demo_procs = NPROC" by (simp add: demo_procs_def)
  ultimately show ?thesis unfolding table_ok_def by simp
qed

theorem scheduler_runs_best_process_witness:
  "\<exists>i t k. (\<forall>run. scheduler_iter run 3 (boot_proc\<lparr>procs := demo_procs\<rparr>) = bindO (run i t) k) \<and>
     i = 9 \<and> procs t = demo_procs[9 := (demo_procs ! 9)\<lparr>p_state := RUNNING\<rparr>] \<and> cr3 t = 0x406000"
proof -
  let ?s = "boot_proc\<lparr>procs := demo_procs\<rparr>"
  have ok: "cpu_ok (sti ?s)"
    by (simp add: boot_proc_def boot_kmem_def boot_cpu_def kmem_state.defs cpu_ok_def find_index_def
        readeflags_IF_def sti_def)
  have "\<exists>i t k. (\<forall>run. scheduler_iter run 3 ?s = bindO (run i t) k) \<and> i < NPROC \<and>
      p_state (procs ?s ! i) = RUNNABLE \<and>
      (\<forall>p\<in>set (procs ?s). p_state p = RUNNABLE \<longrightarrow> p_priority p \<le> p_priority (procs ?s ! i)) \<and>
      (\<forall>j<NPROC. p_state (procs ?s ! j) = RUNNABLE \<longrightarrow> p_priority (procs ?s ! j) = p_priority (procs ?s ! i) \<longrightarrow>
         ring_dist NPROC 3 i \<le> ring_dist NPROC 3 j) \<and>
      procs t = (procs ?s)[i := (procs ?s ! i)\<lparr>p_state := RUNNING\<rparr>] \<and>
      cr3 t = V2P (p_pgdir (procs ?s ! i)) \<and> cpu_proc (cpus t ! me t) = Some i \<and>
      ts_esp0 (ts (cpus t ! me t)) = p_kstack (procs ?s ! i) + KSTACKSIZE \<and>
      lk_locked (locks t PtableLock) \<and> lk_cpu (locks t PtableLock) = Some (me t)"
    by (rule scheduler_runs_best_process [OF ok])
      (simp_all add: boot_proc_ok demo_set, simp_all add: demo_procs_def zero_proc_def)
  then obtain i t k where r: "\<forall>run. scheduler_iter run 3 ?s = bindO (run i t) k"
    and i: "i < NPROC" "p_state (procs ?s ! i) = RUNNABLE"
    and best: "\<forall>p\<in>set (procs ?s). p_state p = RUNNABLE \<longrightarrow> p_priority p \<le> p_priority (procs ?s ! i)"
    and near: "\<forall>j<NPROC. p_state (procs ?s ! j) = RUNNABLE \<longrightarrow> p_priority (procs ?s ! j) = p_priority (procs ?s ! i) \<longrightarrow>
         ring_dist NPROC 3 i \<le> ring_dist NPROC 3 j"
    and t: "procs t = (procs ?s)[i := (procs ?s ! i)\<lparr>p_state := RUNNING\<rparr>]"
      "cr3 t = V2P (p_pgdir (procs ?s ! i))"
    by blast
  have "i \<in> {2, 7, 9}" using i by (auto simp: demo_nth zero_proc_def split: if_splits)
  moreover have "p_priority (demo_procs ! 9) \<le> p_priority (demo_procs ! i)" using best demo_9 by simp
  moreover have "p_priority (demo_procs ! 9) = p_priority (demo_procs ! i) \<Longrightarrow>
      ring_dist NPROC 3 i \<le> ring_dist NPROC 3 9"
    using near [rule_format, of 9] demo_9 by simp
  ultimately have "i \<noteq> 7" "i \<noteq> 2" "i \<in> {2, 7, 9}" by (auto simp: demo_nth zero_proc_def ring_dist_def)
  then have "i = 9" by simp
  then show ?thesis using r t by (intro exI [of _ i] exI [of _ t] exI [of _ k]) (simp add: demo_procs_def V2P_def)
qed

text \<open>
  C22: no starvation among processes of the highest priority. Whatever its position, the scheduler switches
  to a runnable process \<open>i\<close> of the highest priority within 64 iterations (\<^verbatim>\<open>NPROC\<close>) of its loop: the processes it
  runs before that may change the table as they like, as long as they give the processor back and \<open>i\<close>
  stays runnable and of the highest priority. There is a state \<open>t\<close> at a \<^verbatim>\<open>swtch\<close> to \<open>i\<close>, with \<open>i\<close> marked \<^verbatim>\<open>RUNNING\<close>
  as the current process, from which the run goes on with whatever \<open>i\<close> does.
\<close>

theorem scheduler_bounded_waiting:
  assumes "gives_back i pr run" and "competes i pr s" and "cpu_ok (sti s)" and "lock_free PtableLock s" and "cur < NPROC"
  shows "\<exists>n<NPROC. \<exists>t k. (\<forall>r. scheduler_loop (Suc n) (run(i := r)) cur s = bindO (r t) k) \<and>
    p_state (procs t ! i) = RUNNING \<and> cpu_proc (cpus t ! me t) = Some i"
proof -
  have "ring_dist NPROC cur i \<le> 63" using assms(2,5) by (auto simp: ring_dist_def competes_def)
  from scheduler_loop_reaches [OF assms this] obtain m where m: "m \<le> 63"
    "\<exists>t k. (\<forall>r. scheduler_loop (Suc m) (run(i := r)) cur s = bindO (r t) k) \<and>
      p_state (procs t ! i) = RUNNING \<and> cpu_proc (cpus t ! me t) = Some i" by blast
  show ?thesis by (rule exI [of _ m]) (use m in simp)
qed

lemma yield_gives_back: "gives_back i pr (\<lambda>j t. Ret (upd_proc j (\<lambda>p. p\<lparr>p_state := RUNNABLE\<rparr>) t))"
proof -
  have "same_machine (upd_proc j f t) t" for j f and t :: "'a proc_state_scheme"
    by (simp add: upd_proc_def same_machine_def)
  moreover have "competes i pr (upd_proc j (\<lambda>p. p\<lparr>p_state := RUNNABLE\<rparr>) t)"
    if "j \<noteq> i" "competes i pr t" "p_priority (procs t ! j) = pr" "p_kstack (procs t ! j) \<noteq> 0" "p_pgdir (procs t ! j) \<noteq> 0"
    for j and t :: "'a proc_state_scheme"
  proof -
    have "set ((procs t)[j := (procs t ! j)\<lparr>p_state := RUNNABLE\<rparr>]) \<subseteq> insert ((procs t ! j)\<lparr>p_state := RUNNABLE\<rparr>) (set (procs t))"
      by (rule set_update_subset_insert)
    then show ?thesis using that by (auto simp: competes_def upd_proc_def)
  qed
  ultimately show ?thesis by (simp add: gives_back_def)
qed

text \<open>Slot 9 is the first of the highest priority from position 3 on; it yields, and slot 2 is next.\<close>

theorem scheduler_bounded_waiting_witness:
  "\<exists>n<NPROC. \<exists>t k. (\<forall>r. scheduler_loop (Suc n) ((\<lambda>j t. Ret (upd_proc j (\<lambda>p. p\<lparr>p_state := RUNNABLE\<rparr>) t))(2 := r)) 3
      (boot_proc\<lparr>procs := demo_procs\<rparr>) = bindO (r t) k) \<and>
    p_state (procs t ! 2) = RUNNING \<and> cpu_proc (cpus t ! me t) = Some 2"
proof -
  let ?s = "boot_proc\<lparr>procs := demo_procs\<rparr>"
  have "cpu_ok (sti ?s)"
    by (simp add: boot_proc_def boot_kmem_def boot_cpu_def kmem_state.defs cpu_ok_def find_index_def
        readeflags_IF_def sti_def)
  moreover have "lock_free PtableLock ?s" using boot_proc_ok by (simp add: lock_free_def)
  moreover have "competes 2 5 ?s"
    by (simp add: competes_def demo_set) (simp add: demo_nth zero_proc_def, simp add: demo_procs_def)
  ultimately show ?thesis by (intro scheduler_bounded_waiting [OF yield_gives_back]) simp_all
qed

text \<open>
  C21: \<^verbatim>\<open>allocproc\<close> returns, keeps the table invariant (process ids of the slots in use are positive,
  below \<^verbatim>\<open>nextpid\<close> and pairwise different), and when it claims a slot, that slot was unused, gets the
  next process id, and a kernel stack on which the new context returns into \<^verbatim>\<open>forkret\<close> and from there
  into \<^verbatim>\<open>trapret\<close>; no other slot changes. It fails only when no slot or no page is free.
\<close>

theorem allocproc_claims_slot:
  assumes "cpu_ok s" and "lock_free PtableLock s" and "lock_free KmemLock s" and "ptable_ok s"
  shows "returns (allocproc s) (\<lambda>(r, s'). ptable_ok s' \<and>
    (case r of
       None \<Rightarrow> (\<forall>p\<in>set (procs s). p_state p \<noteq> UNUSED) \<or> kmem_freelist s = 0
     | Some i \<Rightarrow> i < NPROC \<and> p_state (procs s ! i) = UNUSED \<and>
         (\<forall>j<NPROC. j \<noteq> i \<longrightarrow> procs s' ! j = procs s ! j \<and> p_pid (procs s ! j) \<noteq> p_pid (procs s' ! i)) \<and>
         p_state (procs s' ! i) = EMBRYO \<and> p_pid (procs s' ! i) = nextpid s \<and>
         p_kstack (procs s' ! i) = kmem_freelist s \<and> kmem_freelist s' = load32 (mem s) (kmem_freelist s) \<and>
         p_context_addr (procs s' ! i) + sizeof_context + 4 = p_tf_addr (procs s' ! i) \<and>
         p_tf_addr (procs s' ! i) + sizeof_trapframe = p_kstack (procs s' ! i) + KSTACKSIZE \<and>
         ctx_eip (p_context (procs s' ! i)) = sym_forkret s \<and>
         load32 (mem s') (p_context_addr (procs s' ! i) + sizeof_context) = sym_trapret s))"
proof (cases "find_index (\<lambda>p. p_state p = UNUSED) (procs s)")
  case None
  moreover have "\<forall>p\<in>set (procs s). p_state p \<noteq> UNUSED" using None by (simp add: find_index_None)
  ultimately show ?thesis using assms by (simp add: allocproc_eq)
next
  case (Some i)
  have t: "table_ok (nextpid s) (procs s)" using assms(4) by (simp add: ptable_ok_def)
  then have len: "length (procs s) = NPROC" by (rule table_okD)
  have i: "i < NPROC" "p_state (procs s ! i) = UNUSED"
    using find_index_Some [OF Some] len by simp_all
  have fresh: "p_pid (procs s ! j) \<noteq> nextpid s" if "j < NPROC" for j
    using table_okD(3) [OF t that] by (simp add: slot_ok_def)
  show ?thesis
    using i len fresh table_ok_embryo [OF t i(1)]
    by (simp add: allocproc_eq assms Some Let_def ptable_ok_def embryo_def sizeof_context_def
        sizeof_trapframe_def add.commute [of 4016])
qed

theorem allocproc_claims_slot_witness:
  "returns (allocproc (boot_proc\<lparr>kmem_freelist := 0x80400000\<rparr>)) (\<lambda>(r, s'). ptable_ok s' \<and>
     (\<exists>i. r = Some i \<and> p_pid (procs s' ! i) = 1 \<and> load32 (mem s') (0x80400000 + 4016) = 0x80105000))"
proof -
  let ?s = "boot_proc\<lparr>kmem_freelist := 0x80400000\<rparr>"
  have ok: "cpu_ok ?s" "lock_free l ?s" "ptable_ok ?s" for l
    using boot_proc_ok cpu_ok_cong [of ?s boot_proc] by (simp_all add: lock_free_def ptable_ok_def)
  have z: "zero_proc \<in> set (procs ?s)" by (simp add: boot_proc_def kmem_state.defs numeral_eq_Suc)
  have "returns (allocproc ?s) (\<lambda>(r, s'). ptable_ok s' \<and> r \<noteq> None \<and>
      (\<forall>i. r = Some i \<longrightarrow> p_pid (procs s' ! i) = 1 \<and>
         load32 (mem s') (p_context_addr (procs s' ! i) + sizeof_context) = sym_trapret ?s \<and>
         p_context_addr (procs s' ! i) + sizeof_context + 4 = p_tf_addr (procs s' ! i) \<and>
         p_tf_addr (procs s' ! i) + sizeof_trapframe = 0x80400000 + KSTACKSIZE))"
    using allocproc_claims_slot [OF ok(1) ok(2) ok(2) ok(3)] z
    by (elim returns_mono) (force simp: zero_proc_def boot_proc_def kmem_state.defs split: option.splits)
  then show ?thesis
  proof (rule returns_mono)
    fix x
    assume x: "case x of (r, s') \<Rightarrow> ptable_ok s' \<and> r \<noteq> None \<and>
      (\<forall>i. r = Some i \<longrightarrow> p_pid (procs s' ! i) = 1 \<and>
         load32 (mem s') (p_context_addr (procs s' ! i) + sizeof_context) = sym_trapret ?s \<and>
         p_context_addr (procs s' ! i) + sizeof_context + 4 = p_tf_addr (procs s' ! i) \<and>
         p_tf_addr (procs s' ! i) + sizeof_trapframe = 0x80400000 + KSTACKSIZE)"
    obtain r s' where rs: "x = (r, s')" by force
    then obtain i where i: "r = Some i" using x by auto
    have "p_context_addr (procs s' ! i) + sizeof_context + 4 + sizeof_trapframe = 0x80400000 + KSTACKSIZE"
      using x rs i by simp
    then have "p_context_addr (procs s' ! i) + sizeof_context = 0x80400000 + 4016"
      by (simp add: sizeof_trapframe_def sizeof_context_def algebra_simps)
    then show "case x of (r, s') \<Rightarrow> ptable_ok s' \<and>
     (\<exists>i. r = Some i \<and> p_pid (procs s' ! i) = 1 \<and> load32 (mem s') (0x80400000 + 4016) = 0x80105000)"
      using x rs i by (simp add: boot_proc_def kmem_state.defs)
  qed
qed

lemma acquired_commute:
  assumes "cpu_ok s" and "l \<noteq> k"
  shows "acquired k (acquired l s) = acquired l (acquired k s)"
proof -
  have "me (acquired l s) = me s" "me (acquired k s) = me s" using assms(1) by (simp_all add: me_acquired)
  moreover have "(locks s)(l := a, k := b) = (locks s)(k := b, l := a)" for a b
    using assms(2) by (rule fun_upd_twist)
  ultimately show ?thesis
    using assms(2) unfolding acquired_def [of k "acquired l s"] acquired_def [of l "acquired k s"]
    by (intro machine.equality) (simp_all add: acquired_def pushed_def)
qed

lemma sched_eq:
  assumes "cpu_ok s" and "ncli (cpus s ! me s) = 1" and "cpu_proc (cpus s ! me s) = Some p"
    and "p_state (procs s ! p) \<noteq> RUNNING"
    and "lk_locked (locks s PtableLock)" and "lk_cpu (locks s PtableLock) = Some (me s)"
  shows "sched resume s = bindO (resume s) (\<lambda>u. bindO (mycpu u) (\<lambda>c.
    Ret (upd_cpu c (\<lambda>k. k\<lparr>intena := intena (cpus s ! me s)\<rparr>) u)))"
proof -
  have "\<not> readeflags_IF s" using cpu_ok_me(5) [OF assms(1)] assms(2) by simp
  moreover have "mycpu s = Ret (me s)" using mycpu_ok [OF assms(1)] calculation by simp
  ultimately show ?thesis using assms by (simp add: sched_def myproc_ok holding_eq Let_def)
qed

text \<open>A thread that goes to sleep with lock \<open>l\<close>: the state in which it reaches the scheduler, and how it goes on when it is resumed.\<close>

definition asleep :: "nat \<Rightarrow> chan \<Rightarrow> 'a proc_state_scheme \<Rightarrow> 'a proc_state_scheme" where
  "asleep p ch s = upd_proc p (\<lambda>q. q\<lparr>p_chan := ch, p_state := SLEEPING\<rparr>) (acquired PtableLock s)"

lemma sleep_eq:
  assumes "cpu_ok s" and "ncli (cpus s ! me s) = 0" and "cpu_proc (cpus s ! me s) = Some p"
    and "p < length (procs s)" and "lock_free l s" and "lock_free PtableLock s" and "l \<noteq> PtableLock"
  shows "sleep resume ch (Some l) (acquired l s) = bindO (resume (asleep p ch s)) (\<lambda>u.
    bindO (mycpu u) (\<lambda>c.
    bindO (release PtableLock (upd_proc p (\<lambda>q. q\<lparr>p_chan := NoChan\<rparr>)
      (upd_cpu c (\<lambda>k. k\<lparr>intena := intena (cpus s ! me s)\<rparr>) u))) (\<lambda>u. acquire l u)))"
proof -
  let ?a = "acquired PtableLock s" and ?t = "asleep p ch s"
  note me = cpu_ok_me [OF assms(1)]
  have ok: "cpu_ok (acquired l s)" "cpu_ok ?a" using assms(1) by (simp_all add: acquired_ok)
  have mea: "me (acquired l s) = me s" "me ?a = me s" using assms(1) by (simp_all add: me_acquired)
  have my: "myproc (acquired l s) = Ret (Some p, acquired l s)"
    using myproc_ok [OF ok(1)] assms(3) me(2) mea(1) by (simp add: acquired_def pushed_def)
  have free: "lock_free PtableLock (acquired l s)" "lock_free l ?a"
    using assms(5-7) by (simp_all add: lock_free_def acquired_def pushed_def)
  have acq: "acquire PtableLock (acquired l s) = Ret (acquired l ?a)"
    using acquire_free [OF ok(1) free(1)] acquired_commute [OF assms(1,7)] by simp
  have rel: "release l (acquired l ?a) = Ret ?a"
    using release_acquired [OF ok(2) free(2), of "acquired l ?a"]
    by (simp add: restored_def) (simp add: acquired_def pushed_def)
  have met: "me ?t = me s" using mea(2) by (simp add: me_def asleep_def)
  have "sched resume ?t = bindO (resume ?t) (\<lambda>u. bindO (mycpu u) (\<lambda>c.
    Ret (upd_cpu c (\<lambda>k. k\<lparr>intena := intena (cpus ?t ! me ?t)\<rparr>) u)))"
    using assms(2-4) ok(2) me(2) met mea(2)
    by (intro sched_eq [where p = p]) (simp_all add: asleep_def, simp_all add: acquired_def pushed_def)
  moreover have "intena (cpus ?t ! me ?t) = intena (cpus s ! me s)"
    unfolding met using me(2) by (simp add: asleep_def acquired_def pushed_def)
  ultimately show ?thesis
    using assms(7) by (simp add: sleep_def my acq rel bindO_assoc asleep_def Let_def)
qed



lemma kill_eq:
  assumes "cpu_ok s" and "lock_free PtableLock s"
  shows "kill pid s = (case find_index (\<lambda>p. p_pid p = pid) (procs s) of
     None \<Rightarrow> Ret (- 1, s)
   | Some i \<Rightarrow> Ret (0, s\<lparr>procs := (procs s)[i := (procs s ! i)\<lparr>p_killed := True,
       p_state := if p_state (procs s ! i) = SLEEPING then RUNNABLE else p_state (procs s ! i)\<rparr>]\<rparr>))"
proof (cases "find_index (\<lambda>p. p_pid p = pid) (procs s)")
  case None
  have "kill pid s = Ret (- 1, s\<lparr>procs := procs s, nextpid := nextpid s\<rparr>)"
    unfolding kill_def using None
    by (intro locked_table [OF assms]) (simp add: acquired_def pushed_def)
  then show ?thesis using None by simp
next
  case (Some i)
  then have i: "i < length (procs s)" using find_index_Some by metis
  let ?ps = "(procs s)[i := (procs s ! i)\<lparr>p_killed := True,
       p_state := if p_state (procs s ! i) = SLEEPING then RUNNABLE else p_state (procs s ! i)\<rparr>]"
  have "kill pid s = Ret (0, s\<lparr>procs := ?ps, nextpid := nextpid s\<rparr>)"
    unfolding kill_def using Some i
    by (intro locked_table [OF assms]) (simp add: upd_proc_def Let_def acquired_def pushed_def)
  then show ?thesis using Some by simp
qed



lemma self_pid:
  assumes "cpu_ok s" and "pid = 0 \<longrightarrow> cpu_proc (cpus s ! me s) = Some c"
    and "q = (if pid = 0 then p_pid (procs s ! c) else pid)"
  shows "(if pid = 0 then bindO (curproc s) (\<lambda>(p, s). Ret (p_pid (procs s ! p), s)) else Ret (pid, s))
    = Ret (q, s)"
  using assms by (simp add: curproc_ok)

text \<open>
  \<^verbatim>\<open>setpriority\<close> keeps every priority within \<^verbatim>\<open>LOWPRIO..HIGHPRIO\<close>. A value outside the range is refused
  with -1 and changes nothing; an unknown process id is refused likewise; otherwise the process with that
  id (the caller itself for id 0) gets the priority, no other slot changes, the table invariant holds, and
  the caller gives up the CPU in that state before it returns 0.
\<close>

lemma setpriority_bounds:
  assumes "cpu_ok s" and "lock_free PtableLock s" and "ptable_ok s"
    and "pid = 0 \<longrightarrow> cpu_proc (cpus s ! me s) = Some c"
  shows "setpriority resume pid priority s =
    (let target = (if pid = 0 then p_pid (procs s ! c) else pid) in
     if priority < LOWPRIO \<or> HIGHPRIO < priority \<or> (\<forall>i<NPROC. p_pid (procs s ! i) \<noteq> target)
     then Ret (- 1, s)
     else let i = (LEAST i. p_pid (procs s ! i) = target);
              t = s\<lparr>procs := (procs s)[i := (procs s ! i)\<lparr>p_priority := priority\<rparr>]\<rparr>
          in bindO (yield resume t) (\<lambda>s. Ret (0, s))) \<and>
    (LOWPRIO \<le> priority \<longrightarrow> priority \<le> HIGHPRIO \<longrightarrow>
      (\<forall>i. ptable_ok (s\<lparr>procs := (procs s)[i := (procs s ! i)\<lparr>p_priority := priority\<rparr>]\<rparr>)))"
proof -
  define q where "q = (if pid = 0 then p_pid (procs s ! c) else pid)"
  have t: "table_ok (nextpid s) (procs s)" using assms(3) by (simp add: ptable_ok_def)
  then have len: "length (procs s) = NPROC" by (rule table_okD)
  have inv: "ptable_ok (s\<lparr>procs := (procs s)[i := (procs s ! i)\<lparr>p_priority := priority\<rparr>]\<rparr>)"
    if "LOWPRIO \<le> priority" "priority \<le> HIGHPRIO" for i
  proof (cases "i < NPROC")
    case True
    then have "table_ok (nextpid s) ((procs s)[i := (procs s ! i)\<lparr>p_priority := priority\<rparr>])"
      using table_okD(3) [OF t] that by (intro table_ok_keep_pid [OF t]) (auto simp: slot_ok_def)
    then show ?thesis by (simp add: ptable_ok_def)
  next
    case False
    then show ?thesis using assms(3) len by (simp add: ptable_ok_def list_update_beyond)
  qed
  let ?f = "\<lambda>s. case find_index (\<lambda>p. p_pid p = q) (procs s) of
              None \<Rightarrow> Ret (False, s)
            | Some i \<Rightarrow> Ret (True, upd_proc i (\<lambda>p. p\<lparr>p_priority := priority\<rparr>) s)"
  have eq: "setpriority resume pid priority s = (if priority < LOWPRIO \<or> priority > HIGHPRIO then Ret (- 1, s)
      else bindO (locked PtableLock ?f s) (\<lambda>(found, s).
        if found then bindO (yield resume s) (\<lambda>s. Ret (0, s)) else Ret (- 1, s)))"
    unfolding setpriority_def self_pid [OF assms(1,4) q_def] by simp
  show ?thesis
  proof (cases "find_index (\<lambda>p. p_pid p = q) (procs s)")
    case None
    have "locked PtableLock ?f s = Ret (False, s\<lparr>procs := procs s, nextpid := nextpid s\<rparr>)"
      using None by (intro locked_table [OF assms(1,2)]) (simp add: acquired_def pushed_def)
    moreover have "\<forall>i<NPROC. p_pid (procs s ! i) \<noteq> q"
      using None len by (simp add: find_index_None)
    ultimately show ?thesis unfolding q_def [symmetric] Let_def using inv eq by simp
  next
    case (Some i)
    note i = find_index_Some [OF Some]
    have least: "(LEAST i. p_pid (procs s ! i) = q) = i"
      using i by (intro Least_equality) (auto intro: leI)
    have "locked PtableLock ?f s = Ret (True, s\<lparr>procs := (procs s)[i := (procs s ! i)\<lparr>p_priority := priority\<rparr>],
        nextpid := nextpid s\<rparr>)"
      using Some by (intro locked_table [OF assms(1,2)]) (simp add: upd_proc_def acquired_def pushed_def)
    moreover have "\<not> (\<forall>i<NPROC. p_pid (procs s ! i) \<noteq> q)" using i len by auto
    ultimately show ?thesis unfolding q_def [symmetric] Let_def using inv eq least by (auto simp: not_less)
  qed
qed

text \<open>
  \<^verbatim>\<open>getpriority\<close> does not deliver a priority. Whatever the priorities are, the word its second argument
  points to is left unchanged, because the function assigns to its own copy of the pointer; the status is 0
  exactly when a slot with the process id exists.
\<close>

lemma getpriority_reports_nothing:
  assumes "cpu_ok s" and "lock_free PtableLock s"
    and "pid = 0 \<longrightarrow> cpu_proc (cpus s ! me s) = Some c"
  shows "\<exists>r. getpriority pid out s = Ret ((r, out), s) \<and>
    (r = 0 \<longleftrightarrow> (\<exists>p\<in>set (procs s). p_pid p = (if pid = 0 then p_pid (procs s ! c) else pid)))"
proof -
  define q where "q = (if pid = 0 then p_pid (procs s ! c) else pid)"
  let ?r = "if \<exists>p\<in>set (procs s). p_pid p = q then 0 else - 1 :: int"
  have n: "find_index (\<lambda>p. p_pid p = q) (procs s) = None \<longleftrightarrow> \<not> (\<exists>p\<in>set (procs s). p_pid p = q)"
    by (simp add: find_index_None)
  have "getpriority pid out s = Ret ((?r, out), s\<lparr>procs := procs s, nextpid := nextpid s\<rparr>)"
    unfolding getpriority_def self_pid [OF assms(1,3) q_def] bindO.simps split_conv
    using n by (intro locked_table [OF assms(1,2)])
      (cases "find_index (\<lambda>p. p_pid p = q) (procs s)", simp_all add: acquired_def pushed_def)
  then show ?thesis unfolding q_def [symmetric] by simp
qed

text \<open>
  C40: \<^verbatim>\<open>kill(0)\<close> succeeds on a table with an unused slot that was never allocated: it sets the \<^verbatim>\<open>killed\<close>
  flag of that free slot. Neither \<^verbatim>\<open>allocproc\<close> nor \<^verbatim>\<open>fork\<close> clears the flag, so the next process that
  gets the slot is born killed.
\<close>

theorem kill_zero_marks_unused:
  assumes "cpu_ok s" and "lock_free PtableLock s" and "lock_free KmemLock s" and "kmem_freelist s \<noteq> 0"
    and "find_index (\<lambda>p. p_pid p = 0) (procs s) = Some i"
    and "find_index (\<lambda>p. p_state p = UNUSED) (procs s) = Some i"
  shows "returns (kill 0 s) (\<lambda>(r, s1). r = 0 \<and>
    returns (allocproc s1) (\<lambda>(np, s2). np = Some i \<and> p_killed (procs s2 ! i)))"
proof -
  have i: "i < length (procs s)" "p_state (procs s ! i) = UNUSED"
    using find_index_Some [OF assms(6)] by simp_all
  let ?p = "(procs s ! i)\<lparr>p_killed := True, p_state := UNUSED\<rparr>"
  have "find_index (\<lambda>p. p_state p = UNUSED) ((procs s)[i := ?p]) = Some i"
    unfolding assms(6) [symmetric] using i by (intro find_index_cong) (auto simp: nth_list_update)
  then show ?thesis
    using assms i by (simp add: kill_eq allocproc_eq Let_def embryo_def)
qed

theorem kill_zero_marks_unused_witness:
  "returns (kill 0 (boot_proc\<lparr>kmem_freelist := 0x80400000\<rparr>)) (\<lambda>(r, s1). r = 0 \<and>
    returns (allocproc s1) (\<lambda>(np, s2). np = Some 0 \<and> p_killed (procs s2 ! 0)))"
proof (rule kill_zero_marks_unused)
  let ?s = "boot_proc\<lparr>kmem_freelist := 0x80400000\<rparr>"
  show "cpu_ok ?s" "lock_free PtableLock ?s" "lock_free KmemLock ?s"
    using boot_proc_ok cpu_ok_cong [of ?s boot_proc] by (simp_all add: lock_free_def)
  have f: "find_index P (replicate NPROC zero_proc) = Some 0" if "P zero_proc" for P
    using that by (simp add: find_index_def numeral_eq_Suc)
  show "find_index (\<lambda>p. p_pid p = 0) (procs ?s) = Some 0"
    "find_index (\<lambda>p. p_state p = UNUSED) (procs ?s) = Some 0"
    unfolding boot_proc_def kmem_state.defs by (simp_all add: f [unfolded zero_proc_def] zero_proc_def)
qed simp

end
