(* ===== verification/Sleeplock.thy ===== *)
theory Sleeplock
  imports Proc
begin

text \<open>
  The long-term locks of \<^verbatim>\<open>sleeplock.c\<close>. A sleep lock is named by the spin lock inside it. What other
  threads do while a thread sleeps is a list of steps, one for each time it goes to sleep: the operation
  consumes the head at a \<^verbatim>\<open>sleep\<close> and is \<open>Blocked\<close> when the list is used up, that is, when nobody wakes
  it any more.
\<close>

record sleeplock =
  sl_locked :: bool
  sl_name :: string
  sl_pid :: int

record sleep_state = proc_state +
  sleeplocks :: "lockid \<Rightarrow> sleeplock"

type_synonym 's wakes = "('s \<Rightarrow> 's outcome) list"

definition initsleeplock :: "lockid \<Rightarrow> string \<Rightarrow> 'a sleep_state_scheme \<Rightarrow> 'a sleep_state_scheme" where
  "initsleeplock l name s =
     (let s = initlock l ''sleep lock'' s in
      s\<lparr>sleeplocks := (sleeplocks s)(l := \<lparr>sl_locked = False, sl_name = name, sl_pid = 0\<rparr>)\<rparr>)"

text \<open>The loop \<^verbatim>\<open>while (lk->locked) sleep(lk, &lk->lk);\<close>.\<close>

primrec acquiresleep_wait :: "'a sleep_state_scheme wakes \<Rightarrow> lockid \<Rightarrow> 'a sleep_state_scheme \<Rightarrow>
    'a sleep_state_scheme outcome" where
  "acquiresleep_wait [] l s = (if sl_locked (sleeplocks s l) then Blocked else Ret s)"
| "acquiresleep_wait (w # ws) l s =
     (if sl_locked (sleeplocks s l)
      then bindO (sleep w (ChanSleeplock l) (Some l) s) (\<lambda>s. acquiresleep_wait ws l s)
      else Ret s)"

definition acquiresleep :: "'a sleep_state_scheme wakes \<Rightarrow> lockid \<Rightarrow> 'a sleep_state_scheme \<Rightarrow>
    'a sleep_state_scheme outcome" where
  "acquiresleep ws l s =
     bindO (acquire l s) (\<lambda>s.
     bindO (acquiresleep_wait ws l s) (\<lambda>s.
     bindO (curproc s) (\<lambda>(p, s).
       let s = s\<lparr>sleeplocks := (sleeplocks s)(l := (sleeplocks s l)
                   \<lparr>sl_locked := True, sl_pid := p_pid (procs s ! p)\<rparr>)\<rparr> in
       release l s)))"

definition releasesleep :: "lockid \<Rightarrow> 'a sleep_state_scheme \<Rightarrow> 'a sleep_state_scheme outcome" where
  "releasesleep l s =
     bindO (acquire l s) (\<lambda>s.
       let s = s\<lparr>sleeplocks := (sleeplocks s)(l := (sleeplocks s l)\<lparr>sl_locked := False, sl_pid := 0\<rparr>)\<rparr> in
       bindO (wakeup (ChanSleeplock l) s) (\<lambda>s. release l s))"

definition holdingsleep :: "lockid \<Rightarrow> 'a sleep_state_scheme \<Rightarrow> (bool \<times> 'a sleep_state_scheme) outcome" where
  "holdingsleep l s =
     bindO (acquire l s) (\<lambda>s.
     bindO (if sl_locked (sleeplocks s l)
            then bindO (curproc s) (\<lambda>(p, s). Ret (sl_pid (sleeplocks s l) = p_pid (procs s ! p), s))
            else Ret (False, s)) (\<lambda>(r, s).
     bindO (release l s) (\<lambda>s. Ret (r, s))))"

text \<open>The state at boot, for concrete runs.\<close>

definition boot_sleep :: sleep_state where
  "boot_sleep = proc_state.extend boot_proc \<lparr>sleeplocks = (\<lambda>_. \<lparr>sl_locked = False, sl_name = [], sl_pid = 0\<rparr>)\<rparr>"

lemma boot_sleep_ok [simp]:
  "cpu_ok boot_sleep" "lock_free l boot_sleep" "me boot_sleep = 0" "procs boot_sleep = procs boot_proc"
  using boot_proc_ok(1) cpu_ok_cong [of boot_sleep boot_proc]
  by (simp_all add: boot_sleep_def boot_proc_def boot_kmem_def boot_cpu_def kmem_state.defs proc_state.defs cpu_ok_def lock_free_def me_def find_index_def readeflags_IF_def)

section \<open>A kernel thread\<close>

text \<open>
  \<open>kthread s\<close>: a process runs in the kernel on this CPU and no spin lock is taken; \<open>cur_pid s\<close> is its id.
\<close>

definition kthread :: "'a proc_state_scheme \<Rightarrow> bool" where
  "kthread s \<longleftrightarrow> cpu_ok s \<and> (\<forall>l. lock_free l s) \<and>
     (case cpu_proc (cpus s ! me s) of None \<Rightarrow> False | Some p \<Rightarrow> p < length (procs s))"

definition cur_pid :: "'a proc_state_scheme \<Rightarrow> int" where
  "cur_pid s = (case cpu_proc (cpus s ! me s) of None \<Rightarrow> 0 | Some p \<Rightarrow> p_pid (procs s ! p))"

text \<open>Two states with the same processors, locks and process ids.\<close>

definition same_thread :: "'a proc_state_scheme \<Rightarrow> 'b proc_state_scheme \<Rightarrow> bool" where
  "same_thread t s \<longleftrightarrow> same_machine t s \<and> map p_pid (procs t) = map p_pid (procs s)"

lemma same_thread_refl [simp]: "same_thread s s"
  by (simp add: same_thread_def)

lemma same_thread_trans [trans]: "same_thread u t \<Longrightarrow> same_thread t s \<Longrightarrow> same_thread u s"
  by (auto simp: same_thread_def intro: same_machine_trans)

lemma same_thread_kthread:
  assumes "same_thread t s" and "kthread s"
  shows "kthread t" and "cur_pid t = cur_pid s"
proof -
  have m: "same_machine t s" and p: "map p_pid (procs t) = map p_pid (procs s)"
    using assms(1) by (simp_all add: same_thread_def)
  have c: "cpus t = cpus s" using m by (simp add: same_machine_def)
  have len: "length (procs t) = length (procs s)" using map_eq_imp_length_eq [OF p] .
  show "kthread t" using assms(2) same_machine_ok [OF m] c len by (simp add: kthread_def split: option.splits)
  obtain i where i: "cpu_proc (cpus s ! me s) = Some i" "i < length (procs s)"
    using assms(2) by (auto simp: kthread_def split: option.splits)
  have "map p_pid (procs t) ! i = map p_pid (procs s) ! i" using p by simp
  then show "cur_pid t = cur_pid s" using i len c same_machine_ok(3) [OF m] by (simp add: cur_pid_def)
qed

lemma kthread_curproc:
  assumes "kthread s"
  obtains p where "cpu_proc (cpus s ! me s) = Some p" "p < length (procs s)" "p_pid (procs s ! p) = cur_pid s"
    "curproc s = Ret (p, s)" "\<And>l. curproc (acquired l s) = Ret (p, acquired l s)"
proof -
  obtain p where p: "cpu_proc (cpus s ! me s) = Some p" "p < length (procs s)"
    using assms by (auto simp: kthread_def split: option.splits)
  have ok: "cpu_ok s" using assms by (simp add: kthread_def)
  have "cpu_proc (cpus (acquired l s) ! me (acquired l s)) = Some p" for l
    using p cpu_ok_me [OF ok] me_acquired [OF ok, of l] by (simp add: acquired_def pushed_def)
  then have "curproc (acquired l s) = Ret (p, acquired l s)" for l
    using acquired_ok [OF ok, of l] by (simp add: curproc_ok)
  then show thesis using that [of p] p ok by (simp add: curproc_ok cur_pid_def)
qed

lemma wakeup1_thread [simp]: "same_thread (wakeup1 ch s) s"
  by (simp add: same_thread_def same_machine_def wakeup1_def comp_def)

lemma release_acquired_self: "cpu_ok t \<Longrightarrow> lock_free l t \<Longrightarrow> release l (acquired l t) = Ret t"
  using release_acquired [of t l "acquired l t"]
  by (simp add: restored_def acquired_def pushed_def)

section \<open>What the operations do\<close>

lemma sleeplocks_upd [simp]:
  "cpu_ok (s\<lparr>sleeplocks := f\<rparr>) = cpu_ok s" "lock_free l (s\<lparr>sleeplocks := f\<rparr>) = lock_free l s"
  "sleeplocks (acquired l s) = sleeplocks s"
  "(acquired l s)\<lparr>sleeplocks := f\<rparr> = acquired l (s\<lparr>sleeplocks := f\<rparr>)"
  "same_thread (s\<lparr>sleeplocks := f\<rparr>) s"
  "sleeplocks (wakeup1 ch s) = sleeplocks s"
  by (simp_all add: lock_free_def acquired_def pushed_def me_def same_thread_def same_machine_def wakeup1_def)
    (rule cpu_ok_cong; simp)

lemma holdingsleep_eq:
  assumes "kthread s"
  shows "holdingsleep l s = Ret (sl_locked (sleeplocks s l) \<and> sl_pid (sleeplocks s l) = cur_pid s, s)"
proof -
  have ok: "cpu_ok s" "lock_free l s" using assms by (simp_all add: kthread_def)
  obtain p where "p_pid (procs s ! p) = cur_pid s" "curproc (acquired l s) = Ret (p, acquired l s)"
    using kthread_curproc [OF assms] by blast
  then show ?thesis
    using release_acquired_self [OF ok] by (simp add: holdingsleep_def acquire_free ok)
qed

definition sl_taken :: "lockid \<Rightarrow> 'a sleep_state_scheme \<Rightarrow> 'a sleep_state_scheme" where
  "sl_taken l s = s\<lparr>sleeplocks := (sleeplocks s)(l := (sleeplocks s l)\<lparr>sl_locked := True, sl_pid := cur_pid s\<rparr>)\<rparr>"

definition sl_dropped :: "lockid \<Rightarrow> 'a sleep_state_scheme \<Rightarrow> 'a sleep_state_scheme" where
  "sl_dropped l s = wakeup1 (ChanSleeplock l)
     (s\<lparr>sleeplocks := (sleeplocks s)(l := (sleeplocks s l)\<lparr>sl_locked := False, sl_pid := 0\<rparr>)\<rparr>)"

lemma acquiresleep_eq:
  assumes "kthread s" and "\<not> sl_locked (sleeplocks s l)"
  shows "acquiresleep ws l s = Ret (sl_taken l s)"
proof -
  have ok: "cpu_ok s" "lock_free l s" using assms by (simp_all add: kthread_def)
  obtain p where "p_pid (procs s ! p) = cur_pid s" "curproc (acquired l s) = Ret (p, acquired l s)"
    using kthread_curproc [OF assms(1)] by blast
  moreover have "acquiresleep_wait ws l (acquired l s) = Ret (acquired l s)"
    using assms(2) by (cases ws) simp_all
  ultimately show ?thesis
    by (simp add: acquiresleep_def acquire_free ok Let_def release_acquired_self sl_taken_def)
qed

lemma wakeup1_acquired: "wakeup1 ch (acquired l s) = acquired l (wakeup1 ch s)"
  by (simp add: wakeup1_def acquired_def pushed_def me_def)

lemma releasesleep_eq:
  assumes "kthread s" and "l \<noteq> PtableLock"
  shows "releasesleep l s = Ret (sl_dropped l s)"
proof -
  have ok: "cpu_ok s" "lock_free l s" "lock_free PtableLock s" using assms by (simp_all add: kthread_def)
  then show ?thesis
    using assms(2) by (simp add: releasesleep_def acquire_free Let_def wakeup_eq acquired_ok wakeup1_acquired
        release_acquired_self sl_dropped_def)
qed

lemma sl_thread [simp]: "same_thread (sl_taken l s) s" "same_thread (sl_dropped l s) s"
  using same_thread_trans [OF wakeup1_thread sleeplocks_upd(5)] by (simp_all add: sl_taken_def sl_dropped_def)

lemma acquiresleep_taken:
  assumes "kthread s" and "sl_locked (sleeplocks s l)"
  shows "acquiresleep [] l s = Blocked"
  using assms by (simp add: acquiresleep_def kthread_def acquire_free)

section \<open>Contention\<close>

text \<open>While the steps of the other threads leave the lock taken, \<^verbatim>\<open>sleep\<close> comes back with the lock taken.\<close>

lemma sleeplocks_more: "machine.more t = machine.more s \<Longrightarrow> sleeplocks t = sleeplocks s"
  by (cases s, cases t) simp

lemma sleep_keeps_taken:
  assumes "\<forall>u. whenever (w u) (\<lambda>v. sl_locked (sleeplocks v l))" and "sleep w ch (Some k) s = Ret t"
  shows "sl_locked (sleeplocks t l)"
proof -
  obtain p s1 s2 where s2: "sched w (upd_proc p (\<lambda>q. q\<lparr>p_chan := ch, p_state := SLEEPING\<rparr>) s1) = Ret s2"
    and t: "(if k \<noteq> PtableLock then bindO (release PtableLock (upd_proc p (\<lambda>q. q\<lparr>p_chan := NoChan\<rparr>) s2)) (\<lambda>s. acquire k s)
      else Ret (upd_proc p (\<lambda>q. q\<lparr>p_chan := NoChan\<rparr>) s2)) = Ret t"
    using assms(2) by (auto simp: sleep_def bindO_eq_Ret_iff Let_def split: option.splits if_splits)
  obtain u v c ie where "w u = Ret v" "s2 = upd_cpu c (\<lambda>k. k\<lparr>intena := ie\<rparr>) v"
    using s2 by (auto simp: sched_def bindO_eq_Ret_iff Let_def split: option.splits if_splits)
  then have "sl_locked (sleeplocks s2 l)" using assms(1) by (auto simp: upd_cpu_def dest: wheneverD)
  moreover have "sleeplocks t = sleeplocks s2"
    using t by (auto simp: bindO_eq_Ret_iff upd_proc_def dest!: release_more acquire_more sleeplocks_more split: if_splits)
  ultimately show ?thesis by simp
qed

lemma acquiresleep_wait_taken:
  assumes "\<forall>w\<in>set ws. \<forall>u. whenever (w u) (\<lambda>v. sl_locked (sleeplocks v l))" and "sl_locked (sleeplocks s l)"
  shows "acquiresleep_wait ws l s \<noteq> Ret t"
  using assms
proof (induction ws arbitrary: s)
  case (Cons w ws)
  show ?case
  proof
    assume "acquiresleep_wait (w # ws) l s = Ret t"
    then obtain u where u: "sleep w (ChanSleeplock l) (Some l) s = Ret u" "acquiresleep_wait ws l u = Ret t"
      using Cons.prems(2) by (auto simp: bindO_eq_Ret_iff)
    have "sl_locked (sleeplocks u l)" by (rule sleep_keeps_taken [OF _ u(1)]) (use Cons.prems(1) in simp)
    then show False using Cons.IH [of u] Cons.prems(1) u(2) by simp
  qed
qed simp

lemma acquiresleep_excluded:
  assumes "\<forall>w\<in>set ws. \<forall>u. whenever (w u) (\<lambda>v. sl_locked (sleeplocks v l))" and "sl_locked (sleeplocks s l)"
  shows "acquiresleep ws l s \<noteq> Ret t"
  using acquiresleep_wait_taken [OF assms(1)] assms(2)
  by (auto simp: acquiresleep_def bindO_eq_Ret_iff dest!: acquire_more sleeplocks_more)

text \<open>
  \<open>woken l s w v\<close>: the thread goes to sleep on lock \<open>l\<close> in state \<open>s\<close>, and step \<open>w\<close> of the other threads ends with
  resuming it on the same processor; \<open>v\<close> is the state once it has left \<^verbatim>\<open>ptable.lock\<close> and cleared its channel.
  Whatever else the kernel holds, the sleep locks included, may have changed.
\<close>

definition woken :: "lockid \<Rightarrow> 'a sleep_state_scheme \<Rightarrow> ('a sleep_state_scheme \<Rightarrow> 'a sleep_state_scheme outcome) \<Rightarrow>
    'a sleep_state_scheme \<Rightarrow> bool" where
  "woken l s w v \<longleftrightarrow> same_machine v s \<and> length (procs v) = length (procs s) \<and>
     (case cpu_proc (cpus s ! me s) of None \<Rightarrow> False
      | Some p \<Rightarrow> p_chan (procs v ! p) = NoChan \<and>
          w (asleep p (ChanSleeplock l) s) = Ret (upd_proc p (\<lambda>q. q\<lparr>p_chan := ChanSleeplock l\<rparr>) (acquired PtableLock v)))"

lemma woken_kthread: "woken l s w v \<Longrightarrow> kthread s \<Longrightarrow> kthread v"
  using same_machine_ok [of v s] by (auto simp: woken_def kthread_def same_machine_def split: option.splits)

lemma sleep_woken:
  assumes "kthread s" and "l \<noteq> PtableLock" and "ncli (cpus s ! me s) = 0" and "woken l s w v"
  shows "sleep w (ChanSleeplock l) (Some l) (acquired l s) = Ret (acquired l v)"
proof -
  obtain p where p: "cpu_proc (cpus s ! me s) = Some p" "p < length (procs s)"
    using assms(1) by (auto simp: kthread_def split: option.splits)
  have v: "same_machine v s" "p < length (procs v)" "p_chan (procs v ! p) = NoChan"
      "w (asleep p (ChanSleeplock l) s) = Ret (upd_proc p (\<lambda>q. q\<lparr>p_chan := ChanSleeplock l\<rparr>) (acquired PtableLock v))"
    using assms(4) p by (simp_all add: woken_def)
  have s: "cpu_ok s" "lock_free l s" "lock_free PtableLock s" using assms(1) by (simp_all add: kthread_def)
  have vk: "kthread v" by (rule woken_kthread [OF assms(4,1)])
  then have vo: "cpu_ok v" "lock_free l v" "lock_free PtableLock v" by (simp_all add: kthread_def)
  let ?a = "acquired PtableLock v"
  let ?u = "upd_proc p (\<lambda>q. q\<lparr>p_chan := ChanSleeplock l\<rparr>) ?a"
  have c: "cpus v = cpus s" "me v = me s" using v(1) same_machine_ok [OF v(1)] by (simp_all add: same_machine_def)
  have mea: "me ?a = me v" by (rule me_acquired [OF vo(1)])
  have "mycpu ?a = Ret (me v)"
    using mycpu_ok [OF acquired_ok [OF vo(1)]] mea by (simp add: readeflags_IF_def acquired_def pushed_def)
  moreover have "mycpu ?u = mycpu ?a" by (simp add: mycpu_def readeflags_IF_def)
  ultimately have my: "mycpu ?u = Ret (me v)" by simp
  have "(procs v ! p)\<lparr>p_chan := NoChan\<rparr> = procs v ! p" using v(3) by simp
  then have nc: "(procs v)[p := (procs v ! p)\<lparr>p_chan := NoChan\<rparr>] = procs v" by (simp only: list_update_id)
  have "upd_proc p (\<lambda>q. q\<lparr>p_chan := NoChan\<rparr>) (upd_cpu (me v) (\<lambda>k. k\<lparr>intena := intena (cpus s ! me s)\<rparr>) ?u) = ?a"
    using v(2,3) c cpu_ok_me(2) [OF vo(1)]
    by (simp add: upd_proc_def upd_cpu_def acquired_def pushed_def nc)
  then show ?thesis
    using sleep_eq [OF s(1) assms(3) p s(2,3) assms(2), of w "ChanSleeplock l"] v(4) my
      release_acquired_self [OF vo(1,3)] acquire_free [OF vo(1,2)] by simp
qed

lemma acquiresleep_woken:
  assumes "kthread s" and "l \<noteq> PtableLock" and "ncli (cpus s ! me s) = 0" and "woken l s w v" and "sl_locked (sleeplocks s l)"
  shows "acquiresleep (w # ws) l s = acquiresleep ws l v"
  using assms(1,5) sleep_woken [OF assms(1-4)] woken_kthread [OF assms(4,1)]
  by (simp add: acquiresleep_def kthread_def acquire_free)

text \<open>
  C32: A sleep lock is exclusive. The thread that gets a free lock holds it, and only it: a thread that finds the
  lock in that state does not hold it unless it is the same process, and does not get it either as long as
  the steps of the other threads leave it taken, however often they wake it up. A waiting thread that is woken
  up looks at the lock again: it goes on as if it had called \<^verbatim>\<open>acquiresleep\<close> in the state in which it was
  resumed, so it gets the lock when it is free there. Releasing frees the lock and makes every process that
  sleeps on it runnable.
\<close>

theorem sleeplock_exclusive:
  assumes "kthread s" and "l \<noteq> PtableLock" and "\<not> sl_locked (sleeplocks s l)"
  shows "returns (acquiresleep ws l s) (\<lambda>t. holdingsleep l t = Ret (True, t) \<and>
    (\<forall>u :: 'a sleep_state_scheme. kthread u \<longrightarrow> sleeplocks u l = sleeplocks t l \<longrightarrow> acquiresleep [] l u = Blocked \<and>
       (cur_pid u \<noteq> cur_pid s \<longrightarrow> holdingsleep l u = Ret (False, u)) \<and>
       (\<forall>ws. (\<forall>w\<in>set ws. \<forall>x. whenever (w x) (\<lambda>y. sl_locked (sleeplocks y l))) \<longrightarrow> (\<forall>y. acquiresleep ws l u \<noteq> Ret y)) \<and>
       (\<forall>w ws v. ncli (cpus u ! me u) = 0 \<longrightarrow> woken l u w v \<longrightarrow> acquiresleep (w # ws) l u = acquiresleep ws l v)) \<and>
    returns (releasesleep l t) (\<lambda>v. \<not> sl_locked (sleeplocks v l) \<and>
      (\<forall>i<length (procs t). p_state (procs t ! i) = SLEEPING \<longrightarrow> p_chan (procs t ! i) = ChanSleeplock l \<longrightarrow>
         p_state (procs v ! i) = RUNNABLE)))"
proof -
  let ?t = "sl_taken l s"
  have t: "kthread ?t" "cur_pid ?t = cur_pid s"
    using same_thread_kthread [of ?t s] assms(1) by simp_all
  have lk: "sleeplocks ?t l = (sleeplocks s l)\<lparr>sl_locked := True, sl_pid := cur_pid s\<rparr>" by (simp add: sl_taken_def)
  have "acquiresleep [] l u = Blocked \<and> (cur_pid u \<noteq> cur_pid s \<longrightarrow> holdingsleep l u = Ret (False, u)) \<and>
       (\<forall>ws. (\<forall>w\<in>set ws. \<forall>x. whenever (w x) (\<lambda>y. sl_locked (sleeplocks y l))) \<longrightarrow> (\<forall>y. acquiresleep ws l u \<noteq> Ret y)) \<and>
       (\<forall>w ws v. ncli (cpus u ! me u) = 0 \<longrightarrow> woken l u w v \<longrightarrow> acquiresleep (w # ws) l u = acquiresleep ws l v)"
    if u: "kthread u" "sleeplocks u l = sleeplocks ?t l" for u :: "'a sleep_state_scheme"
  proof -
    have taken: "sl_locked (sleeplocks u l)" "sl_pid (sleeplocks u l) = cur_pid s" using u(2) lk by simp_all
    show ?thesis using acquiresleep_excluded [OF _ taken(1)] acquiresleep_woken [OF u(1) assms(2) _ _ taken(1)]
        acquiresleep_taken [OF u(1) taken(1)] holdingsleep_eq [OF u(1), of l] taken(2) by auto
  qed
  moreover have "p_state (procs (sl_dropped l ?t) ! i) = RUNNABLE"
    if "i < length (procs ?t)" "p_state (procs ?t ! i) = SLEEPING" "p_chan (procs ?t ! i) = ChanSleeplock l" for i
    using that by (simp add: sl_dropped_def nth_wakeup1)
  moreover have "\<not> sl_locked (sleeplocks (sl_dropped l ?t) l)" by (simp add: sl_dropped_def)
  moreover have "holdingsleep l ?t = Ret (True, ?t)" using holdingsleep_eq [OF t(1), of l] lk t(2) by simp
  ultimately show ?thesis
    using t(1) assms by (simp add: acquiresleep_eq releasesleep_eq)
qed

text \<open>The state at boot with process 1 on the processor.\<close>

definition boot_thread :: sleep_state where
  "boot_thread = boot_sleep\<lparr>cpus := [boot_cpu\<lparr>cpu_proc := Some 0\<rparr>],
     procs := (procs boot_sleep)[0 := zero_proc\<lparr>p_state := RUNNING, p_pid := 1\<rparr>]\<rparr>"

lemma boot_thread_ok [simp]: "kthread boot_thread" "cur_pid boot_thread = 1"
  by (simp_all add: boot_thread_def boot_sleep_def boot_proc_def boot_kmem_def boot_cpu_def kmem_state.defs proc_state.defs
      kthread_def cur_pid_def cpu_ok_def lock_free_def me_def find_index_def readeflags_IF_def)

text \<open>Process 2 waits for the lock that process 1 holds; process 1 releases it, and the scheduler resumes process 2.\<close>

definition waiting_thread :: sleep_state where
  "waiting_thread = (sl_taken (BufLk 3) boot_thread)\<lparr>cpus := [boot_cpu\<lparr>cpu_proc := Some 1\<rparr>],
     procs := (procs boot_sleep)[0 := zero_proc\<lparr>p_state := RUNNABLE, p_pid := 1\<rparr>, 1 := zero_proc\<lparr>p_state := RUNNING, p_pid := 2\<rparr>]\<rparr>"

definition resumed_thread :: sleep_state where
  "resumed_thread = waiting_thread\<lparr>sleeplocks := (sleeplocks boot_thread)\<rparr>"

lemma waiting_thread_ok:
  "kthread waiting_thread" "cur_pid waiting_thread = 2" "ncli (cpus waiting_thread ! me waiting_thread) = 0"
  "kthread resumed_thread" "\<not> sl_locked (sleeplocks resumed_thread (BufLk 3))" "p_chan (procs waiting_thread ! 1) = NoChan"
  "cpu_proc (cpus waiting_thread ! me waiting_thread) = Some 1"
  by (simp_all add: waiting_thread_def resumed_thread_def sl_taken_def boot_thread_def boot_sleep_def boot_proc_def boot_kmem_def boot_cpu_def kmem_state.defs proc_state.defs
      kthread_def cur_pid_def cpu_ok_def lock_free_def me_def find_index_def readeflags_IF_def zero_proc_def)

definition resume_step :: "sleep_state \<Rightarrow> sleep_state outcome" where
  "resume_step = (\<lambda>_. Ret (upd_proc 1 (\<lambda>q. q\<lparr>p_chan := ChanSleeplock (BufLk 3)\<rparr>) (acquired PtableLock resumed_thread)))"

lemma resume_step_woken: "woken (BufLk 3) waiting_thread resume_step resumed_thread"
  using waiting_thread_ok(6,7) by (simp add: woken_def resume_step_def) (simp add: resumed_thread_def same_machine_def)

theorem sleeplock_exclusive_witness:
  "returns (acquiresleep [] (BufLk 3) boot_thread) (\<lambda>t. holdingsleep (BufLk 3) t = Ret (True, t) \<and>
    returns (releasesleep (BufLk 3) t) (\<lambda>v. \<not> sl_locked (sleeplocks v (BufLk 3)))) \<and>
   holdingsleep (BufLk 3) waiting_thread = Ret (False, waiting_thread) \<and>
   (\<forall>y. acquiresleep [\<lambda>_. Ret waiting_thread, \<lambda>_. Ret waiting_thread] (BufLk 3) waiting_thread \<noteq> Ret y) \<and>
   acquiresleep [resume_step] (BufLk 3) waiting_thread = Ret (sl_taken (BufLk 3) resumed_thread)"
proof -
  let ?l = "BufLk 3"
  have free: "\<not> sl_locked (sleeplocks boot_thread ?l)"
    by (simp add: boot_thread_def boot_sleep_def proc_state.defs)
  have lk: "sleeplocks waiting_thread ?l = sleeplocks (sl_taken ?l boot_thread) ?l" by (simp add: waiting_thread_def)
  then have taken: "sl_locked (sleeplocks waiting_thread ?l)" by (simp add: sl_taken_def)
  have get: "acquiresleep [] ?l resumed_thread = Ret (sl_taken ?l resumed_thread)"
    using waiting_thread_ok by (simp add: acquiresleep_eq)
  have t: "acquiresleep [] ?l boot_thread = Ret (sl_taken ?l boot_thread)" using free by (simp add: acquiresleep_eq)
  note ex = sleeplock_exclusive [OF boot_thread_ok(1) _ free, of "[]", unfolded t returns_Ret]
  note w = conjunct1 [OF conjunct2 [OF ex], rule_format, OF _ waiting_thread_ok(1) lk]
  have "\<forall>y. acquiresleep [\<lambda>_. Ret waiting_thread, \<lambda>_. Ret waiting_thread] ?l waiting_thread \<noteq> Ret y"
    using w taken by simp
  moreover have "acquiresleep [resume_step] ?l waiting_thread = Ret (sl_taken ?l resumed_thread)"
    using w resume_step_woken waiting_thread_ok(3) get by simp
  moreover have "holdingsleep ?l waiting_thread = Ret (False, waiting_thread)" using w waiting_thread_ok(2) by simp
  ultimately show ?thesis using ex t by (auto elim: returns_mono)
qed

end
