(* ===== verification/Bio.thy ===== *)
theory Bio
  imports Sleeplock
begin

text \<open>
  The buffer cache, \<^verbatim>\<open>bio.c\<close>, on the disk driver \<^verbatim>\<open>memide.c\<close>. The LRU list is the ring through the
  \<^verbatim>\<open>prev\<close> and \<^verbatim>\<open>next\<close> pointers of the buffers and of \<^verbatim>\<open>bcache.head\<close>; a pointer to a buffer is its index,
  and \<^verbatim>\<open>head\<close> is the entry \<^verbatim>\<open>NBUF\<close>.
\<close>

section \<open>State\<close>

abbreviation (input) BSIZE :: nat where "BSIZE \<equiv> 512"

abbreviation (input) HEAD :: nat where "HEAD \<equiv> NBUF"

text \<open>The flags \<^verbatim>\<open>B_VALID\<close> and \<^verbatim>\<open>B_DIRTY\<close> are two booleans; the lock is \<open>sleeplocks (BufLk i)\<close>.\<close>

record buf =
  b_valid :: bool
  b_dirty :: bool
  b_dev :: u32
  b_blockno :: u32
  b_refcnt :: u32
  b_prev :: nat
  b_next :: nat
  b_data :: "u8 list"

text \<open>
  \<open>disk_trace\<close> is a ghost field: no operation reads it. \<^verbatim>\<open>iderw\<close>, the only operation that changes the disk, appends the
  blocks of the disk after each of its writes, so the field lists the disks that a crash can leave behind.
\<close>

record bio_state = sleep_state +
  bufs :: "buf list"
  memdisk :: "u8 list list"
  disk_trace :: "u8 list list list"

definition upd_buf :: "nat \<Rightarrow> (buf \<Rightarrow> buf) \<Rightarrow> 'a bio_state_scheme \<Rightarrow> 'a bio_state_scheme" where
  "upd_buf i f s = s\<lparr>bufs := (bufs s)[i := f (bufs s ! i)]\<rparr>"

section \<open>The ring\<close>

text \<open>\<open>push_front b\<close>: the four assignments that link \<open>b\<close> in behind \<^verbatim>\<open>head\<close>; \<open>unlink b\<close>: the two that take it out.\<close>

definition push_front :: "nat \<Rightarrow> buf list \<Rightarrow> buf list" where
  "push_front b bs =
     (let bs = bs[b := (bs ! b)\<lparr>b_next := b_next (bs ! HEAD)\<rparr>];
          bs = bs[b := (bs ! b)\<lparr>b_prev := HEAD\<rparr>];
          n = b_next (bs ! HEAD);
          bs = bs[n := (bs ! n)\<lparr>b_prev := b\<rparr>]
      in bs[HEAD := (bs ! HEAD)\<lparr>b_next := b\<rparr>])"

definition unlink_buf :: "nat \<Rightarrow> buf list \<Rightarrow> buf list" where
  "unlink_buf b bs =
     (let n = b_next (bs ! b); bs = bs[n := (bs ! n)\<lparr>b_prev := b_prev (bs ! b)\<rparr>];
          p = b_prev (bs ! b)
      in bs[p := (bs ! p)\<lparr>b_next := b_next (bs ! b)\<rparr>])"

fun binit_loop :: "nat list \<Rightarrow> 'a bio_state_scheme \<Rightarrow> 'a bio_state_scheme" where
  "binit_loop [] s = s"
| "binit_loop (b # bs) s =
     binit_loop bs (let s = initsleeplock (BufLk b) ''buffer'' s in s\<lparr>bufs := push_front b (bufs s)\<rparr>)"

definition binit :: "'a bio_state_scheme \<Rightarrow> 'a bio_state_scheme" where
  "binit s =
     (let s = initlock BcacheLock ''bcache'' s;
          s = upd_buf HEAD (\<lambda>h. h\<lparr>b_prev := HEAD, b_next := HEAD\<rparr>) s
      in binit_loop [0..<NBUF] s)"

text \<open>
  The two searches of \<^verbatim>\<open>bget\<close> follow the pointers from \<^verbatim>\<open>head\<close> until they are back at it. The bound on the
  number of steps is the number of buffers; a ring that is longer does not exist.
\<close>

primrec scan_next :: "nat \<Rightarrow> (buf \<Rightarrow> bool) \<Rightarrow> buf list \<Rightarrow> nat \<Rightarrow> nat option" where
  "scan_next 0 P bs b = None"
| "scan_next (Suc n) P bs b =
     (if b = HEAD then None else if P (bs ! b) then Some b else scan_next n P bs (b_next (bs ! b)))"

primrec scan_prev :: "nat \<Rightarrow> (buf \<Rightarrow> bool) \<Rightarrow> buf list \<Rightarrow> nat \<Rightarrow> nat option" where
  "scan_prev 0 P bs b = None"
| "scan_prev (Suc n) P bs b =
     (if b = HEAD then None else if P (bs ! b) then Some b else scan_prev n P bs (b_prev (bs ! b)))"

section \<open>Operations\<close>

definition bget :: "u32 \<Rightarrow> u32 \<Rightarrow> 'a bio_state_scheme \<Rightarrow> (nat \<times> 'a bio_state_scheme) outcome" where
  "bget dev blockno s =
     bindO (locked BcacheLock (\<lambda>s.
         case scan_next NBUF (\<lambda>b. b_dev b = dev \<and> b_blockno b = blockno) (bufs s) (b_next (bufs s ! HEAD)) of
           Some b \<Rightarrow> Ret (b, upd_buf b (\<lambda>x. x\<lparr>b_refcnt := b_refcnt x + 1\<rparr>) s)
         | None \<Rightarrow>
             (case scan_prev NBUF (\<lambda>b. b_refcnt b = 0 \<and> \<not> b_dirty b) (bufs s) (b_prev (bufs s ! HEAD)) of
                Some b \<Rightarrow> Ret (b, upd_buf b (\<lambda>x. x\<lparr>b_dev := dev, b_blockno := blockno, b_valid := False,
                                b_dirty := False, b_refcnt := 1\<rparr>) s)
              | None \<Rightarrow> Panic ''bget: no buffers'')) s) (\<lambda>(b, s).
     bindO (acquiresleep [] (BufLk b) s) (\<lambda>s. Ret (b, s)))"

definition iderw :: "nat \<Rightarrow> 'a bio_state_scheme \<Rightarrow> 'a bio_state_scheme outcome" where
  "iderw b s =
     bindO (holdingsleep (BufLk b) s) (\<lambda>(h, s).
       let x = bufs s ! b in
       if \<not> h then Panic ''iderw: buf not locked''
       else if b_valid x \<and> \<not> b_dirty x then Panic ''iderw: nothing to do''
       else if b_dev x \<noteq> 1 then Panic ''iderw: request not for disk 1''
       else if unat (b_blockno x) \<ge> length (memdisk s) then Panic ''iderw: block out of range''
       else
         let s = (if b_dirty x
                  then let d = (memdisk s)[unat (b_blockno x) := b_data x] in
                       (upd_buf b (\<lambda>x. x\<lparr>b_dirty := False\<rparr>) s)\<lparr>memdisk := d, disk_trace := disk_trace s @ [d]\<rparr>
                  else upd_buf b (\<lambda>y. y\<lparr>b_data := memdisk s ! unat (b_blockno x)\<rparr>) s)
         in Ret (upd_buf b (\<lambda>x. x\<lparr>b_valid := True\<rparr>) s))"

definition bread :: "u32 \<Rightarrow> u32 \<Rightarrow> 'a bio_state_scheme \<Rightarrow> (nat \<times> 'a bio_state_scheme) outcome" where
  "bread dev blockno s =
     bindO (bget dev blockno s) (\<lambda>(b, s).
     bindO (if \<not> b_valid (bufs s ! b) then iderw b s else Ret s) (\<lambda>s. Ret (b, s)))"

definition bwrite :: "nat \<Rightarrow> 'a bio_state_scheme \<Rightarrow> 'a bio_state_scheme outcome" where
  "bwrite b s =
     bindO (holdingsleep (BufLk b) s) (\<lambda>(h, s).
       if \<not> h then Panic ''bwrite''
       else iderw b (upd_buf b (\<lambda>x. x\<lparr>b_dirty := True\<rparr>) s))"

definition brelse :: "nat \<Rightarrow> 'a bio_state_scheme \<Rightarrow> 'a bio_state_scheme outcome" where
  "brelse b s =
     bindO (holdingsleep (BufLk b) s) (\<lambda>(h, s).
       if \<not> h then Panic ''brelse''
       else
         bindO (releasesleep (BufLk b) s) (\<lambda>s.
         bindO (locked BcacheLock (\<lambda>s.
             let s = upd_buf b (\<lambda>x. x\<lparr>b_refcnt := b_refcnt x - 1\<rparr>) s in
             if b_refcnt (bufs s ! b) = 0
             then Ret ((), s\<lparr>bufs := push_front b (unlink_buf b (bufs s))\<rparr>)
             else Ret ((), s)) s) (\<lambda>(_, s). Ret s)))"

text \<open>The state at boot, for concrete runs.\<close>

definition boot_bio :: bio_state where
  "boot_bio = sleep_state.extend boot_sleep 
     \<lparr>bufs = replicate (NBUF + 1) \<lparr>b_valid = False, b_dirty = False, b_dev = 0, b_blockno = 0, b_refcnt = 0,
        b_prev = 0, b_next = 0, b_data = replicate BSIZE 0\<rparr>,
      memdisk = replicate FSSIZE (replicate BSIZE 0), disk_trace = []\<rparr>"

lemma boot_bio_ok [simp]:
  "cpu_ok boot_bio" "lock_free l boot_bio" "me boot_bio = 0" "procs boot_bio = procs boot_proc"
  using boot_proc_ok(1) cpu_ok_cong [of boot_bio boot_proc]
  by (simp_all add: boot_bio_def boot_proc_def boot_kmem_def boot_cpu_def kmem_state.defs boot_sleep_def proc_state.defs sleep_state.defs cpu_ok_def lock_free_def me_def find_index_def readeflags_IF_def)

section \<open>The ring is a list\<close>

text \<open>
  \<open>chain bs p xs q\<close>: the links lead from \<open>p\<close> through the buffers \<open>xs\<close> to \<open>q\<close>, forwards and backwards. The cache
  is the chain from \<^verbatim>\<open>head\<close> around to itself.
\<close>

definition link :: "buf list \<Rightarrow> nat \<Rightarrow> nat \<Rightarrow> bool" where
  "link bs p q \<longleftrightarrow> b_next (bs ! p) = q \<and> b_prev (bs ! q) = p"

primrec chain :: "buf list \<Rightarrow> nat \<Rightarrow> nat list \<Rightarrow> nat \<Rightarrow> bool" where
  "chain bs p [] q \<longleftrightarrow> link bs p q"
| "chain bs p (x # xs) q \<longleftrightarrow> link bs p x \<and> chain bs x xs q"

definition ring_ok :: "buf list \<Rightarrow> nat list \<Rightarrow> bool" where
  "ring_ok bs xs \<longleftrightarrow> length bs = NBUF + 1 \<and> distinct xs \<and> set xs \<subseteq> {0..<NBUF} \<and> chain bs HEAD xs HEAD"

lemma chain_append: "chain bs p (xs @ y # ys) q \<longleftrightarrow> chain bs p xs y \<and> chain bs y ys q"
  by (induction xs arbitrary: p) auto

text \<open>A chain depends on the next pointers of all but its end and on the prev pointers of all but its start.\<close>

lemma chain_cong:
  assumes "chain bs p xs q" and "\<And>x. x \<in> set (p # xs) \<Longrightarrow> b_next (bs' ! x) = b_next (bs ! x)"
    and "\<And>x. x \<in> set (xs @ [q]) \<Longrightarrow> b_prev (bs' ! x) = b_prev (bs ! x)"
  shows "chain bs' p xs q"
  using assms by (induction xs arbitrary: p) (simp_all add: link_def)

lemma push_front_sel:
  assumes "length bs = NBUF + 1" and "b < NBUF" and "b_next (bs ! HEAD) \<noteq> b" and "b_next (bs ! HEAD) \<le> NBUF"
  shows "length (push_front b bs) = NBUF + 1"
    and "b_next (push_front b bs ! x) = (if x = HEAD then b else if x = b then b_next (bs ! HEAD) else b_next (bs ! x))"
    and "b_prev (push_front b bs ! x) = (if x = b_next (bs ! HEAD) then b else if x = b then HEAD else b_prev (bs ! x))"
    and "(push_front b bs ! x)\<lparr>b_next := n, b_prev := p\<rparr> = (bs ! x)\<lparr>b_next := n, b_prev := p\<rparr>"
  using assms by (auto simp: push_front_def Let_def nth_list_update)

lemma unlink_sel:
  assumes "length bs = NBUF + 1" and "b < NBUF" and "b_next (bs ! b) \<le> NBUF" and "b_prev (bs ! b) \<le> NBUF"
    and "b_next (bs ! b) \<noteq> b"
  shows "length (unlink_buf b bs) = NBUF + 1"
    and "b_next (unlink_buf b bs ! x) = (if x = b_prev (bs ! b) then b_next (bs ! b) else b_next (bs ! x))"
    and "b_prev (unlink_buf b bs ! x) = (if x = b_next (bs ! b) then b_prev (bs ! b) else b_prev (bs ! x))"
    and "(unlink_buf b bs ! x)\<lparr>b_next := n, b_prev := p\<rparr> = (bs ! x)\<lparr>b_next := n, b_prev := p\<rparr>"
  using assms by (auto simp: unlink_buf_def Let_def nth_list_update)

lemma ring_push_front:
  assumes "ring_ok bs xs" and "b < NBUF" and "b \<notin> set xs"
  shows "ring_ok (push_front b bs) (b # xs)"
proof -
  have len: "length bs = NBUF + 1" and d: "distinct xs" "set xs \<subseteq> {0..<NBUF}" and c: "chain bs HEAD xs HEAD"
    using assms(1) by (simp_all add: ring_ok_def)
  define y where "y = hd (xs @ [HEAD])"
  have n: "b_next (bs ! HEAD) = y" using c by (cases xs) (simp_all add: y_def link_def)
  have yb: "y \<noteq> b" "y \<le> NBUF" using assms(2,3) d(2) by (cases xs; auto simp: y_def)+
  note sel = push_front_sel [OF len assms(2), unfolded n, OF yb]
  have "chain (push_front b bs) b xs HEAD"
  proof (cases xs)
    case Nil
    then show ?thesis using sel y_def assms(2) by (simp add: link_def)
  next
    case (Cons z zs)
    then have "chain bs z zs HEAD" using c by simp
    then have "chain (push_front b bs) z zs HEAD"
      by (rule chain_cong) (use sel Cons d assms(2,3) in \<open>auto simp: y_def\<close>)
    then show ?thesis using sel Cons d assms(2,3) by (auto simp: link_def y_def)
  qed
  moreover have "link (push_front b bs) HEAD b" using sel yb assms(2) n by (auto simp: link_def)
  ultimately show ?thesis using assms d sel by (auto simp: ring_ok_def)
qed

lemma ring_unlink:
  assumes "ring_ok bs (ys @ b # zs)"
  shows "ring_ok (unlink_buf b bs) (ys @ zs)"
proof -
  let ?p = "last (HEAD # ys)" and ?n = "hd (zs @ [HEAD])"
  have len: "length bs = NBUF + 1" and d: "distinct (ys @ b # zs)" "set (ys @ b # zs) \<subseteq> {0..<NBUF}"
    and c: "chain bs HEAD ys b" "chain bs b zs HEAD"
    using assms by (auto simp: ring_ok_def chain_append)
  have b: "b < NBUF" using d(2) by simp
  have n: "b_next (bs ! b) = ?n" using c(2) by (cases zs) (simp_all add: link_def)
  have "chain bs h ys b \<Longrightarrow> b_prev (bs ! b) = last (h # ys)" for h
    by (induction ys arbitrary: h) (auto simp: link_def)
  then have p: "b_prev (bs ! b) = ?p" using c(1) by simp
  have in_np: "?n \<in> set zs \<union> {HEAD}" "?p \<in> set ys \<union> {HEAD}" by (cases zs; auto)+
  then have np: "?n \<le> NBUF" "?p \<le> NBUF" "?n \<noteq> b" "?p \<noteq> b" using d b by (cases zs; force)+
  note sel = unlink_sel [OF len b, unfolded n p, OF np(1,2,3)]
  have l: "link (unlink_buf b bs) ?p ?n" using sel np by (simp add: link_def)
  have left: "chain (unlink_buf b bs) HEAD us u" if "ys = us @ [u]" for us u
    by (rule chain_cong [of bs]) (use that c(1) d b sel in_np in \<open>auto simp: chain_append\<close>)
  have right: "chain (unlink_buf b bs) z vs HEAD" if "zs = z # vs" for z vs
    by (rule chain_cong [of bs]) (use that c(2) d b sel in_np in auto)
  have "chain (unlink_buf b bs) HEAD (ys @ zs) HEAD"
    using l left right by (cases ys rule: rev_cases; cases zs) (auto simp: chain_append)
  then show ?thesis using d sel by (auto simp: ring_ok_def)
qed

lemma scan_next_find:
  assumes "chain bs p xs HEAD" and "HEAD \<notin> set xs" and "length xs \<le> n"
  shows "scan_next n P bs (b_next (bs ! p)) = find (\<lambda>b. P (bs ! b)) xs"
  using assms
proof (induction xs arbitrary: n p)
  case Nil
  then show ?case by (cases n) (simp_all add: link_def)
next
  case (Cons x xs)
  then show ?case by (cases n) (auto simp: link_def)
qed

lemma scan_prev_find:
  assumes "chain bs HEAD xs q" and "HEAD \<notin> set xs" and "length xs \<le> n"
  shows "scan_prev n P bs (b_prev (bs ! q)) = find (\<lambda>b. P (bs ! b)) (rev xs)"
  using assms
proof (induction xs arbitrary: n q rule: rev_induct)
  case Nil
  then show ?case by (cases n) (simp_all add: link_def)
next
  case (snoc x xs)
  then show ?case by (cases n) (auto simp: link_def chain_append)
qed

lemma ring_scans:
  assumes "ring_ok bs xs"
  shows "scan_next NBUF P bs (b_next (bs ! HEAD)) = find (\<lambda>b. P (bs ! b)) xs"
    and "scan_prev NBUF P bs (b_prev (bs ! HEAD)) = find (\<lambda>b. P (bs ! b)) (rev xs)"
proof -
  have "card (set xs) \<le> card {0..<NBUF}" using assms by (intro card_mono) (simp_all add: ring_ok_def)
  then have "length xs \<le> NBUF" "HEAD \<notin> set xs" using assms by (auto simp: ring_ok_def distinct_card)
  then show "scan_next NBUF P bs (b_next (bs ! HEAD)) = find (\<lambda>b. P (bs ! b)) xs"
    "scan_prev NBUF P bs (b_prev (bs ! HEAD)) = find (\<lambda>b. P (bs ! b)) (rev xs)"
    using assms scan_next_find [of bs HEAD xs] scan_prev_find [of bs xs HEAD] by (auto simp: ring_ok_def)
qed

lemma ring_cong:
  assumes "ring_ok bs xs" and "length bs' = length bs"
    and "\<And>x. b_next (bs' ! x) = b_next (bs ! x)" and "\<And>x. b_prev (bs' ! x) = b_prev (bs ! x)"
  shows "ring_ok bs' xs"
  using assms chain_cong [of bs HEAD xs HEAD bs'] by (simp add: ring_ok_def)

section \<open>What a block holds\<close>

text \<open>
  \<open>content k s\<close>: what a reader of block \<open>k\<close> of the disk sees, the cached copy where there is one. \<open>pinned k s\<close>:
  the block is cached and modified.
\<close>

definition caches :: "u32 \<Rightarrow> buf \<Rightarrow> bool" where
  "caches k b \<longleftrightarrow> b_dev b = 1 \<and> b_blockno b = k"

definition buf_ids :: "nat list" where "buf_ids = [0..<NBUF]"

definition content :: "u32 \<Rightarrow> 'a bio_state_scheme \<Rightarrow> u8 list" where
  "content k s = (case find (\<lambda>i. caches k (bufs s ! i) \<and> b_valid (bufs s ! i)) buf_ids of
     Some i \<Rightarrow> b_data (bufs s ! i) | None \<Rightarrow> memdisk s ! unat k)"

definition pinned :: "u32 \<Rightarrow> 'a bio_state_scheme \<Rightarrow> bool" where
  "pinned k s \<longleftrightarrow> (\<exists>i<NBUF. caches k (bufs s ! i) \<and> b_dirty (bufs s ! i))"

lemma set_buf_ids [simp]: "i \<in> set buf_ids \<longleftrightarrow> i < NBUF"
  by (simp add: buf_ids_def)

lemma find_SomeD: "find P xs = Some x \<Longrightarrow> x \<in> set xs \<and> P x"
  by (induction xs) (auto split: if_splits)

text \<open>
  The invariant of the cache for a thread that holds the buffers \<open>H\<close>: the buffers form a ring, no block is
  cached twice, exactly the buffers of \<open>H\<close> are locked and referenced, a modified buffer is valid and belongs to
  the disk, and a valid buffer that is neither held nor modified agrees with the disk.
\<close>

definition buf_ok :: "bool \<Rightarrow> u8 list list \<Rightarrow> buf \<Rightarrow> bool" where
  "buf_ok held disk b \<longleftrightarrow> b_refcnt b = (if held then 1 else 0) \<and> (b_dirty b \<longrightarrow> b_valid b \<and> b_dev b = 1) \<and>
     (\<not> held \<and> b_valid b \<and> \<not> b_dirty b \<and> b_dev b = 1 \<longrightarrow> b_data b = disk ! unat (b_blockno b))"

definition cache_ok :: "nat set \<Rightarrow> 'a bio_state_scheme \<Rightarrow> bool" where
  "cache_ok H s \<longleftrightarrow> kthread s \<and> H \<subseteq> {0..<NBUF} \<and>
     (\<exists>xs. ring_ok (bufs s) xs \<and> set xs = {0..<NBUF}) \<and>
     (\<forall>i<NBUF. \<forall>j<NBUF. \<forall>k. caches k (bufs s ! i) \<longrightarrow> caches k (bufs s ! j) \<longrightarrow> i = j) \<and>
     (\<forall>i<NBUF. buf_ok (i \<in> H) (memdisk s) (bufs s ! i) \<and> sl_locked (sleeplocks s (BufLk i)) = (i \<in> H)) \<and>
     (\<forall>i\<in>H. sl_pid (sleeplocks s (BufLk i)) = cur_pid s)"

lemma cache_okD:
  assumes "cache_ok H s"
  shows "kthread s" "length (bufs s) = NBUF + 1" "H \<subseteq> {0..<NBUF}"
    "\<And>i. i < NBUF \<Longrightarrow> buf_ok (i \<in> H) (memdisk s) (bufs s ! i)"
    "\<And>i. i < NBUF \<Longrightarrow> sl_locked (sleeplocks s (BufLk i)) = (i \<in> H)"
    "\<And>i. i \<in> H \<Longrightarrow> sl_pid (sleeplocks s (BufLk i)) = cur_pid s"
    "\<And>i j k. i < NBUF \<Longrightarrow> j < NBUF \<Longrightarrow> caches k (bufs s ! i) \<Longrightarrow> caches k (bufs s ! j) \<Longrightarrow> i = j"
proof -
  from assms show "kthread s" "H \<subseteq> {0..<NBUF}" by (simp_all add: cache_ok_def)
  from assms obtain xs where "ring_ok (bufs s) xs" unfolding cache_ok_def by blast
  then show "length (bufs s) = NBUF + 1" by (simp add: ring_ok_def)
  show "\<And>i. i < NBUF \<Longrightarrow> buf_ok (i \<in> H) (memdisk s) (bufs s ! i)"
    "\<And>i. i < NBUF \<Longrightarrow> sl_locked (sleeplocks s (BufLk i)) = (i \<in> H)"
    "\<And>i. i \<in> H \<Longrightarrow> sl_pid (sleeplocks s (BufLk i)) = cur_pid s"
    "\<And>i j k. i < NBUF \<Longrightarrow> j < NBUF \<Longrightarrow> caches k (bufs s ! i) \<Longrightarrow> caches k (bufs s ! j) \<Longrightarrow> i = j"
    using assms unfolding cache_ok_def by blast+
qed

lemma content_cached:
  assumes "i < NBUF" and "caches k (bufs s ! i)" and "b_valid (bufs s ! i)"
    and "\<And>j. j < NBUF \<Longrightarrow> caches k (bufs s ! j) \<Longrightarrow> j = i"
  shows "content k s = b_data (bufs s ! i)"
proof (cases "find (\<lambda>j. caches k (bufs s ! j) \<and> b_valid (bufs s ! j)) buf_ids")
  case None
  then show ?thesis using assms(1-3) unfolding find_None_iff by simp
next
  case (Some j)
  then have "j = i" using find_SomeD [OF Some] assms(4) by simp
  then show ?thesis using Some by (simp add: content_def)
qed

lemma content_uncached:
  assumes "\<And>j. j < NBUF \<Longrightarrow> caches k (bufs s ! j) \<Longrightarrow> \<not> b_valid (bufs s ! j)"
  shows "content k s = memdisk s ! unat k"
proof -
  have "find (\<lambda>j. caches k (bufs s ! j) \<and> b_valid (bufs s ! j)) buf_ids = None"
    using assms unfolding find_None_iff by auto
  then show ?thesis by (simp add: content_def)
qed

lemma content_other:
  assumes "memdisk t ! unat k = memdisk s ! unat k"
    and "\<And>j. j < NBUF \<Longrightarrow> caches k (bufs t ! j) \<and> b_valid (bufs t ! j) \<longleftrightarrow> caches k (bufs s ! j) \<and> b_valid (bufs s ! j)"
    and "\<And>j. j < NBUF \<Longrightarrow> caches k (bufs s ! j) \<Longrightarrow> b_valid (bufs s ! j) \<Longrightarrow> b_data (bufs t ! j) = b_data (bufs s ! j)"
  shows "content k t = content k s"
proof -
  have e: "find (\<lambda>j. caches k (bufs t ! j) \<and> b_valid (bufs t ! j)) buf_ids =
      find (\<lambda>j. caches k (bufs s ! j) \<and> b_valid (bufs s ! j)) buf_ids"
    using assms(2) by (intro find_cong) auto
  show ?thesis
  proof (cases "find (\<lambda>j. caches k (bufs s ! j) \<and> b_valid (bufs s ! j)) buf_ids")
    case None
    then show ?thesis using e assms(1) by (simp add: content_def)
  next
    case (Some i)
    then show ?thesis using e assms(3) [of i] find_SomeD [OF Some] by (simp add: content_def)
  qed
qed

section \<open>What the operations do\<close>

lemma locked_update:
  assumes "cpu_ok t" and "lock_free l t" and "cpu_ok s" and "lock_free l s"
    and "f (acquired l s) = Ret (r, acquired l t)"
  shows "locked l f s = Ret (r, t)"
  using assms release_acquired_self [OF assms(1,2)] by (simp add: locked_def acquire_free)

lemma bufs_upd [simp]:
  "cpu_ok (s\<lparr>bufs := f\<rparr>) = cpu_ok s" "lock_free l (s\<lparr>bufs := f\<rparr>) = lock_free l s"
  "bufs (acquired l s) = bufs s" "memdisk (acquired l s) = memdisk s"
  "(acquired l s)\<lparr>bufs := f\<rparr> = acquired l (s\<lparr>bufs := f\<rparr>)"
  "same_thread (s\<lparr>bufs := f\<rparr>) s" "same_thread (s\<lparr>memdisk := d\<rparr>) s"
  "bufs (sl_taken k s) = bufs s" "memdisk (sl_taken k s) = memdisk s" "bio_state.more (sl_taken k s) = bio_state.more s"
  "bufs (sl_dropped k s) = bufs s" "memdisk (sl_dropped k s) = memdisk s" "bio_state.more (sl_dropped k s) = bio_state.more s"
  "disk_trace (acquired l s) = disk_trace s" "disk_trace (sl_taken k s) = disk_trace s" "disk_trace (sl_dropped k s) = disk_trace s"
  "same_thread (s\<lparr>disk_trace := h\<rparr>) s"
  by (simp_all add: lock_free_def acquired_def pushed_def me_def same_thread_def same_machine_def
      sl_taken_def sl_dropped_def wakeup1_def)
    (rule cpu_ok_cong; simp)

lemma cur_pid_bufs [simp]: "cur_pid (s\<lparr>bufs := f\<rparr>) = cur_pid s"
  by (simp add: cur_pid_def me_def split: option.split)

lemma upd_buf_sel [simp]:
  "memdisk (upd_buf i f s) = memdisk s" "sleeplocks (upd_buf i f s) = sleeplocks s"
  "bio_state.more (upd_buf i f s) = bio_state.more s" "same_thread (upd_buf i f s) s"
  "length (bufs (upd_buf i f s)) = length (bufs s)" "upd_buf i f (acquired l s) = acquired l (upd_buf i f s)"
  "disk_trace (upd_buf i f s) = disk_trace s"
  by (simp_all add: upd_buf_def)

lemma nth_upd_buf:
  "bufs (upd_buf i f s) ! j = (if j = i \<and> i < length (bufs s) then f (bufs s ! i) else bufs s ! j)"
  by (cases "i < length (bufs s)") (auto simp: upd_buf_def nth_list_update list_update_beyond)

text \<open>The buffer that \<^verbatim>\<open>bget\<close> chooses, and the state after it.\<close>

lemma bget_eq:
  assumes "cache_ok H s" and "\<And>i. i < NBUF \<Longrightarrow> caches k (bufs s ! i) \<Longrightarrow> i \<notin> H"
    and "\<exists>i<NBUF. caches k (bufs s ! i) \<or> i \<notin> H \<and> \<not> b_dirty (bufs s ! i)"
  obtains (hit) b where "b < NBUF" "b \<notin> H" "caches k (bufs s ! b)"
      "bget 1 k s = Ret (b, sl_taken (BufLk b) (upd_buf b (\<lambda>x. x\<lparr>b_refcnt := 1\<rparr>) s))"
  | (miss) b where "b < NBUF" "b \<notin> H" "\<not> b_dirty (bufs s ! b)" "\<And>i. i < NBUF \<Longrightarrow> \<not> caches k (bufs s ! i)"
      "bget 1 k s = Ret (b, sl_taken (BufLk b) (upd_buf b (\<lambda>x. x\<lparr>b_dev := 1, b_blockno := k, b_valid := False,
         b_dirty := False, b_refcnt := 1\<rparr>) s))"
proof -
  note ok = cache_okD [OF assms(1)]
  have cl: "cpu_ok s" "lock_free BcacheLock s" using ok(1) by (simp_all add: kthread_def)
  obtain xs where xs: "ring_ok (bufs s) xs" "set xs = {0..<NBUF}"
    using assms(1) unfolding cache_ok_def by blast
  have take: "acquiresleep [] (BufLk b) (upd_buf b f s) = Ret (sl_taken (BufLk b) (upd_buf b f s))"
    if "b < NBUF" "b \<notin> H" for b f
    using that ok(5) [OF that(1)] same_thread_kthread(1) [OF upd_buf_sel(4) ok(1)]
    by (intro acquiresleep_eq) simp_all
  have cl': "cpu_ok (upd_buf b f s)" "lock_free BcacheLock (upd_buf b f s)" for b f
    using cl by (simp_all add: upd_buf_def)
  let ?hit = "find (\<lambda>b. b_dev (bufs s ! b) = 1 \<and> b_blockno (bufs s ! b) = k) xs"
  let ?lru = "find (\<lambda>b. b_refcnt (bufs s ! b) = 0 \<and> \<not> b_dirty (bufs s ! b)) (rev xs)"
  note scan = ring_scans [OF xs(1)]
  show thesis
  proof (cases ?hit)
    case (Some b)
    then have b: "b < NBUF" "caches k (bufs s ! b)"
      using xs(2) by (auto simp: find_Some_iff caches_def)
    have H: "b \<notin> H" by (rule assms(2) [OF b])
    then have r: "b_refcnt (bufs s ! b) = 0" using ok(4) [OF b(1)] by (simp add: buf_ok_def)
    have upd: "upd_buf b (\<lambda>x. x\<lparr>b_refcnt := b_refcnt x + 1\<rparr>) s = upd_buf b (\<lambda>x. x\<lparr>b_refcnt := 1\<rparr>) s"
      using r by (simp add: upd_buf_def)
    have "locked BcacheLock (\<lambda>s.
         case scan_next NBUF (\<lambda>b. b_dev b = 1 \<and> b_blockno b = k) (bufs s) (b_next (bufs s ! HEAD)) of
           Some b \<Rightarrow> Ret (b, upd_buf b (\<lambda>x. x\<lparr>b_refcnt := b_refcnt x + 1\<rparr>) s)
         | None \<Rightarrow>
             (case scan_prev NBUF (\<lambda>b. b_refcnt b = 0 \<and> \<not> b_dirty b) (bufs s) (b_prev (bufs s ! HEAD)) of
                Some b \<Rightarrow> Ret (b, upd_buf b (\<lambda>x. x\<lparr>b_dev := 1, b_blockno := k, b_valid := False,
                                b_dirty := False, b_refcnt := 1\<rparr>) s)
              | None \<Rightarrow> Panic ''bget: no buffers'')) s = Ret (b, upd_buf b (\<lambda>x. x\<lparr>b_refcnt := 1\<rparr>) s)"
      by (rule locked_update [OF cl' cl]) (simp add: scan Some upd)
    then have "bget 1 k s = Ret (b, sl_taken (BufLk b) (upd_buf b (\<lambda>x. x\<lparr>b_refcnt := 1\<rparr>) s))"
      by (simp add: bget_def take [OF b(1) H])
    then show thesis by (rule hit [OF b(1) H b(2)])
  next
    case None
    then have no: "\<not> caches k (bufs s ! i)" if "i < NBUF" for i
      using xs(2) that by (auto simp: find_None_iff caches_def)
    obtain i where i: "i < NBUF" "i \<notin> H" "\<not> b_dirty (bufs s ! i)" using assms(3) no by blast
    then have "b_refcnt (bufs s ! i) = 0" using ok(4) [OF i(1)] by (simp add: buf_ok_def)
    then have "?lru \<noteq> None" using i xs(2) by (auto simp: find_None_iff)
    then obtain b where lru: "?lru = Some b" by blast
    then have b: "b < NBUF" "b_refcnt (bufs s ! b) = 0" "\<not> b_dirty (bufs s ! b)"
      using xs(2) nth_mem [of _ "rev xs"] by (auto simp: find_Some_iff simp del: nth_mem)
    have H: "b \<notin> H" using b(2) ok(4) [OF b(1)] by (auto simp: buf_ok_def split: if_splits)
    let ?f = "\<lambda>x. x\<lparr>b_dev := 1, b_blockno := k, b_valid := False, b_dirty := False, b_refcnt := 1\<rparr>"
    have "locked BcacheLock (\<lambda>s.
         case scan_next NBUF (\<lambda>b. b_dev b = 1 \<and> b_blockno b = k) (bufs s) (b_next (bufs s ! HEAD)) of
           Some b \<Rightarrow> Ret (b, upd_buf b (\<lambda>x. x\<lparr>b_refcnt := b_refcnt x + 1\<rparr>) s)
         | None \<Rightarrow>
             (case scan_prev NBUF (\<lambda>b. b_refcnt b = 0 \<and> \<not> b_dirty b) (bufs s) (b_prev (bufs s ! HEAD)) of
                Some b \<Rightarrow> Ret (b, upd_buf b ?f s)
              | None \<Rightarrow> Panic ''bget: no buffers'')) s = Ret (b, upd_buf b ?f s)"
      by (rule locked_update [OF cl' cl]) (simp add: scan None lru)
    then have "bget 1 k s = Ret (b, sl_taken (BufLk b) (upd_buf b ?f s))"
      by (simp add: bget_def take [OF b(1) H])
    with miss [OF b(1) H b(3)] no show thesis by blast
  qed
qed

text \<open>
  The invariant after an operation that changes buffer \<open>b\<close> only, without its links, and possibly its lock.
\<close>

lemma cache_ok_change:
  assumes "cache_ok H s" and "same_thread t s" and "b < NBUF" and "length (bufs t) = length (bufs s)"
    and "\<And>i. i \<noteq> b \<Longrightarrow> bufs t ! i = bufs s ! i"
    and "b_next (bufs t ! b) = b_next (bufs s ! b)" and "b_prev (bufs t ! b) = b_prev (bufs s ! b)"
    and "\<And>i. i < NBUF \<Longrightarrow> i \<noteq> b \<Longrightarrow> caches (b_blockno (bufs t ! b)) (bufs s ! i) \<Longrightarrow> b_dev (bufs t ! b) \<noteq> 1"
    and "\<And>i. i < NBUF \<Longrightarrow> i \<noteq> b \<Longrightarrow> memdisk t ! unat (b_blockno (bufs s ! i)) = memdisk s ! unat (b_blockno (bufs s ! i)) \<or> b_dev (bufs s ! i) \<noteq> 1"
    and "buf_ok (b \<in> J) (memdisk t) (bufs t ! b)" and "J = insert b H \<or> J = H - {b} \<or> J = H"
    and "\<And>i. i \<noteq> b \<Longrightarrow> sleeplocks t (BufLk i) = sleeplocks s (BufLk i)"
    and "sl_locked (sleeplocks t (BufLk b)) = (b \<in> J)" and "b \<in> J \<Longrightarrow> sl_pid (sleeplocks t (BufLk b)) = cur_pid s"
  shows "cache_ok J t"
proof -
  note ok = cache_okD [OF assms(1)]
  obtain xs where xs: "ring_ok (bufs s) xs" "set xs = {0..<NBUF}"
    using assms(1) unfolding cache_ok_def by blast
  have "ring_ok (bufs t) xs"
    by (rule ring_cong [OF xs(1) assms(4)]) (metis assms(5-7))+
  moreover have "i = j" if "i < NBUF" "j < NBUF" "caches k (bufs t ! i)" "caches k (bufs t ! j)" for i j k
    using that ok(7) [of i j k] assms(5) [of i] assms(5) [of j] assms(8) [of i] assms(8) [of j]
    by (cases "i = b"; cases "j = b") (auto simp: caches_def)
  moreover have J: "i \<in> J \<longleftrightarrow> i \<in> H" if "i \<noteq> b" for i using assms(11) that by blast
  have "buf_ok (i \<in> J) (memdisk t) (bufs t ! i)" if "i < NBUF" for i
  proof (cases "i = b")
    case False
    then have "buf_ok (i \<in> J) (memdisk s) (bufs t ! i)" using ok(4) [OF that] assms(5) J by simp
    then show ?thesis using assms(9) [OF that False] assms(5) [OF False] unfolding buf_ok_def by metis
  qed (use assms(10) in simp)
  moreover have "sl_locked (sleeplocks t (BufLk i)) = (i \<in> J)" if "i < NBUF" for i
    using ok(5) [OF that] assms(12,13) J by (cases "i = b") simp_all
  moreover have "sl_pid (sleeplocks t (BufLk i)) = cur_pid t" if "i \<in> J" for i
    using that ok(6) [of i] assms(12,14) J same_thread_kthread(2) [OF assms(2) ok(1)] by (cases "i = b") simp_all
  moreover have "J \<subseteq> {0..<NBUF}" using assms(3,11) ok(3) by auto
  ultimately show ?thesis
    using xs(2) same_thread_kthread(1) [OF assms(2) ok(1)] unfolding cache_ok_def by blast
qed

lemma sl_taken_lock:
  "sl_locked (sleeplocks (sl_taken l s) l)" "sl_pid (sleeplocks (sl_taken l s) l) = cur_pid s"
  "m \<noteq> l \<Longrightarrow> sleeplocks (sl_taken l s) m = sleeplocks s m"
  by (simp_all add: sl_taken_def)

lemma sl_dropped_lock:
  "\<not> sl_locked (sleeplocks (sl_dropped l s) l)" "m \<noteq> l \<Longrightarrow> sleeplocks (sl_dropped l s) m = sleeplocks s m"
  by (simp_all add: sl_dropped_def)

definition held_by_me :: "nat \<Rightarrow> 'a bio_state_scheme \<Rightarrow> bool" where
  "held_by_me b s \<longleftrightarrow> kthread s \<and> sl_locked (sleeplocks s (BufLk b)) \<and> sl_pid (sleeplocks s (BufLk b)) = cur_pid s"

lemma iderw_read:
  assumes "held_by_me b s" and "\<not> b_valid (bufs s ! b)" and "\<not> b_dirty (bufs s ! b)" and "caches k (bufs s ! b)"
    and "unat k < length (memdisk s)" and "b < length (bufs s)"
  shows "iderw b s = Ret (upd_buf b (\<lambda>x. x\<lparr>b_data := memdisk s ! unat k, b_valid := True\<rparr>) s)"
  using assms by (simp add: held_by_me_def iderw_def holdingsleep_eq caches_def Let_def) (simp add: upd_buf_def)

lemma iderw_write:
  assumes "held_by_me b s" and "b_dirty (bufs s ! b)" and "caches k (bufs s ! b)"
    and "unat k < length (memdisk s)" and "b < length (bufs s)"
  shows "iderw b s = Ret ((upd_buf b (\<lambda>x. x\<lparr>b_dirty := False, b_valid := True\<rparr>) s)
    \<lparr>memdisk := (memdisk s)[unat k := b_data (bufs s ! b)], disk_trace := disk_trace s @ [(memdisk s)[unat k := b_data (bufs s ! b)]]\<rparr>)"
  using assms by (simp add: held_by_me_def iderw_def holdingsleep_eq caches_def Let_def) (simp add: upd_buf_def)

text \<open>
  The effect of \<^verbatim>\<open>bread\<close> on everything but the returned buffer: no block's content, no modified buffer and
  nothing on the disk changes.
\<close>

definition same_content :: "'a bio_state_scheme \<Rightarrow> 'a bio_state_scheme \<Rightarrow> bool" where
  "same_content t s \<longleftrightarrow> (\<forall>k. content k t = content k s) \<and> (\<forall>k. pinned k t = pinned k s) \<and>
     (\<forall>i<NBUF. b_dirty (bufs t ! i) = b_dirty (bufs s ! i)) \<and>
     length (memdisk t) = length (memdisk s) \<and> same_thread t s \<and> bio_state.more t = bio_state.more s \<and>
     disk_trace t = disk_trace s"

lemma same_content_refl [simp]: "same_content s s"
  by (simp add: same_content_def)

lemma same_content_trans [trans]: "same_content u t \<Longrightarrow> same_content t s \<Longrightarrow> same_content u s"
  by (auto simp: same_content_def intro: same_thread_trans)

lemma bread_final:
  assumes "cache_ok H s" and "b < NBUF" and "b \<notin> H" and "caches k x" and "b_valid x" and "b_data x = content k s"
    and "b_refcnt x = 1" and "b_dirty x = b_dirty (bufs s ! b)"
    and "b_next x = b_next (bufs s ! b)" and "b_prev x = b_prev (bufs s ! b)"
    and "caches k (bufs s ! b) \<or> \<not> b_dirty (bufs s ! b) \<and> (\<forall>i<NBUF. \<not> caches k (bufs s ! i))"
  defines "t \<equiv> sl_taken (BufLk b) (upd_buf b (\<lambda>_. x) s)"
  shows "cache_ok (insert b H) t" and "same_content t s" and "bufs t ! b = x" and "\<And>i. i \<noteq> b \<Longrightarrow> bufs t ! i = bufs s ! i"
proof -
  note ok = cache_okD [OF assms(1)]
  have th: "same_thread t s" unfolding t_def by (rule same_thread_trans [OF sl_thread(1) upd_buf_sel(4)])
  have bt: "bufs t ! b = x" and bo: "\<And>i. i \<noteq> b \<Longrightarrow> bufs t ! i = bufs s ! i"
    using ok(2) assms(2) by (simp_all add: t_def nth_upd_buf)
  show "bufs t ! b = x" by (rule bt)
  show "bufs t ! i = bufs s ! i" if "i \<noteq> b" for i by (rule bo [OF that])
  have md: "memdisk t = memdisk s" by (simp add: t_def)
  have only: "i = b" if "i < NBUF" "caches k (bufs s ! i)" for i
    using that ok(7) [OF that(1) assms(2) that(2)] assms(11) by blast
  show "cache_ok (insert b H) t"
  proof (rule cache_ok_change [OF assms(1) th assms(2)])
    show "length (bufs t) = length (bufs s)" by (simp add: t_def)
    show "b_next (bufs t ! b) = b_next (bufs s ! b)" "b_prev (bufs t ! b) = b_prev (bufs s ! b)"
      using bt assms(9,10) by simp_all
    show "b_dev (bufs t ! b) \<noteq> 1" if "i < NBUF" "i \<noteq> b" "caches (b_blockno (bufs t ! b)) (bufs s ! i)" for i
      using that only [of i] bt assms(4) by (simp add: caches_def)
    show "buf_ok (b \<in> insert b H) (memdisk t) (bufs t ! b)" using bt assms(4,5,7) by (simp add: buf_ok_def caches_def)
    show "sleeplocks t (BufLk i) = sleeplocks s (BufLk i)" if "i \<noteq> b" for i
      using that by (simp add: t_def sl_taken_lock)
    show "sl_pid (sleeplocks t (BufLk b)) = cur_pid s"
      using same_thread_kthread(2) [OF upd_buf_sel(4) ok(1)] by (simp add: t_def sl_taken_lock)
    show "bufs t ! i = bufs s ! i" if "i \<noteq> b" for i by (rule bo [OF that])
    show "memdisk t ! unat (b_blockno (bufs s ! i)) = memdisk s ! unat (b_blockno (bufs s ! i)) \<or> b_dev (bufs s ! i) \<noteq> 1" for i
      by (simp add: md)
    show "sl_locked (sleeplocks t (BufLk b)) = (b \<in> insert b H)" by (simp add: t_def sl_taken_lock)
  qed simp
  have "content j t = content j s" for j
  proof (cases "j = k")
    case True
    have "content k t = b_data (bufs t ! b)"
    proof (rule content_cached)
      show "i = b" if "i < NBUF" "caches k (bufs t ! i)" for i using that only [of i] bo [of i] by metis
    qed (use assms(2,4,5) bt in simp_all)
    then show ?thesis using True bt assms(6) by simp
  next
    case False
    then have xj: "\<not> caches j x" using assms(4) by (auto simp: caches_def)
    show ?thesis
    proof (cases "caches j (bufs s ! b) \<and> b_valid (bufs s ! b)")
      case True
      then have "\<not> caches k (bufs s ! b)" using False by (auto simp: caches_def)
      then have "b_data (bufs s ! b) = memdisk s ! unat j"
        using assms(3,11) ok(4) [OF assms(2)] True by (auto simp: buf_ok_def caches_def)
      moreover have "content j s = b_data (bufs s ! b)"
      proof (rule content_cached [OF assms(2)])
        show "i = b" if "i < NBUF" "caches j (bufs s ! i)" for i
          using ok(7) [OF that(1) assms(2) that(2)] True by simp
      qed (use True in simp_all)
      moreover have "content j t = memdisk t ! unat j"
      proof (rule content_uncached)
        show "\<not> b_valid (bufs t ! i)" if "i < NBUF" "caches j (bufs t ! i)" for i
          using that xj bt bo [of i] ok(7) [OF that(1) assms(2), of j] True by metis
      qed
      ultimately show ?thesis using md by simp
    next
      case no: False
      show ?thesis
      proof (rule content_other)
        show "memdisk t ! unat j = memdisk s ! unat j" by (simp add: md)
        show "caches j (bufs t ! i) \<and> b_valid (bufs t ! i) \<longleftrightarrow> caches j (bufs s ! i) \<and> b_valid (bufs s ! i)" for i
          using no xj bt bo [of i] by (cases "i = b") auto
        show "b_data (bufs t ! i) = b_data (bufs s ! i)" if "caches j (bufs s ! i)" "b_valid (bufs s ! i)" for i
          using that no bo [of i] by (cases "i = b") auto
      qed
    qed
  qed
  moreover have "pinned j t = pinned j s" for j
  proof -
    have "caches j (bufs t ! i) \<and> b_dirty (bufs t ! i) \<longleftrightarrow> caches j (bufs s ! i) \<and> b_dirty (bufs s ! i)" for i
      using assms(4,8,11) bt bo [of i] by (cases "i = b") (auto simp: caches_def)
    then show ?thesis by (simp add: pinned_def)
  qed
  moreover have "b_dirty (bufs t ! i) = b_dirty (bufs s ! i)" for i
    using assms(8) bt bo [of i] by (cases "i = b") simp_all
  ultimately show "same_content t s" using md th by (simp add: same_content_def t_def)
qed

lemma bread_ok:
  assumes "cache_ok H s" and "\<And>i. i < NBUF \<Longrightarrow> caches k (bufs s ! i) \<Longrightarrow> i \<notin> H"
    and "\<exists>i<NBUF. caches k (bufs s ! i) \<or> i \<notin> H \<and> \<not> b_dirty (bufs s ! i)"
    and "unat k < length (memdisk s)"
  obtains b t where "bread 1 k s = Ret (b, t)" "b < NBUF" "b \<notin> H" "caches k (bufs t ! b)" "b_valid (bufs t ! b)"
    "b_data (bufs t ! b) = content k s" "cache_ok (insert b H) t" "same_content t s" "memdisk t = memdisk s"
    "\<And>i. i \<noteq> b \<Longrightarrow> bufs t ! i = bufs s ! i"
proof -
  note ok = cache_okD [OF assms(1)] and result = that
  have upd: "upd_buf b f (sl_taken l (upd_buf b g s)) = sl_taken l (upd_buf b (\<lambda>_. f (g (bufs s ! b))) s)"
    if "b < NBUF" for b f g l
    using that ok(2) by (simp add: sl_taken_def upd_buf_def)
  have read: "iderw b (sl_taken (BufLk b) (upd_buf b g s)) =
      Ret (sl_taken (BufLk b) (upd_buf b (\<lambda>_. (g (bufs s ! b))\<lparr>b_data := memdisk s ! unat k, b_valid := True\<rparr>) s))"
    if "b < NBUF" "\<not> b_valid (g (bufs s ! b))" "\<not> b_dirty (g (bufs s ! b))" "caches k (g (bufs s ! b))" for b g
  proof -
    let ?s = "upd_buf b g s"
    have "same_thread (sl_taken (BufLk b) ?s) s" by (rule same_thread_trans [OF sl_thread(1) upd_buf_sel(4)])
    from same_thread_kthread [OF this ok(1)] have "held_by_me b (sl_taken (BufLk b) ?s)"
      using same_thread_kthread(2) [OF upd_buf_sel(4) [of b g s] ok(1)]
      by (simp add: held_by_me_def sl_taken_lock)
    moreover have "bufs (sl_taken (BufLk b) ?s) ! b = g (bufs s ! b)" using that(1) ok(2) by (simp add: nth_upd_buf)
    ultimately show ?thesis
      using that assms(4) ok(2) iderw_read [of b "sl_taken (BufLk b) ?s" k] upd [OF that(1)] by simp
  qed
  have fin: thesis if "b < NBUF" "b \<notin> H" "caches k x" "b_valid x" "b_data x = content k s" "b_refcnt x = 1"
      "b_dirty x = b_dirty (bufs s ! b)" "b_next x = b_next (bufs s ! b)" "b_prev x = b_prev (bufs s ! b)"
      "caches k (bufs s ! b) \<or> \<not> b_dirty (bufs s ! b) \<and> (\<forall>i<NBUF. \<not> caches k (bufs s ! i))"
      "bread 1 k s = Ret (b, sl_taken (BufLk b) (upd_buf b (\<lambda>_. x) s))" for b x
    using bread_final [OF assms(1) that(1-10)] that by (intro result [OF that(11,1,2)]) simp_all
  show thesis
  proof (rule bget_eq [OF assms(1-3)])
    fix b
    assume hit: "b < NBUF" "b \<notin> H" "caches k (bufs s ! b)"
      "bget 1 k s = Ret (b, sl_taken (BufLk b) (upd_buf b (\<lambda>x. x\<lparr>b_refcnt := 1\<rparr>) s))"
    have bb: "bufs (sl_taken (BufLk b) (upd_buf b (\<lambda>x. x\<lparr>b_refcnt := 1\<rparr>) s)) ! b = (bufs s ! b)\<lparr>b_refcnt := 1\<rparr>"
      using hit(1) ok(2) by (simp add: nth_upd_buf)
    have only: "i = b" if "i < NBUF" "caches k (bufs s ! i)" for i
      using ok(7) [OF that(1) hit(1) that(2) hit(3)] .
    show thesis
    proof (cases "b_valid (bufs s ! b)")
      case True
      have "content k s = b_data (bufs s ! b)"
        by (rule content_cached [OF hit(1) hit(3) True]) (rule only)
      moreover have "upd_buf b (\<lambda>x. x\<lparr>b_refcnt := 1\<rparr>) s = upd_buf b (\<lambda>_. (bufs s ! b)\<lparr>b_refcnt := 1\<rparr>) s"
        by (simp add: upd_buf_def)
      ultimately show thesis
        using hit True bb by (intro fin [of b "(bufs s ! b)\<lparr>b_refcnt := 1\<rparr>"]) (simp_all add: bread_def caches_def)
    next
      case False
      then have nd: "\<not> b_dirty (bufs s ! b)" using ok(4) [OF hit(1)] by (auto simp: buf_ok_def)
      have "content k s = memdisk s ! unat k"
        by (rule content_uncached) (use only False in metis)
      then show thesis
        using hit False nd bb read [of b "\<lambda>x. x\<lparr>b_refcnt := 1\<rparr>"]
        by (intro fin [of b "(bufs s ! b)\<lparr>b_refcnt := 1, b_data := memdisk s ! unat k, b_valid := True\<rparr>"])
          (simp_all add: bread_def caches_def)
    qed
  next
    fix b
    let ?f = "\<lambda>x. x\<lparr>b_dev := 1, b_blockno := k, b_valid := False, b_dirty := False, b_refcnt := 1\<rparr>"
    assume miss: "b < NBUF" "b \<notin> H" "\<not> b_dirty (bufs s ! b)" "\<And>i. i < NBUF \<Longrightarrow> \<not> caches k (bufs s ! i)"
      "bget 1 k s = Ret (b, sl_taken (BufLk b) (upd_buf b ?f s))"
    have bb: "bufs (sl_taken (BufLk b) (upd_buf b ?f s)) ! b = ?f (bufs s ! b)"
      using miss(1) ok(2) by (simp add: nth_upd_buf)
    have "content k s = memdisk s ! unat k"
      by (rule content_uncached) (use miss(4) in metis)
    then show thesis
      using miss bb read [of b ?f]
      by (intro fin [of b "(?f (bufs s ! b))\<lparr>b_data := memdisk s ! unat k, b_valid := True\<rparr>"])
        (simp_all add: bread_def caches_def)
  qed
qed

lemma bwrite_eq:
  assumes "held_by_me b s" and "caches k (bufs s ! b)" and "unat k < length (memdisk s)" and "b < length (bufs s)"
  shows "bwrite b s = Ret ((upd_buf b (\<lambda>x. x\<lparr>b_dirty := False, b_valid := True\<rparr>) s)
    \<lparr>memdisk := (memdisk s)[unat k := b_data (bufs s ! b)], disk_trace := disk_trace s @ [(memdisk s)[unat k := b_data (bufs s ! b)]]\<rparr>)"
proof -
  let ?s = "upd_buf b (\<lambda>x. x\<lparr>b_dirty := True\<rparr>) s"
  have k: "kthread s" using assms(1) by (simp add: held_by_me_def)
  have "held_by_me b ?s"
    using assms(1) same_thread_kthread [OF upd_buf_sel(4) [of b _ s] k] by (simp add: held_by_me_def)
  then have "iderw b ?s = Ret ((upd_buf b (\<lambda>x. x\<lparr>b_dirty := False, b_valid := True\<rparr>) ?s)
    \<lparr>memdisk := (memdisk ?s)[unat k := b_data (bufs ?s ! b)], disk_trace := disk_trace ?s @ [(memdisk ?s)[unat k := b_data (bufs ?s ! b)]]\<rparr>)"
    using assms by (intro iderw_write) (simp_all add: nth_upd_buf caches_def)
  then show ?thesis
    using assms k by (simp add: bwrite_def holdingsleep_eq held_by_me_def) (simp add: upd_buf_def)
qed

lemma cache_ok_held: "cache_ok H s \<Longrightarrow> b \<in> H \<Longrightarrow> held_by_me b s \<and> b < NBUF \<and> b < length (bufs s)"
  using cache_okD(1,2,3,5,6) [of H s] by (fastforce simp: held_by_me_def)

text \<open>Changing the data of a held buffer, and writing it to the disk.\<close>

lemma set_data_ok:
  fixes d :: "u8 list"
  assumes "cache_ok H s" and "b \<in> H" and "caches k (bufs s ! b)" and "b_valid (bufs s ! b)"
  defines "t \<equiv> upd_buf b (\<lambda>x. x\<lparr>b_data := d\<rparr>) s"
  shows "cache_ok H t" and "content j t = (if j = k then d else content j s)" and "pinned j t = pinned j s"
    and "bufs t ! i = (if i = b then (bufs s ! b)\<lparr>b_data := d\<rparr> else bufs s ! i)"
proof -
  note ok = cache_okD [OF assms(1)]
  have b: "b < NBUF" "b < length (bufs s)" using cache_ok_held [OF assms(1,2)] by simp_all
  show bt: "bufs t ! i = (if i = b then (bufs s ! b)\<lparr>b_data := d\<rparr> else bufs s ! i)" for i
    using b by (simp add: t_def nth_upd_buf)
  have only: "i = b" if "i < NBUF" "caches k (bufs s ! i)" for i using ok(7) [OF that(1) b(1) that(2) assms(3)] .
  have bb: "bufs t ! b = (bufs s ! b)\<lparr>b_data := d\<rparr>" and bo: "\<And>i. i \<noteq> b \<Longrightarrow> bufs t ! i = bufs s ! i"
    by (simp_all only: bt if_True if_False refl not_False_eq_True)
  show "cache_ok H t"
  proof (rule cache_ok_change [OF assms(1) _ b(1), where J = H])
    show "same_thread t s" "length (bufs t) = length (bufs s)" by (simp_all add: t_def)
    show "bufs t ! i = bufs s ! i" if "i \<noteq> b" for i by (rule bo [OF that])
    show "b_next (bufs t ! b) = b_next (bufs s ! b)" "b_prev (bufs t ! b) = b_prev (bufs s ! b)" by (simp_all add: bb)
    show "b_dev (bufs t ! b) \<noteq> 1" if "i < NBUF" "i \<noteq> b" "caches (b_blockno (bufs t ! b)) (bufs s ! i)" for i
      using that only [of i] assms(3) by (simp add: bb caches_def)
    show "buf_ok (b \<in> H) (memdisk t) (bufs t ! b)" using ok(4) [OF b(1)] assms(2) by (simp add: bb buf_ok_def)
    show "sl_locked (sleeplocks t (BufLk b)) = (b \<in> H)" using ok(5) [OF b(1)] by (simp add: t_def)
    show "sl_pid (sleeplocks t (BufLk b)) = cur_pid s" using ok(6) [OF assms(2)] by (simp add: t_def)
  qed (simp_all add: t_def)
  have flags: "caches j (bufs t ! i) = caches j (bufs s ! i)" "b_valid (bufs t ! i) = b_valid (bufs s ! i)"
    "b_dirty (bufs t ! i) = b_dirty (bufs s ! i)" for i j
    using bb bo [of i] by (cases "i = b"; simp add: caches_def)+
  show "pinned j t = pinned j s" by (simp add: pinned_def flags)
  show "content j t = (if j = k then d else content j s)"
  proof (cases "j = k")
    case True
    have "content k t = b_data (bufs t ! b)"
      by (rule content_cached [OF b(1)]) (use assms(3,4) only in \<open>simp_all add: flags\<close>)
    then show ?thesis using True bb by simp
  next
    case False
    then have nb: "\<not> caches j (bufs s ! b)" using assms(3) by (auto simp: caches_def)
    have "content j t = content j s"
    proof (rule content_other)
      show "b_data (bufs t ! i) = b_data (bufs s ! i)" if "caches j (bufs s ! i)" for i
        using that nb bo [of i] by (cases "i = b") simp_all
    qed (simp_all add: flags, simp add: t_def)
    then show ?thesis using False by simp
  qed
qed

lemma bwrite_ok:
  assumes "cache_ok H s" and "b \<in> H" and "caches k (bufs s ! b)" and "unat k < length (memdisk s)"
    and "b_valid (bufs s ! b)"
  obtains t where "bwrite b s = Ret t" "cache_ok H t" "memdisk t = (memdisk s)[unat k := b_data (bufs s ! b)]"
    "\<And>j. content j t = content j s" "\<And>j. pinned j t \<longleftrightarrow> pinned j s \<and> j \<noteq> k" "same_thread t s"
    "bio_state.more t = bio_state.more s" "bufs t ! b = (bufs s ! b)\<lparr>b_dirty := False, b_valid := True\<rparr>"
    "\<And>i. i \<noteq> b \<Longrightarrow> bufs t ! i = bufs s ! i" "disk_trace t = disk_trace s @ [memdisk t]"
proof -
  note ok = cache_okD [OF assms(1)] and held = cache_ok_held [OF assms(1,2)]
  have b: "b < NBUF" "b < length (bufs s)" using held by simp_all
  let ?t = "(upd_buf b (\<lambda>x. x\<lparr>b_dirty := False, b_valid := True\<rparr>) s)
    \<lparr>memdisk := (memdisk s)[unat k := b_data (bufs s ! b)], disk_trace := disk_trace s @ [(memdisk s)[unat k := b_data (bufs s ! b)]]\<rparr>"
  have w: "bwrite b s = Ret ?t" using held assms(3,4) by (intro bwrite_eq) simp_all
  have bb: "bufs ?t ! b = (bufs s ! b)\<lparr>b_dirty := False, b_valid := True\<rparr>"
    and bo: "\<And>i. i \<noteq> b \<Longrightarrow> bufs ?t ! i = bufs s ! i"
    using b by (simp_all add: upd_buf_def)
  have th: "same_thread ?t s" by (rule same_thread_trans [OF bufs_upd(17) same_thread_trans [OF bufs_upd(7) upd_buf_sel(4)]])
  have only: "i = b" if "i < NBUF" "caches k (bufs s ! i)" for i using ok(7) [OF that(1) b(1) that(2) assms(3)] .
  have "cache_ok H ?t"
  proof (rule cache_ok_change [OF assms(1) th b(1), where J = H])
    show "bufs ?t ! i = bufs s ! i" if "i \<noteq> b" for i by (rule bo [OF that])
    show "b_next (bufs ?t ! b) = b_next (bufs s ! b)" "b_prev (bufs ?t ! b) = b_prev (bufs s ! b)" unfolding bb by simp_all
    show "b_dev (bufs ?t ! b) \<noteq> 1" if "i < NBUF" "i \<noteq> b" "caches (b_blockno (bufs ?t ! b)) (bufs s ! i)" for i
      using that only [of i] assms(3) unfolding bb by (simp add: caches_def)
    show "memdisk ?t ! unat (b_blockno (bufs s ! i)) = memdisk s ! unat (b_blockno (bufs s ! i)) \<or> b_dev (bufs s ! i) \<noteq> 1"
      if "i < NBUF" "i \<noteq> b" for i
    proof (cases "b_dev (bufs s ! i) = 1")
      case True
      then have "unat k \<noteq> unat (b_blockno (bufs s ! i))"
        using that only [of i] by (auto simp: caches_def word_unat_eq_iff)
      then show ?thesis by simp
    qed simp
    show "buf_ok (b \<in> H) (memdisk ?t) (bufs ?t ! b)" using ok(4) [OF b(1)] assms(2) unfolding bb by (simp add: buf_ok_def)
  qed (use ok(5) [OF b(1)] ok(6) [OF assms(2)] in \<open>simp_all add: upd_buf_def\<close>)
  moreover have "content j ?t = content j s" for j
  proof (cases "j = k")
    case True
    have "content k ?t = b_data (bufs ?t ! b)"
    proof (rule content_cached [OF b(1)])
      show "i = b" if "i < NBUF" "caches k (bufs ?t ! i)" for i using that only [of i] bo [of i] by metis
    qed (use assms(3) in \<open>unfold bb, simp_all add: caches_def\<close>)
    moreover have "content k s = b_data (bufs s ! b)"
      by (rule content_cached [OF b(1) assms(3,5)]) (rule only)
    ultimately show ?thesis using True bb by simp
  next
    case False
    then have nb: "\<not> caches j (bufs s ! b)" "\<not> caches j (bufs ?t ! b)" using assms(3) unfolding bb by (auto simp: caches_def)
    show ?thesis
    proof (rule content_other)
      show "memdisk ?t ! unat j = memdisk s ! unat j" using False by (simp add: nth_list_update word_unat_eq_iff)
      show "caches j (bufs ?t ! i) \<and> b_valid (bufs ?t ! i) \<longleftrightarrow> caches j (bufs s ! i) \<and> b_valid (bufs s ! i)" for i
        using nb bo [of i] by (cases "i = b") simp_all
      show "b_data (bufs ?t ! i) = b_data (bufs s ! i)" if "caches j (bufs s ! i)" for i
        using that nb bo [of i] by (cases "i = b") simp_all
    qed
  qed
  moreover have "pinned j ?t \<longleftrightarrow> pinned j s \<and> j \<noteq> k" for j
  proof -
    have "caches j (bufs ?t ! i) \<and> b_dirty (bufs ?t ! i) \<longleftrightarrow> caches j (bufs s ! i) \<and> b_dirty (bufs s ! i) \<and> j \<noteq> k"
      if "i < NBUF" for i
    proof (cases "i = b")
      case True
      then show ?thesis using assms(3) unfolding True bb by (auto simp: caches_def)
    next
      case False
      then show ?thesis using bo [OF False] only [OF that] by auto
    qed
    then show ?thesis by (auto simp: pinned_def)
  qed
  ultimately show thesis using that [OF w] th bb bo by simp
qed

text \<open>Releasing a buffer: it goes to the front of the ring.\<close>

definition core :: "buf \<Rightarrow> buf" where "core b = b\<lparr>b_next := 0, b_prev := 0\<rparr>"

lemma core_eq:
  assumes "core a = core b"
  shows "b_dev a = b_dev b" "b_blockno a = b_blockno b" "b_valid a = b_valid b" "b_dirty a = b_dirty b"
    "b_refcnt a = b_refcnt b" "b_data a = b_data b" "caches k a = caches k b" "buf_ok h d a = buf_ok h d b"
proof -
  show e: "b_dev a = b_dev b" "b_blockno a = b_blockno b" "b_valid a = b_valid b" "b_dirty a = b_dirty b"
    "b_refcnt a = b_refcnt b" "b_data a = b_data b"
    using assms by (cases a; cases b; simp add: core_def)+
  show "caches k a = caches k b" "buf_ok h d a = buf_ok h d b" by (simp_all add: caches_def buf_ok_def e)
qed

lemma relink_ok:
  assumes "cache_ok H s" and "\<And>i. core (bs ! i) = core (bufs s ! i)" and "ring_ok bs xs" and "set xs = {0..<NBUF}"
  shows "cache_ok H (s\<lparr>bufs := bs\<rparr>)" and "same_content (s\<lparr>bufs := bs\<rparr>) s"
proof -
  note ok = cache_okD [OF assms(1)] and c = core_eq [OF assms(2)]
  let ?t = "s\<lparr>bufs := bs\<rparr>"
  have k: "kthread ?t" "cur_pid ?t = cur_pid s" using same_thread_kthread [OF bufs_upd(6) [of bs s] ok(1)] by simp_all
  have "i = j" if "i < NBUF" "j < NBUF" "caches k (bs ! i)" "caches k (bs ! j)" for i j k
    using ok(7) [OF that(1,2)] that(3,4) unfolding c(7) by blast
  then show "cache_ok H ?t"
    using k ok(3-6) assms(3,4) unfolding cache_ok_def by (simp add: c(8)) blast
  have "content j ?t = content j s" for j
    by (rule content_other) (simp_all add: c)
  then show "same_content ?t s"
    using same_thread_refl [of s] by (simp add: same_content_def pinned_def c)
qed

lemma core_link:
  "core (bs[n := (bs ! n)\<lparr>b_prev := v\<rparr>] ! i) = core (bs ! i)" "core (bs[n := (bs ! n)\<lparr>b_next := v\<rparr>] ! i) = core (bs ! i)"
  by (cases "n < length bs"; cases "n = i"; simp add: core_def list_update_beyond)+

lemma core_push_front: "core (push_front b bs ! i) = core (bs ! i)"
  by (simp only: push_front_def Let_def core_link)

lemma ring_front_core:
  assumes "ring_ok bs xs" and "b \<in> set xs"
  shows "ring_ok (push_front b (unlink_buf b bs)) (b # remove1 b xs)"
    and "core (push_front b (unlink_buf b bs) ! i) = core (bs ! i)"
proof -
  obtain ys zs where xs: "xs = ys @ b # zs" using assms(2) by (meson split_list)
  have d: "distinct (ys @ b # zs)" "length bs = NBUF + 1" "set (ys @ b # zs) \<subseteq> {0..<NBUF}"
    using assms(1) xs by (simp_all add: ring_ok_def)
  have u: "ring_ok (unlink_buf b bs) (ys @ zs)" using assms(1) xs by (simp add: ring_unlink)
  have b: "b < NBUF" "b \<notin> set (ys @ zs)" using d by auto
  have r: "remove1 b xs = ys @ zs" using d xs by (simp add: remove1_append)
  show "ring_ok (push_front b (unlink_buf b bs)) (b # remove1 b xs)"
    unfolding r by (rule ring_push_front [OF u b])
  show "core (push_front b (unlink_buf b bs) ! i) = core (bs ! i)"
    by (simp only: push_front_def unlink_buf_def Let_def core_link)
qed

text \<open>The new order after a release, with every buffer as it was apart from its links and the count.\<close>

lemma brelse_ok:
  assumes "cache_ok H s" and "b \<in> H" and "ring_ok (bufs s) xs" and "set xs = {0..<NBUF}"
    and "b_valid (bufs s ! b) \<Longrightarrow> \<not> b_dirty (bufs s ! b) \<Longrightarrow> b_dev (bufs s ! b) = 1 \<Longrightarrow>
      b_data (bufs s ! b) = memdisk s ! unat (b_blockno (bufs s ! b))"
  obtains t where "brelse b s = Ret t" "cache_ok (H - {b}) t" "same_content t s" "memdisk t = memdisk s"
    "ring_ok (bufs t) (b # remove1 b xs)"
    "\<And>i. i \<noteq> b \<Longrightarrow> core (bufs t ! i) = core (bufs s ! i)"
    "core (bufs t ! b) = core ((bufs s ! b)\<lparr>b_refcnt := 0\<rparr>)"
proof -
  note ok = cache_okD [OF assms(1)] and held = cache_ok_held [OF assms(1,2)]
  have b: "b < NBUF" "b < length (bufs s)" using held by simp_all
  let ?d = "sl_dropped (BufLk b) s"
  let ?u = "upd_buf b (\<lambda>x. x\<lparr>b_refcnt := 0\<rparr>) ?d"
  let ?t = "?u\<lparr>bufs := push_front b (unlink_buf b (bufs ?u))\<rparr>"
  have th: "same_thread ?u s" by (rule same_thread_trans [OF upd_buf_sel(4) sl_thread(2)])
  have bb: "bufs ?u ! b = (bufs s ! b)\<lparr>b_refcnt := 0\<rparr>" and bo: "\<And>i. i \<noteq> b \<Longrightarrow> bufs ?u ! i = bufs s ! i"
    using b by (simp_all add: nth_upd_buf)
  have ou: "cache_ok (H - {b}) ?u"
  proof (rule cache_ok_change [OF assms(1) th b(1), where J = "H - {b}"])
    show "bufs ?u ! i = bufs s ! i" if "i \<noteq> b" for i by (rule bo [OF that])
    show "b_next (bufs ?u ! b) = b_next (bufs s ! b)" "b_prev (bufs ?u ! b) = b_prev (bufs s ! b)" unfolding bb by simp_all
    show "b_dev (bufs ?u ! b) \<noteq> 1" if "i < NBUF" "i \<noteq> b" "caches (b_blockno (bufs ?u ! b)) (bufs s ! i)" for i
      using that ok(7) [OF that(1) b(1) that(3)] unfolding bb by (auto simp: caches_def)
    show "buf_ok (b \<in> H - {b}) (memdisk ?u) (bufs ?u ! b)"
      using ok(4) [OF b(1)] assms(5) unfolding bb by (simp add: buf_ok_def)
    show "sleeplocks ?u (BufLk i) = sleeplocks s (BufLk i)" if "i \<noteq> b" for i
      using that by (simp add: sl_dropped_lock)
  qed (simp_all add: sl_dropped_lock)
  have su: "same_content ?u s"
  proof -
    have f: "caches j (bufs ?u ! i) = caches j (bufs s ! i)" "b_valid (bufs ?u ! i) = b_valid (bufs s ! i)"
      "b_dirty (bufs ?u ! i) = b_dirty (bufs s ! i)" "b_data (bufs ?u ! i) = b_data (bufs s ! i)" for i j
      using bb bo [of i] by (cases "i = b"; simp add: caches_def)+
    have "content j ?u = content j s" for j by (rule content_other) (simp_all only: f, simp)
    then show ?thesis using th by (simp add: same_content_def pinned_def f)
  qed
  have "b_next (bufs ?u ! i) = b_next (bufs s ! i)" "b_prev (bufs ?u ! i) = b_prev (bufs s ! i)" for i
    using bb bo [of i] by (cases "i = b"; simp)+
  then have ru: "ring_ok (bufs ?u) xs" by (intro ring_cong [OF assms(3)]) simp_all
  have bx: "b \<in> set xs" using assms(4) b(1) by simp
  have "distinct xs" using assms(3) by (simp add: ring_ok_def)
  then have sx: "set (b # remove1 b xs) = {0..<NBUF}"
    using bx by (simp only: list.set set_remove1_eq insert_Diff assms(4) [symmetric])
  note front = ring_front_core [OF ru bx]
  note rel = relink_ok [OF ou front(2) front(1) sx]
  have "locked BcacheLock (\<lambda>s.
             let s = upd_buf b (\<lambda>x. x\<lparr>b_refcnt := b_refcnt x - 1\<rparr>) s in
             if b_refcnt (bufs s ! b) = 0
             then Ret ((), s\<lparr>bufs := push_front b (unlink_buf b (bufs s))\<rparr>)
             else Ret ((), s)) ?d = Ret ((), ?t)"
  proof (rule locked_update)
    have "upd_buf b (\<lambda>x. x\<lparr>b_refcnt := b_refcnt x - 1\<rparr>) ?d = ?u"
      using ok(4) [OF b(1)] assms(2) by (simp add: upd_buf_def buf_ok_def)
    moreover have "b_refcnt (bufs ?u ! b) = 0" using bb by simp
    ultimately show "(let s = upd_buf b (\<lambda>x. x\<lparr>b_refcnt := b_refcnt x - 1\<rparr>) (acquired BcacheLock ?d) in
             if b_refcnt (bufs s ! b) = 0
             then Ret ((), s\<lparr>bufs := push_front b (unlink_buf b (bufs s))\<rparr>)
             else Ret ((), s)) = Ret ((), acquired BcacheLock ?t)"
      unfolding upd_buf_sel(6) Let_def by simp
    have "kthread ?d" "kthread ?t"
      using same_thread_kthread(1) [OF sl_thread(2) [of "BufLk b" s] ok(1)] cache_okD(1) [OF rel(1)] by simp_all
    then show "cpu_ok ?d" "lock_free BcacheLock ?d" "cpu_ok ?t" "lock_free BcacheLock ?t" by (simp_all add: kthread_def)
  qed
  then have "brelse b s = Ret ?t"
    using held by (simp add: brelse_def held_by_me_def holdingsleep_eq releasesleep_eq)
  then show thesis
  proof (rule that)
    show "same_content ?t s" by (rule same_content_trans [OF rel(2) su])
    show "core (bufs ?t ! i) = core (bufs s ! i)" if "i \<noteq> b" for i using front(2) [of i] bo [OF that] by simp
    show "core (bufs ?t ! b) = core ((bufs s ! b)\<lparr>b_refcnt := 0\<rparr>)" using front(2) [of b] bb by simp
  qed (use rel(1) front(1) in simp_all)
qed

section \<open>Reading, writing and copying blocks\<close>

lemma content_clean:
  assumes "cache_ok H s" and "\<not> pinned k s" and "\<And>i. i \<in> H \<Longrightarrow> \<not> caches k (bufs s ! i)"
  shows "content k s = memdisk s ! unat k"
proof (cases "\<exists>i<NBUF. caches k (bufs s ! i) \<and> b_valid (bufs s ! i)")
  case True
  then obtain i where i: "i < NBUF" "caches k (bufs s ! i)" "b_valid (bufs s ! i)" by blast
  note ok = cache_okD [OF assms(1)]
  have "content k s = b_data (bufs s ! i)"
    by (rule content_cached [OF i]) (rule ok(7) [OF _ i(1) _ i(2)])
  moreover have "i \<notin> H" "\<not> b_dirty (bufs s ! i)" using assms(2,3) i by (auto simp: pinned_def)
  ultimately show ?thesis using ok(4) [OF i(1)] i by (simp add: buf_ok_def caches_def)
next
  case False
  then show ?thesis by (intro content_uncached) blast
qed

lemma cache_ok_ring: "cache_ok H s \<Longrightarrow> \<exists>xs. ring_ok (bufs s) xs \<and> set xs = {0..<NBUF}"
  by (simp add: cache_ok_def)

text \<open>Releasing a held buffer whose data is on the disk or that is modified.\<close>

lemma brelse_content:
  assumes "cache_ok H s" and "b \<in> H" and "caches k (bufs s ! b)"
    and "b_dirty (bufs s ! b) \<or> b_data (bufs s ! b) = memdisk s ! unat k"
  obtains t where "brelse b s = Ret t" "cache_ok (H - {b}) t" "same_content t s" "memdisk t = memdisk s"
    "\<And>i. i \<noteq> b \<Longrightarrow> core (bufs t ! i) = core (bufs s ! i)"
proof -
  obtain xs where xs: "ring_ok (bufs s) xs" "set xs = {0..<NBUF}" using cache_ok_ring [OF assms(1)] by blast
  show thesis
    by (rule brelse_ok [OF assms(1,2) xs]) (use assms(3,4) that in \<open>auto simp: caches_def\<close>)
qed

text \<open>Two different blocks, read one after the other.\<close>

lemma two_reads:
  assumes "cache_ok {} s" and "k1 \<noteq> k2" and "unat k1 < length (memdisk s)" and "unat k2 < length (memdisk s)"
    and "\<exists>i<NBUF. \<not> b_dirty (bufs s ! i)" and "pinned k2 s \<or> (\<forall>i<NBUF. \<not> b_dirty (bufs s ! i))"
  obtains b1 b2 t1 t where "bread 1 k1 s = Ret (b1, t1)" "bread 1 k2 t1 = Ret (b2, t)" "b1 \<noteq> b2" "cache_ok {b1, b2} t"
    "caches k1 (bufs t ! b1)" "caches k2 (bufs t ! b2)" "b_valid (bufs t ! b1)" "b_valid (bufs t ! b2)"
    "b_data (bufs t ! b1) = content k1 s" "b_data (bufs t ! b2) = content k2 s" "same_content t s" "memdisk t = memdisk s"
    "same_content t1 s"
proof -
  have ex: "\<exists>i<NBUF. caches k1 (bufs s ! i) \<or> i \<notin> {} \<and> \<not> b_dirty (bufs s ! i)" using assms(5) by blast
  obtain b1 t1 where r1: "bread 1 k1 s = Ret (b1, t1)" "b1 < NBUF" "caches k1 (bufs t1 ! b1)" "b_valid (bufs t1 ! b1)"
      "b_data (bufs t1 ! b1) = content k1 s" "cache_ok {b1} t1" "same_content t1 s" "memdisk t1 = memdisk s"
    by (rule bread_ok [OF assms(1) _ ex assms(3)]) blast+
  have nb: "\<not> caches k2 (bufs t1 ! b1)" using r1(3) assms(2) by (auto simp: caches_def)
  have room: "\<exists>i<NBUF. caches k2 (bufs t1 ! i) \<or> i \<notin> {b1} \<and> \<not> b_dirty (bufs t1 ! i)"
  proof (cases "pinned k2 s")
    case True
    then have "pinned k2 t1" using r1(7) by (simp add: same_content_def)
    then show ?thesis by (auto simp: pinned_def)
  next
    case False
    then have clean: "\<not> b_dirty (bufs t1 ! i)" if "i < NBUF" for i using that assms(6) r1(7) by (simp add: same_content_def)
    let ?i = "if b1 = 0 then 1 else 0 :: nat"
    have "?i < NBUF" "?i \<noteq> b1" by simp_all
    then show ?thesis using clean [of ?i] by (intro exI [of _ ?i]) simp
  qed
  have free: "i \<notin> {b1}" if "caches k2 (bufs t1 ! i)" for i using that nb by auto
  have len: "unat k2 < length (memdisk t1)" using assms(4) r1(8) by simp
  obtain b2 t where r2: "bread 1 k2 t1 = Ret (b2, t)" "b2 \<notin> {b1}" "caches k2 (bufs t ! b2)" "b_valid (bufs t ! b2)"
      "b_data (bufs t ! b2) = content k2 t1" "cache_ok (insert b2 {b1}) t" "same_content t t1" "memdisk t = memdisk t1"
      "\<And>i. i \<noteq> b2 \<Longrightarrow> bufs t ! i = bufs t1 ! i"
    by (rule bread_ok [OF r1(6) free room len]) blast+
  have "bufs t ! b1 = bufs t1 ! b1" using r2(2) by (intro r2(9)) simp
  moreover have "content k2 t1 = content k2 s" using r1(7) by (simp add: same_content_def)
  moreover have "{b1, b2} = insert b2 {b1}" by auto
  ultimately show thesis
    using r1 r2 same_content_trans [OF r2(7) r1(7)] by (intro that [of b1 t1 b2 t]) simp_all
qed

text \<open>
  Copying a block onto another one through the cache: with buffer \<open>x\<close> of block \<open>kx\<close> and buffer \<open>y\<close> of block \<open>ky\<close>
  held, the data of \<open>y\<close> is copied to \<open>x\<close> and written, and both are released.
\<close>

lemma copy_ok:
  assumes "cache_ok {x, y} s" and "x \<noteq> y" and "caches kx (bufs s ! x)" and "caches ky (bufs s ! y)"
    and "b_valid (bufs s ! x)" and "unat kx < length (memdisk s)"
    and "b_dirty (bufs s ! y) \<or> b_data (bufs s ! y) = memdisk s ! unat ky"
  obtains u v where "bwrite x (upd_buf x (\<lambda>b. b\<lparr>b_data := b_data (bufs s ! y)\<rparr>) s) = Ret u"
    "brelse y u = Ret v" "bio_state.more u = bio_state.more s" "bio_state.more v = bio_state.more s"
    "returns (brelse x v) (\<lambda>t. cache_ok {} t \<and> same_thread t s \<and> bio_state.more t = bio_state.more s \<and>
       memdisk t = (memdisk s)[unat kx := b_data (bufs s ! y)] \<and>
       (\<forall>j. content j t = (if j = kx then b_data (bufs s ! y) else content j s)) \<and>
       (\<forall>j. pinned j t \<longleftrightarrow> pinned j s \<and> j \<noteq> kx) \<and>
       (\<forall>i<NBUF. b_dirty (bufs t ! i) \<longleftrightarrow> i \<noteq> x \<and> b_dirty (bufs s ! i)) \<and>
       disk_trace t = disk_trace s @ [memdisk t])"
proof -
  let ?d = "b_data (bufs s ! y)"
  let ?s = "upd_buf x (\<lambda>b. b\<lparr>b_data := ?d\<rparr>) s"
  note set = set_data_ok [OF assms(1) _ assms(3,5), where d = ?d]
  have kk: "kx \<noteq> ky" using cache_okD(3,7) [OF assms(1)] assms(2-4) by (auto simp: subset_iff)
  have sx: "bufs ?s ! x = (bufs s ! x)\<lparr>b_data := ?d\<rparr>" and sy: "bufs ?s ! y = bufs s ! y"
    using set(4) assms(2) by auto
  obtain u where u: "bwrite x ?s = Ret u" "cache_ok {x, y} u" "memdisk u = (memdisk ?s)[unat kx := b_data (bufs ?s ! x)]"
    "\<And>j. content j u = content j ?s" "\<And>j. pinned j u \<longleftrightarrow> pinned j ?s \<and> j \<noteq> kx" "same_thread u ?s"
    "bio_state.more u = bio_state.more ?s" "bufs u ! x = (bufs ?s ! x)\<lparr>b_dirty := False, b_valid := True\<rparr>"
    "\<And>i. i \<noteq> x \<Longrightarrow> bufs u ! i = bufs ?s ! i" "disk_trace u = disk_trace ?s @ [memdisk u]"
  proof (rule bwrite_ok [of "{x, y}" ?s x kx])
    show "cache_ok {x, y} ?s" by (rule set(1)) simp
    show "caches kx (bufs ?s ! x)" "b_valid (bufs ?s ! x)" unfolding sx using assms(3,5) by (simp_all add: caches_def)
    show "unat kx < length (memdisk ?s)" using assms(6) by simp
  qed (simp, blast)
  have uy: "bufs u ! y = bufs s ! y" using u(9) [of y] sy assms(2) by simp
  have mu: "memdisk u = (memdisk s)[unat kx := ?d]" using u(3) sx by simp
  have my: "memdisk u ! unat ky = memdisk s ! unat ky" using mu kk by (simp add: word_unat_eq_iff)
  obtain v where v: "brelse y u = Ret v" "cache_ok ({x, y} - {y}) v" "same_content v u" "memdisk v = memdisk u"
    "\<And>i. i \<noteq> y \<Longrightarrow> core (bufs v ! i) = core (bufs u ! i)"
    by (rule brelse_content [OF u(2), of y ky]) (use uy my assms(4,7) in auto)
  have cx: "core (bufs v ! x) = core (bufs u ! x)" by (rule v(5) [OF assms(2)])
  have x1: "cache_ok {x} v" using v(2) assms(2) by (simp add: insert_Diff_if)
  have "b_data (bufs v ! x) = memdisk v ! unat kx"
    using core_eq(6) [OF cx] u(8) sx v(4) mu assms(6) by simp
  moreover have "caches kx (bufs v ! x)" using core_eq(7) [OF cx] u(8) sx assms(3) by (simp add: caches_def)
  ultimately obtain t where t: "brelse x v = Ret t" "cache_ok ({x} - {x}) t" "same_content t v" "memdisk t = memdisk v"
    using brelse_content [OF x1, of x kx] by (metis insertI1)
  have tu: "same_content t u" by (rule same_content_trans [OF t(3) v(3)])
  have "content j t = (if j = kx then ?d else content j s)" for j
    using tu u(4) set(2) [of j] by (simp add: same_content_def)
  moreover have "pinned j t \<longleftrightarrow> pinned j s \<and> j \<noteq> kx" for j
    using tu u(5) set(3) [of j] by (simp add: same_content_def)
  moreover have "b_dirty (bufs t ! i) \<longleftrightarrow> i \<noteq> x \<and> b_dirty (bufs s ! i)" if "i < NBUF" for i
  proof -
    have "b_dirty (bufs t ! i) = b_dirty (bufs u ! i)" using tu that by (simp add: same_content_def)
    then show ?thesis using u(8) u(9) [of i] set(4) [of i] by (cases "i = x") simp_all
  qed
  moreover have "same_thread t u" using tu by (simp add: same_content_def)
  then have "same_thread t s" by (rule same_thread_trans [OF same_thread_trans [OF _ u(6)] upd_buf_sel(4)])
  ultimately show thesis
    using t v(3) tu u(7,10) mu v(4) by (intro that [OF u(1) v(1)]) (simp_all add: same_content_def)
qed

text \<open>A held buffer that is not modified holds what is on the disk, if its data has not been changed.\<close>

lemma held_clean:
  assumes "cache_ok {} s" and "cache_ok H t" and "same_content t s" and "b \<in> H" and "caches k (bufs t ! b)"
  shows "b_dirty (bufs t ! b) \<or> content k s = memdisk s ! unat k"
proof (cases "pinned k s")
  case True
  then have "pinned k t" using assms(3) by (simp add: same_content_def)
  then obtain i where i: "i < NBUF" "caches k (bufs t ! i)" "b_dirty (bufs t ! i)" by (auto simp: pinned_def)
  then have "i = b" using cache_okD(7) [OF assms(2), of i b k] cache_ok_held [OF assms(2,4)] assms(5) by blast
  then show ?thesis using i(3) by simp
next
  case False
  then show ?thesis using content_clean [OF assms(1) False] by simp
qed

text \<open>Replacing the data of one block.\<close>

lemma block_update:
  assumes "cache_ok {} s" and "unat k < length (memdisk s)" and "\<exists>i<NBUF. \<not> b_dirty (bufs s ! i)"
  obtains b s1 where "bread 1 k s = Ret (b, s1)" "b_data (bufs s1 ! b) = content k s" "bio_state.more s1 = bio_state.more s"
    "\<And>d. returns (bindO (bwrite b (upd_buf b (\<lambda>x. x\<lparr>b_data := d\<rparr>) s1)) (\<lambda>s2. brelse b s2)) (\<lambda>t.
       cache_ok {} t \<and> bio_state.more t = bio_state.more s \<and> memdisk t = (memdisk s)[unat k := d] \<and>
       (\<forall>j. content j t = (if j = k then d else content j s)) \<and> (\<forall>j. pinned j t \<longleftrightarrow> pinned j s \<and> j \<noteq> k) \<and>
       (\<exists>i<NBUF. \<not> b_dirty (bufs t ! i)) \<and> (\<forall>i<NBUF. b_dirty (bufs t ! i) \<longrightarrow> b_dirty (bufs s ! i)) \<and>
       disk_trace t = disk_trace s @ [memdisk t])"
proof -
  have ex: "\<exists>i<NBUF. caches j (bufs s ! i) \<or> i \<notin> {} \<and> \<not> b_dirty (bufs s ! i)" for j using assms(3) by blast
  obtain b s1 where r: "bread 1 k s = Ret (b, s1)" "b < NBUF" "caches k (bufs s1 ! b)" "b_valid (bufs s1 ! b)"
      "cache_ok {b} s1" "same_content s1 s" "memdisk s1 = memdisk s" "b_data (bufs s1 ! b) = content k s"
    by (rule bread_ok [OF assms(1) _ ex assms(2)]) blast+
  have upd: "returns (bindO (bwrite b (upd_buf b (\<lambda>x. x\<lparr>b_data := d\<rparr>) s1)) (\<lambda>s2. brelse b s2)) (\<lambda>t.
       cache_ok {} t \<and> bio_state.more t = bio_state.more s \<and> memdisk t = (memdisk s)[unat k := d] \<and>
       (\<forall>j. content j t = (if j = k then d else content j s)) \<and> (\<forall>j. pinned j t \<longleftrightarrow> pinned j s \<and> j \<noteq> k) \<and>
       (\<exists>i<NBUF. \<not> b_dirty (bufs t ! i)) \<and> (\<forall>i<NBUF. b_dirty (bufs t ! i) \<longrightarrow> b_dirty (bufs s ! i)) \<and>
       disk_trace t = disk_trace s @ [memdisk t])" for d
  proof -
    let ?s = "upd_buf b (\<lambda>x. x\<lparr>b_data := d\<rparr>) s1"
    note set = set_data_ok [OF r(5) _ r(3,4), where d = d]
    have sx: "bufs ?s ! b = (bufs s1 ! b)\<lparr>b_data := d\<rparr>" using set(4) by simp
    obtain u where u: "bwrite b ?s = Ret u" "cache_ok {b} u" "memdisk u = (memdisk ?s)[unat k := b_data (bufs ?s ! b)]"
      "\<And>j. content j u = content j ?s" "\<And>j. pinned j u \<longleftrightarrow> pinned j ?s \<and> j \<noteq> k" "bio_state.more u = bio_state.more ?s"
      "bufs u ! b = (bufs ?s ! b)\<lparr>b_dirty := False, b_valid := True\<rparr>" "\<And>i. i \<noteq> b \<Longrightarrow> bufs u ! i = bufs ?s ! i"
      "disk_trace u = disk_trace ?s @ [memdisk u]"
    proof (rule bwrite_ok [of "{b}" ?s b k])
      show "cache_ok {b} ?s" by (rule set(1)) simp
      show "caches k (bufs ?s ! b)" "b_valid (bufs ?s ! b)" unfolding sx using r(3,4) by (simp_all add: caches_def)
      show "unat k < length (memdisk ?s)" using assms(2) r(7) by simp
    qed (simp, blast)
    have cu: "caches k (bufs u ! b)" "b_dirty (bufs u ! b) \<or> b_data (bufs u ! b) = memdisk u ! unat k"
      using u(3,7) sx r(3,7) assms(2) by (simp_all add: caches_def)
    obtain t where t: "brelse b u = Ret t" "cache_ok ({b} - {b}) t" "same_content t u" "memdisk t = memdisk u"
      by (rule brelse_content [OF u(2) _ cu]) simp_all
    have "content j t = (if j = k then d else content j s)" for j
      using t(3) u(4) set(2) [of j] r(6) by (simp add: same_content_def)
    moreover have "pinned j t \<longleftrightarrow> pinned j s \<and> j \<noteq> k" for j
      using t(3) u(5) set(3) [of j] r(6) by (simp add: same_content_def)
    moreover have "bio_state.more t = bio_state.more s" using t(3) u(6) r(6) by (simp add: same_content_def)
    moreover have "disk_trace t = disk_trace s @ [memdisk t]" using t(3,4) u(9) r(6) by (simp add: same_content_def)
    moreover have "memdisk t = (memdisk s)[unat k := d]" using t(4) u(3) sx r(7) by simp
    moreover have dirty: "b_dirty (bufs t ! i) \<longleftrightarrow> i \<noteq> b \<and> b_dirty (bufs s ! i)" if "i < NBUF" for i
    proof -
      have "b_dirty (bufs t ! i) = b_dirty (bufs u ! i)" "b_dirty (bufs s1 ! i) = b_dirty (bufs s ! i)"
        using t(3) r(6) that by (simp_all add: same_content_def)
      then show ?thesis using u(7) u(8) [of i] set(4) [of i] by (cases "i = b") simp_all
    qed
    moreover have "\<exists>i<NBUF. \<not> b_dirty (bufs t ! i)" using dirty [OF r(2)] r(2) by blast
    ultimately show ?thesis using u(1) t(1,2) by simp
  qed
  have "bio_state.more s1 = bio_state.more s" using r(6) by (simp add: same_content_def)
  then show thesis using that [OF r(1,8)] upd by blast
qed

text \<open>
  C24: Writing a block through the buffer cache. Reading the block, changing the data, writing and releasing
  the buffer changes exactly that block of the disk, and from then on every read of any block, wherever it
  is cached and whatever was evicted, returns the current data: the new data for this block and the old
  content for every other one.
\<close>

theorem block_write_read:
  assumes "cache_ok {} s" and "unat k < length (memdisk s)" and "\<exists>i<NBUF. \<not> b_dirty (bufs s ! i)"
  shows "returns (bindO (bread 1 k s) (\<lambda>(b, s1).
      bindO (bwrite b (upd_buf b (\<lambda>x. x\<lparr>b_data := d\<rparr>) s1)) (\<lambda>s2. brelse b s2))) (\<lambda>t.
    cache_ok {} t \<and> memdisk t = (memdisk s)[unat k := d] \<and>
    (\<forall>j. unat j < length (memdisk s) \<longrightarrow>
       returns (bread 1 j t) (\<lambda>(b, u). b_data (bufs u ! b) = (if j = k then d else content j s))))"
proof -
  obtain b s1 where b: "bread 1 k s = Ret (b, s1)"
    "returns (bindO (bwrite b (upd_buf b (\<lambda>x. x\<lparr>b_data := d\<rparr>) s1)) (\<lambda>s2. brelse b s2)) (\<lambda>t.
       cache_ok {} t \<and> bio_state.more t = bio_state.more s \<and> memdisk t = (memdisk s)[unat k := d] \<and>
       (\<forall>j. content j t = (if j = k then d else content j s)) \<and> (\<forall>j. pinned j t \<longleftrightarrow> pinned j s \<and> j \<noteq> k) \<and>
       (\<exists>i<NBUF. \<not> b_dirty (bufs t ! i)) \<and> (\<forall>i<NBUF. b_dirty (bufs t ! i) \<longrightarrow> b_dirty (bufs s ! i)) \<and>
       disk_trace t = disk_trace s @ [memdisk t])"
    by (rule block_update [OF assms]) blast
  then obtain t where t: "bindO (bwrite b (upd_buf b (\<lambda>x. x\<lparr>b_data := d\<rparr>) s1)) (\<lambda>s2. brelse b s2) = Ret t"
      "cache_ok {} t" "memdisk t = (memdisk s)[unat k := d]" "\<And>j. content j t = (if j = k then d else content j s)"
      "\<exists>i<NBUF. \<not> b_dirty (bufs t ! i)"
    by (elim returnsE) blast
  have "returns (bread 1 j t) (\<lambda>(b, u). b_data (bufs u ! b) = (if j = k then d else content j s))"
    if "unat j < length (memdisk s)" for j
  proof -
    have ex: "\<exists>i<NBUF. caches j (bufs t ! i) \<or> i \<notin> {} \<and> \<not> b_dirty (bufs t ! i)" using t(5) by blast
    have len: "unat j < length (memdisk t)" using that t(3) by simp
    show ?thesis by (rule bread_ok [OF t(2) _ ex len]) (simp_all add: t(4))
  qed
  then show ?thesis using b(1) t(1-3) by simp
qed

section \<open>Initialization\<close>

lemma initsleeplock_sel [simp]:
  "bufs (initsleeplock l n s) = bufs s" "memdisk (initsleeplock l n s) = memdisk s"
  "(initsleeplock l n s)\<lparr>bufs := bs\<rparr> = initsleeplock l n (s\<lparr>bufs := bs\<rparr>)"
  "sleeplocks (initsleeplock l n s) k = (if k = l then \<lparr>sl_locked = False, sl_name = n, sl_pid = 0\<rparr> else sleeplocks s k)"
  for s :: "'a bio_state_scheme"
  by (simp_all add: initsleeplock_def initlock_def Let_def)

lemma initlock_kthread [simp]: "kthread s \<Longrightarrow> kthread (initlock l n s)"
  by (auto simp: kthread_def initlock_def lock_free_def me_def cpu_ok_def readeflags_IF_def split: option.splits)

lemma initsleeplock_kthread [simp]: "kthread s \<Longrightarrow> kthread (initsleeplock l n s)"
  unfolding initsleeplock_def Let_def by (rule same_thread_kthread(1) [OF sleeplocks_upd(5)]) simp

lemma binit_loop_ok:
  assumes "kthread s" and "ring_ok (bufs s) xs" and "distinct bs" and "set bs \<subseteq> {0..<NBUF} - set xs"
  shows "kthread (binit_loop bs s) \<and> ring_ok (bufs (binit_loop bs s)) (rev bs @ xs) \<and>
    (\<forall>i. core (bufs (binit_loop bs s) ! i) = core (bufs s ! i)) \<and> memdisk (binit_loop bs s) = memdisk s \<and>
    (\<forall>i. sl_locked (sleeplocks (binit_loop bs s) (BufLk i)) \<longleftrightarrow> i \<notin> set bs \<and> sl_locked (sleeplocks s (BufLk i)))"
  using assms
proof (induction bs arbitrary: s xs)
  case (Cons b bs)
  let ?t = "initsleeplock (BufLk b) ''buffer'' (s\<lparr>bufs := push_front b (bufs s)\<rparr>)"
  have loop: "binit_loop (b # bs) s = binit_loop bs ?t" by (simp add: Let_def)
  have kt: "kthread ?t" by (intro initsleeplock_kthread same_thread_kthread(1) [OF bufs_upd(6)] Cons.prems(1))
  have "ring_ok (bufs ?t) (b # xs)" using Cons.prems ring_push_front [of "bufs s" xs b] by auto
  moreover have "distinct bs" "set bs \<subseteq> {0..<NBUF} - set (b # xs)" using Cons.prems(3,4) by auto
  ultimately have IH: "kthread (binit_loop bs ?t) \<and> ring_ok (bufs (binit_loop bs ?t)) (rev bs @ b # xs) \<and>
    (\<forall>i. core (bufs (binit_loop bs ?t) ! i) = core (bufs ?t ! i)) \<and> memdisk (binit_loop bs ?t) = memdisk ?t \<and>
    (\<forall>i. sl_locked (sleeplocks (binit_loop bs ?t) (BufLk i)) \<longleftrightarrow> i \<notin> set bs \<and> sl_locked (sleeplocks ?t (BufLk i)))"
    by (rule Cons.IH [OF kt])
  have sl: "sl_locked (sleeplocks ?t (BufLk i)) \<longleftrightarrow> i \<noteq> b \<and> sl_locked (sleeplocks s (BufLk i))" for i by simp
  have c: "core (bufs ?t ! i) = core (bufs s ! i)" for i
    by (simp add: core_push_front)
  show ?case using IH unfolding loop c sl by auto
qed simp

lemma binit_ok:
  assumes "kthread s" and "length (bufs s) = NBUF + 1"
    and "\<And>i. i < NBUF \<Longrightarrow> b_refcnt (bufs s ! i) = 0 \<and> b_dev (bufs s ! i) \<noteq> 1 \<and> \<not> b_dirty (bufs s ! i)"
  shows "cache_ok {} (binit s)" and "ring_ok (bufs (binit s)) (rev [0..<NBUF])"
    and "core (bufs (binit s) ! i) = core (bufs s ! i)" and "memdisk (binit s) = memdisk s"
proof -
  let ?s = "upd_buf HEAD (\<lambda>h. h\<lparr>b_prev := HEAD, b_next := HEAD\<rparr>) (initlock BcacheLock ''bcache'' s)"
  have il: "bufs (initlock l n s) = bufs s" "memdisk (initlock l n s) = memdisk s" for l n
    by (simp_all add: initlock_def)
  have "kthread ?s" by (rule same_thread_kthread(1) [OF upd_buf_sel(4)]) (simp add: assms(1))
  moreover have "ring_ok (bufs ?s) []" using assms(2) by (simp add: ring_ok_def link_def nth_upd_buf il)
  ultimately have b: "kthread (binit s)" "ring_ok (bufs (binit s)) (rev [0..<NBUF] @ [])"
    "\<And>i. core (bufs (binit s) ! i) = core (bufs ?s ! i)" "memdisk (binit s) = memdisk ?s"
    "\<And>i. i < NBUF \<Longrightarrow> \<not> sl_locked (sleeplocks (binit s) (BufLk i))"
    using binit_loop_ok [of ?s "[]" "[0..<NBUF]"] unfolding binit_def Let_def by (simp_all del: upt_rec_numeral)
  have c: "core (bufs (binit s) ! i) = core (bufs s ! i)" for i
    using b(3) [of i] assms(2) by (auto simp: nth_upd_buf il core_def)
  then show "core (bufs (binit s) ! i) = core (bufs s ! i)" .
  show "ring_ok (bufs (binit s)) (rev [0..<NBUF])" using b(2) by (simp del: upt_rec_numeral)
  moreover have "set (rev [0..<NBUF]) = {0..<NBUF}" by (simp only: set_rev set_upt)
  ultimately have ring: "\<exists>xs. ring_ok (bufs (binit s)) xs \<and> set xs = {0..<NBUF}" by blast
  have n: "buf_ok (i \<in> {}) (memdisk (binit s)) (bufs (binit s) ! i)" "\<not> caches k (bufs (binit s) ! i)"
    if "i < NBUF" for i k
    using assms(3) [OF that] core_eq [OF c [of i]] by (simp_all add: buf_ok_def caches_def)
  show "cache_ok {} (binit s)"
    unfolding cache_ok_def using b(1,5) ring n by simp
  show "memdisk (binit s) = memdisk s" using b(4) il by simp
qed

text \<open>A disk with an initialized cache and process 1 running, for concrete runs.\<close>

definition boot_cache :: bio_state where
  "boot_cache = binit (boot_bio\<lparr>cpus := [boot_cpu\<lparr>cpu_proc := Some 0\<rparr>],
     procs := (procs boot_proc)[0 := zero_proc\<lparr>p_state := RUNNING, p_pid := 1\<rparr>]\<rparr>)"

lemma boot_cache_ok:
  "cache_ok {} boot_cache" "memdisk boot_cache = replicate FSSIZE (replicate BSIZE 0)"
  "i < NBUF \<Longrightarrow> \<not> b_dirty (bufs boot_cache ! i) \<and> b_dev (bufs boot_cache ! i) = 0"
proof -
  let ?s = "boot_bio\<lparr>cpus := [boot_cpu\<lparr>cpu_proc := Some 0\<rparr>],
     procs := (procs boot_proc)[0 := zero_proc\<lparr>p_state := RUNNING, p_pid := 1\<rparr>]\<rparr>"
  have b: "bufs ?s = replicate (NBUF + 1) \<lparr>b_valid = False, b_dirty = False, b_dev = 0, b_blockno = 0, b_refcnt = 0,
        b_prev = 0, b_next = 0, b_data = replicate BSIZE 0\<rparr>"
    "memdisk ?s = replicate FSSIZE (replicate BSIZE 0)"
    by (simp_all add: boot_bio_def sleep_state.defs)
  have k: "kthread ?s"
    by (simp add: boot_bio_def boot_sleep_def boot_proc_def boot_kmem_def boot_cpu_def kmem_state.defs proc_state.defs
        sleep_state.defs kthread_def cpu_ok_def lock_free_def me_def find_index_def readeflags_IF_def)
  have n: "b_refcnt (bufs ?s ! i) = 0 \<and> b_dev (bufs ?s ! i) = 0 \<and> \<not> b_dirty (bufs ?s ! i)" if "i < NBUF" for i
    unfolding b(1) using that by (simp only: nth_replicate) simp
  have len: "length (bufs ?s) = NBUF + 1" unfolding b(1) by (simp only: length_replicate)
  note ok = binit_ok [OF k len, folded boot_cache_def]
  show "cache_ok {} boot_cache" using ok(1) n by simp
  show "memdisk boot_cache = replicate FSSIZE (replicate BSIZE 0)" using ok(4) n b(2) by simp
  show "\<not> b_dirty (bufs boot_cache ! i) \<and> b_dev (bufs boot_cache ! i) = 0" if "i < NBUF"
    using core_eq [OF ok(3) [of i]] n n [OF that] by simp
qed

theorem block_write_read_witness:
  "returns (bindO (bread 1 7 boot_cache) (\<lambda>(b, s1).
      bindO (bwrite b (upd_buf b (\<lambda>x. x\<lparr>b_data := [1, 2]\<rparr>) s1)) (\<lambda>s2. brelse b s2))) (\<lambda>t.
    memdisk t ! 7 = [1, 2] \<and> returns (bread 1 7 t) (\<lambda>(b, u). b_data (bufs u ! b) = [1, 2]))"
proof -
  have len: "length (memdisk boot_cache) = FSSIZE" by (simp only: boot_cache_ok(2) length_replicate)
  have "\<exists>i<NBUF. \<not> b_dirty (bufs boot_cache ! i)" using boot_cache_ok(3) [of 0] by (intro exI [of _ 0]) simp
  from block_write_read [OF boot_cache_ok(1) _ this, of 7 "[1, 2]"] show ?thesis
    by (auto simp: len elim!: returns_mono dest: spec [of _ 7])
qed

text \<open>
  C23: The ring of buffers is a list in order of use. The search for a cached block follows the list from the
  front, the search for a victim from the back, and releasing a buffer to which nobody else refers moves it
  to the front and keeps the order of the others; no buffer but the released one changes, except for links.
\<close>

theorem buffer_ring_is_lru_list:
  assumes "cache_ok H s" and "b \<in> H" and "ring_ok (bufs s) xs" and "set xs = {0..<NBUF}"
    and "b_dirty (bufs s ! b) \<or> b_data (bufs s ! b) = memdisk s ! unat (b_blockno (bufs s ! b))"
  shows "scan_next NBUF P (bufs s) (b_next (bufs s ! HEAD)) = find (\<lambda>i. P (bufs s ! i)) xs \<and>
    scan_prev NBUF P (bufs s) (b_prev (bufs s ! HEAD)) = find (\<lambda>i. P (bufs s ! i)) (rev xs) \<and>
    returns (brelse b s) (\<lambda>t. ring_ok (bufs t) (b # remove1 b xs) \<and> cache_ok (H - {b}) t \<and>
      (\<forall>i. i \<noteq> b \<longrightarrow> core (bufs t ! i) = core (bufs s ! i)))"
proof -
  have d: "b_data (bufs s ! b) = memdisk s ! unat (b_blockno (bufs s ! b))" if "\<not> b_dirty (bufs s ! b)"
    using that assms(5) by blast
  obtain t where "brelse b s = Ret t" "cache_ok (H - {b}) t" "ring_ok (bufs t) (b # remove1 b xs)"
      "\<And>i. i \<noteq> b \<Longrightarrow> core (bufs t ! i) = core (bufs s ! i)"
    by (rule brelse_ok [OF assms(1-4)]) (use d in blast)+
  then show ?thesis using ring_scans [OF assms(3)] by simp
qed

theorem buffer_ring_is_lru_list_witness:
  "returns (bread 1 7 boot_cache) (\<lambda>(b, s). \<exists>xs. ring_ok (bufs s) xs \<and>
     scan_prev NBUF (\<lambda>x. b_refcnt x = 0) (bufs s) (b_prev (bufs s ! HEAD)) = find (\<lambda>i. b_refcnt (bufs s ! i) = 0) (rev xs) \<and>
     returns (brelse b s) (\<lambda>t. ring_ok (bufs t) (b # remove1 b xs)))"
proof -
  have free: "\<exists>i<NBUF. caches 7 (bufs boot_cache ! i) \<or> i \<notin> {} \<and> \<not> b_dirty (bufs boot_cache ! i)"
    using boot_cache_ok(3) [of 0] by (intro exI [of _ 0]) simp
  have len: "unat (7 :: u32) < length (memdisk boot_cache)" unfolding boot_cache_ok(2) by (simp only: length_replicate) simp
  have un: "\<not> caches 7 (bufs boot_cache ! i)" if "i < NBUF" for i
    using boot_cache_ok(3) [OF that] by (simp add: caches_def)
  obtain b s where b: "bread 1 7 boot_cache = Ret (b, s)" "cache_ok {b} s" "caches 7 (bufs s ! b)"
      "b_data (bufs s ! b) = content 7 boot_cache" "memdisk s = memdisk boot_cache"
    by (rule bread_ok [OF boot_cache_ok(1) _ free len]) blast+
  have "content 7 boot_cache = memdisk boot_cache ! unat (7 :: u32)" by (rule content_uncached) (use un in blast)
  then have d: "b_dirty (bufs s ! b) \<or> b_data (bufs s ! b) = memdisk s ! unat (b_blockno (bufs s ! b))"
    using b(3-5) by (simp add: caches_def)
  obtain xs where xs: "ring_ok (bufs s) xs" "set xs = {0..<NBUF}" using cache_ok_ring [OF b(2)] by blast
  note lru = buffer_ring_is_lru_list [OF b(2) _ xs d, of "\<lambda>x. b_refcnt x = 0", simplified]
  have "returns (brelse b s) (\<lambda>t. ring_ok (bufs t) (b # remove1 b xs))"
    by (rule returns_mono [OF conjunct2 [OF conjunct2 [OF lru]]]) blast
  then show ?thesis using lru xs(1) b(1) by auto
qed

end
