(* ===== verification/Bytes.thy ===== *)
theory Bytes
  imports Prelude
begin

text \<open>
  Integers inside a block of bytes: what C reads and writes through a \<^verbatim>\<open>ushort*\<close> or \<^verbatim>\<open>uint*\<close> into a disk
  buffer on a little-endian machine, with the round-trip and frame lemmas.
\<close>

definition get16 :: "u8 list \<Rightarrow> nat \<Rightarrow> u16" where
  "get16 bs o1 = ucast (bs ! o1) OR push_bit 8 (ucast (bs ! (o1 + 1)))"

definition put16 :: "u8 list \<Rightarrow> nat \<Rightarrow> u16 \<Rightarrow> u8 list" where
  "put16 bs o1 v = bs[o1 := ucast v, o1 + 1 := ucast (drop_bit 8 v)]"

definition get32 :: "u8 list \<Rightarrow> nat \<Rightarrow> u32" where
  "get32 bs o1 = ucast (bs ! o1) OR push_bit 8 (ucast (bs ! (o1 + 1)))
     OR push_bit 16 (ucast (bs ! (o1 + 2))) OR push_bit 24 (ucast (bs ! (o1 + 3)))"

definition put32 :: "u8 list \<Rightarrow> nat \<Rightarrow> u32 \<Rightarrow> u8 list" where
  "put32 bs o1 v = bs[o1 := ucast v, o1 + 1 := ucast (drop_bit 8 v),
     o1 + 2 := ucast (drop_bit 16 v), o1 + 3 := ucast (drop_bit 24 v)]"

text \<open>Replacing the bytes from an offset on: \<^verbatim>\<open>memmove(data + off, src, n)\<close>.\<close>

definition put_bytes :: "u8 list \<Rightarrow> nat \<Rightarrow> u8 list \<Rightarrow> u8 list" where
  "put_bytes bs o1 xs = take o1 bs @ xs @ drop (o1 + length xs) bs"

definition get_bytes :: "u8 list \<Rightarrow> nat \<Rightarrow> nat \<Rightarrow> u8 list" where
  "get_bytes bs o1 n = take n (drop o1 bs)"

lemma length_put [simp]:
  "length (put16 bs o1 v) = length bs" "length (put32 bs o1 w) = length bs"
  by (simp_all add: put16_def put32_def)

lemma length_put_bytes [simp]:
  "o1 + length xs \<le> length bs \<Longrightarrow> length (put_bytes bs o1 xs) = length bs"
  by (simp add: put_bytes_def)

lemma length_get_bytes [simp]: "length (get_bytes bs o1 n) = min n (length bs - o1)"
  by (simp add: get_bytes_def)

lemma get16_put16_same [simp]:
  assumes "o1 + 1 < length bs"
  shows "get16 (put16 bs o1 v) o1 = v"
proof (rule bit_word_eqI)
  fix n :: nat
  assume n: "n < LENGTH(16)"
  show "bit (get16 (put16 bs o1 v) o1) n = bit v n"
    using n assms by (cases "n < 8") (auto simp: get16_def put16_def bit_or_iff bit_push_bit_iff bit_ucast_iff
        bit_drop_bit_eq dest: bit_imp_le_length)
qed

lemma get32_put32_same [simp]:
  assumes "o1 + 3 < length bs"
  shows "get32 (put32 bs o1 v) o1 = v"
proof (rule bit_word_eqI)
  fix n :: nat
  assume n: "n < LENGTH(32)"
  show "bit (get32 (put32 bs o1 v) o1) n = bit v n"
    using n assms
    by (cases "n < 8"; cases "n < 16"; cases "n < 24")
      (auto simp: get32_def put32_def bit_or_iff bit_push_bit_iff bit_ucast_iff bit_drop_bit_eq
        dest: bit_imp_le_length)
qed

lemma put_nth_other:
  "i < o1 \<or> o1 + 2 \<le> i \<Longrightarrow> put16 bs o1 v ! i = bs ! i"
  "i < o1 \<or> o1 + 4 \<le> i \<Longrightarrow> put32 bs o1 w ! i = bs ! i"
  by (auto simp: put16_def put32_def)

lemma get_put_other [simp]:
  "o2 + 2 \<le> o1 \<or> o1 + 2 \<le> o2 \<Longrightarrow> get16 (put16 bs o1 v) o2 = get16 bs o2"
  "o2 + 2 \<le> o1 \<or> o1 + 4 \<le> o2 \<Longrightarrow> get16 (put32 bs o1 w) o2 = get16 bs o2"
  "o2 + 4 \<le> o1 \<or> o1 + 2 \<le> o2 \<Longrightarrow> get32 (put16 bs o1 v) o2 = get32 bs o2"
  "o2 + 4 \<le> o1 \<or> o1 + 4 \<le> o2 \<Longrightarrow> get32 (put32 bs o1 w) o2 = get32 bs o2"
  by (auto simp: get16_def get32_def put_nth_other)

lemma nth_put_bytes:
  "o1 + length xs \<le> length bs \<Longrightarrow> i < length bs \<Longrightarrow>
     put_bytes bs o1 xs ! i = (if o1 \<le> i \<and> i < o1 + length xs then xs ! (i - o1) else bs ! i)"
  by (auto simp: put_bytes_def nth_append)

lemma get_put_bytes [simp]:
  "o1 + length xs \<le> length bs \<Longrightarrow> n = length xs \<Longrightarrow> get_bytes (put_bytes bs o1 xs) o1 n = xs"
  by (simp add: get_bytes_def put_bytes_def)

lemma get_put_bytes_other:
  assumes "o1 + length xs \<le> length bs" and "o2 + n \<le> length bs" and "o2 + n \<le> o1 \<or> o1 + length xs \<le> o2"
  shows "get_bytes (put_bytes bs o1 xs) o2 n = get_bytes bs o2 n"
  using assms by (intro nth_equalityI) (auto simp: get_bytes_def nth_put_bytes)

end
