(* ===== verification/Log.thy ===== *)
theory Log
  imports Bio Bytes
begin

text \<open>
  The write-ahead log, \<^verbatim>\<open>log.c\<close>, with the super block and \<^verbatim>\<open>readsb\<close> of \<^verbatim>\<open>fs.c\<close> that its initialization
  reads. C's \<^verbatim>\<open>int\<close> fields are integers; a block number passed to \<^verbatim>\<open>bread\<close> is converted to \<^verbatim>\<open>uint\<close>.
\<close>

section \<open>State\<close>

record superblock =
  sb_size :: u32
  sb_nblocks :: u32
  sb_ninodes :: u32
  sb_nlog :: u32
  sb_logstart :: u32
  sb_inodestart :: u32
  sb_bmapstart :: u32

record log_state = bio_state +
  log_start :: int
  log_size :: int
  log_outstanding :: int
  log_committing :: bool
  log_dev :: int
  lh_n :: int
  lh_block :: "int list"

definition superblock_of :: "u8 list \<Rightarrow> superblock" where
  "superblock_of d = \<lparr>sb_size = get32 d 0, sb_nblocks = get32 d 4, sb_ninodes = get32 d 8, sb_nlog = get32 d 12,
     sb_logstart = get32 d 16, sb_inodestart = get32 d 20, sb_bmapstart = get32 d 24\<rparr>"

definition readsb :: "u32 \<Rightarrow> 'a bio_state_scheme \<Rightarrow> (superblock \<times> 'a bio_state_scheme) outcome" where
  "readsb dev s =
     bindO (bread dev 1 s) (\<lambda>(b, s).
       let sb = superblock_of (b_data (bufs s ! b)) in
       bindO (brelse b s) (\<lambda>s. Ret (sb, s)))"

section \<open>Installing, reading and writing the log\<close>

definition install_block :: "int \<Rightarrow> 'a log_state_scheme \<Rightarrow> 'a log_state_scheme outcome" where
  "install_block tail s =
     bindO (bread (of_int (log_dev s)) (of_int (log_start s + tail + 1)) s) (\<lambda>(lbuf, s).
     bindO (bread (of_int (log_dev s)) (of_int (lh_block s ! nat tail)) s) (\<lambda>(dbuf, s).
       let s = upd_buf dbuf (\<lambda>b. b\<lparr>b_data := b_data (bufs s ! lbuf)\<rparr>) s in
       bindO (bwrite dbuf s) (\<lambda>s.
       bindO (brelse lbuf s) (\<lambda>s.
       brelse dbuf s))))"

primrec install_loop :: "nat \<Rightarrow> int \<Rightarrow> 'a log_state_scheme \<Rightarrow> 'a log_state_scheme outcome" where
  "install_loop 0 tail s = Ret s"
| "install_loop (Suc n) tail s = bindO (install_block tail s) (\<lambda>s. install_loop n (tail + 1) s)"

definition install_trans :: "'a log_state_scheme \<Rightarrow> 'a log_state_scheme outcome" where
  "install_trans s = install_loop (nat (lh_n s)) 0 s"

text \<open>A header with more than \<^verbatim>\<open>LOGSIZE\<close> entries would be copied past the end of \<^verbatim>\<open>log.lh.block\<close>.\<close>

definition read_head :: "'a log_state_scheme \<Rightarrow> 'a log_state_scheme outcome" where
  "read_head s =
     bindO (bread (of_int (log_dev s)) (of_int (log_start s)) s) (\<lambda>(b, s).
       let d = b_data (bufs s ! b);
           n = sint (get32 d 0) in
       if n > int LOGSIZE then UB
       else
         let s = s\<lparr>lh_n := n,
                   lh_block := fold (\<lambda>i bl. bl[i := sint (get32 d (4 + 4 * i))]) [0..<nat n] (lh_block s)\<rparr>
         in brelse b s)"

definition header_bytes :: "int \<Rightarrow> int list \<Rightarrow> u8 list \<Rightarrow> u8 list" where
  "header_bytes n bl d =
     fold (\<lambda>i d. put32 d (4 + 4 * i) (of_int (bl ! i))) [0..<nat n] (put32 d 0 (of_int n))"

definition write_head :: "'a log_state_scheme \<Rightarrow> 'a log_state_scheme outcome" where
  "write_head s =
     bindO (bread (of_int (log_dev s)) (of_int (log_start s)) s) (\<lambda>(b, s).
       let s = upd_buf b (\<lambda>x. x\<lparr>b_data := header_bytes (lh_n s) (lh_block s) (b_data x)\<rparr>) s in
       bindO (bwrite b s) (\<lambda>s. brelse b s))"

definition recover_from_log :: "'a log_state_scheme \<Rightarrow> 'a log_state_scheme outcome" where
  "recover_from_log s =
     bindO (read_head s) (\<lambda>s.
     bindO (install_trans s) (\<lambda>s.
     write_head (s\<lparr>lh_n := 0\<rparr>)))"

text \<open>\<^verbatim>\<open>sizeof(struct logheader)\<close> is 4 + 4 * LOGSIZE = 124 bytes.\<close>

definition initlog :: "int \<Rightarrow> 'a log_state_scheme \<Rightarrow> 'a log_state_scheme outcome" where
  "initlog dev s =
     (if 4 + 4 * LOGSIZE \<ge> BSIZE then Panic ''initlog: too big logheader''
      else
        let s = initlock LogLock ''log'' s in
        bindO (readsb (of_int dev) s) (\<lambda>(sb, s).
          recover_from_log (s\<lparr>log_start := sint (sb_logstart sb), log_size := sint (sb_nlog sb),
            log_dev := dev\<rparr>)))"

section \<open>Transactions\<close>

text \<open>The loop of \<^verbatim>\<open>begin_op\<close>, with \<^verbatim>\<open>log.lock\<close> held.\<close>

definition log_busy :: "'a log_state_scheme \<Rightarrow> bool" where
  "log_busy s \<longleftrightarrow> log_committing s \<or>
     lh_n s + (log_outstanding s + 1) * int MAXOPBLOCKS > int LOGSIZE"

primrec begin_op_wait :: "'a log_state_scheme wakes \<Rightarrow> 'a log_state_scheme \<Rightarrow> 'a log_state_scheme outcome" where
  "begin_op_wait [] s = (if log_busy s then Blocked else Ret s)"
| "begin_op_wait (w # ws) s =
     (if log_busy s then bindO (sleep w ChanLog (Some LogLock) s) (\<lambda>s. begin_op_wait ws s) else Ret s)"

definition begin_op :: "'a log_state_scheme wakes \<Rightarrow> 'a log_state_scheme \<Rightarrow> 'a log_state_scheme outcome" where
  "begin_op ws s =
     bindO (acquire LogLock s) (\<lambda>s.
     bindO (begin_op_wait ws s) (\<lambda>s.
     release LogLock (s\<lparr>log_outstanding := log_outstanding s + 1\<rparr>)))"

definition write_block :: "int \<Rightarrow> 'a log_state_scheme \<Rightarrow> 'a log_state_scheme outcome" where
  "write_block tail s =
     bindO (bread (of_int (log_dev s)) (of_int (log_start s + tail + 1)) s) (\<lambda>(to, s).
     bindO (bread (of_int (log_dev s)) (of_int (lh_block s ! nat tail)) s) (\<lambda>(from, s).
       let s = upd_buf to (\<lambda>b. b\<lparr>b_data := b_data (bufs s ! from)\<rparr>) s in
       bindO (bwrite to s) (\<lambda>s.
       bindO (brelse from s) (\<lambda>s.
       brelse to s))))"

primrec write_loop :: "nat \<Rightarrow> int \<Rightarrow> 'a log_state_scheme \<Rightarrow> 'a log_state_scheme outcome" where
  "write_loop 0 tail s = Ret s"
| "write_loop (Suc n) tail s = bindO (write_block tail s) (\<lambda>s. write_loop n (tail + 1) s)"

definition write_log :: "'a log_state_scheme \<Rightarrow> 'a log_state_scheme outcome" where
  "write_log s = write_loop (nat (lh_n s)) 0 s"

definition commit :: "'a log_state_scheme \<Rightarrow> 'a log_state_scheme outcome" where
  "commit s =
     (if lh_n s > 0 then
        bindO (write_log s) (\<lambda>s.
        bindO (write_head s) (\<lambda>s.
        bindO (install_trans s) (\<lambda>s.
        write_head (s\<lparr>lh_n := 0\<rparr>))))
      else Ret s)"

definition end_op :: "'a log_state_scheme \<Rightarrow> 'a log_state_scheme outcome" where
  "end_op s =
     bindO (locked LogLock (\<lambda>s.
         let s = s\<lparr>log_outstanding := log_outstanding s - 1\<rparr> in
         if log_committing s then Panic ''log.committing''
         else if log_outstanding s = 0 then Ret (True, s\<lparr>log_committing := True\<rparr>)
         else bindO (wakeup ChanLog s) (\<lambda>s. Ret (False, s))) s) (\<lambda>(do_commit, s).
     if do_commit then
       bindO (commit s) (\<lambda>s.
       bindO (locked LogLock (\<lambda>s.
           bindO (wakeup ChanLog (s\<lparr>log_committing := False\<rparr>)) (\<lambda>s. Ret ((), s))) s) (\<lambda>(_, s). Ret s))
     else Ret s)"

text \<open>\<open>absorb\<close>: the entry that \<^verbatim>\<open>log_write\<close> uses, the first one with the block number or the next free one.\<close>

primrec absorb :: "nat \<Rightarrow> nat \<Rightarrow> int list \<Rightarrow> int \<Rightarrow> nat" where
  "absorb 0 i bl x = i"
| "absorb (Suc n) i bl x = (if bl ! i = x then i else absorb n (i + 1) bl x)"

definition log_write :: "nat \<Rightarrow> 'a log_state_scheme \<Rightarrow> 'a log_state_scheme outcome" where
  "log_write b s =
     (if lh_n s \<ge> int LOGSIZE \<or> lh_n s \<ge> log_size s - 1 then Panic ''too big a transaction''
      else if log_outstanding s < 1 then Panic ''log_write outside of trans''
      else
        bindO (locked LogLock (\<lambda>s.
            let i = absorb (nat (lh_n s)) 0 (lh_block s) (sint (b_blockno (bufs s ! b)));
                s = s\<lparr>lh_block := (lh_block s)[i := sint (b_blockno (bufs s ! b))]\<rparr>;
                s = (if int i = lh_n s then s\<lparr>lh_n := lh_n s + 1\<rparr> else s)
            in Ret ((), upd_buf b (\<lambda>x. x\<lparr>b_dirty := True\<rparr>) s)) s) (\<lambda>(_, s). Ret s))"

text \<open>The state at boot, for concrete runs.\<close>

definition boot_log :: log_state where
  "boot_log = bio_state.extend boot_bio 
     \<lparr>log_start = 0, log_size = 0, log_outstanding = 0, log_committing = False, log_dev = 0, lh_n = 0,
      lh_block = replicate LOGSIZE 0\<rparr>"

lemma boot_log_ok [simp]:
  "cpu_ok boot_log" "lock_free l boot_log" "me boot_log = 0" "procs boot_log = procs boot_proc"
  using boot_proc_ok(1) cpu_ok_cong [of boot_log boot_proc]
  by (simp_all add: boot_log_def boot_proc_def boot_kmem_def boot_cpu_def kmem_state.defs boot_sleep_def proc_state.defs boot_bio_def sleep_state.defs bio_state.defs cpu_ok_def lock_free_def me_def find_index_def readeflags_IF_def)

end
