(* ===== verification/Vm.thy ===== *)
theory Vm
  imports Proc
begin

text \<open>
  Two-level x86 page tables in kernel memory, \<^verbatim>\<open>vm.c\<close> (except \<^verbatim>\<open>loaduvm\<close>, which reads a file and is in
  theory \<open>Exec\<close>): walking and extending a page table, the kernel's own mappings, growing, shrinking,
  freeing and copying the user part, and copying out to a user address. The theory ends with the memory
  accesses that kernel code makes at user addresses, whose page faults run the \<^verbatim>\<open>T_PGFLT\<close> branch of
  \<^verbatim>\<open>trap()\<close>. The diagnostics these functions print with \<^verbatim>\<open>cprintf\<close> are left out.

  A loop over pages carries a bound on its rounds, computed from its own limits; running out of rounds is
  the outcome \<open>Blocked\<close>, and the lemmas \<open>deallocuvm_loop_more\<close>, \<open>allocuvm_loop_more\<close> and \<open>copyuvm_loop_more\<close> show that a
  larger bound changes nothing; \<open>mappages_updates_map\<close> shows that \<^verbatim>\<open>mappages\<close> returns.
\<close>

section \<open>Walking and extending a page table\<close>

definition walkpgdir :: "u32 \<Rightarrow> u32 \<Rightarrow> bool \<Rightarrow> 'a kmem_state_scheme \<Rightarrow> (u32 \<times> 'a kmem_state_scheme) outcome" where
  "walkpgdir pgdir va alloc s =
     (let pde = pgdir + 4 * PDX va in
      if load32 (mem s) pde AND PTE_P \<noteq> 0 then
        let pgtab = P2V (PTE_ADDR (load32 (mem s) pde)) in Ret (pgtab + 4 * PTX va, s)
      else if \<not> alloc then Ret (0, s)
      else
        bindO (kalloc s) (\<lambda>(pgtab, s).
          if pgtab = 0 then Ret (0, s)
          else
            let s = s\<lparr>mem := memset pgtab 0 PGSIZE (mem s)\<rparr>;
                s = s\<lparr>mem := store32 (mem s) pde (V2P pgtab OR PTE_P OR PTE_W OR PTE_U)\<rparr>
            in Ret (pgtab + 4 * PTX va, s)))"

primrec mappages_loop :: "nat \<Rightarrow> u32 \<Rightarrow> u32 \<Rightarrow> u32 \<Rightarrow> u32 \<Rightarrow> u32 \<Rightarrow> 'a kmem_state_scheme \<Rightarrow>
    (int \<times> 'a kmem_state_scheme) outcome" where
  "mappages_loop 0 pgdir a last_a pa perm s = Blocked"
| "mappages_loop (Suc n) pgdir a last_a pa perm s =
     bindO (walkpgdir pgdir a True s) (\<lambda>(pte, s).
       if pte = 0 then Ret (- 1, s)
       else if load32 (mem s) pte AND PTE_P \<noteq> 0 then Panic ''remap''
       else
         let s = s\<lparr>mem := store32 (mem s) pte (pa OR perm OR PTE_P)\<rparr> in
         if a = last_a then Ret (0, s)
         else mappages_loop n pgdir (a + PGSIZE) last_a (pa + PGSIZE) perm s)"

definition mappages :: "u32 \<Rightarrow> u32 \<Rightarrow> u32 \<Rightarrow> u32 \<Rightarrow> u32 \<Rightarrow> 'a kmem_state_scheme \<Rightarrow>
    (int \<times> 'a kmem_state_scheme) outcome" where
  "mappages pgdir va sz pa perm s =
     (let a = PGROUNDDOWN va; last_a = PGROUNDDOWN (va + sz - 1) in
      mappages_loop (unat (last_a - a) div 4096 + 1) pgdir a last_a pa perm s)"

section \<open>Freeing\<close>

primrec deallocuvm_loop :: "nat \<Rightarrow> u32 \<Rightarrow> u32 \<Rightarrow> u32 \<Rightarrow> 'a kmem_state_scheme \<Rightarrow> 'a kmem_state_scheme outcome" where
  "deallocuvm_loop 0 pgdir a oldsz s = (if a < oldsz then Blocked else Ret s)"
| "deallocuvm_loop (Suc n) pgdir a oldsz s =
     (if a < oldsz then
        bindO (walkpgdir pgdir a False s) (\<lambda>(pte, s).
          if pte = 0 then deallocuvm_loop n pgdir (PGADDR (PDX a + 1) 0 0 - PGSIZE + PGSIZE) oldsz s
          else if load32 (mem s) pte AND PTE_P \<noteq> 0 then
            let pa = PTE_ADDR (load32 (mem s) pte) in
            if pa = 0 then Panic ''kfree''
            else
              bindO (kfree (P2V pa) s) (\<lambda>s.
                deallocuvm_loop n pgdir (a + PGSIZE) oldsz (s\<lparr>mem := store32 (mem s) pte 0\<rparr>))
          else deallocuvm_loop n pgdir (a + PGSIZE) oldsz s)
      else Ret s)"

definition deallocuvm :: "u32 \<Rightarrow> u32 \<Rightarrow> u32 \<Rightarrow> 'a kmem_state_scheme \<Rightarrow> (u32 \<times> 'a kmem_state_scheme) outcome" where
  "deallocuvm pgdir oldsz newsz s =
     (if newsz \<ge> oldsz then Ret (oldsz, s)
      else
        let a = PGROUNDUP newsz in
        bindO (deallocuvm_loop (unat (oldsz - a) div 4096 + 1) pgdir a oldsz s) (\<lambda>s. Ret (newsz, s)))"

primrec freevm_loop :: "nat \<Rightarrow> u32 \<Rightarrow> u32 \<Rightarrow> 'a kmem_state_scheme \<Rightarrow> 'a kmem_state_scheme outcome" where
  "freevm_loop 0 pgdir i s = Ret s"
| "freevm_loop (Suc n) pgdir i s =
     (let pde = load32 (mem s) (pgdir + 4 * i) in
      bindO (if pde AND PTE_P \<noteq> 0 then kfree (P2V (PTE_ADDR pde)) s else Ret s) (\<lambda>s.
      freevm_loop n pgdir (i + 1) s))"

definition freevm :: "u32 \<Rightarrow> 'a kmem_state_scheme \<Rightarrow> 'a kmem_state_scheme outcome" where
  "freevm pgdir s =
     (if pgdir = 0 then Panic ''freevm: no pgdir''
      else
        bindO (deallocuvm pgdir KERNBASE 0 s) (\<lambda>(_, s).
        bindO (freevm_loop NPDENTRIES pgdir 0 s) (\<lambda>s.
        kfree pgdir s)))"

section \<open>The kernel's mappings\<close>

record kmap =
  k_virt :: u32
  k_phys_start :: u32
  k_phys_end :: u32
  k_perm :: u32

definition kmap_table :: "u32 \<Rightarrow> kmap list" where
  "kmap_table data =
     [\<lparr>k_virt = KERNBASE, k_phys_start = 0, k_phys_end = EXTMEM, k_perm = PTE_W\<rparr>,
      \<lparr>k_virt = KERNLINK, k_phys_start = V2P KERNLINK, k_phys_end = V2P data, k_perm = 0\<rparr>,
      \<lparr>k_virt = data, k_phys_start = V2P data, k_phys_end = PHYSTOP, k_perm = PTE_W\<rparr>,
      \<lparr>k_virt = DEVSPACE, k_phys_start = DEVSPACE, k_phys_end = 0, k_perm = PTE_W\<rparr>]"

fun setupkvm_loop :: "kmap list \<Rightarrow> u32 \<Rightarrow> 'a kmem_state_scheme \<Rightarrow> (u32 \<times> 'a kmem_state_scheme) outcome" where
  "setupkvm_loop [] pgdir s = Ret (pgdir, s)"
| "setupkvm_loop (k # ks) pgdir s =
     bindO (mappages pgdir (k_virt k) (k_phys_end k - k_phys_start k) (k_phys_start k) (k_perm k) s)
       (\<lambda>(r, s). if r < 0 then bindO (freevm pgdir s) (\<lambda>s. Ret (0, s)) else setupkvm_loop ks pgdir s)"

definition setupkvm :: "'a proc_state_scheme \<Rightarrow> (u32 \<times> 'a proc_state_scheme) outcome" where
  "setupkvm s =
     bindO (kalloc s) (\<lambda>(pgdir, s).
       if pgdir = 0 then Ret (0, s)
       else
         let s = s\<lparr>mem := memset pgdir 0 PGSIZE (mem s)\<rparr> in
         if P2V PHYSTOP > DEVSPACE then Panic ''PHYSTOP too high''
         else setupkvm_loop (kmap_table (sym_data s)) pgdir s)"

definition kvmalloc :: "'a proc_state_scheme \<Rightarrow> 'a proc_state_scheme outcome" where
  "kvmalloc s = bindO (setupkvm s) (\<lambda>(pgdir, s). Ret (switchkvm (s\<lparr>kpgdir := pgdir\<rparr>)))"

definition seginit :: "'a proc_state_scheme \<Rightarrow> 'a proc_state_scheme outcome" where
  "seginit s =
     bindO (cpuid s) (\<lambda>c.
       let g = gdt (cpus s ! c);
           g = g[SEG_KCODE := SEG 0xA 0 0xFFFFFFFF 0];
           g = g[SEG_KDATA := SEG 0x2 0 0xFFFFFFFF 0];
           g = g[SEG_UCODE := SEG 0xA 0 0xFFFFFFFF DPL_USER];
           g = g[SEG_UDATA := SEG 0x2 0 0xFFFFFFFF DPL_USER]
       in Ret (upd_cpu c (\<lambda>k. k\<lparr>gdt := g\<rparr>) s))"

section \<open>The user part\<close>

definition inituvm :: "u32 \<Rightarrow> u32 \<Rightarrow> u32 \<Rightarrow> 'a kmem_state_scheme \<Rightarrow> 'a kmem_state_scheme outcome" where
  "inituvm pgdir init sz s =
     (if sz \<ge> PGSIZE then Panic ''inituvm: more than a page''
      else
        bindO (kalloc s) (\<lambda>(m, s).
          let s = s\<lparr>mem := memset m 0 PGSIZE (mem s)\<rparr> in
          bindO (mappages pgdir 0 PGSIZE (V2P m) (PTE_W OR PTE_U) s) (\<lambda>(_, s).
          Ret (s\<lparr>mem := memmove m init sz (mem s)\<rparr>))))"

primrec allocuvm_loop :: "nat \<Rightarrow> u32 \<Rightarrow> u32 \<Rightarrow> u32 \<Rightarrow> u32 \<Rightarrow> 'a kmem_state_scheme \<Rightarrow>
    (u32 \<times> 'a kmem_state_scheme) outcome" where
  "allocuvm_loop 0 pgdir a oldsz newsz s = (if a < newsz then Blocked else Ret (newsz, s))"
| "allocuvm_loop (Suc n) pgdir a oldsz newsz s =
     (if a < newsz then
        bindO (kalloc s) (\<lambda>(m, s).
          if m = 0 then bindO (deallocuvm pgdir newsz oldsz s) (\<lambda>(_, s). Ret (0, s))
          else
            let s = s\<lparr>mem := memset m 0 PGSIZE (mem s)\<rparr> in
            bindO (mappages pgdir a PGSIZE (V2P m) (PTE_W OR PTE_U) s) (\<lambda>(r, s).
              if r < 0 then
                bindO (deallocuvm pgdir newsz oldsz s) (\<lambda>(_, s).
                bindO (kfree m s) (\<lambda>s. Ret (0, s)))
              else allocuvm_loop n pgdir (a + PGSIZE) oldsz newsz s))
      else Ret (newsz, s))"

definition allocuvm :: "u32 \<Rightarrow> u32 \<Rightarrow> u32 \<Rightarrow> 'a kmem_state_scheme \<Rightarrow> (u32 \<times> 'a kmem_state_scheme) outcome" where
  "allocuvm pgdir oldsz newsz s =
     (if newsz \<ge> KERNBASE then Ret (0, s)
      else if newsz < oldsz then Ret (oldsz, s)
      else
        let a = PGROUNDUP oldsz in
        allocuvm_loop (unat (newsz - a) div 4096 + 1) pgdir a oldsz newsz s)"

definition clearpteu :: "u32 \<Rightarrow> u32 \<Rightarrow> 'a kmem_state_scheme \<Rightarrow> 'a kmem_state_scheme outcome" where
  "clearpteu pgdir uva s =
     bindO (walkpgdir pgdir uva False s) (\<lambda>(pte, s).
       if pte = 0 then Panic ''clearpteu''
       else Ret (s\<lparr>mem := store32 (mem s) pte (load32 (mem s) pte AND NOT PTE_U)\<rparr>))"

text \<open>
  One round of the two copying loops of \<^verbatim>\<open>copyuvm\<close>, which have the same body: copy the page at \<open>i\<close> of
  \<open>pgdir\<close> to a new page and map it in \<open>d\<close>. The answer \<open>False\<close> is the jump to \<^verbatim>\<open>bad\<close>.
\<close>

definition copyuvm_page :: "u32 \<Rightarrow> u32 \<Rightarrow> u32 \<Rightarrow> 'a kmem_state_scheme \<Rightarrow> (bool \<times> 'a kmem_state_scheme) outcome" where
  "copyuvm_page pgdir d i s =
     bindO (walkpgdir pgdir i False s) (\<lambda>(pte, s).
       if pte = 0 then Panic ''copyuvm: pte should exist''
       else if load32 (mem s) pte AND PTE_P = 0 then Panic ''copyuvm: page not present''
       else
         let pa = PTE_ADDR (load32 (mem s) pte); flags = PTE_FLAGS (load32 (mem s) pte) in
         bindO (kalloc s) (\<lambda>(m, s).
           if m = 0 then Ret (False, s)
           else
             let s = s\<lparr>mem := memmove m (P2V pa) PGSIZE (mem s)\<rparr> in
             bindO (mappages d i PGSIZE (V2P m) flags s) (\<lambda>(r, s).
               if r < 0 then bindO (kfree m s) (\<lambda>s. Ret (False, s)) else Ret (True, s))))"

primrec copyuvm_loop :: "nat \<Rightarrow> u32 \<Rightarrow> u32 \<Rightarrow> u32 \<Rightarrow> u32 \<Rightarrow> 'a kmem_state_scheme \<Rightarrow>
    (bool \<times> 'a kmem_state_scheme) outcome" where
  "copyuvm_loop 0 pgdir d i sz s = (if i < sz then Blocked else Ret (True, s))"
| "copyuvm_loop (Suc n) pgdir d i sz s =
     (if i < sz then
        bindO (copyuvm_page pgdir d i s) (\<lambda>(ok, s).
          if ok then copyuvm_loop n pgdir d (i + PGSIZE) sz s else Ret (False, s))
      else Ret (True, s))"

primrec copyuvm_stack_loop :: "nat \<Rightarrow> u32 \<Rightarrow> u32 \<Rightarrow> u32 \<Rightarrow> 'a kmem_state_scheme \<Rightarrow>
    (bool \<times> 'a kmem_state_scheme) outcome" where
  "copyuvm_stack_loop 0 pgdir d i s = Ret (True, s)"
| "copyuvm_stack_loop (Suc n) pgdir d i s =
     bindO (copyuvm_page pgdir d i s) (\<lambda>(ok, s).
       if ok then copyuvm_stack_loop n pgdir d (i + PGSIZE) s else Ret (False, s))"

definition copyuvm :: "u32 \<Rightarrow> u32 \<Rightarrow> 'a proc_state_scheme \<Rightarrow> (u32 \<times> 'a proc_state_scheme) outcome" where
  "copyuvm pgdir sz s =
     bindO (curproc s) (\<lambda>(c, s).
     bindO (setupkvm s) (\<lambda>(d, s).
       if d = 0 then Ret (0, s)
       else
         bindO (copyuvm_loop (unat sz div 4096 + 1) pgdir d 0 sz s) (\<lambda>(ok, s).
         let psize = p_stack_psize (procs s ! c);
             i = PGROUNDUP (STACKBASE - PGSIZE * of_int psize) in
         bindO (if ok then copyuvm_stack_loop (nat psize) pgdir d i s else Ret (False, s)) (\<lambda>(ok, s).
           if ok then Ret (d, s) else bindO (freevm d s) (\<lambda>s. Ret (0, s))))))"

section \<open>Kernel accesses to user addresses\<close>

text \<open>
  The \<^verbatim>\<open>T_PGFLT\<close> branch of \<^verbatim>\<open>trap()\<close> for a fault at address \<open>cr2\<close> taken in kernel mode: one more stack page
  below those the process has, wherever the fault was; above \<^verbatim>\<open>STACKBASE\<close> the default branch panics.
\<close>

definition pgfault :: "u32 \<Rightarrow> 'a proc_state_scheme \<Rightarrow> 'a proc_state_scheme outcome" where
  "pgfault cr2 s =
     (if cr2 \<le> STACKBASE then
        bindO (curproc s) (\<lambda>(p, s).
          let s = upd_proc p (\<lambda>q. q\<lparr>p_stack_psize := p_stack_psize q + 1\<rparr>) s;
              old = PGROUNDUP (STACKBASE - of_int (p_stack_psize (procs s ! p)) * PGSIZE);
              new = old + PGSIZE in
          bindO (allocuvm (p_pgdir (procs s ! p)) old new s) (\<lambda>(r, s).
            if r = 0 then Panic ('' stack overflow'' @ [CHR 0x0A]) else Ret s))
      else Panic ''trap'')"

text \<open>
  The MMU's translation in supervisor mode under the page table in \<open>cr3\<close>: present entries at both levels,
  and write permission for a store. Addresses from \<^verbatim>\<open>KERNBASE\<close> on are the kernel's own mapping.
\<close>

definition translate :: "bool \<Rightarrow> u32 \<Rightarrow> 'a proc_state_scheme \<Rightarrow> u32 option" where
  "translate wr va s =
     (if KERNBASE \<le> va then Some va
      else
        let pde = load32 (mem s) (P2V (cr3 s) + 4 * PDX va) in
        if pde AND PTE_P = 0 \<or> wr \<and> pde AND PTE_W = 0 then None
        else
          let pte = load32 (mem s) (P2V (PTE_ADDR pde) + 4 * PTX va) in
          if pte AND PTE_P = 0 \<or> wr \<and> pte AND PTE_W = 0 then None
          else Some (P2V (PTE_ADDR pte) + (va AND 0xFFF)))"

text \<open>
  An access is retried after each handled fault. Every handled fault takes a page of physical memory, so
  \<^verbatim>\<open>PHYSTOP/PGSIZE\<close> retries are enough.
\<close>

primrec uaccess :: "nat \<Rightarrow> bool \<Rightarrow> u32 \<Rightarrow> 'a proc_state_scheme \<Rightarrow> (u32 \<times> 'a proc_state_scheme) outcome" where
  "uaccess 0 wr va s = (case translate wr va s of Some a \<Rightarrow> Ret (a, s) | None \<Rightarrow> Blocked)"
| "uaccess (Suc n) wr va s =
     (case translate wr va s of Some a \<Rightarrow> Ret (a, s)
      | None \<Rightarrow> bindO (pgfault va s) (\<lambda>s. uaccess n wr va s))"

definition fault_limit :: nat where "fault_limit = 57344"

definition uload8 :: "u32 \<Rightarrow> 'a proc_state_scheme \<Rightarrow> (u8 \<times> 'a proc_state_scheme) outcome" where
  "uload8 va s = bindO (uaccess fault_limit False va s) (\<lambda>(a, s). Ret (mem s a, s))"

definition ustore8 :: "u32 \<Rightarrow> u8 \<Rightarrow> 'a proc_state_scheme \<Rightarrow> 'a proc_state_scheme outcome" where
  "ustore8 va b s = bindO (uaccess fault_limit True va s) (\<lambda>(a, s). Ret (s\<lparr>mem := (mem s)(a := b)\<rparr>))"

primrec uload_bytes :: "nat \<Rightarrow> u32 \<Rightarrow> 'a proc_state_scheme \<Rightarrow> (u8 list \<times> 'a proc_state_scheme) outcome" where
  "uload_bytes 0 va s = Ret ([], s)"
| "uload_bytes (Suc n) va s =
     bindO (uload8 va s) (\<lambda>(b, s). bindO (uload_bytes n (va + 1) s) (\<lambda>(bs, s). Ret (b # bs, s)))"

fun ustore_bytes :: "u32 \<Rightarrow> u8 list \<Rightarrow> 'a proc_state_scheme \<Rightarrow> 'a proc_state_scheme outcome" where
  "ustore_bytes va [] s = Ret s"
| "ustore_bytes va (b # bs) s = bindO (ustore8 va b s) (\<lambda>s. ustore_bytes (va + 1) bs s)"

definition uload32 :: "u32 \<Rightarrow> 'a proc_state_scheme \<Rightarrow> (u32 \<times> 'a proc_state_scheme) outcome" where
  "uload32 va s = bindO (uload_bytes 4 va s) (\<lambda>(bs, s). Ret (load32 (\<lambda>a. bs ! unat a) 0, s))"

definition ustore32 :: "u32 \<Rightarrow> u32 \<Rightarrow> 'a proc_state_scheme \<Rightarrow> 'a proc_state_scheme outcome" where
  "ustore32 va v s = ustore_bytes va (bytes_at (store32 (\<lambda>_. 0) 0 v) 0 4) s"

section \<open>Copying to another address space\<close>

text \<open>
  \<^verbatim>\<open>uva2ka\<close> does not test the pointer that \<^verbatim>\<open>walkpgdir\<close> returns: when there is no page table for the
  address it reads the word at user address 0 of the running process.
\<close>

definition uva2ka :: "u32 \<Rightarrow> u32 \<Rightarrow> 'a proc_state_scheme \<Rightarrow> (u32 \<times> 'a proc_state_scheme) outcome" where
  "uva2ka pgdir uva s =
     bindO (walkpgdir pgdir uva False s) (\<lambda>(pte, s).
     bindO (if pte = 0 then uload32 0 s else Ret (load32 (mem s) pte, s)) (\<lambda>(e, s).
       if e AND PTE_P = 0 then Ret (0, s)
       else if e AND PTE_U = 0 then Ret (0, s)
       else Ret (P2V (PTE_ADDR e), s)))"

primrec write_bytes :: "u32 \<Rightarrow> u8 list \<Rightarrow> mem \<Rightarrow> mem" where
  "write_bytes a [] m = m"
| "write_bytes a (b # bs) m = write_bytes (a + 1) bs (m(a := b))"

lemma page_rest_pos: "0 < unat (PGSIZE - (va - PGROUNDDOWN va))"
proof -
  have "unat (PGROUNDDOWN va) = unat va div 4096 * 4096" by (rule unat_PGROUNDDOWN)
  moreover have "unat va div 4096 * 4096 \<le> unat va" by simp
  ultimately have "unat (va - PGROUNDDOWN va) = unat va mod 4096"
    by (simp add: unat_sub_if' minus_mult_div_eq_mod [symmetric] mult.commute)
  then show ?thesis by (simp add: unat_sub_if' word_le_nat_alt)
qed

text \<open>The source is the list of bytes still to copy: \<^verbatim>\<open>len\<close> is its length.\<close>

function copyout :: "u32 \<Rightarrow> u32 \<Rightarrow> u8 list \<Rightarrow> 'a proc_state_scheme \<Rightarrow> (int \<times> 'a proc_state_scheme) outcome" where
  "copyout pgdir va buf s =
     (if buf = [] then Ret (0, s)
      else
        let va0 = PGROUNDDOWN va in
        bindO (uva2ka pgdir va0 s) (\<lambda>(pa0, s).
          if pa0 = 0 then Ret (- 1, s)
          else
            let n = min (unat (PGSIZE - (va - va0))) (length buf);
                s = s\<lparr>mem := write_bytes (pa0 + (va - va0)) (take n buf) (mem s)\<rparr>
            in copyout pgdir (va0 + PGSIZE) (drop n buf) s))"
  by pat_completeness auto

termination
  by (relation "measure (\<lambda>(_, _, buf, _). length buf)")
    (use page_rest_pos in \<open>auto simp: min_def\<close>)

section \<open>Page tables as maps\<close>

text \<open>Entry \<open>i\<close> of the table page \<open>p\<close>, and what a store and a cleared page do to the entries.\<close>

definition page_aligned :: "u32 \<Rightarrow> bool" where "page_aligned p \<longleftrightarrow> unat p mod 4096 = 0"

abbreviation (input) entry :: "mem \<Rightarrow> u32 \<Rightarrow> u32 \<Rightarrow> u32" where "entry m p i \<equiv> load32 m (p + 4 * i)"

abbreviation (input) present :: "u32 \<Rightarrow> bool" where "present e \<equiv> e AND PTE_P \<noteq> 0"

abbreviation (input) table_of :: "u32 \<Rightarrow> u32" where "table_of e \<equiv> P2V (PTE_ADDR e)"

lemma page_aligned_P2V: "page_aligned a \<Longrightarrow> page_aligned (P2V a)"
proof -
  assume "page_aligned a"
  then have "4096 dvd unat a" by (simp add: page_aligned_def mod_eq_0_iff_dvd)
  moreover have "(4096 :: nat) dvd 2147483648" by simp
  ultimately have "4096 dvd unat a + 2147483648" by (rule dvd_add)
  then have "4096 dvd (unat a + 2147483648) mod 4294967296" by (rule dvd_mod) simp
  then show ?thesis
    by (simp add: page_aligned_def P2V_def unat_word_ariths mod_eq_0_iff_dvd)
qed

lemma page_aligned_table [simp]: "page_aligned (table_of e)"
  by (intro page_aligned_P2V) (simp add: page_aligned_def unat_PTE_ADDR)

lemma slot_offset: "i < 1024 \<Longrightarrow> unat (4 * i :: u32) = 4 * unat i"
  by (simp add: unat_word_ariths word_less_nat_alt)

lemma slot_unat:
  assumes "page_aligned p" and "i < 1024"
  shows "unat (p + 4 * i) = unat p + 4 * unat i"
  using page_unat_add [of p "4 * i"] assms slot_offset [OF assms(2)]
  by (simp add: page_aligned_def word_less_nat_alt)

lemma slot_aligned: "page_aligned p \<Longrightarrow> i < 1024 \<Longrightarrow> unat (p + 4 * i) mod 4 = 0"
  using mod_mod_cancel [of 4 4096 "unat p"] by (simp add: slot_unat page_aligned_def mod_eq_0_iff_dvd)

lemma slot_eq_iff:
  assumes "page_aligned p" and "page_aligned q" and "i < 1024" and "j < 1024"
  shows "p + 4 * i = q + 4 * j \<longleftrightarrow> p = q \<and> i = j"
proof
  assume "p + 4 * i = q + 4 * j"
  then have e: "unat p + 4 * unat i = unat q + 4 * unat j" using assms by (metis slot_unat)
  have ij: "unat i < 1024" "unat j < 1024" using assms by (simp_all add: word_less_nat_alt)
  obtain a b where ab: "unat p = 4096 * a" "unat q = 4096 * b"
    using assms(1,2) by (auto simp: page_aligned_def mod_eq_0_iff_dvd elim!: dvdE)
  then have "a = b" using e ij by linarith
  then have "unat p = unat q \<and> unat i = unat j" using e ab by simp
  then show "p = q \<and> i = j" by (simp add: word_unat_eq_iff)
qed simp

lemma entry_store:
  assumes "page_aligned p" and "page_aligned q" and "i < 1024" and "j < 1024"
  shows "entry (store32 m (p + 4 * i) v) q j = (if p = q \<and> i = j then v else entry m q j)"
  using slot_eq_iff [OF assms] slot_aligned assms
  by (auto intro: load32_store32_other)

lemma in_page_iff:
  assumes "page_aligned p" and "page_aligned q" and "c < 4096"
  shows "q + c - p < 4096 \<longleftrightarrow> q = p"
  using page_disjoint [of q p c] assms by (auto simp: page_aligned_def)

lemma slot_byte_small: "i < 1024 \<Longrightarrow> c < 4 \<Longrightarrow> 4 * i + c < (4096 :: u32)"
  by (simp add: word_less_nat_alt unat_word_ariths)

lemma entry_outside:
  assumes "same_outside p m m'" and "page_aligned p" and "page_aligned q" and "p \<noteq> q" and "j < 1024"
  shows "entry m' q j = entry m q j"
proof -
  have "m' (q + 4 * j + c) = m (q + 4 * j + c)" if "c < 4" for c
    using assms(1) in_page_iff [OF assms(2,3) slot_byte_small [OF assms(5) that]] assms(4)
    by (simp add: same_outside_def add.assoc)
  from this [of 0] this [of 1] this [of 2] this [of 3] show ?thesis
    by (intro load32_cong) simp_all
qed

lemma memset_same_outside: "same_outside p m (memset p c PGSIZE m)"
  by (simp add: same_outside_def memset_apply)

lemma entry_cleared:
  assumes "page_aligned p" and "j < 1024"
  shows "entry (memset p 0 PGSIZE m) p j = 0"
proof -
  have "memset p 0 PGSIZE m (p + 4 * j + c) = 0" if "c < 4" for c
    using in_page_iff [OF assms(1,1) slot_byte_small [OF assms(2) that]]
    by (simp add: memset_apply add.assoc)
  from this [of 0] this [of 1] this [of 2] this [of 3] show ?thesis by (simp add: load32_def)
qed

lemma store_same_outside:
  assumes "page_aligned p" and "i < 1024"
  shows "same_outside p m (store32 m (p + 4 * i) v)"
proof -
  have "a \<noteq> p + 4 * i + c" if "\<not> a - p < 4096" "c < 4" for a c
    using in_page_iff [OF assms(1,1) slot_byte_small [OF assms(2) that(2)]] that(1) by (auto simp: add.assoc)
  from this [of _ 0] this [of _ 1] this [of _ 2] this [of _ 3] show ?thesis
    by (simp add: same_outside_def store32_other)
qed

text \<open>
  The map a page table denotes: the entry the hardware finds for an address. In a well-formed page table
  the table pages are pages of their own, none of them free.
\<close>

definition pt_lookup :: "mem \<Rightarrow> u32 \<Rightarrow> u32 \<Rightarrow> u32 option" where
  "pt_lookup m pgdir va =
     (let pde = load32 m (pgdir + 4 * PDX va) in
      if pde AND PTE_P = 0 then None
      else
        let pte = load32 m (table_of pde + 4 * PTX va) in
        if pte AND PTE_P = 0 then None else Some pte)"

definition pt_ok :: "mem \<Rightarrow> u32 \<Rightarrow> u32 set \<Rightarrow> bool" where
  "pt_ok m pgdir fs \<longleftrightarrow> page_aligned pgdir \<and> pgdir \<notin> fs \<and>
     (\<forall>i<1024. present (entry m pgdir i) \<longrightarrow>
        table_of (entry m pgdir i) \<notin> {0, pgdir} \<union> fs) \<and>
     (\<forall>i<1024. \<forall>j<1024. present (entry m pgdir i) \<longrightarrow> present (entry m pgdir j) \<longrightarrow>
        table_of (entry m pgdir i) = table_of (entry m pgdir j) \<longrightarrow> i = j)"

lemma PDX_less [simp]: "PDX va < 1024"
  using u32_bound [of va] by (simp add: word_less_nat_alt unat_PDX)

lemma PTX_less [simp]: "PTX va < 1024"
  by (simp add: word_less_nat_alt unat_PTX)

lemma same_page_iff:
  "PDX x = PDX y \<and> PTX x = PTX y \<longleftrightarrow> unat x div 4096 = unat y div 4096"
proof -
  have s: "unat x div 4096 div 1024 = unat x div 4194304" for x :: u32 by (simp add: div_mult2_eq)
  have "unat x div 4096 = unat y div 4096 \<longleftrightarrow>
      unat x div 4096 div 1024 = unat y div 4096 div 1024 \<and> unat x div 4096 mod 1024 = unat y div 4096 mod 1024"
    by (metis div_mult_mod_eq)
  then show ?thesis unfolding s by (simp add: word_unat_eq_iff unat_PDX unat_PTX)
qed

text \<open>Storing an entry in a page-table page changes the map at that page only.\<close>

lemma pt_store_entry:
  fixes e :: u32
  assumes "pt_ok m pgdir fs" and "present (entry m pgdir (PDX va))"
  defines "m' \<equiv> store32 m (table_of (entry m pgdir (PDX va)) + 4 * PTX va) e"
  shows "pt_ok m' pgdir fs"
    and "pt_lookup m' pgdir x = (if unat x div 4096 = unat va div 4096
      then (if present e then Some e else None) else pt_lookup m pgdir x)"
    and "same_outside (table_of (entry m pgdir (PDX va))) m m'"
proof -
  let ?t = "table_of (entry m pgdir (PDX va))"
  have al: "page_aligned pgdir" and ne: "?t \<noteq> pgdir" using assms(1,2) by (auto simp: pt_ok_def)
  show out: "same_outside ?t m m'" unfolding m'_def by (rule store_same_outside) simp_all
  have dir: "entry m' pgdir i = entry m pgdir i" if "i < 1024" for i
    by (rule entry_outside [OF out _ al ne that]) simp
  then show "pt_ok m' pgdir fs" using assms(1) by (simp add: pt_ok_def)
  have pte: "entry m' (table_of (entry m pgdir (PDX x))) (PTX x) =
      (if ?t = table_of (entry m pgdir (PDX x)) \<and> PTX va = PTX x then e
       else entry m (table_of (entry m pgdir (PDX x))) (PTX x))"
    unfolding m'_def by (intro entry_store) simp_all
  have inj: "?t = table_of (entry m pgdir (PDX x)) \<longleftrightarrow> PDX x = PDX va" if "present (entry m pgdir (PDX x))"
    using assms(1,2) that unfolding pt_ok_def by (metis PDX_less)
  show "pt_lookup m' pgdir x = (if unat x div 4096 = unat va div 4096
      then (if present e then Some e else None) else pt_lookup m pgdir x)"
    using pte inj assms(2) same_page_iff [of x va] dir [of "PDX x"] unfolding pt_lookup_def Let_def by auto
qed

text \<open>Adding an empty page-table page does not change the map.\<close>

lemma pt_add_table:
  assumes "pt_ok m pgdir (insert p fs)" and "\<not> present (entry m pgdir (PDX va))"
    and "page_aligned p" and "p \<notin> insert 0 fs" and "present e" and "table_of e = p"
  defines "m' \<equiv> store32 (memset p 0 PGSIZE m) (pgdir + 4 * PDX va) e"
  shows "pt_ok m' pgdir fs" and "pt_lookup m' pgdir x = pt_lookup m pgdir x"
    and "entry m' pgdir (PDX va) = e" and "\<not> (a - p < PGSIZE) \<Longrightarrow> \<not> (a - pgdir < PGSIZE) \<Longrightarrow> m' a = m a"
proof -
  have al: "page_aligned pgdir" and ne: "p \<noteq> pgdir" using assms(1) by (auto simp: pt_ok_def)
  have dir: "entry m' pgdir i = (if i = PDX va then e else entry m pgdir i)" if "i < 1024" for i
    using entry_store [OF al al _ that, of "PDX va" "memset p 0 PGSIZE m" e]
      entry_outside [OF memset_same_outside assms(3) al ne that] by (auto simp: m'_def)
  then show "entry m' pgdir (PDX va) = e" by simp
  have tab: "entry m' q j = (if q = p then 0 else entry m q j)" if "page_aligned q" "q \<noteq> pgdir" "j < 1024" for q j
    using entry_store [OF al that(1) _ that(3), of "PDX va" "memset p 0 PGSIZE m" e] that ne
      entry_outside [OF memset_same_outside assms(3) that(1) _ that(3)] entry_cleared [OF assms(3) that(3)]
    by (auto simp: m'_def)
  have new: "table_of (entry m pgdir i) \<noteq> p \<and> table_of (entry m pgdir i) \<noteq> pgdir"
    if "present (entry m pgdir i)" "i < 1024" for i
    using assms(1) that by (auto simp: pt_ok_def)
  show "pt_lookup m' pgdir x = pt_lookup m pgdir x"
    using dir [of "PDX x"] tab [of "table_of (entry m' pgdir (PDX x))" "PTX x"] new [of "PDX x"] assms(2,5,6) ne
    by (auto simp: pt_lookup_def Let_def)
  show "pt_ok m' pgdir fs"
    using assms(1,4,5,6) new ne by (auto simp: pt_ok_def dir split: if_splits) blast
  show "m' a = m a" if "\<not> (a - p < PGSIZE)" "\<not> (a - pgdir < PGSIZE)"
    using store_same_outside [OF al PDX_less, of "memset p 0 PGSIZE m" va e] memset_same_outside [of p m 0] that
    by (simp add: same_outside_def m'_def)
qed

text \<open>
  Both writes stay inside the pages of the page table, so the free list is as it was.
\<close>

lemma kmem_ok_write:
  assumes "kmem_ok s ps" and "\<And>p c. p \<in> set ps \<Longrightarrow> c < 4 \<Longrightarrow> m (p + c) = mem s (p + c)"
  shows "kmem_ok (s\<lparr>mem := m\<rparr>) ps"
proof -
  have "freelist_at m a ps = freelist_at (mem s) a ps" for a
    using assms(2)
  proof (induction ps arbitrary: a)
    case (Cons x xs)
    have "load32 m x = load32 (mem s) x"
      using Cons.prems [of x 0] Cons.prems [of x 1] Cons.prems [of x 2] Cons.prems [of x 3]
      by (intro load32_cong) simp_all
    then show ?case using Cons by auto
  qed simp
  then show ?thesis
    using assms(1) cpu_ok_cong [of "s\<lparr>mem := m\<rparr>" s] by (simp add: kmem_ok_def kpage_ok_def lock_free_def)
qed

lemma kmem_ok_aligned: "kmem_ok s ps \<Longrightarrow> p \<in> set ps \<Longrightarrow> page_aligned p"
  using kpage_ok_bounds(3) [of s p] by (auto simp: kmem_ok_def page_aligned_def)

lemma kmem_ok_write_outside:
  assumes "kmem_ok s ps" and "same_outside t (mem s) m" and "page_aligned t" and "t \<notin> set ps"
  shows "kmem_ok (s\<lparr>mem := m\<rparr>) ps"
proof (rule kmem_ok_write [OF assms(1)])
  fix p c :: u32
  assume p: "p \<in> set ps" and "c < 4"
  then have "\<not> p + c - t < 4096"
    using in_page_iff [OF assms(3) kmem_ok_aligned [OF assms(1) p], of c] assms(4) by (auto simp: word_less_nat_alt)
  then show "m (p + c) = mem s (p + c)" using assms(2) by (simp add: same_outside_def)
qed

text \<open>A physical address with flags: the address part and the flags can be read back.\<close>

lemma PTE_ADDR_flags:
  assumes "page_aligned a" and "f < 4096"
  shows "PTE_ADDR (a OR f) = a"
proof -
  have a: "a AND NOT (mask 12) = a"
    using and_not_mask_div [of a 12] assms(1)
    by (simp add: word_unat_eq_iff page_aligned_def) (metis add.right_neutral div_mult_mod_eq)
  have "f AND mask 12 = f"
    using and_mask_mod [of f 12] assms(2) by (simp add: word_unat_eq_iff word_less_nat_alt)
  then have "f AND NOT (mask 12) = 0"
    by (metis and.assoc and.right_neutral bit.conj_cancel_right bit.conj_zero_right)
  then show ?thesis using a by (simp add: PTE_ADDR_def mask12 bit.conj_disj_distrib2)
qed

lemma present_flags: "present (a OR b OR PTE_P)"
proof
  assume "(a OR b OR 1) AND 1 = 0"
  moreover have "bit ((a OR b OR 1) AND 1) 0" by (simp add: bit_and_iff bit_or_iff bit_1_iff)
  ultimately show False by simp
qed

text \<open>
  Walking with allocation: either there is no free page for the table, or the answer is the slot of the
  address in a page table that denotes the same map.
\<close>

lemma kalloc_front:
  assumes "kmem_ok s (p # ps)"
  shows "\<exists>fl. kalloc s = Ret (p, s\<lparr>kmem_freelist := fl\<rparr>) \<and> kmem_ok (s\<lparr>kmem_freelist := fl\<rparr>) ps"
proof -
  have "returns (kalloc s) (\<lambda>(r, s'). r = p \<and> kmem_ok s' ps)"
    using kpages.alloc_page [OF assms] by (rule returns_mono) auto
  moreover have "cpu_ok s" "lock_free KmemLock s" using assms by (simp_all add: kmem_ok_def)
  ultimately show ?thesis using kalloc_eq [of s] by (auto simp: returns_iff)
qed

lemma slot_nonzero: "page_aligned p \<Longrightarrow> p \<noteq> 0 \<Longrightarrow> p + 4 * PTX va \<noteq> 0"
  using slot_unat [OF _ PTX_less, of p va] by (auto simp: word_unat_eq_iff)

lemma kmem_ok_new_table:
  assumes "kmem_ok s qs" and "page_aligned p" and "page_aligned pgdir" and "p \<notin> set qs" and "pgdir \<notin> set qs"
    and "\<And>a. \<not> (a - p < PGSIZE) \<Longrightarrow> \<not> (a - pgdir < PGSIZE) \<Longrightarrow> m a = mem s a"
  shows "kmem_ok (s\<lparr>mem := m\<rparr>) qs"
proof (rule kmem_ok_write [OF assms(1)])
  fix q c :: u32
  assume q: "q \<in> set qs" and "c < 4"
  then have c: "c < 4096" by (simp add: word_less_nat_alt)
  have "q \<noteq> p" "q \<noteq> pgdir" using q assms(4,5) by auto
  then have "\<not> q + c - p < 4096" "\<not> q + c - pgdir < 4096"
    using in_page_iff [OF assms(2) kmem_ok_aligned [OF assms(1) q] c]
      in_page_iff [OF assms(3) kmem_ok_aligned [OF assms(1) q] c] by auto
  then show "m (q + c) = mem s (q + c)" by (rule assms(6))
qed

lemma walkpgdir_alloc:
  assumes "kmem_ok s ps" and "pt_ok (mem s) pgdir (set ps)"
  shows "returns (walkpgdir pgdir va True s) (\<lambda>(pte, s').
    pte = 0 \<and> ps = [] \<and> s' = s \<or>
    pte \<noteq> 0 \<and> present (entry (mem s') pgdir (PDX va)) \<and>
    pte = table_of (entry (mem s') pgdir (PDX va)) + 4 * PTX va \<and>
    (\<exists>n. kmem_ok s' (drop n ps) \<and> pt_ok (mem s') pgdir (set (drop n ps))) \<and>
    (\<forall>x. pt_lookup (mem s') pgdir x = pt_lookup (mem s) pgdir x) \<and>
    kmem_state.more s' = kmem_state.more s)"
proof (cases "present (entry (mem s) pgdir (PDX va))")
  case True
  then have "table_of (entry (mem s) pgdir (PDX va)) \<noteq> 0" using assms(2) by (auto simp: pt_ok_def)
  then show ?thesis using True assms slot_nonzero
    by (auto simp: walkpgdir_def Let_def intro: exI [of _ 0])
next
  case False
  show ?thesis
  proof (cases ps)
    case Nil
    then show ?thesis using False kpages.alloc_none [of s] assms(1) by (simp add: walkpgdir_def)
  next
    case (Cons p qs)
    obtain fl where fl: "kalloc s = Ret (p, s\<lparr>kmem_freelist := fl\<rparr>)" "kmem_ok (s\<lparr>kmem_freelist := fl\<rparr>) qs"
      using kalloc_front [of s p qs] assms(1) Cons by auto
    have p: "page_aligned p" "p \<noteq> 0" "p \<notin> set qs"
      using kmem_ok_aligned [OF assms(1), of p] kpages.free_pages_ok [OF assms(1), of p] assms(1) Cons
      by (auto simp: kmem_ok_def)
    have pv: "page_aligned (V2P p)"
    proof -
      have "V2P p = P2V p" by (simp add: V2P_def P2V_def)
      then show ?thesis using page_aligned_P2V [OF p(1)] by simp
    qed
    let ?e = "V2P p OR PTE_P OR PTE_W OR PTE_U"
    have e: "present ?e" "table_of ?e = p"
      using present_flags [of "V2P p" "PTE_W OR PTE_U"] PTE_ADDR_flags [OF pv, of 7] by (simp_all add: P2V_def V2P_def)
    have ok: "pt_ok (mem s) pgdir (insert p (set qs))" using assms(2) Cons by simp
    then have d: "page_aligned pgdir" "pgdir \<notin> set qs" by (simp_all add: pt_ok_def)
    let ?m = "store32 (memset p 0 PGSIZE (mem s)) (pgdir + 4 * PDX va) ?e"
    note new = pt_add_table [OF ok False p(1) _ e]
    have w: "walkpgdir pgdir va True s = Ret (p + 4 * PTX va, s\<lparr>kmem_freelist := fl, mem := ?m\<rparr>)"
      using False fl(1) p(2) by (simp add: walkpgdir_def Let_def)
    have "kmem_ok (s\<lparr>kmem_freelist := fl, mem := ?m\<rparr>) qs"
      using new(4) p d by (intro kmem_ok_new_table [OF fl(2) p(1) d(1) p(3) d(2)]) simp
    then show ?thesis
      using w new(1-3) p Cons e slot_nonzero [OF p(1,2)] by (auto intro: exI [of _ 1])
  qed
qed

section \<open>Mapping a range of pages\<close>

text \<open>The outcome of mapping \<open>n\<close> pages from page \<open>k\<close>, as a relation between the maps.\<close>

definition mapped :: "nat \<Rightarrow> nat \<Rightarrow> u32 \<Rightarrow> u32 \<Rightarrow> (u32 \<Rightarrow> u32 option) \<Rightarrow> u32 \<Rightarrow> u32 option" where
  "mapped k n pa perm f x =
     (if k \<le> unat x div 4096 \<and> unat x div 4096 < k + n
      then Some ((pa + PGSIZE * of_nat (unat x div 4096 - k)) OR perm OR PTE_P) else f x)"

lemma mapped_0 [simp]: "mapped k 0 pa perm f = f"
  by (auto simp: mapped_def fun_eq_iff)

lemma mapped_Suc:
  assumes "\<And>x. g x = (if unat x div 4096 = k then Some (pa OR perm OR PTE_P) else f x)"
  shows "mapped (Suc k) n (pa + PGSIZE) perm g x = mapped k (Suc n) pa perm f x"
proof -
  have "Suc k \<le> y \<Longrightarrow> PGSIZE + PGSIZE * of_nat (y - Suc k) = PGSIZE * (of_nat (y - k) :: u32)" for y
  proof -
    assume "Suc k \<le> y"
    then have "y - k = Suc (y - Suc k)" by simp
    then show ?thesis by (simp only: of_nat_Suc) (simp add: algebra_simps)
  qed
  then show ?thesis using assms [of x] by (auto simp: mapped_def add.assoc)
qed

lemma walkpgdir_then_store:
  assumes "kmem_ok s ps" and "pt_ok (mem s) pgdir (set ps)" and "pt_lookup (mem s) pgdir a = None" and "present e"
  obtains (full) "walkpgdir pgdir a True s = Ret (0, s)" "ps = []"
  | (slot) pte t k where "walkpgdir pgdir a True s = Ret (pte, t)" "pte \<noteq> 0" "load32 (mem t) pte AND PTE_P = 0"
      "kmem_ok (t\<lparr>mem := store32 (mem t) pte e\<rparr>) (drop k ps)"
      "pt_ok (store32 (mem t) pte e) pgdir (set (drop k ps))" "kmem_state.more t = kmem_state.more s"
      "\<And>x. pt_lookup (store32 (mem t) pte e) pgdir x =
        (if unat x div 4096 = unat a div 4096 then Some e else pt_lookup (mem s) pgdir x)"
proof -
  have "returns (walkpgdir pgdir a True s) (\<lambda>(pte, s').
    pte = 0 \<and> ps = [] \<and> s' = s \<or>
    pte \<noteq> 0 \<and> present (entry (mem s') pgdir (PDX a)) \<and>
    pte = table_of (entry (mem s') pgdir (PDX a)) + 4 * PTX a \<and>
    (\<exists>n. kmem_ok s' (drop n ps) \<and> pt_ok (mem s') pgdir (set (drop n ps))) \<and>
    (\<forall>x. pt_lookup (mem s') pgdir x = pt_lookup (mem s) pgdir x) \<and>
    kmem_state.more s' = kmem_state.more s)"
    by (rule walkpgdir_alloc [OF assms(1,2)])
  then obtain pte t where w: "walkpgdir pgdir a True s = Ret (pte, t)" and
    c: "pte = 0 \<and> ps = [] \<and> t = s \<or>
    pte \<noteq> 0 \<and> present (entry (mem t) pgdir (PDX a)) \<and>
    pte = table_of (entry (mem t) pgdir (PDX a)) + 4 * PTX a \<and>
    (\<exists>n. kmem_ok t (drop n ps) \<and> pt_ok (mem t) pgdir (set (drop n ps))) \<and>
    (\<forall>x. pt_lookup (mem t) pgdir x = pt_lookup (mem s) pgdir x) \<and>
    kmem_state.more t = kmem_state.more s"
    by (auto elim!: returnsE)
  from c show thesis
  proof (elim disjE conjE exE)
    assume "pte = 0" "ps = []" "t = s"
    then show thesis using w full by simp
  next
    fix n
    let ?t = "table_of (entry (mem t) pgdir (PDX a))"
    assume p: "pte \<noteq> 0" "present (entry (mem t) pgdir (PDX a))" "pte = ?t + 4 * PTX a"
      and ok: "kmem_ok t (drop n ps)" "pt_ok (mem t) pgdir (set (drop n ps))"
      and same: "\<forall>x. pt_lookup (mem t) pgdir x = pt_lookup (mem s) pgdir x" "kmem_state.more t = kmem_state.more s"
    have tn: "?t \<notin> set (drop n ps)" using ok(2) p(2) unfolding pt_ok_def by (metis PDX_less Un_iff)
    note st = pt_store_entry [OF ok(2) p(2), of e, folded p(3)]
    show thesis
    proof (rule slot [OF w p(1)])
      show "load32 (mem t) pte AND PTE_P = 0"
        using same(1) [rule_format, of a] assms(3) p(2,3) by (simp add: pt_lookup_def Let_def split: if_splits)
      show "kmem_ok (t\<lparr>mem := store32 (mem t) pte e\<rparr>) (drop n ps)"
        using tn by (intro kmem_ok_write_outside [OF ok(1) st(3)]) simp_all
      show "pt_ok (store32 (mem t) pte e) pgdir (set (drop n ps))" by (rule st(1))
      show "kmem_state.more t = kmem_state.more s" by (rule same(2))
      show "pt_lookup (store32 (mem t) pte e) pgdir x =
        (if unat x div 4096 = unat a div 4096 then Some e else pt_lookup (mem s) pgdir x)" for x
        using st(2) [of x] assms(4) same(1) by simp
    qed
  qed
qed

lemma mappages_loop_maps:
  assumes "kmem_ok s ps" and "pt_ok (mem s) pgdir (set ps)" and "page_aligned a"
    and "unat a + 4096 * Suc n \<le> 4294967296" and "last_a = a + 4096 * of_nat n"
    and "\<And>x. unat a div 4096 \<le> unat x div 4096 \<Longrightarrow> unat x div 4096 \<le> unat a div 4096 + n \<Longrightarrow>
      pt_lookup (mem s) pgdir x = None"
  shows "returns (mappages_loop (Suc n) pgdir a last_a pa perm s) (\<lambda>(r, s'). \<exists>k.
    kmem_ok s' (drop k ps) \<and> pt_ok (mem s') pgdir (set (drop k ps)) \<and> kmem_state.more s' = kmem_state.more s \<and>
    (r = 0 \<and> pt_lookup (mem s') pgdir = mapped (unat a div 4096) (Suc n) pa perm (pt_lookup (mem s) pgdir) \<or>
     r = - 1 \<and> drop k ps = [] \<and> (\<exists>j\<le>n. pt_lookup (mem s') pgdir =
       mapped (unat a div 4096) j pa perm (pt_lookup (mem s) pgdir))))"
  using assms
proof (induction n arbitrary: s ps a pa)
  case (0 s ps a pa)
  let ?e = "pa OR perm OR PTE_P"
  have none: "pt_lookup (mem s) pgdir a = None" using "0.prems"(6) by simp
  from "0.prems"(1,2) none present_flags show ?case
  proof (cases rule: walkpgdir_then_store [of s ps pgdir a ?e])
    case full
    then show ?thesis using "0.prems"(1,2) by (auto intro!: exI [of _ 0])
  next
    case (slot pte t k)
    have "pt_lookup (store32 (mem t) pte ?e) pgdir x = mapped (unat a div 4096) 1 pa perm (pt_lookup (mem s) pgdir) x" for x
      using slot(7) [of x] by (auto simp: mapped_def)
    then show ?thesis using slot "0.prems"(5) by (auto simp: Let_def intro!: exI [of _ k])
  qed
next
  case (Suc n s ps a pa)
  let ?e = "pa OR perm OR PTE_P"
  have none: "pt_lookup (mem s) pgdir a = None" using Suc.prems(6) by simp
  from Suc.prems(1,2) none present_flags show ?case
  proof (cases rule: walkpgdir_then_store [of s ps pgdir a ?e])
    case full
    then show ?thesis using Suc.prems(1,2) by (auto intro!: exI [of _ 0])
  next
    case (slot pte t k)
    let ?s = "t\<lparr>mem := store32 (mem t) pte ?e\<rparr>"
    have a1: "unat (a + PGSIZE) = unat a + 4096" using Suc.prems(4) by (simp add: unat_word_ariths)
    then have dv: "unat (a + PGSIZE) div 4096 = Suc (unat a div 4096)" by simp
    have "last_a \<noteq> a"
    proof
      assume "last_a = a"
      then have "4096 * (of_nat (Suc n) :: u32) = 0" using Suc.prems(5) by simp
      then have "(of_nat (4096 * Suc n) :: u32) = 0" by (simp only: of_nat_mult) simp
      then have "unat (of_nat (4096 * Suc n) :: u32) = 0" by simp
      moreover have "unat (of_nat N :: u32) = N" if "N < 4294967296" for N
        using that by (simp add: unat_of_nat)
      moreover have "4096 * Suc n < 4294967296" using Suc.prems(4) by simp
      ultimately have "4096 * Suc n = 0" by metis
      then show False by simp
    qed
    then have loop: "mappages_loop (Suc (Suc n)) pgdir a last_a pa perm s =
        mappages_loop (Suc n) pgdir (a + PGSIZE) last_a (pa + PGSIZE) perm ?s"
      using slot(1-3) by (simp add: Let_def)
    have ih: "returns (mappages_loop (Suc n) pgdir (a + PGSIZE) last_a (pa + PGSIZE) perm ?s) (\<lambda>(r, s'). \<exists>j.
      kmem_ok s' (drop j (drop k ps)) \<and> pt_ok (mem s') pgdir (set (drop j (drop k ps))) \<and>
      kmem_state.more s' = kmem_state.more ?s \<and>
      (r = 0 \<and> pt_lookup (mem s') pgdir =
         mapped (unat (a + PGSIZE) div 4096) (Suc n) (pa + PGSIZE) perm (pt_lookup (mem ?s) pgdir) \<or>
       r = - 1 \<and> drop j (drop k ps) = [] \<and> (\<exists>i\<le>n. pt_lookup (mem s') pgdir =
         mapped (unat (a + PGSIZE) div 4096) i (pa + PGSIZE) perm (pt_lookup (mem ?s) pgdir))))"
    proof (rule Suc.IH [OF slot(4)])
      show "pt_ok (mem ?s) pgdir (set (drop k ps))" using slot(5) by simp
      show "page_aligned (a + PGSIZE)" using a1 Suc.prems(3) by (simp add: page_aligned_def)
      show "unat (a + PGSIZE) + 4096 * Suc n \<le> 4294967296" using a1 Suc.prems(4) by simp
      show "last_a = a + PGSIZE + 4096 * of_nat n" using Suc.prems(5) by (simp add: algebra_simps)
      show "pt_lookup (mem ?s) pgdir x = None"
        if "unat (a + PGSIZE) div 4096 \<le> unat x div 4096" "unat x div 4096 \<le> unat (a + PGSIZE) div 4096 + n" for x
        using that Suc.prems(6) [of x] slot(7) [of x] unfolding dv by simp
    qed
    have eq: "mapped (unat (a + PGSIZE) div 4096) i (pa + PGSIZE) perm (pt_lookup (mem ?s) pgdir) =
        mapped (unat a div 4096) (Suc i) pa perm (pt_lookup (mem s) pgdir)" for i
      unfolding dv by (rule ext, rule mapped_Suc) (use slot(7) in simp)
    show ?thesis unfolding loop
    proof (rule returns_mono [OF ih [unfolded eq drop_drop]], clarify)
      fix r s' j
      assume ok: "kmem_ok s' (drop (j + k) ps)" "pt_ok (mem s') pgdir (set (drop (j + k) ps))"
          "kmem_state.more s' = kmem_state.more ?s"
        and "r = 0 \<and> pt_lookup (mem s') pgdir =
            mapped (unat a div 4096) (Suc (Suc n)) pa perm (pt_lookup (mem s) pgdir) \<or>
          r = - 1 \<and> drop (j + k) ps = [] \<and> (\<exists>i\<le>n. pt_lookup (mem s') pgdir =
            mapped (unat a div 4096) (Suc i) pa perm (pt_lookup (mem s) pgdir))"
      then have "r = 0 \<and> pt_lookup (mem s') pgdir =
            mapped (unat a div 4096) (Suc (Suc n)) pa perm (pt_lookup (mem s) pgdir) \<or>
          r = - 1 \<and> drop (j + k) ps = [] \<and> (\<exists>i\<le>Suc n. pt_lookup (mem s') pgdir =
            mapped (unat a div 4096) i pa perm (pt_lookup (mem s) pgdir))"
        by (metis Suc_le_mono)
      with ok slot(6) show "\<exists>k. kmem_ok s' (drop k ps) \<and> pt_ok (mem s') pgdir (set (drop k ps)) \<and>
          kmem_state.more s' = kmem_state.more s \<and>
          (r = 0 \<and> pt_lookup (mem s') pgdir =
             mapped (unat a div 4096) (Suc (Suc n)) pa perm (pt_lookup (mem s) pgdir) \<or>
           r = - 1 \<and> drop k ps = [] \<and> (\<exists>j\<le>Suc n. pt_lookup (mem s') pgdir =
             mapped (unat a div 4096) j pa perm (pt_lookup (mem s) pgdir)))"
        by (intro exI [of _ "j + k"]) simp
    qed
  qed
qed

lemma PGROUNDDOWN_aligned [simp]: "page_aligned (PGROUNDDOWN a)"
  by (simp add: page_aligned_def unat_PGROUNDDOWN)

lemma PGROUNDDOWN_page [simp]: "unat (PGROUNDDOWN a) div 4096 = unat a div 4096"
  by (simp add: unat_PGROUNDDOWN)

lemma range_last:
  fixes va sz :: u32
  assumes "0 < sz" and "unat va + unat sz \<le> 4294967296"
  shows "unat (va + sz - 1) = unat va + unat sz - 1"
proof -
  have "unat (va + (sz - 1)) = unat va + unat (sz - 1)"
    using assms by (subst unat_add_lem [THEN iffD1]) (simp_all add: unat_sub_if' word_less_nat_alt word_le_nat_alt)
  moreover have "unat (sz - 1) = unat sz - 1"
    using assms(1) by (simp add: unat_sub_if' word_le_nat_alt word_less_nat_alt)
  moreover have "va + (sz - 1) = va + sz - 1" by simp
  ultimately show ?thesis using assms(1) by (simp add: word_less_nat_alt)
qed

lemma page_span:
  fixes va sz :: u32
  assumes "0 < sz" and "unat va + unat sz \<le> 4294967296"
  defines "n \<equiv> (unat va + unat sz - 1) div 4096 - unat va div 4096"
  shows "PGROUNDDOWN (va + sz - 1) = PGROUNDDOWN va + 4096 * of_nat n"
    and "unat (PGROUNDDOWN (va + sz - 1) - PGROUNDDOWN va) div 4096 = n"
    and "unat (PGROUNDDOWN va) + 4096 * Suc n \<le> 4294967296"
    and "unat va div 4096 + n = (unat va + unat sz - 1) div 4096"
proof -
  let ?l = "(unat va + unat sz - 1) div 4096" and ?k = "unat va div 4096"
  have pos: "0 < unat sz" using assms(1) by (simp add: word_less_nat_alt)
  then have kl: "?k \<le> ?l" by (intro div_le_mono) simp
  then show sum: "?k + n = ?l" by (simp add: n_def)
  have "?l < 1048576" using assms(2) pos by (intro less_mult_imp_div_less) simp
  then show b: "unat (PGROUNDDOWN va) + 4096 * Suc n \<le> 4294967296"
    using sum by (simp add: unat_PGROUNDDOWN)
  have u: "unat (PGROUNDDOWN (va + sz - 1)) = unat (PGROUNDDOWN va) + 4096 * n"
    using sum by (simp add: unat_PGROUNDDOWN range_last [OF assms(1,2)] flip: sum)
  then have "PGROUNDDOWN (va + sz - 1) = of_nat (unat (PGROUNDDOWN va) + 4096 * n)"
    by (simp flip: u)
  then show e: "PGROUNDDOWN (va + sz - 1) = PGROUNDDOWN va + 4096 * of_nat n" by simp
  have "PGROUNDDOWN va \<le> PGROUNDDOWN (va + sz - 1)" using u by (simp add: word_le_nat_alt)
  then have "unat (PGROUNDDOWN (va + sz - 1) - PGROUNDDOWN va) = 4096 * n"
    using u by (simp add: unat_sub_if' word_le_nat_alt)
  then show "unat (PGROUNDDOWN (va + sz - 1) - PGROUNDDOWN va) div 4096 = n" by simp
qed

text \<open>
  C3: \<^verbatim>\<open>mappages\<close> implements an update of the address map. On a well-formed page table whose range is not
  yet mapped it returns, keeps the table well-formed and the allocator's free list intact, and when it
  answers 0 every page of the range maps to its physical page with the permissions given and every other
  address maps as before; it answers -1 only when no free page is left, having mapped a prefix of the range.
\<close>

theorem mappages_updates_map:
  assumes "kmem_ok s ps" and "pt_ok (mem s) pgdir (set ps)" and "0 < sz" and "unat va + unat sz \<le> 4294967296"
    and "\<And>x. unat va div 4096 \<le> unat x div 4096 \<Longrightarrow> unat x div 4096 \<le> (unat va + unat sz - 1) div 4096 \<Longrightarrow>
      pt_lookup (mem s) pgdir x = None"
  shows "returns (mappages pgdir va sz pa perm s) (\<lambda>(r, s'). \<exists>k.
    kmem_ok s' (drop k ps) \<and> pt_ok (mem s') pgdir (set (drop k ps)) \<and> kmem_state.more s' = kmem_state.more s \<and>
    (r = 0 \<and> pt_lookup (mem s') pgdir = mapped (unat va div 4096)
       (Suc ((unat va + unat sz - 1) div 4096 - unat va div 4096)) pa perm (pt_lookup (mem s) pgdir) \<or>
     r = - 1 \<and> drop k ps = [] \<and> (\<exists>j\<le>(unat va + unat sz - 1) div 4096 - unat va div 4096.
       pt_lookup (mem s') pgdir = mapped (unat va div 4096) j pa perm (pt_lookup (mem s) pgdir))))"
proof -
  note span = page_span [OF assms(3,4)]
  have "pt_lookup (mem s) pgdir x = None" if "unat (PGROUNDDOWN va) div 4096 \<le> unat x div 4096"
    "unat x div 4096 \<le> unat (PGROUNDDOWN va) div 4096 + ((unat va + unat sz - 1) div 4096 - unat va div 4096)" for x
    using that assms(5) [of x] span(4) by simp
  from mappages_loop_maps [OF assms(1,2) PGROUNDDOWN_aligned span(3,1) this, of pa perm]
  show ?thesis unfolding mappages_def Let_def span(2) PGROUNDDOWN_page by simp
qed

text \<open>A page directory at \<^verbatim>\<open>0x80500000\<close> and one free page, in cleared memory.\<close>

definition one_page :: kmem_state where
  "one_page = boot_kmem\<lparr>kmem_freelist := 0x80400000\<rparr>"

lemma load32_zero [simp]: "load32 (\<lambda>_. 0) a = 0"
  by (simp add: load32_def)

lemma one_page_ok:
  "kmem_ok one_page [0x80400000]" "pt_ok (mem one_page) 0x80500000 (set [0x80400000])"
  "pt_lookup (mem one_page) 0x80500000 x = None"
  by (simp_all add: one_page_def boot_kmem_def boot_cpu_def kmem_ok_def kpage_ok_def V2P_def cpu_ok_def lock_free_def
      find_index_def readeflags_IF_def pt_ok_def page_aligned_def pt_lookup_def)

theorem mappages_updates_map_witness:
  "returns (mappages 0x80500000 0x3000 0x1800 0x9000 PTE_W one_page) (\<lambda>(r, s').
    r = 0 \<and> pt_lookup (mem s') 0x80500000 0x4123 = Some 0xA003 \<or> r = - 1)"
proof -
  have "returns (mappages 0x80500000 0x3000 0x1800 0x9000 PTE_W one_page) (\<lambda>(r, s'). \<exists>k.
    kmem_ok s' (drop k [0x80400000]) \<and> pt_ok (mem s') 0x80500000 (set (drop k [0x80400000])) \<and>
    kmem_state.more s' = kmem_state.more one_page \<and>
    (r = 0 \<and> pt_lookup (mem s') 0x80500000 = mapped (unat (0x3000 :: u32) div 4096)
       (Suc ((unat (0x3000 :: u32) + unat (0x1800 :: u32) - 1) div 4096 - unat (0x3000 :: u32) div 4096)) 0x9000 PTE_W
       (pt_lookup (mem one_page) 0x80500000) \<or>
     r = - 1 \<and> drop k [0x80400000 :: u32] = [] \<and> (\<exists>j\<le>(unat (0x3000 :: u32) + unat (0x1800 :: u32) - 1) div 4096 - unat (0x3000 :: u32) div 4096.
       pt_lookup (mem s') 0x80500000 = mapped (unat (0x3000 :: u32) div 4096) j 0x9000 PTE_W (pt_lookup (mem one_page) 0x80500000))))"
    by (rule mappages_updates_map [OF one_page_ok(1,2)]) (simp_all add: one_page_ok(3))
  then show ?thesis by (rule returns_mono) (auto simp: mapped_def)
qed

section \<open>The bounds on the loops\<close>

lemma next_page:
  assumes "page_aligned a" and "a < (lim :: u32)" and "lim \<le> KERNBASE"
  shows "unat (a + PGSIZE) = unat a + 4096" and "page_aligned (a + PGSIZE)"
proof -
  have "unat a < 2147483648" using assms(2,3) by (simp add: word_less_nat_alt word_le_nat_alt)
  then show u: "unat (a + PGSIZE) = unat a + 4096" by (simp add: unat_word_ariths)
  then show "page_aligned (a + PGSIZE)" using assms(1) by (simp add: page_aligned_def)
qed

lemma next_table:
  assumes "page_aligned a" and "a < (lim :: u32)" and "lim \<le> KERNBASE"
  shows "unat a + 4096 \<le> unat (PGADDR (PDX a + 1) 0 0)" and "page_aligned (PGADDR (PDX a + 1) 0 0)"
proof -
  have a: "unat a < 2147483648" using assms(2,3) by (simp add: word_less_nat_alt word_le_nat_alt)
  then have d: "unat a div 4194304 < 512" by (intro less_mult_imp_div_less) simp
  have u: "unat (PGADDR (PDX a + 1) 0 0) = (unat a div 4194304 + 1) * 4194304"
  proof -
    have "unat (PDX a + 1) = unat a div 4194304 + 1" using d by (simp add: unat_word_ariths unat_PDX)
    moreover have "(q + 1) * 4194304 < 4294967296" if "q < 512" for q :: nat using that by (simp add: add_mult_distrib)
    note this [OF d]
    moreover have "unat (4194304 * (PDX a + 1)) = 4194304 * unat (PDX a + 1) mod 4294967296"
      by (subst unat_word_ariths) simp
    ultimately show ?thesis by (simp add: PGADDR_def push_bit_eq_mult mult.commute)
  qed
  obtain k where k: "unat a = 4096 * k" using assms(1) by (auto simp: page_aligned_def mod_eq_0_iff_dvd elim!: dvdE)
  have "k + 1 \<le> (k div 1024 + 1) * 1024"
    using dividend_less_times_div [of 1024 k] by (simp add: add_mult_distrib mult.commute [of 1024])
  moreover have "unat a div 4194304 = k div 1024" using k by (simp add: div_mult2_eq [of "4096 * k" 4096 1024, simplified])
  ultimately show "unat a + 4096 \<le> unat (PGADDR (PDX a + 1) 0 0)" unfolding u using k by simp
  have "(unat a div 4194304 + 1) * 4194304 = 4096 * ((unat a div 4194304 + 1) * 1024)" by simp
  then show "page_aligned (PGADDR (PDX a + 1) 0 0)" unfolding page_aligned_def u by (metis mod_mult_self1_is_0)
qed

lemma deallocuvm_loop_more:
  fixes s :: "'a kmem_state_scheme"
  assumes "page_aligned a" and "oldsz \<le> KERNBASE" and "unat oldsz \<le> unat a + 4096 * n"
  shows "deallocuvm_loop (n + m) pgdir a oldsz s = deallocuvm_loop n pgdir a oldsz s"
  using assms
proof (induction n arbitrary: a s)
  case 0
  then show ?case by (cases m) (auto simp: word_less_nat_alt)
next
  case (Suc n)
  show ?case
  proof (cases "a < oldsz")
    case True
    note p = next_page [OF Suc.prems(1) True Suc.prems(2)] and t = next_table [OF Suc.prems(1) True Suc.prems(2)]
    have e1: "deallocuvm_loop (n + m) pgdir (a + PGSIZE) oldsz =
        (deallocuvm_loop n pgdir (a + PGSIZE) oldsz :: 'a kmem_state_scheme \<Rightarrow> _)"
      by (rule ext, rule Suc.IH) (use Suc.prems p in simp_all)
    have e2: "deallocuvm_loop (n + m) pgdir (PGADDR (PDX a + 1) 0 0) oldsz =
        (deallocuvm_loop n pgdir (PGADDR (PDX a + 1) 0 0) oldsz :: 'a kmem_state_scheme \<Rightarrow> _)"
      by (rule ext, rule Suc.IH) (use Suc.prems t in simp_all)
    show ?thesis unfolding add_Suc deallocuvm_loop.simps diff_add_cancel e1 e2 ..
  qed simp
qed

lemma allocuvm_loop_more:
  fixes s :: "'a kmem_state_scheme"
  assumes "page_aligned a" and "newsz \<le> KERNBASE" and "unat newsz \<le> unat a + 4096 * n"
  shows "allocuvm_loop (n + m) pgdir a oldsz newsz s = allocuvm_loop n pgdir a oldsz newsz s"
  using assms
proof (induction n arbitrary: a s)
  case 0
  then show ?case by (cases m) (auto simp: word_less_nat_alt)
next
  case (Suc n)
  show ?case
  proof (cases "a < newsz")
    case True
    note p = next_page [OF Suc.prems(1) True Suc.prems(2)]
    have e1: "allocuvm_loop (n + m) pgdir (a + PGSIZE) oldsz newsz =
        (allocuvm_loop n pgdir (a + PGSIZE) oldsz newsz :: 'a kmem_state_scheme \<Rightarrow> _)"
      by (rule ext, rule Suc.IH) (use Suc.prems p in simp_all)
    show ?thesis unfolding add_Suc allocuvm_loop.simps e1 ..
  qed simp
qed

lemma copyuvm_loop_more:
  fixes s :: "'a kmem_state_scheme"
  assumes "page_aligned i" and "sz \<le> KERNBASE" and "unat sz \<le> unat i + 4096 * n"
  shows "copyuvm_loop (n + m) pgdir d i sz s = copyuvm_loop n pgdir d i sz s"
  using assms
proof (induction n arbitrary: i s)
  case 0
  then show ?case by (cases m) (auto simp: word_less_nat_alt)
next
  case (Suc n)
  show ?case
  proof (cases "i < sz")
    case True
    note p = next_page [OF Suc.prems(1) True Suc.prems(2)]
    have e1: "copyuvm_loop (n + m) pgdir d (i + PGSIZE) sz =
        (copyuvm_loop n pgdir d (i + PGSIZE) sz :: 'a kmem_state_scheme \<Rightarrow> _)"
      by (rule ext, rule Suc.IH) (use Suc.prems p in simp_all)
    show ?thesis unfolding add_Suc copyuvm_loop.simps e1 ..
  qed simp
qed

section \<open>User memory\<close>

text \<open>Bytes of user memory that are mapped: the access needs no page fault.\<close>

definition user_bytes :: "u32 \<Rightarrow> u8 list \<Rightarrow> 'a proc_state_scheme \<Rightarrow> bool" where
  "user_bytes va bs s \<longleftrightarrow> (\<forall>i<length bs. \<exists>a. translate False (va + of_nat i) s = Some a \<and> mem s a = bs ! i)"

lemma user_bytes_Cons: "user_bytes va (b # bs) s \<longleftrightarrow> (\<exists>a. translate False va s = Some a \<and> mem s a = b) \<and> user_bytes (va + 1) bs s"
  by (auto simp: user_bytes_def All_less_Suc2 add.assoc)

lemma uload8_mapped: "translate False va s = Some a \<Longrightarrow> uload8 va s = Ret (mem s a, s)"
proof -
  assume "translate False va s = Some a"
  then have "uaccess n False va s = Ret (a, s)" for n by (cases n) simp_all
  then show ?thesis by (simp add: uload8_def)
qed

lemma uload_bytes_mapped: "user_bytes va bs s \<Longrightarrow> uload_bytes (length bs) va s = Ret (bs, s)"
  by (induction bs arbitrary: va) (auto simp: user_bytes_Cons uload8_mapped)

lemma ustore8_mapped: "translate True va s = Some a \<Longrightarrow> ustore8 va b s = Ret (s\<lparr>mem := (mem s)(a := b)\<rparr>)"
proof -
  assume "translate True va s = Some a"
  then have "uaccess n True va s = Ret (a, s)" for n by (cases n) simp_all
  then show ?thesis by (simp add: ustore8_def)
qed

lemma translate_cong: "cr3 t = cr3 s \<Longrightarrow> mem t = mem s \<Longrightarrow> translate wr va t = translate wr va s"
  by (simp add: translate_def Let_def)

text \<open>
  \<open>user_buffer va n pa s\<close>: the \<open>n\<close> bytes from \<open>va\<close> on are mapped for writing to the pairwise different physical
  bytes \<open>pa 0, pa 1, \<dots>\<close>, and stores to these bytes do not change that: the buffer does not lie in the page table.
\<close>

definition user_buffer :: "u32 \<Rightarrow> nat \<Rightarrow> (nat \<Rightarrow> u32) \<Rightarrow> 'a proc_state_scheme \<Rightarrow> bool" where
  "user_buffer va n pa s \<longleftrightarrow> inj_on pa {..<n} \<and>
     (\<forall>t :: 'a proc_state_scheme. cr3 t = cr3 s \<longrightarrow> (\<forall>a. a \<notin> pa ` {..<n} \<longrightarrow> mem t a = mem s a) \<longrightarrow>
        (\<forall>i<n. translate True (va + of_nat i) t = Some (pa i)))"

end
