(* ===== verification/Fs.thy ===== *)
theory Fs
  imports Log Vm
begin

text \<open>
  The file system, \<^verbatim>\<open>fs.c\<close>: block allocation, inodes and their cache, file contents, directories and path
  names. A pointer to an in-memory inode is its index in \<^verbatim>\<open>icache\<close>; path names and directory names are
  lists of bytes without the terminating 0. \<^verbatim>\<open>readi\<close> and \<^verbatim>\<open>writei\<close> move bytes between a buffer and the
  address their caller passes, which may be in user space: the store and the load are arguments. The
  device table \<^verbatim>\<open>devsw\<close> is an argument too, since the console driver is defined on top of this theory.
  A thread that would have to wait for a sleep lock is \<open>Blocked\<close>.
\<close>

section \<open>On-disk format\<close>

abbreviation (input) ROOTINO :: u32 where "ROOTINO \<equiv> 1"
abbreviation (input) NDIRECT :: nat where "NDIRECT \<equiv> 12"
abbreviation (input) NINDIRECT :: nat where "NINDIRECT \<equiv> 128"
abbreviation (input) MAXFILE :: nat where "MAXFILE \<equiv> 140"
abbreviation (input) IPB :: nat where "IPB \<equiv> 8"
abbreviation (input) BPB :: nat where "BPB \<equiv> 4096"
abbreviation (input) DIRSIZ :: nat where "DIRSIZ \<equiv> 14"
abbreviation (input) T_DIR :: u16 where "T_DIR \<equiv> 1"
abbreviation (input) T_FILE :: u16 where "T_FILE \<equiv> 2"
abbreviation (input) T_DEV :: u16 where "T_DEV \<equiv> 3"

record dinode =
  d_type :: u16
  d_major :: u16
  d_minor :: u16
  d_nlink :: u16
  d_size :: u32
  d_addrs :: "u32 list"

text \<open>The \<open>k\<close>-th \<^verbatim>\<open>struct dinode\<close> (64 bytes) of a block.\<close>

definition get_dinode :: "u8 list \<Rightarrow> nat \<Rightarrow> dinode" where
  "get_dinode d k = \<lparr>d_type = get16 d (64 * k), d_major = get16 d (64 * k + 2), d_minor = get16 d (64 * k + 4),
     d_nlink = get16 d (64 * k + 6), d_size = get32 d (64 * k + 8),
     d_addrs = map (\<lambda>i. get32 d (64 * k + 12 + 4 * i)) [0..<NDIRECT + 1]\<rparr>"

definition put_dinode :: "u8 list \<Rightarrow> nat \<Rightarrow> dinode \<Rightarrow> u8 list" where
  "put_dinode d k x =
     (let d = put16 d (64 * k) (d_type x); d = put16 d (64 * k + 2) (d_major x);
          d = put16 d (64 * k + 4) (d_minor x); d = put16 d (64 * k + 6) (d_nlink x);
          d = put32 d (64 * k + 8) (d_size x)
      in fold (\<lambda>i d. put32 d (64 * k + 12 + 4 * i) (d_addrs x ! i)) [0..<NDIRECT + 1] d)"

definition IBLOCK :: "u32 \<Rightarrow> superblock \<Rightarrow> u32" where
  "IBLOCK i sb = i div 8 + sb_inodestart sb"

definition BBLOCK :: "u32 \<Rightarrow> superblock \<Rightarrow> u32" where
  "BBLOCK b sb = b div 4096 + sb_bmapstart sb"

record dirent =
  de_inum :: u16
  de_name :: "u8 list"

definition dirent_of :: "u8 list \<Rightarrow> dirent" where
  "dirent_of bs = \<lparr>de_inum = get16 bs 0, de_name = get_bytes bs 2 DIRSIZ\<rparr>"

definition bytes_of_dirent :: "dirent \<Rightarrow> u8 list" where
  "bytes_of_dirent de = put16 [0, 0] 0 (de_inum de) @ de_name de"

section \<open>State\<close>

record inode =
  i_dev :: u32
  i_inum :: u32
  i_ref :: int
  i_valid :: bool
  i_type :: u16
  i_major :: u16
  i_minor :: u16
  i_nlink :: u16
  i_size :: u32
  i_addrs :: "u32 list"

record fs_state = log_state +
  sb :: superblock
  inodes :: "inode list"

definition upd_inode :: "nat \<Rightarrow> (inode \<Rightarrow> inode) \<Rightarrow> 'a fs_state_scheme \<Rightarrow> 'a fs_state_scheme" where
  "upd_inode i f s = s\<lparr>inodes := (inodes s)[i := f (inodes s ! i)]\<rparr>"

text \<open>The \<open>bread\<close>, modify, \<open>log_write\<close>, \<open>brelse\<close> idiom on the data of a buffer.\<close>

definition upd_data :: "nat \<Rightarrow> (u8 list \<Rightarrow> u8 list) \<Rightarrow> 'a bio_state_scheme \<Rightarrow> 'a bio_state_scheme" where
  "upd_data b f s = upd_buf b (\<lambda>x. x\<lparr>b_data := f (b_data x)\<rparr>) s"

section \<open>Blocks\<close>

definition bzero :: "u32 \<Rightarrow> u32 \<Rightarrow> 'a log_state_scheme \<Rightarrow> 'a log_state_scheme outcome" where
  "bzero dev bno s =
     bindO (bread dev bno s) (\<lambda>(bp, s).
     bindO (log_write bp (upd_data bp (\<lambda>_. replicate BSIZE 0) s)) (\<lambda>s.
     brelse bp s))"

definition bit_mask :: "nat \<Rightarrow> u8" where "bit_mask bi = push_bit (bi mod 8) 1"

primrec balloc_loop :: "nat \<Rightarrow> u32 \<Rightarrow> nat \<Rightarrow> 'a fs_state_scheme \<Rightarrow> (u32 \<times> 'a fs_state_scheme) outcome" where
  "balloc_loop 0 dev b s = Panic ''balloc: out of blocks''"
| "balloc_loop (Suc n) dev b s =
     (if b < unat (sb_size (sb s)) then
        bindO (bread dev (BBLOCK (of_nat b) (sb s)) s) (\<lambda>(bp, s).
          case find_index (\<lambda>bi. b_data (bufs s ! bp) ! (bi div 8) AND bit_mask bi = 0)
                 [0..<min BPB (unat (sb_size (sb s)) - b)] of
            Some bi \<Rightarrow>
              bindO (log_write bp (upd_data bp (\<lambda>d. d[bi div 8 := d ! (bi div 8) OR bit_mask bi]) s)) (\<lambda>s.
              bindO (brelse bp s) (\<lambda>s.
              bindO (bzero dev (of_nat (b + bi)) s) (\<lambda>s. Ret (of_nat (b + bi), s))))
          | None \<Rightarrow> bindO (brelse bp s) (\<lambda>s. balloc_loop n dev (b + BPB) s))
      else Panic ''balloc: out of blocks'')"

definition balloc :: "u32 \<Rightarrow> 'a fs_state_scheme \<Rightarrow> (u32 \<times> 'a fs_state_scheme) outcome" where
  "balloc dev s = balloc_loop (unat (sb_size (sb s)) div BPB + 1) dev 0 s"

definition bfree :: "u32 \<Rightarrow> u32 \<Rightarrow> 'a fs_state_scheme \<Rightarrow> 'a fs_state_scheme outcome" where
  "bfree dev b s =
     bindO (bread dev (BBLOCK b (sb s)) s) (\<lambda>(bp, s).
       let bi = unat b mod BPB; m = bit_mask bi in
       if b_data (bufs s ! bp) ! (bi div 8) AND m = 0 then Panic ''freeing free block''
       else
         bindO (log_write bp (upd_data bp (\<lambda>d. d[bi div 8 := d ! (bi div 8) AND NOT m]) s)) (\<lambda>s.
         brelse bp s))"

section \<open>Inodes\<close>

definition iinit :: "u32 \<Rightarrow> 'a fs_state_scheme \<Rightarrow> 'a fs_state_scheme outcome" where
  "iinit dev s =
     (let s = initlock IcacheLock ''icache'' s;
          s = fold (\<lambda>i s. initsleeplock (InodeLk i) ''inode'' s) [0..<NINODE] s in
      bindO (readsb dev s) (\<lambda>(x, s). Ret (s\<lparr>sb := x\<rparr>)))"

definition iget :: "u32 \<Rightarrow> u32 \<Rightarrow> 'a fs_state_scheme \<Rightarrow> (nat \<times> 'a fs_state_scheme) outcome" where
  "iget dev inum s =
     locked IcacheLock (\<lambda>s.
       case find_index (\<lambda>ip. i_ref ip > 0 \<and> i_dev ip = dev \<and> i_inum ip = inum) (inodes s) of
         Some ip \<Rightarrow> Ret (ip, upd_inode ip (\<lambda>x. x\<lparr>i_ref := i_ref x + 1\<rparr>) s)
       | None \<Rightarrow>
           (case find_index (\<lambda>ip. i_ref ip = 0) (inodes s) of
              None \<Rightarrow> Panic ''iget: no inodes''
            | Some ip \<Rightarrow> Ret (ip, upd_inode ip (\<lambda>x. x\<lparr>i_dev := dev, i_inum := inum, i_ref := 1,
                             i_valid := False\<rparr>) s))) s"

definition zero_dinode :: dinode where
  "zero_dinode = \<lparr>d_type = 0, d_major = 0, d_minor = 0, d_nlink = 0, d_size = 0,
     d_addrs = replicate (NDIRECT + 1) 0\<rparr>"

primrec ialloc_loop :: "nat \<Rightarrow> u32 \<Rightarrow> u16 \<Rightarrow> nat \<Rightarrow> 'a fs_state_scheme \<Rightarrow> (nat \<times> 'a fs_state_scheme) outcome" where
  "ialloc_loop 0 dev type inum s = Panic ''ialloc: no inodes''"
| "ialloc_loop (Suc n) dev type inum s =
     (if inum < unat (sb_ninodes (sb s)) then
        bindO (bread dev (IBLOCK (of_nat inum) (sb s)) s) (\<lambda>(bp, s).
          if d_type (get_dinode (b_data (bufs s ! bp)) (inum mod IPB)) = 0 then
            bindO (log_write bp
                (upd_data bp (\<lambda>d. put_dinode d (inum mod IPB) (zero_dinode\<lparr>d_type := type\<rparr>)) s)) (\<lambda>s.
            bindO (brelse bp s) (\<lambda>s. iget dev (of_nat inum) s))
          else bindO (brelse bp s) (\<lambda>s. ialloc_loop n dev type (inum + 1) s))
      else Panic ''ialloc: no inodes'')"

definition ialloc :: "u32 \<Rightarrow> u16 \<Rightarrow> 'a fs_state_scheme \<Rightarrow> (nat \<times> 'a fs_state_scheme) outcome" where
  "ialloc dev type s = ialloc_loop (unat (sb_ninodes (sb s))) dev type 1 s"

definition iupdate :: "nat \<Rightarrow> 'a fs_state_scheme \<Rightarrow> 'a fs_state_scheme outcome" where
  "iupdate ip s =
     (let x = inodes s ! ip in
      bindO (bread (i_dev x) (IBLOCK (i_inum x) (sb s)) s) (\<lambda>(bp, s).
      bindO (log_write bp (upd_data bp (\<lambda>d. put_dinode d (unat (i_inum x) mod IPB)
          \<lparr>d_type = i_type x, d_major = i_major x, d_minor = i_minor x, d_nlink = i_nlink x,
           d_size = i_size x, d_addrs = i_addrs x\<rparr>) s)) (\<lambda>s.
      brelse bp s)))"

definition idup :: "nat \<Rightarrow> 'a fs_state_scheme \<Rightarrow> (nat \<times> 'a fs_state_scheme) outcome" where
  "idup ip s = locked IcacheLock (\<lambda>s. Ret (ip, upd_inode ip (\<lambda>x. x\<lparr>i_ref := i_ref x + 1\<rparr>) s)) s"

definition ilock :: "nat option \<Rightarrow> 'a fs_state_scheme \<Rightarrow> 'a fs_state_scheme outcome" where
  "ilock pp s =
     (case pp of None \<Rightarrow> Panic ''ilock''
      | Some ip \<Rightarrow>
          if i_ref (inodes s ! ip) < 1 then Panic ''ilock''
          else
            bindO (acquiresleep [] (InodeLk ip) s) (\<lambda>s.
              if \<not> i_valid (inodes s ! ip) then
                let x = inodes s ! ip in
                bindO (bread (i_dev x) (IBLOCK (i_inum x) (sb s)) s) (\<lambda>(bp, s).
                  let d = get_dinode (b_data (bufs s ! bp)) (unat (i_inum x) mod IPB);
                      s = upd_inode ip (\<lambda>x. x\<lparr>i_type := d_type d, i_major := d_major d, i_minor := d_minor d,
                            i_nlink := d_nlink d, i_size := d_size d, i_addrs := d_addrs d\<rparr>) s in
                  bindO (brelse bp s) (\<lambda>s.
                    let s = upd_inode ip (\<lambda>x. x\<lparr>i_valid := True\<rparr>) s in
                    if i_type (inodes s ! ip) = 0 then Panic ''ilock: no type'' else Ret s))
              else Ret s))"

definition iunlock :: "nat option \<Rightarrow> 'a fs_state_scheme \<Rightarrow> 'a fs_state_scheme outcome" where
  "iunlock pp s =
     (case pp of None \<Rightarrow> Panic ''iunlock''
      | Some ip \<Rightarrow>
          bindO (holdingsleep (InodeLk ip) s) (\<lambda>(h, s).
            if \<not> h \<or> i_ref (inodes s ! ip) < 1 then Panic ''iunlock''
            else releasesleep (InodeLk ip) s))"

section \<open>Inode contents\<close>

definition bmap :: "nat \<Rightarrow> nat \<Rightarrow> 'a fs_state_scheme \<Rightarrow> (u32 \<times> 'a fs_state_scheme) outcome" where
  "bmap ip bn s =
     (let dev = i_dev (inodes s ! ip);
          alloc_at = (\<lambda>k s.
            let addr = i_addrs (inodes s ! ip) ! k in
            if addr = 0 then
              bindO (balloc dev s) (\<lambda>(addr, s).
                Ret (addr, upd_inode ip (\<lambda>x. x\<lparr>i_addrs := (i_addrs x)[k := addr]\<rparr>) s))
            else Ret (addr, s)) in
      if bn < NDIRECT then alloc_at bn s
      else
        let bn = bn - NDIRECT in
        if bn < NINDIRECT then
          bindO (alloc_at NDIRECT s) (\<lambda>(addr, s).
          bindO (bread dev addr s) (\<lambda>(bp, s).
            let addr = get32 (b_data (bufs s ! bp)) (4 * bn) in
            bindO (if addr = 0 then
                     bindO (balloc dev s) (\<lambda>(addr, s).
                     bindO (log_write bp (upd_data bp (\<lambda>d. put32 d (4 * bn) addr) s)) (\<lambda>s. Ret (addr, s)))
                   else Ret (addr, s)) (\<lambda>(addr, s).
            bindO (brelse bp s) (\<lambda>s. Ret (addr, s)))))
        else Panic ''bmap: out of range'')"

fun itrunc_direct :: "nat list \<Rightarrow> nat \<Rightarrow> 'a fs_state_scheme \<Rightarrow> 'a fs_state_scheme outcome" where
  "itrunc_direct [] ip s = Ret s"
| "itrunc_direct (i # is) ip s =
     (let x = inodes s ! ip in
      bindO (if i_addrs x ! i \<noteq> 0 then
               bindO (bfree (i_dev x) (i_addrs x ! i) s) (\<lambda>s.
                 Ret (upd_inode ip (\<lambda>x. x\<lparr>i_addrs := (i_addrs x)[i := 0]\<rparr>) s))
             else Ret s) (\<lambda>s.
      itrunc_direct is ip s))"

fun itrunc_indirect :: "nat list \<Rightarrow> u32 \<Rightarrow> nat \<Rightarrow> 'a fs_state_scheme \<Rightarrow> 'a fs_state_scheme outcome" where
  "itrunc_indirect [] dev bp s = Ret s"
| "itrunc_indirect (j # js) dev bp s =
     (let a = get32 (b_data (bufs s ! bp)) (4 * j) in
      bindO (if a \<noteq> 0 then bfree dev a s else Ret s) (\<lambda>s. itrunc_indirect js dev bp s))"

definition itrunc :: "nat \<Rightarrow> 'a fs_state_scheme \<Rightarrow> 'a fs_state_scheme outcome" where
  "itrunc ip s =
     bindO (itrunc_direct [0..<NDIRECT] ip s) (\<lambda>s.
       let x = inodes s ! ip; addr = i_addrs x ! NDIRECT in
       bindO (if addr \<noteq> 0 then
                bindO (bread (i_dev x) addr s) (\<lambda>(bp, s).
                bindO (itrunc_indirect [0..<NINDIRECT] (i_dev x) bp s) (\<lambda>s.
                bindO (brelse bp s) (\<lambda>s.
                bindO (bfree (i_dev x) addr s) (\<lambda>s.
                  Ret (upd_inode ip (\<lambda>x. x\<lparr>i_addrs := (i_addrs x)[NDIRECT := 0]\<rparr>) s)))))
              else Ret s) (\<lambda>s.
       iupdate ip (upd_inode ip (\<lambda>x. x\<lparr>i_size := 0\<rparr>) s)))"

definition iput :: "nat \<Rightarrow> 'a fs_state_scheme \<Rightarrow> 'a fs_state_scheme outcome" where
  "iput ip s =
     bindO (acquiresleep [] (InodeLk ip) s) (\<lambda>s.
     bindO (if i_valid (inodes s ! ip) \<and> i_nlink (inodes s ! ip) = 0 then
              bindO (locked IcacheLock (\<lambda>s. Ret (i_ref (inodes s ! ip), s)) s) (\<lambda>(r, s).
                if r = 1 then
                  bindO (itrunc ip s) (\<lambda>s.
                  bindO (iupdate ip (upd_inode ip (\<lambda>x. x\<lparr>i_type := 0\<rparr>) s)) (\<lambda>s.
                    Ret (upd_inode ip (\<lambda>x. x\<lparr>i_valid := False\<rparr>) s)))
                else Ret s)
            else Ret s) (\<lambda>s.
     bindO (releasesleep (InodeLk ip) s) (\<lambda>s.
     bindO (locked IcacheLock (\<lambda>s. Ret ((), upd_inode ip (\<lambda>x. x\<lparr>i_ref := i_ref x - 1\<rparr>) s)) s)
       (\<lambda>(_, s). Ret s))))"

definition iunlockput :: "nat \<Rightarrow> 'a fs_state_scheme \<Rightarrow> 'a fs_state_scheme outcome" where
  "iunlockput ip s = bindO (iunlock (Some ip) s) (\<lambda>s. iput ip s)"

section \<open>Reading and writing\<close>

text \<open>
  \<open>put k bs\<close> stores \<open>bs\<close> at \<^verbatim>\<open>dst + k\<close>, \<open>get k n\<close> loads \<open>n\<close> bytes from \<^verbatim>\<open>src + k\<close>. \<open>kput\<close> and \<open>kget\<close> are these for a
  C variable: the caller takes the bytes from the result, or supplies them. A read returns the status and
  the bytes it has stored.
\<close>

type_synonym 's sink = "nat \<Rightarrow> u8 list \<Rightarrow> 's \<Rightarrow> 's outcome"
type_synonym 's source = "nat \<Rightarrow> nat \<Rightarrow> 's \<Rightarrow> (u8 list \<times> 's) outcome"

definition uput :: "u32 \<Rightarrow> 'a proc_state_scheme sink" where
  "uput dst k bs s = ustore_bytes (dst + of_nat k) bs s"

definition uget :: "u32 \<Rightarrow> 'a proc_state_scheme source" where
  "uget src k n s = uload_bytes n (src + of_nat k) s"

definition kput :: "'s sink" where
  "kput k bs s = Ret s"

definition kget :: "u8 list \<Rightarrow> 's source" where
  "kget bs k n s = Ret (get_bytes bs k n, s)"

type_synonym 's devread = "int \<Rightarrow> (nat \<Rightarrow> 's sink \<Rightarrow> u32 \<Rightarrow> 's \<Rightarrow> ((int \<times> u8 list) \<times> 's) outcome) option"
type_synonym 's devwrite = "int \<Rightarrow> (nat \<Rightarrow> 's source \<Rightarrow> u32 \<Rightarrow> 's \<Rightarrow> (int \<times> 's) outcome) option"

definition stati :: "nat \<Rightarrow> u32 \<Rightarrow> 'a fs_state_scheme \<Rightarrow> 'a fs_state_scheme outcome" where
  "stati ip st s =
     (let x = inodes s ! ip in
      bindO (ustore32 (st + 4) (i_dev x) s) (\<lambda>s.
      bindO (ustore32 (st + 8) (i_inum x) s) (\<lambda>s.
      bindO (ustore_bytes st (put16 [0, 0] 0 (i_type x)) s) (\<lambda>s.
      bindO (ustore_bytes (st + 12) (put16 [0, 0] 0 (i_nlink x)) s) (\<lambda>s.
      ustore32 (st + 16) (i_size x) s)))))"

text \<open>The copying loops, with \<^verbatim>\<open>tot\<close>, \<^verbatim>\<open>off\<close> and \<^verbatim>\<open>n\<close> as natural numbers: the tests before the loop rule out a wrap-around.\<close>

function readi_loop :: "'a fs_state_scheme sink \<Rightarrow> nat \<Rightarrow> nat \<Rightarrow> nat \<Rightarrow> nat \<Rightarrow> 'a fs_state_scheme \<Rightarrow>
    (u8 list \<times> 'a fs_state_scheme) outcome" where
  "readi_loop put ip tot off n s =
     (if tot < n then
        bindO (bmap ip (off div BSIZE) s) (\<lambda>(addr, s).
        bindO (bread (i_dev (inodes s ! ip)) addr s) (\<lambda>(bp, s).
          let m = min (n - tot) (BSIZE - off mod BSIZE);
              bs = get_bytes (b_data (bufs s ! bp)) (off mod BSIZE) m in
          bindO (put tot bs s) (\<lambda>s.
          bindO (brelse bp s) (\<lambda>s.
          bindO (readi_loop put ip (tot + m) (off + m) n s) (\<lambda>(rest, s). Ret (bs @ rest, s))))))
      else Ret ([], s))"
  by pat_completeness auto
termination
  by (relation "measure (\<lambda>(_, _, tot, _, n, _). n - tot)") auto

definition readi :: "'a fs_state_scheme devread \<Rightarrow> 'a fs_state_scheme sink \<Rightarrow> nat \<Rightarrow> u32 \<Rightarrow> u32 \<Rightarrow>
    'a fs_state_scheme \<Rightarrow> ((int \<times> u8 list) \<times> 'a fs_state_scheme) outcome" where
  "readi devsw put ip off n s =
     (let x = inodes s ! ip in
      if i_type x = T_DEV then
        let major = sint (i_major x) in
        if major < 0 \<or> major \<ge> int NDEV then Ret ((- 1, []), s)
        else (case devsw major of None \<Rightarrow> Ret ((- 1, []), s)
              | Some rd \<Rightarrow> rd ip put n s)
      else if off > i_size x \<or> off + n < off then Ret ((- 1, []), s)
      else
        let n = (if off + n > i_size x then i_size x - off else n) in
        bindO (readi_loop put ip 0 (unat off) (unat n) s) (\<lambda>(bs, s). Ret ((sint n, bs), s)))"

function writei_loop :: "'a fs_state_scheme source \<Rightarrow> nat \<Rightarrow> nat \<Rightarrow> nat \<Rightarrow> nat \<Rightarrow> 'a fs_state_scheme \<Rightarrow>
    'a fs_state_scheme outcome" where
  "writei_loop get ip tot off n s =
     (if tot < n then
        bindO (bmap ip (off div BSIZE) s) (\<lambda>(addr, s).
        bindO (bread (i_dev (inodes s ! ip)) addr s) (\<lambda>(bp, s).
          let m = min (n - tot) (BSIZE - off mod BSIZE) in
          bindO (get tot m s) (\<lambda>(bs, s).
          bindO (log_write bp (upd_data bp (\<lambda>d. put_bytes d (off mod BSIZE) bs) s)) (\<lambda>s.
          bindO (brelse bp s) (\<lambda>s. writei_loop get ip (tot + m) (off + m) n s)))))
      else Ret s)"
  by pat_completeness auto
termination
  by (relation "measure (\<lambda>(_, _, tot, _, n, _). n - tot)") auto

definition writei :: "'a fs_state_scheme devwrite \<Rightarrow> 'a fs_state_scheme source \<Rightarrow> nat \<Rightarrow> u32 \<Rightarrow> u32 \<Rightarrow>
    'a fs_state_scheme \<Rightarrow> (int \<times> 'a fs_state_scheme) outcome" where
  "writei devsw get ip off n s =
     (let x = inodes s ! ip in
      if i_type x = T_DEV then
        let major = sint (i_major x) in
        if major < 0 \<or> major \<ge> int NDEV then Ret (- 1, s)
        else (case devsw major of None \<Rightarrow> Ret (- 1, s) | Some wr \<Rightarrow> wr ip get n s)
      else if off > i_size x \<or> off + n < off then Ret (- 1, s)
      else if unat (off + n) > MAXFILE * BSIZE then Ret (- 1, s)
      else
        bindO (writei_loop get ip 0 (unat off) (unat n) s) (\<lambda>s.
        bindO (if n > 0 \<and> off + n > i_size (inodes s ! ip)
               then iupdate ip (upd_inode ip (\<lambda>x. x\<lparr>i_size := off + n\<rparr>) s) else Ret s) (\<lambda>s.
        Ret (sint n, s))))"

section \<open>Directories\<close>

text \<open>\<^verbatim>\<open>strncmp\<close> on strings given as lists, whose end is the terminating 0.\<close>

definition head0 :: "u8 list \<Rightarrow> u8" where
  "head0 xs = (case xs of [] \<Rightarrow> 0 | x # _ \<Rightarrow> x)"

primrec strncmp_bytes :: "nat \<Rightarrow> u8 list \<Rightarrow> u8 list \<Rightarrow> int" where
  "strncmp_bytes 0 p q = 0"
| "strncmp_bytes (Suc n) p q =
     (if head0 p \<noteq> 0 \<and> head0 p = head0 q then strncmp_bytes n (tl p) (tl q)
      else uint (head0 p) - uint (head0 q))"

definition namecmp :: "u8 list \<Rightarrow> u8 list \<Rightarrow> int" where
  "namecmp s t = strncmp_bytes DIRSIZ s t"

definition no_dev :: "int \<Rightarrow> 'b option" where
  "no_dev major = None"

definition read_dirent :: "nat \<Rightarrow> nat \<Rightarrow> string \<Rightarrow> 'a fs_state_scheme \<Rightarrow> (dirent \<times> 'a fs_state_scheme) outcome" where
  "read_dirent dp off msg s =
     bindO (readi no_dev kput dp (of_nat off) 16 s) (\<lambda>((r, bs), s).
       if r \<noteq> 16 then Panic msg else Ret (dirent_of bs, s))"

primrec dirlookup_loop :: "nat \<Rightarrow> nat \<Rightarrow> u8 list \<Rightarrow> nat \<Rightarrow> 'a fs_state_scheme \<Rightarrow>
    ((nat \<times> nat) option \<times> 'a fs_state_scheme) outcome" where
  "dirlookup_loop 0 dp name off s = Ret (None, s)"
| "dirlookup_loop (Suc k) dp name off s =
     (if off < unat (i_size (inodes s ! dp)) then
        bindO (read_dirent dp off ''dirlookup read'' s) (\<lambda>(de, s).
          if de_inum de = 0 then dirlookup_loop k dp name (off + 16) s
          else if namecmp name (de_name de) = 0 then
            bindO (iget (i_dev (inodes s ! dp)) (ucast (de_inum de)) s) (\<lambda>(ip, s). Ret (Some (ip, off), s))
          else dirlookup_loop k dp name (off + 16) s)
      else Ret (None, s))"

text \<open>The result carries the offset that \<^verbatim>\<open>dirlookup\<close> stores at \<^verbatim>\<open>poff\<close>.\<close>

definition dirlookup :: "nat \<Rightarrow> u8 list \<Rightarrow> 'a fs_state_scheme \<Rightarrow> ((nat \<times> nat) option \<times> 'a fs_state_scheme) outcome" where
  "dirlookup dp name s =
     (if i_type (inodes s ! dp) \<noteq> T_DIR then Panic ''dirlookup not DIR''
      else dirlookup_loop (unat (i_size (inodes s ! dp)) div 16 + 1) dp name 0 s)"

primrec dirlink_loop :: "nat \<Rightarrow> nat \<Rightarrow> nat \<Rightarrow> 'a fs_state_scheme \<Rightarrow> (nat \<times> 'a fs_state_scheme) outcome" where
  "dirlink_loop 0 dp off s = Ret (off, s)"
| "dirlink_loop (Suc k) dp off s =
     (if off < unat (i_size (inodes s ! dp)) then
        bindO (read_dirent dp off ''dirlink read'' s) (\<lambda>(de, s).
          if de_inum de = 0 then Ret (off, s) else dirlink_loop k dp (off + 16) s)
      else Ret (off, s))"

text \<open>\<^verbatim>\<open>strncpy(de.name, name, DIRSIZ)\<close>: at most 14 bytes, padded with 0.\<close>

definition dir_name :: "u8 list \<Rightarrow> u8 list" where
  "dir_name name = take DIRSIZ (name @ replicate DIRSIZ 0)"

definition dirlink :: "nat \<Rightarrow> u8 list \<Rightarrow> u32 \<Rightarrow> 'a fs_state_scheme \<Rightarrow> (int \<times> 'a fs_state_scheme) outcome" where
  "dirlink dp name inum s =
     bindO (dirlookup dp name s) (\<lambda>(found, s).
       case found of
         Some (ip, _) \<Rightarrow> bindO (iput ip s) (\<lambda>s. Ret (- 1, s))
       | None \<Rightarrow>
           bindO (dirlink_loop (unat (i_size (inodes s ! dp)) div 16 + 1) dp 0 s) (\<lambda>(off, s).
           bindO (writei no_dev (kget (bytes_of_dirent \<lparr>de_inum = ucast inum, de_name = dir_name name\<rparr>))
                    dp (of_nat off) 16 s) (\<lambda>(r, s).
             if r \<noteq> 16 then Panic ''dirlink'' else Ret (0, s))))"

section \<open>Path names\<close>

abbreviation (input) slash :: u8 where "slash \<equiv> 47"

definition skipelem :: "u8 list \<Rightarrow> (u8 list \<times> u8 list) option" where
  "skipelem path =
     (let path = dropWhile (\<lambda>c. c = slash) path in
      if path = [] then None
      else Some (dropWhile (\<lambda>c. c = slash) (dropWhile (\<lambda>c. c \<noteq> slash) path),
                 take DIRSIZ (takeWhile (\<lambda>c. c \<noteq> slash) path)))"

lemma skipelem_shorter:
  assumes "skipelem path = Some (rest, name)"
  shows "length rest < length path"
proof -
  let ?p = "dropWhile (\<lambda>c. c = slash) path"
  have p: "?p \<noteq> []" and rest: "rest = dropWhile (\<lambda>c. c = slash) (dropWhile (\<lambda>c. c \<noteq> slash) ?p)"
    using assms by (auto simp: skipelem_def Let_def split: if_splits)
  obtain x xs where x: "?p = x # xs" using p by (cases ?p) auto
  then have "x \<noteq> slash" using hd_dropWhile [of "\<lambda>c. c = slash" path] p by simp
  then have "length rest \<le> length xs"
    using rest x length_dropWhile_le [of "\<lambda>c. c \<noteq> slash" xs]
      length_dropWhile_le [of "\<lambda>c. c = slash" "dropWhile (\<lambda>c. c \<noteq> slash) xs"] by simp
  then show ?thesis using x length_dropWhile_le [of "\<lambda>c. c = slash" path] by simp
qed

text \<open>The loop of \<^verbatim>\<open>namex\<close>; \<open>name\<close> is the contents of the caller's name buffer.\<close>

function namex_loop :: "u8 list \<Rightarrow> bool \<Rightarrow> u8 list \<Rightarrow> nat \<Rightarrow> 'a fs_state_scheme \<Rightarrow>
    ((nat option \<times> u8 list) \<times> 'a fs_state_scheme) outcome" where
  "namex_loop path nameiparent name ip s =
     (case skipelem path of
        None \<Rightarrow> if nameiparent then bindO (iput ip s) (\<lambda>s. Ret ((None, name), s)) else Ret ((Some ip, name), s)
      | Some (rest, name) \<Rightarrow>
          bindO (ilock (Some ip) s) (\<lambda>s.
            if i_type (inodes s ! ip) \<noteq> T_DIR then
              bindO (iunlockput ip s) (\<lambda>s. Ret ((None, name), s))
            else if nameiparent \<and> rest = [] then
              bindO (iunlock (Some ip) s) (\<lambda>s. Ret ((Some ip, name), s))
            else
              bindO (dirlookup ip name s) (\<lambda>(found, s).
                case found of
                  None \<Rightarrow> bindO (iunlockput ip s) (\<lambda>s. Ret ((None, name), s))
                | Some (nxt, _) \<Rightarrow>
                    bindO (iunlockput ip s) (\<lambda>s. namex_loop rest nameiparent name nxt s))))"
  by pat_completeness auto
termination
  by (relation "measure (\<lambda>(path, _, _, _, _). length path)") (auto dest: skipelem_shorter)

definition namex :: "u8 list \<Rightarrow> bool \<Rightarrow> 'a fs_state_scheme \<Rightarrow>
    ((nat option \<times> u8 list) \<times> 'a fs_state_scheme) outcome" where
  "namex path nameiparent s =
     bindO (if head0 path = slash then iget ROOTDEV ROOTINO s
            else bindO (curproc s) (\<lambda>(p, s).
              case p_cwd (procs s ! p) of None \<Rightarrow> Panic ''trap'' | Some cwd \<Rightarrow> idup cwd s)) (\<lambda>(ip, s).
     namex_loop path nameiparent [] ip s)"

definition namei :: "u8 list \<Rightarrow> 'a fs_state_scheme \<Rightarrow> (nat option \<times> 'a fs_state_scheme) outcome" where
  "namei path s = bindO (namex path False s) (\<lambda>((ip, _), s). Ret (ip, s))"

definition nameiparent :: "u8 list \<Rightarrow> 'a fs_state_scheme \<Rightarrow>
    ((nat option \<times> u8 list) \<times> 'a fs_state_scheme) outcome" where
  "nameiparent path s = namex path True s"

text \<open>The state at boot, for concrete runs.\<close>

definition boot_fs :: fs_state where
  "boot_fs = log_state.extend boot_log 
     \<lparr>sb = superblock_of (replicate BSIZE 0),
      inodes = replicate NINODE \<lparr>i_dev = 0, i_inum = 0, i_ref = 0, i_valid = False, i_type = 0, i_major = 0,
        i_minor = 0, i_nlink = 0, i_size = 0, i_addrs = replicate (NDIRECT + 1) 0\<rparr>\<rparr>"

lemma boot_fs_ok [simp]:
  "cpu_ok boot_fs" "lock_free l boot_fs" "me boot_fs = 0" "procs boot_fs = procs boot_proc"
  using boot_proc_ok(1) cpu_ok_cong [of boot_fs boot_proc]
  by (simp_all add: boot_fs_def boot_proc_def boot_kmem_def boot_cpu_def kmem_state.defs boot_sleep_def proc_state.defs boot_bio_def sleep_state.defs boot_log_def bio_state.defs log_state.defs cpu_ok_def lock_free_def me_def find_index_def readeflags_IF_def)

end
