(* ===== verification/Console.thy ===== *)
theory Console
  imports Fs
begin

text \<open>
  The console, \<^verbatim>\<open>console.c\<close>: formatted output, the CGA screen, line editing on the input ring, and the
  device functions \<^verbatim>\<open>consoleread\<close> and \<^verbatim>\<open>consolewrite\<close>; with the process listing of control-P (\<^verbatim>\<open>procdump\<close> of \<^verbatim>\<open>proc.c\<close>
  and \<^verbatim>\<open>getcallerpcs\<close> of \<^verbatim>\<open>spinlock.c\<close>) and \<^verbatim>\<open>uartputc\<close> of \<^verbatim>\<open>uart.c\<close>, which appends to the serial output. Waiting for the UART to become ready is left out, and so are the port writes that set the
  cursor: the cursor position is a field. Characters are bytes; \<^verbatim>\<open>BACKSPACE\<close> is outside their range, as in
  the source.
\<close>

section \<open>State\<close>

abbreviation (input) INPUT_BUF :: nat where "INPUT_BUF \<equiv> 128"

abbreviation (input) BACKSPACE :: int where "BACKSPACE \<equiv> 256"

record cons_state = fs_state +
  cons_locking :: bool
  panicked :: bool
  input_buf :: "u8 list"
  input_r :: u32
  input_w :: u32
  input_e :: u32
  crt_pos :: int
  crt :: "u16 list"
  uart :: bool
  uart_out :: "int list"

section \<open>Output\<close>

definition uartputc :: "int \<Rightarrow> 'a cons_state_scheme \<Rightarrow> 'a cons_state_scheme" where
  "uartputc c s = (if \<not> uart s then s else s\<lparr>uart_out := uart_out s @ [c]\<rparr>)"

text \<open>\<^verbatim>\<open>crt\<close> is the CGA text memory, one 16-bit cell for a character; 80 columns and 25 rows.\<close>

definition cga_cell :: "int \<Rightarrow> u16" where
  "cga_cell c = (of_int c AND 0xFF) OR 0x0700"

definition cgaputc :: "int \<Rightarrow> 'a cons_state_scheme \<Rightarrow> 'a cons_state_scheme outcome" where
  "cgaputc c s =
     (let pos = crt_pos s;
          (pos, cells) =
            (if c = 10 then (pos + (80 - pos mod 80), crt s)
             else if c = BACKSPACE then (if pos > 0 then pos - 1 else pos, crt s)
             else (pos + 1, (crt s)[nat pos := cga_cell c])) in
      if pos < 0 \<or> pos > 25 * 80 then Panic ''pos under/overflow''
      else
        let (pos, cells) =
              (if pos div 80 \<ge> 24
               then (pos - 80,
                     let m = take (23 * 80) (drop 80 cells) @ drop (23 * 80) cells in
                     take (nat (pos - 80)) m @ replicate (24 * 80 - nat (pos - 80)) 0 @ drop (24 * 80) m)
               else (pos, cells))
        in Ret (s\<lparr>crt_pos := pos, crt := cells[nat pos := cga_cell 32]\<rparr>))"

definition consputc :: "int \<Rightarrow> 'a cons_state_scheme \<Rightarrow> 'a cons_state_scheme outcome" where
  "consputc c s =
     (if panicked s then Blocked
      else
        let s = (if c = BACKSPACE then uartputc 8 (uartputc 32 (uartputc 8 s)) else uartputc c s)
        in cgaputc c s)"

primrec consputs :: "int list \<Rightarrow> 'a cons_state_scheme \<Rightarrow> 'a cons_state_scheme outcome" where
  "consputs [] s = Ret s"
| "consputs (c # cs) s = bindO (consputc c s) (\<lambda>s. consputs cs s)"

text \<open>
  The digits of \<open>x\<close> in base \<open>base\<close>, least significant first, as the \<^verbatim>\<open>do\<close> loop of \<^verbatim>\<open>printint\<close> stores them.
  The base is 10 or 16, so the loop ends.
\<close>

definition digit_char :: "nat \<Rightarrow> int" where
  "digit_char d = (if d < 10 then 48 + int d else 87 + int d)"

function digits :: "nat \<Rightarrow> nat \<Rightarrow> int list" where
  "digits base x =
     (if base < 2 then [] else digit_char (x mod base) #
        (if x div base \<noteq> 0 then digits base (x div base) else []))"
  by pat_completeness auto
termination
proof (relation "measure snd")
  fix base x :: nat
  assume "\<not> base < 2" and "x div base \<noteq> 0"
  then have "x div base < x" by (intro div_less_dividend) (auto intro: Nat.gr0I)
  then show "((base, x div base), (base, x)) \<in> measure snd" by simp
qed simp

declare digits.simps [simp del]

text \<open>
  The digits and the sign go to the array \<^verbatim>\<open>buf\<close> of 16 characters, and \<^verbatim>\<open>-xx\<close> overflows for the most negative integer.
\<close>

definition printint_chars :: "u32 \<Rightarrow> nat \<Rightarrow> bool \<Rightarrow> int list outcome" where
  "printint_chars xx base sign =
     (let neg = (sign \<and> sint xx < 0) in
      if neg \<and> sint xx = - 2147483648 then UB
      else
        let x = (if neg then - xx else xx);
            buf = digits base (unat x);
            buf = (if neg then buf @ [45] else buf)
        in if length buf > 16 then UB else Ret (rev buf))"

definition printint :: "u32 \<Rightarrow> nat \<Rightarrow> bool \<Rightarrow> 'a cons_state_scheme \<Rightarrow> 'a cons_state_scheme outcome" where
  "printint xx base sign s = bindO (printint_chars xx base sign) (\<lambda>cs. consputs cs s)"

text \<open>The variable arguments: words, and strings where the format has \<^verbatim>\<open>%s\<close> (\<open>None\<close> for a null pointer).\<close>

datatype cprintf_arg = ArgWord u32 | ArgStr "u8 list option"

text \<open>A format directive without its argument reads past the arguments.\<close>

fun cprintf_chars :: "u8 list \<Rightarrow> cprintf_arg list \<Rightarrow> int list outcome" where
  "cprintf_chars [] args = Ret []"
| "cprintf_chars (c # fmt) args =
     (if c \<noteq> 37 then bindO (cprintf_chars fmt args) (\<lambda>cs. Ret (uint c # cs))
      else case fmt of
        [] \<Rightarrow> Ret []
      | d # fmt \<Rightarrow>
          if d = 100 then
            (case args of ArgWord w # args \<Rightarrow>
                 bindO (printint_chars w 10 True) (\<lambda>ds. bindO (cprintf_chars fmt args) (\<lambda>cs. Ret (ds @ cs))) | _ \<Rightarrow> UB)
          else if d = 120 \<or> d = 112 then
            (case args of ArgWord w # args \<Rightarrow>
                 bindO (printint_chars w 16 False) (\<lambda>ds. bindO (cprintf_chars fmt args) (\<lambda>cs. Ret (ds @ cs))) | _ \<Rightarrow> UB)
          else if d = 115 then
            (case args of ArgStr so # args \<Rightarrow>
                 bindO (cprintf_chars fmt args) (\<lambda>cs.
                   Ret (map uint (case so of None \<Rightarrow> [40, 110, 117, 108, 108, 41] | Some str \<Rightarrow> str) @ cs))
             | _ \<Rightarrow> UB)
          else if d = 37 then bindO (cprintf_chars fmt args) (\<lambda>cs. Ret (37 # cs))
          else bindO (cprintf_chars fmt args) (\<lambda>cs. Ret (37 # uint d # cs)))"

definition cprintf :: "u8 list option \<Rightarrow> cprintf_arg list \<Rightarrow> 'a cons_state_scheme \<Rightarrow> 'a cons_state_scheme outcome" where
  "cprintf fmt args s =
     (let locking = cons_locking s in
      bindO (if locking then acquire ConsLock s else Ret s) (\<lambda>s.
      case fmt of None \<Rightarrow> Panic ''null fmt''
      | Some f \<Rightarrow>
          bindO (cprintf_chars f args) (\<lambda>cs.
          bindO (consputs cs s) (\<lambda>s.
          if locking then release ConsLock s else Ret s))))"

section \<open>The process listing\<close>

text \<open>\<^verbatim>\<open>getcallerpcs\<close> with \<^verbatim>\<open>v\<close> as an address; the result is the array \<^verbatim>\<open>pcs\<close>.\<close>

primrec getcallerpcs_loop :: "nat \<Rightarrow> u32 \<Rightarrow> mem \<Rightarrow> u32 list" where
  "getcallerpcs_loop 0 ebp m = []"
| "getcallerpcs_loop (Suc n) ebp m =
     (if ebp = 0 \<or> ebp < KERNBASE \<or> ebp = 0xFFFFFFFF then replicate (Suc n) 0
      else load32 m (ebp + 4) # getcallerpcs_loop n (load32 m ebp) m)"

definition getcallerpcs :: "u32 \<Rightarrow> mem \<Rightarrow> u32 list" where
  "getcallerpcs v m = getcallerpcs_loop 10 (v - 8) m"

definition state_name :: "procstate \<Rightarrow> string" where
  "state_name st = (case st of UNUSED \<Rightarrow> ''unused'' | EMBRYO \<Rightarrow> ''embryo'' | SLEEPING \<Rightarrow> ''sleep ''
     | RUNNABLE \<Rightarrow> ''runble'' | RUNNING \<Rightarrow> ''run   '' | ZOMBIE \<Rightarrow> ''zombie'')"

text \<open>The formats are \<^verbatim>\<open>" %p"\<close>, \<^verbatim>\<open>"%d %s %s"\<close> and a newline.\<close>

primrec procdump_pcs :: "u32 list \<Rightarrow> 'a cons_state_scheme \<Rightarrow> 'a cons_state_scheme outcome" where
  "procdump_pcs [] s = Ret s"
| "procdump_pcs (pc # pcs) s =
     (if pc = 0 then Ret s else bindO (cprintf (Some [32, 37, 112]) [ArgWord pc] s) (\<lambda>s. procdump_pcs pcs s))"

definition procdump_line :: "proc \<Rightarrow> 'a cons_state_scheme \<Rightarrow> 'a cons_state_scheme outcome" where
  "procdump_line p s =
     bindO (cprintf (Some [37, 100, 32, 37, 115, 32, 37, 115])
       [ArgWord (of_int (p_pid p)), ArgStr (Some (map of_char (state_name (p_state p)))),
        ArgStr (Some (map of_char (p_name p)))] s) (\<lambda>s.
     bindO (if p_state p = SLEEPING then procdump_pcs (getcallerpcs (ctx_ebp (p_context p) + 8) (mem s)) s else Ret s) (\<lambda>s.
     cprintf (Some [10]) [] s))"

primrec procdump_loop :: "nat list \<Rightarrow> 'a cons_state_scheme \<Rightarrow> 'a cons_state_scheme outcome" where
  "procdump_loop [] s = Ret s"
| "procdump_loop (i # is) s =
     (if p_state (procs s ! i) = UNUSED then procdump_loop is s
      else bindO (procdump_line (procs s ! i) s) (\<lambda>s. procdump_loop is s))"

definition procdump :: "'a cons_state_scheme \<Rightarrow> 'a cons_state_scheme outcome" where
  "procdump s = procdump_loop [0..<NPROC] s"

section \<open>Input\<close>

definition ctrl :: "int \<Rightarrow> int" where "ctrl x = x - 64"

primrec kill_line :: "nat \<Rightarrow> 'a cons_state_scheme \<Rightarrow> 'a cons_state_scheme outcome" where
  "kill_line 0 s = Ret s"
| "kill_line (Suc n) s =
     (if input_e s \<noteq> input_w s \<and> input_buf s ! (unat (input_e s - 1) mod INPUT_BUF) \<noteq> 10
      then bindO (consputc BACKSPACE (s\<lparr>input_e := input_e s - 1\<rparr>)) (\<lambda>s. kill_line n s)
      else Ret s)"

text \<open>
  One character of \<^verbatim>\<open>consoleintr\<close>; control-P only sets \<^verbatim>\<open>doprocdump\<close>. The kill-line loop ends when the edit index meets the write index, which
  bounds its rounds.
\<close>

definition consoleintr_char :: "int \<Rightarrow> 'a cons_state_scheme \<Rightarrow> 'a cons_state_scheme outcome" where
  "consoleintr_char c s =
     (if c = ctrl 80 then Ret s
      else if c = ctrl 85 then kill_line (unat (input_e s - input_w s)) s
      else if c = ctrl 72 \<or> c = 127 then
        (if input_e s \<noteq> input_w s then consputc BACKSPACE (s\<lparr>input_e := input_e s - 1\<rparr>) else Ret s)
      else if c \<noteq> 0 \<and> unat (input_e s - input_r s) < INPUT_BUF then
        let c = (if c = 13 then 10 else c);
            s = s\<lparr>input_buf := (input_buf s)[unat (input_e s) mod INPUT_BUF := of_int c],
                  input_e := input_e s + 1\<rparr> in
        bindO (consputc c s) (\<lambda>s.
          if c = 10 \<or> c = ctrl 68 \<or> input_e s = input_r s + of_nat INPUT_BUF
          then wakeup ChanInput (s\<lparr>input_w := input_e s\<rparr>) else Ret s)
      else Ret s)"

primrec consoleintr_loop :: "int list \<Rightarrow> bool \<Rightarrow> 'a cons_state_scheme \<Rightarrow> (bool \<times> 'a cons_state_scheme) outcome" where
  "consoleintr_loop [] doprocdump s = Ret (doprocdump, s)"
| "consoleintr_loop (c # cs) doprocdump s =
     (if c < 0 then Ret (doprocdump, s)
      else bindO (consoleintr_char c s) (\<lambda>s. consoleintr_loop cs (doprocdump \<or> c = ctrl 80) s))"

text \<open>\<open>cs\<close> are the results of the calls of \<^verbatim>\<open>getc\<close>.\<close>

definition consoleintr :: "int list \<Rightarrow> 'a cons_state_scheme \<Rightarrow> 'a cons_state_scheme outcome" where
  "consoleintr cs s =
     bindO (acquire ConsLock s) (\<lambda>s.
     bindO (consoleintr_loop cs False s) (\<lambda>(doprocdump, s).
     bindO (release ConsLock s) (\<lambda>s.
       if doprocdump then procdump s else Ret s)))"

text \<open>The inner loop of \<^verbatim>\<open>consoleread\<close>; \<open>None\<close> when the process has been killed.\<close>

primrec consoleread_wait :: "'a cons_state_scheme wakes \<Rightarrow> 'a cons_state_scheme \<Rightarrow>
    ('a cons_state_scheme wakes option \<times> 'a cons_state_scheme) outcome" where
  "consoleread_wait [] s =
     (if input_r s = input_w s
      then bindO (curproc s) (\<lambda>(p, s). if p_killed (procs s ! p) then Ret (None, s) else Blocked)
      else Ret (Some [], s))"
| "consoleread_wait (w # ws) s =
     (if input_r s = input_w s
      then bindO (curproc s) (\<lambda>(p, s).
        if p_killed (procs s ! p) then Ret (None, s)
        else bindO (sleep w ChanInput (Some ConsLock) s) (\<lambda>s. consoleread_wait ws s))
      else Ret (Some (w # ws), s))"

text \<open>\<open>n\<close> bytes are still wanted, \<open>k\<close> have been stored. The result is the remaining \<open>n\<close> and the bytes stored.\<close>

primrec consoleread_loop :: "nat \<Rightarrow> nat \<Rightarrow> 'a cons_state_scheme wakes \<Rightarrow> 'a cons_state_scheme sink \<Rightarrow>
    'a cons_state_scheme \<Rightarrow> ((nat option \<times> u8 list) \<times> 'a cons_state_scheme) outcome" where
  "consoleread_loop 0 k ws put s = Ret ((Some 0, []), s)"
| "consoleread_loop (Suc n) k ws put s =
     bindO (consoleread_wait ws s) (\<lambda>(ws, s).
       case ws of None \<Rightarrow> Ret ((None, []), s)
       | Some ws \<Rightarrow>
           let c = input_buf s ! (unat (input_r s) mod INPUT_BUF);
               s = s\<lparr>input_r := input_r s + 1\<rparr> in
           if uint c = ctrl 68 then
             Ret ((Some (Suc n), []), if k > 0 then s\<lparr>input_r := input_r s - 1\<rparr> else s)
           else
             bindO (put k [c] s) (\<lambda>s.
               if c = 10 then Ret ((Some n, [c]), s)
               else bindO (consoleread_loop n (k + 1) ws put s) (\<lambda>((r, bs), s). Ret ((r, c # bs), s))))"

definition consoleread :: "'a cons_state_scheme wakes \<Rightarrow> nat \<Rightarrow> 'a cons_state_scheme sink \<Rightarrow> u32 \<Rightarrow>
    'a cons_state_scheme \<Rightarrow> ((int \<times> u8 list) \<times> 'a cons_state_scheme) outcome" where
  "consoleread ws ip put n s =
     bindO (iunlock (Some ip) s) (\<lambda>s.
     bindO (acquire ConsLock s) (\<lambda>s.
     bindO (consoleread_loop (nat (sint n)) 0 ws put s) (\<lambda>((r, bs), s).
     bindO (release ConsLock s) (\<lambda>s.
     bindO (ilock (Some ip) s) (\<lambda>s.
       case r of None \<Rightarrow> Ret ((- 1, bs), s)
       | Some rest \<Rightarrow> Ret ((sint n - (if sint n > 0 then int rest else sint n), bs), s))))))"

primrec consolewrite_loop :: "nat \<Rightarrow> nat \<Rightarrow> 'a cons_state_scheme source \<Rightarrow> 'a cons_state_scheme \<Rightarrow>
    'a cons_state_scheme outcome" where
  "consolewrite_loop 0 i get s = Ret s"
| "consolewrite_loop (Suc n) i get s =
     bindO (get i 1 s) (\<lambda>(bs, s).
     bindO (consputc (uint (bs ! 0)) s) (\<lambda>s. consolewrite_loop n (i + 1) get s))"

definition consolewrite :: "nat \<Rightarrow> 'a cons_state_scheme source \<Rightarrow> u32 \<Rightarrow> 'a cons_state_scheme \<Rightarrow>
    (int \<times> 'a cons_state_scheme) outcome" where
  "consolewrite ip get n s =
     bindO (iunlock (Some ip) s) (\<lambda>s.
     bindO (acquire ConsLock s) (\<lambda>s.
     bindO (consolewrite_loop (nat (sint n)) 0 get s) (\<lambda>s.
     bindO (release ConsLock s) (\<lambda>s.
     bindO (ilock (Some ip) s) (\<lambda>s. Ret (sint n, s))))))"

text \<open>\<^verbatim>\<open>devsw\<close> after \<^verbatim>\<open>consoleinit\<close>: major device 1 is the console.\<close>

definition devsw_read :: "'a cons_state_scheme wakes \<Rightarrow> 'a cons_state_scheme devread" where
  "devsw_read ws major = (if major = 1 then Some (consoleread ws) else None)"

definition devsw_write :: "'a cons_state_scheme devwrite" where
  "devsw_write major = (if major = 1 then Some consolewrite else None)"

definition consoleinit :: "'a cons_state_scheme \<Rightarrow> 'a cons_state_scheme" where
  "consoleinit s = (initlock ConsLock ''console'' s)\<lparr>cons_locking := True\<rparr>"

text \<open>The state at boot, for concrete runs.\<close>

definition boot_cons :: cons_state where
  "boot_cons = fs_state.extend boot_fs 
     \<lparr>cons_locking = False, panicked = False, input_buf = replicate INPUT_BUF 0, input_r = 0, input_w = 0,
      input_e = 0, crt_pos = 0, crt = replicate 2048 0, uart = False, uart_out = []\<rparr>"

lemma boot_cons_ok [simp]:
  "cpu_ok boot_cons" "lock_free l boot_cons" "me boot_cons = 0" "procs boot_cons = procs boot_proc"
  using boot_proc_ok(1) cpu_ok_cong [of boot_cons boot_proc]
  by (simp_all add: boot_cons_def boot_proc_def boot_kmem_def boot_cpu_def kmem_state.defs boot_sleep_def proc_state.defs boot_bio_def sleep_state.defs boot_log_def bio_state.defs boot_fs_def log_state.defs fs_state.defs cpu_ok_def lock_free_def me_def find_index_def readeflags_IF_def)

section \<open>The screen\<close>

definition screen_ok :: "'a cons_state_scheme \<Rightarrow> bool" where
  "screen_ok s \<longleftrightarrow> 0 \<le> crt_pos s \<and> crt_pos s < 24 * 80 \<and> \<not> panicked s"

lemma cgaputc_ok:
  assumes "screen_ok s"
  shows "\<exists>p q. cgaputc c s = Ret (s\<lparr>crt_pos := p, crt := q\<rparr>) \<and> 0 \<le> p \<and> p < 24 * 80"
proof -
  define p1 where "p1 = (if c = 10 then crt_pos s + (80 - crt_pos s mod 80)
    else if c = BACKSPACE then (if crt_pos s > 0 then crt_pos s - 1 else crt_pos s) else crt_pos s + 1)"
  have b: "0 \<le> crt_pos s" "crt_pos s < 1920" using assms by (simp_all add: screen_ok_def)
  then have nl: "0 \<le> crt_pos s + (80 - crt_pos s mod 80)" "crt_pos s + (80 - crt_pos s mod 80) \<le> 1920"
    by presburger+
  then have p1: "0 \<le> p1" "p1 \<le> 24 * 80" "\<not> (p1 < 0 \<or> p1 > 25 * 80)"
    using b unfolding p1_def by auto
  define q where "q = (if c = 10 \<or> c = BACKSPACE then crt s else (crt s)[nat (crt_pos s) := cga_cell c])"
  have q: "(if c = 10 then (crt_pos s + (80 - crt_pos s mod 80), crt s)
       else if c = BACKSPACE then (if crt_pos s > 0 then crt_pos s - 1 else crt_pos s, crt s)
       else (crt_pos s + 1, (crt s)[nat (crt_pos s) := cga_cell c])) = (p1, q)"
    unfolding p1_def q_def by simp
  define p2 where "p2 = (if p1 div 80 \<ge> 24 then p1 - 80 else p1)"
  have "p1 div 80 \<ge> 24 \<longleftrightarrow> p1 = 1920" using p1(2) by auto
  then have p2: "0 \<le> p2" "p2 < 24 * 80" using p1 unfolding p2_def by auto
  have "\<exists>q2. (if p1 div 80 \<ge> 24 then (p1 - 80, X) else (p1, q)) = (p2, q2)" for X
    unfolding p2_def by simp
  then obtain q2 where q2: "(if p1 div 80 \<ge> 24
       then (p1 - 80,
             let m = take (23 * 80) (drop 80 q) @ drop (23 * 80) q in
             take (nat (p1 - 80)) m @ replicate (24 * 80 - nat (p1 - 80)) 0 @ drop (24 * 80) m)
       else (p1, q)) = (p2, q2)"
    by blast
  have "cgaputc c s = Ret (s\<lparr>crt_pos := p2, crt := q2[nat p2 := cga_cell 32]\<rparr>)"
    unfolding cgaputc_def Let_def [of "crt_pos s"] q Let_def [of "(p1, q)"] prod.case if_not_P [OF p1(3)] q2
      Let_def [of "(p2, q2)"] ..
  then show ?thesis using p2 by blast
qed

lemma consputc_ok:
  assumes "screen_ok s"
  shows "\<exists>p q u. consputc c s = Ret (s\<lparr>crt_pos := p, crt := q, uart_out := u\<rparr>) \<and> 0 \<le> p \<and> p < 24 * 80"
proof -
  obtain u where u: "(if c = BACKSPACE then uartputc 8 (uartputc 32 (uartputc 8 s)) else uartputc c s)
      = s\<lparr>uart_out := u\<rparr>"
  proof (cases "uart s")
    case True
    then show ?thesis using that by (cases "c = BACKSPACE") (simp_all add: uartputc_def)
  next
    case False
    then show ?thesis using that [of "uart_out s"] by (simp add: uartputc_def)
  qed
  have "screen_ok (s\<lparr>uart_out := u\<rparr>)" using assms by (simp add: screen_ok_def)
  then obtain p q where pq: "cgaputc c (s\<lparr>uart_out := u\<rparr>) = Ret (s\<lparr>uart_out := u, crt_pos := p, crt := q\<rparr>)"
      "0 \<le> p" "p < 24 * 80"
    using cgaputc_ok [of "s\<lparr>uart_out := u\<rparr>" c] by blast
  have "s\<lparr>uart_out := u, crt_pos := p, crt := q\<rparr> = s\<lparr>crt_pos := p, crt := q, uart_out := u\<rparr>" by simp
  moreover have "consputc c s = cgaputc c (s\<lparr>uart_out := u\<rparr>)"
    using assms unfolding consputc_def Let_def u by (simp add: screen_ok_def)
  ultimately show ?thesis using pq by metis
qed

text \<open>What \<^verbatim>\<open>procdump\<close> reads of the process table.\<close>

definition same_table :: "'a proc_state_scheme \<Rightarrow> 'b proc_state_scheme \<Rightarrow> bool" where
  "same_table t s \<longleftrightarrow> map p_pid (procs t) = map p_pid (procs s)"

lemma same_table_refl [simp]: "same_table s s"
  by (simp add: same_table_def)

lemma same_table_wakeup1 [simp]: "same_table (wakeup1 ch s) s"
  by (simp add: same_table_def wakeup1_def comp_def)

section \<open>Line editing\<close>

text \<open>
  The input ring holds the committed characters, from \<^verbatim>\<open>r\<close> to \<^verbatim>\<open>w\<close>, and the line being edited, from \<^verbatim>\<open>w\<close> to \<^verbatim>\<open>e\<close>.
\<close>

definition committed :: "'a cons_state_scheme \<Rightarrow> u8 list" where
  "committed s = ring_list INPUT_BUF (input_buf s) (input_r s) (unat (input_w s - input_r s))"

definition pending :: "'a cons_state_scheme \<Rightarrow> u8 list" where
  "pending s = ring_list INPUT_BUF (input_buf s) (input_w s) (unat (input_e s - input_w s))"

definition input_ok :: "'a cons_state_scheme \<Rightarrow> bool" where
  "input_ok s \<longleftrightarrow> length (input_buf s) = INPUT_BUF \<and>
     unat (input_w s - input_r s) + unat (input_e s - input_w s) = unat (input_e s - input_r s) \<and>
     unat (input_e s - input_r s) \<le> INPUT_BUF \<and> 10 \<notin> set (pending s)"

text \<open>What a character does to the two parts.\<close>

definition edit_char :: "int \<Rightarrow> u8 list \<times> u8 list \<Rightarrow> u8 list \<times> u8 list" where
  "edit_char c = (\<lambda>(com, pen).
     if c = ctrl 80 then (com, pen)
     else if c = ctrl 85 then (com, [])
     else if c = ctrl 72 \<or> c = 127 then (com, butlast pen)
     else if c \<noteq> 0 \<and> length com + length pen < INPUT_BUF then
       let c = (if c = 13 then 10 else c); line = pen @ [of_int c] in
       if c = 10 \<or> c = ctrl 68 \<or> length com + length line = INPUT_BUF then (com @ line, []) else (com, line)
     else (com, pen))"

lemma consputc_input [simp]:
  "committed (s\<lparr>crt_pos := p, crt := q, uart_out := u\<rparr>) = committed s"
  "pending (s\<lparr>crt_pos := p, crt := q, uart_out := u\<rparr>) = pending s"
  "input_ok (s\<lparr>crt_pos := p, crt := q, uart_out := u\<rparr>) = input_ok s"
  "cpu_ok (s\<lparr>crt_pos := p, crt := q, uart_out := u\<rparr>) = cpu_ok s"
  "lock_free l (s\<lparr>crt_pos := p, crt := q, uart_out := u\<rparr>) = lock_free l s"
  for s :: "'a cons_state_scheme"
  by (simp_all add: committed_def pending_def input_ok_def lock_free_def) (rule cpu_ok_cong; simp)

lemma input_backspace:
  assumes "input_ok s" and "input_e s \<noteq> input_w s"
  defines "t \<equiv> s\<lparr>input_e := input_e s - 1\<rparr>"
  shows "input_ok t \<and> committed t = committed s \<and> pending t = butlast (pending s)"
proof -
  have ew: "unat (input_e s - 1 - input_w s) = unat (input_e s - input_w s) - 1"
    by (rule u32_diff_sub1 [OF assms(2)])
  have pos: "0 < unat (input_e s - input_w s)" using assms(2) by (simp add: unat_gt_0)
  then have "input_e s \<noteq> input_r s" using assms(1) by (auto simp: input_ok_def)
  then have er: "unat (input_e s - 1 - input_r s) = unat (input_e s - input_r s) - 1"
    by (rule u32_diff_sub1)
  have "pending t = butlast (pending s)"
    using ring_list_butlast [OF pos, of INPUT_BUF "input_buf s" "input_w s"]
    unfolding pending_def t_def by (simp add: ew)
  moreover have "set (butlast (pending s)) \<subseteq> set (pending s)" by (auto dest: in_set_butlastD)
  ultimately show ?thesis
    using assms(1) pos er ew by (auto simp: input_ok_def t_def committed_def)
qed

lemma kill_line_ok:
  assumes "input_ok s" and "screen_ok s" and "n = unat (input_e s - input_w s)"
  shows "returns (kill_line n s) (\<lambda>t. same_table t s \<and> input_ok t \<and> screen_ok t \<and> same_machine t s \<and>
    committed t = committed s \<and> pending t = [])"
  using assms
proof (induction n arbitrary: s)
  case 0
  then show ?case by (simp add: pending_def)
next
  case (Suc n)
  then have ne: "input_e s \<noteq> input_w s" by auto
  have last: "input_buf s ! (unat (input_e s - 1) mod INPUT_BUF) \<in> set (pending s)"
  proof -
    have "input_w s + of_nat n = input_e s - 1"
    proof -
      have "of_nat (unat (input_e s - input_w s)) = input_e s - input_w s" by simp
      then have "input_e s - input_w s = of_nat (Suc n)" using Suc.prems(3) by simp
      then show ?thesis by (simp add: algebra_simps)
    qed
    then have "pending s = ring_list INPUT_BUF (input_buf s) (input_w s) n @
        [input_buf s ! (unat (input_e s - 1) mod INPUT_BUF)]"
      using ring_list_append [of INPUT_BUF "input_buf s" "input_w s" n 1] Suc.prems(3)
      by (simp add: pending_def ring_list_Cons)
    then show ?thesis by simp
  qed
  then have go: "input_buf s ! (unat (input_e s - 1) mod INPUT_BUF) \<noteq> 10"
    using Suc.prems(1) by (auto simp: input_ok_def)
  let ?t = "s\<lparr>input_e := input_e s - 1\<rparr>"
  note bs = input_backspace [OF Suc.prems(1) ne]
  obtain p q u where out: "consputc BACKSPACE ?t = Ret (?t\<lparr>crt_pos := p, crt := q, uart_out := u\<rparr>)"
      "0 \<le> p" "p < 24 * 80"
    using consputc_ok [of ?t BACKSPACE] Suc.prems(2) by (auto simp: screen_ok_def)
  let ?u = "?t\<lparr>crt_pos := p, crt := q, uart_out := u\<rparr>"
  have "returns (kill_line n ?u) (\<lambda>t. same_table t ?u \<and> input_ok t \<and> screen_ok t \<and> same_machine t ?u \<and>
    committed t = committed ?u \<and> pending t = [])"
  proof (rule Suc.IH)
    show "input_ok ?u" using bs by simp
    show "screen_ok ?u" using out Suc.prems(2) by (simp add: screen_ok_def)
    show "n = unat (input_e ?u - input_w ?u)"
      using Suc.prems(3) u32_diff_sub1 [OF ne] by simp
  qed
  then show ?case using go ne out bs by (simp add: committed_def same_machine_def same_table_def)
qed

lemma input_store:
  fixes b :: u8
  assumes "input_ok s" and "unat (input_e s - input_r s) < INPUT_BUF"
  defines "t \<equiv> s\<lparr>input_buf := (input_buf s)[unat (input_e s) mod INPUT_BUF := b], input_e := input_e s + 1\<rparr>"
  shows "committed t = committed s" "pending t = pending s @ [b]"
    "unat (input_e t - input_w t) = Suc (unat (input_e s - input_w s))"
    "unat (input_e t - input_r t) = Suc (unat (input_e s - input_r s))" "length (input_buf t) = INPUT_BUF"
proof -
  let ?n = "unat (input_w s - input_r s)" and ?k = "unat (input_e s - input_w s)"
  have nk: "?n + ?k = unat (input_e s - input_r s)" and len: "length (input_buf s) = INPUT_BUF"
    using assms(1) by (simp_all add: input_ok_def)
  have er: "input_e s = input_r s + of_nat (?n + ?k)" using nk by simp
  have ew: "input_e s = input_w s + of_nat ?k" by simp
  show "committed t = committed s"
    using ring_list_update_other [of INPUT_BUF ?n "?n + ?k" "input_buf s" "input_r s" b] assms(2) nk er
    by (simp add: committed_def t_def)
  show kk: "unat (input_e t - input_w t) = Suc ?k"
    using u32_diff_add1 [of "input_e s" "input_w s"] assms(2) nk by (simp add: t_def)
  show "unat (input_e t - input_r t) = Suc (unat (input_e s - input_r s))"
    using u32_diff_add1 [of "input_e s" "input_r s"] assms(2) by (simp add: t_def)
  show "length (input_buf t) = INPUT_BUF" using len by (simp add: t_def)
  have "ring_list INPUT_BUF ((input_buf s)[unat (input_e s) mod INPUT_BUF := b]) (input_w s) (Suc ?k) = pending s @ [b]"
    using ring_list_snoc [of INPUT_BUF ?k "input_buf s" "input_w s" b] assms(2) nk len ew
    by (simp add: pending_def)
  then show "pending t = pending s @ [b]" using kk by (simp add: pending_def t_def)
qed

lemma input_commit:
  assumes "unat (input_w s - input_r s) + unat (input_e s - input_w s) = unat (input_e s - input_r s)"
  defines "t \<equiv> s\<lparr>input_w := input_e s\<rparr>"
  shows "committed t = committed s @ pending s" "pending t = []"
proof -
  have "input_r s + of_nat (unat (input_w s - input_r s)) = input_w s" by simp
  then show "committed t = committed s @ pending s"
    using ring_list_append [of INPUT_BUF "input_buf s" "input_r s" "unat (input_w s - input_r s)"
        "unat (input_e s - input_w s)"] assms(1)
    by (simp add: committed_def pending_def t_def)
  show "pending t = []" by (simp add: pending_def t_def)
qed

lemma of_int_u8_eq:
  assumes "0 \<le> c" and "c < 256"
  shows "(of_int c :: u8) = 10 \<longleftrightarrow> c = 10"
proof
  assume "(of_int c :: u8) = 10"
  then have "uint (of_int c :: u8) = 10" by simp
  then show "c = 10" using assms by (simp add: uint_word_of_int)
qed simp

lemma wakeup1_input [simp]:
  "committed (wakeup1 ch s) = committed s" "pending (wakeup1 ch s) = pending s"
  "input_ok (wakeup1 ch s) = input_ok s" "screen_ok (wakeup1 ch s) = screen_ok s"
  by (simp_all add: wakeup1_def committed_def pending_def input_ok_def screen_ok_def)

text \<open>Storing a character and, at the end of a line, committing the line.\<close>

lemma consoleintr_store:
  assumes "cpu_ok s" and "lock_free PtableLock s" and "screen_ok s" and "input_ok s"
    and "0 \<le> c" and "c < 256" and "unat (input_e s - input_r s) < INPUT_BUF"
  defines "t \<equiv> s\<lparr>input_buf := (input_buf s)[unat (input_e s) mod INPUT_BUF := of_int c], input_e := input_e s + 1\<rparr>"
  shows "returns (bindO (consputc c t) (\<lambda>s.
          if c = 10 \<or> c = ctrl 68 \<or> input_e s = input_r s + of_nat INPUT_BUF
          then wakeup ChanInput (s\<lparr>input_w := input_e s\<rparr>) else Ret s)) (\<lambda>u.
    same_table u s \<and> same_machine u s \<and> screen_ok u \<and> input_ok u \<and>
    (committed u, pending u) =
      (if c = 10 \<or> c = ctrl 68 \<or> length (committed s) + length (pending s @ [of_int c]) = INPUT_BUF
       then (committed s @ pending s @ [of_int c], []) else (committed s, pending s @ [of_int c])))"
proof -
  note st = input_store [OF assms(4,7), of "of_int c", folded t_def]
  have sel: "input_r t = input_r s" "input_w t = input_w s" by (simp_all add: t_def)
  have sum: "unat (input_w t - input_r t) + unat (input_e t - input_w t) = unat (input_e t - input_r t)"
    using assms(4) st(3,4) sel by (simp add: input_ok_def)
  have okt: "same_machine t s" "screen_ok t"
    using assms(3) by (simp_all add: t_def screen_ok_def same_machine_def)
  obtain p q u where out: "consputc c t = Ret (t\<lparr>crt_pos := p, crt := q, uart_out := u\<rparr>)" "0 \<le> p" "p < 24 * 80"
    using consputc_ok [OF okt(2)] by blast
  let ?v = "t\<lparr>crt_pos := p, crt := q, uart_out := u\<rparr>"
  have lens: "length (committed s) + length (pending s) = unat (input_e s - input_r s)"
    using assms(4) by (simp add: committed_def pending_def input_ok_def)
  have full: "input_e ?v = input_r ?v + of_nat INPUT_BUF \<longleftrightarrow>
      length (committed s) + length (pending s @ [of_int c]) = INPUT_BUF"
  proof -
    have "input_e t = input_r t + of_nat INPUT_BUF \<longleftrightarrow> input_e t - input_r t = 128" by (auto simp: algebra_simps)
    also have "\<dots> \<longleftrightarrow> unat (input_e t - input_r t) = 128" by (simp add: word_unat_eq_iff)
    finally show ?thesis using st(4) lens by simp
  qed
  have scr: "screen_ok ?v" using out okt(2) by (simp add: screen_ok_def)
  have tab: "same_table ?v s" by (simp add: same_table_def t_def)
  show ?thesis
  proof (cases "c = 10 \<or> c = ctrl 68 \<or> input_e ?v = input_r ?v + of_nat INPUT_BUF")
    case True
    let ?w = "?v\<lparr>input_w := input_e ?v\<rparr>"
    have sw: "same_machine ?w s" and "screen_ok ?w"
      using okt scr by (simp_all add: same_machine_def screen_ok_def)
    moreover have "cpu_ok ?w" "lock_free PtableLock ?w"
      using same_machine_ok [OF sw] assms(1,2) by simp_all
    moreover have "same_machine (wakeup1 ChanInput ?w) s" using sw by (simp add: same_machine_def)
    moreover have "same_table (wakeup1 ChanInput ?w) s"
      using same_table_wakeup1 [of ChanInput ?w] tab by (simp add: same_table_def)
    moreover have cw: "committed ?w = committed s @ pending s @ [of_int c]" "pending ?w = []"
      using input_commit [of ?v] sum st(1,2) by simp_all
    moreover have "input_ok ?w"
      using cw(2) st(4,5) assms(7) by (simp add: input_ok_def)
    ultimately show ?thesis using True out full by (simp add: wakeup_eq)
  next
    case False
    have "input_ok t"
      using st sum assms(4,7) False of_int_u8_eq [OF assms(5,6)] by (auto simp: input_ok_def)
    then show ?thesis using False out full okt scr tab st(1,2) by (auto simp: same_machine_def same_table_def)
  qed
qed

lemma consoleintr_char_edits:
  assumes "cpu_ok s" and "lock_free PtableLock s" and "screen_ok s" and "input_ok s" and "0 \<le> c" and "c < 256"
  shows "returns (consoleintr_char c s) (\<lambda>t. same_table t s \<and> same_machine t s \<and> screen_ok t \<and> input_ok t \<and>
    (committed t, pending t) = edit_char c (committed s, pending s))"
proof -
  have lens: "length (committed s) + length (pending s) = unat (input_e s - input_r s)"
    using assms(4) by (simp add: committed_def pending_def input_ok_def)
  consider "c = ctrl 80" | "c = ctrl 85" | "c = ctrl 72 \<or> c = 127"
    | "c \<noteq> ctrl 80" "c \<noteq> ctrl 85" "c \<noteq> ctrl 72" "c \<noteq> 127" by blast
  then show ?thesis
  proof cases
    case 1
    then show ?thesis using assms by (simp add: consoleintr_char_def edit_char_def)
  next
    case 2
    then show ?thesis using kill_line_ok [OF assms(4,3) refl]
      by (auto simp: consoleintr_char_def edit_char_def ctrl_def elim!: returns_mono)
  next
    case 3
    show ?thesis
    proof (cases "input_e s = input_w s")
      case True
      then have "pending s = []" by (simp add: pending_def)
      then show ?thesis using 3 True assms by (auto simp: consoleintr_char_def edit_char_def ctrl_def)
    next
      case False
      let ?t = "s\<lparr>input_e := input_e s - 1\<rparr>"
      have t: "input_ok ?t \<and> committed ?t = committed s \<and> pending ?t = butlast (pending s)"
        by (rule input_backspace [OF assms(4) False])
      have "screen_ok ?t" using assms(3) by (simp add: screen_ok_def)
      then obtain p q u where "consputc BACKSPACE ?t = Ret (?t\<lparr>crt_pos := p, crt := q, uart_out := u\<rparr>)"
          "0 \<le> p" "p < 24 * 80"
        using consputc_ok [of ?t BACKSPACE] by blast
      then show ?thesis using 3 False t assms(3)
        by (auto simp: consoleintr_char_def edit_char_def ctrl_def same_machine_def screen_ok_def same_table_def)
    qed
  next
    case 4
    show ?thesis
    proof (cases "c \<noteq> 0 \<and> unat (input_e s - input_r s) < INPUT_BUF")
      case True
      let ?c = "if c = 13 then 10 else c"
      have "0 \<le> ?c" "?c < 256" using assms(5,6) by auto
      note st = consoleintr_store [OF assms(1-4) this conjunct2 [OF True]]
      show ?thesis using 4 True st lens
        unfolding consoleintr_char_def edit_char_def Let_def by simp
    next
      case False
      then show ?thesis using 4 lens assms by (auto simp: consoleintr_char_def edit_char_def)
    qed
  qed
qed

lemma consoleintr_loop_edits:
  assumes "cpu_ok s" and "lock_free PtableLock s" and "screen_ok s" and "input_ok s"
    and "\<forall>c\<in>set cs. 0 \<le> c \<and> c < 256"
  shows "returns (consoleintr_loop (cs @ [- 1]) d s) (\<lambda>(d', t). d' = (d \<or> ctrl 80 \<in> set cs) \<and> same_table t s \<and>
    same_machine t s \<and> screen_ok t \<and> input_ok t \<and> (committed t, pending t) = fold edit_char cs (committed s, pending s))"
  using assms
proof (induction cs arbitrary: s d)
  case Nil
  then show ?case by simp
next
  case (Cons c cs)
  have "returns (consoleintr_char c s) (\<lambda>t. same_table t s \<and> same_machine t s \<and> screen_ok t \<and> input_ok t \<and>
    (committed t, pending t) = edit_char c (committed s, pending s))"
    using Cons.prems by (intro consoleintr_char_edits) simp_all
  then obtain t where t: "consoleintr_char c s = Ret t" "same_machine t s" "screen_ok t" "input_ok t"
      "(committed t, pending t) = edit_char c (committed s, pending s)" "same_table t s"
    by (elim returnsE) blast
  have "returns (consoleintr_loop (cs @ [- 1]) (d \<or> c = ctrl 80) t) (\<lambda>(d', u). d' = ((d \<or> c = ctrl 80) \<or> ctrl 80 \<in> set cs) \<and>
    same_table u t \<and> same_machine u t \<and> screen_ok u \<and> input_ok u \<and> (committed u, pending u) = fold edit_char cs (committed t, pending t))"
    using Cons.prems t same_machine_ok [OF t(2)] by (intro Cons.IH) simp_all
  then show ?case using Cons.prems t(1,5,6)
    by (auto elim!: returns_mono intro: same_machine_trans [OF _ t(2)] simp: same_table_def)
qed

lemma acquired_cons [simp]:
  fixes s :: "'a cons_state_scheme"
  shows "committed (acquired l s) = committed s" "pending (acquired l s) = pending s"
    "input_ok (acquired l s) = input_ok s" "screen_ok (acquired l s) = screen_ok s"
  by (simp_all add: acquired_def pushed_def committed_def pending_def input_ok_def screen_ok_def)

lemma restored_cons [simp]:
  fixes t :: "'a cons_state_scheme"
  shows "committed (restored s t) = committed t" "pending (restored s t) = pending t"
    "input_ok (restored s t) = input_ok t" "screen_ok (restored s t) = screen_ok t"
  by (simp_all add: restored_def committed_def pending_def input_ok_def screen_ok_def)

section \<open>The listing of control-P\<close>

text \<open>Printing changes the screen and the serial output only.\<close>

definition printed :: "'a cons_state_scheme \<Rightarrow> 'a cons_state_scheme \<Rightarrow> bool" where
  "printed s t \<longleftrightarrow> screen_ok t \<and> t = s\<lparr>crt_pos := crt_pos t, crt := crt t, uart_out := uart_out t\<rparr>"

lemma printed_refl [simp]: "printed s s = screen_ok s"
  by (simp add: printed_def)

lemma printed_sel:
  assumes "printed s t"
  shows "procs t = procs s" "mem t = mem s" "same_machine t s" "same_table t s" "screen_ok t"
    "committed t = committed s" "pending t = pending s" "input_ok t = input_ok s"
proof -
  obtain p q u where t: "t = s\<lparr>crt_pos := p, crt := q, uart_out := u\<rparr>" using assms by (auto simp: printed_def)
  show "procs t = procs s" "mem t = mem s" "same_machine t s" "same_table t s"
      "committed t = committed s" "pending t = pending s" "input_ok t = input_ok s"
    by (simp_all add: t same_machine_def same_table_def)
  show "screen_ok t" using assms by (simp add: printed_def)
qed

lemma printed_trans [trans]:
  assumes "printed s t" and "printed t u"
  shows "printed s u"
proof -
  obtain a b c where t: "t = s\<lparr>crt_pos := a, crt := b, uart_out := c\<rparr>" using assms(1) by (auto simp: printed_def)
  obtain p q v where u: "u = t\<lparr>crt_pos := p, crt := q, uart_out := v\<rparr>" using assms(2) by (auto simp: printed_def)
  show ?thesis using assms(2) by (simp add: printed_def t u)
qed

lemma consputs_ok: "screen_ok s \<Longrightarrow> returns (consputs cs s) (printed s)"
proof (induction cs arbitrary: s)
  case (Cons c cs)
  then obtain p q u where o: "consputc c s = Ret (s\<lparr>crt_pos := p, crt := q, uart_out := u\<rparr>)" "0 \<le> p" "p < 24 * 80"
    using consputc_ok by blast
  let ?t = "s\<lparr>crt_pos := p, crt := q, uart_out := u\<rparr>"
  have p: "printed s ?t" using o(2,3) Cons.prems by (simp add: printed_def screen_ok_def)
  show ?case using o(1) Cons.IH [OF printed_sel(5) [OF p]] printed_trans [OF p]
    by (auto elim!: returns_mono)
qed simp

lemma cprintf_ok:
  fixes s :: "'a cons_state_scheme"
  assumes "cpu_ok s" and "lock_free ConsLock s" and "screen_ok s" and "cprintf_chars f args = Ret cs"
  shows "returns (cprintf (Some f) args s) (printed s)"
proof (cases "cons_locking s")
  case True
  let ?a = "acquired ConsLock s"
  have "returns (consputs cs ?a) (printed ?a)" using assms(3) by (intro consputs_ok) simp
  then obtain t where t: "consputs cs ?a = Ret t" "printed ?a t" by (elim returnsE)
  obtain p q u where tt: "t = ?a\<lparr>crt_pos := p, crt := q, uart_out := u\<rparr>" using t(2) by (auto simp: printed_def)
  have "printed s (restored s t)"
    using printed_sel(5) [OF t(2)] by (simp add: printed_def tt restored_def acquired_def pushed_def screen_ok_def)
  then show ?thesis using t(1) True assms(4) release_same [OF assms(1,2) printed_sel(3) [OF t(2)]]
    by (simp add: cprintf_def Let_def acquire_free [OF assms(1,2)])
next
  case False
  then show ?thesis using consputs_ok [OF assms(3)] assms(4)
    by (simp add: cprintf_def Let_def)
qed

text \<open>The array of \<^verbatim>\<open>printint\<close> has room for a word in base 10 or 16.\<close>

lemma digits_length: "2 \<le> base \<Longrightarrow> 0 < k \<Longrightarrow> x < base ^ k \<Longrightarrow> length (digits base x) \<le> k"
proof (induction k arbitrary: x)
  case (Suc k)
  show ?case
  proof (cases "x div base = 0")
    case False
    moreover have "x div base < base ^ k" using Suc.prems by (simp add: less_mult_imp_div_less mult.commute)
    moreover from this False have "0 < k" by (cases k) simp_all
    ultimately show ?thesis using Suc.IH [of "x div base"] Suc.prems(1) by (simp add: digits.simps [of base x])
  qed (use Suc.prems in \<open>simp add: digits.simps [of base x]\<close>)
qed simp

lemma digits_room:
  assumes "base = 10 \<or> base = 16"
  shows "length (digits base (unat (w :: u32))) \<le> 10"
proof -
  have "unat w < 2 ^ 32" using unsigned_less [of w] by simp
  moreover have "(2 :: nat) ^ 32 \<le> base ^ 10" using assms by auto
  ultimately show ?thesis using assms by (intro digits_length) auto
qed

lemma printint_chars_unsigned:
  assumes "base = 10 \<or> base = 16"
  shows "printint_chars xx base False = Ret (rev (digits base (unat xx)))"
  using digits_room [OF assms, of xx] by (simp add: printint_chars_def)

lemma printint_chars_signed:
  assumes "base = 10 \<or> base = 16" and "sint xx \<noteq> - 2147483648"
  shows "printint_chars xx base True = Ret (if sint xx < 0 then 45 # rev (digits base (unat (- xx))) else rev (digits base (unat xx)))"
  using digits_room [OF assms(1), of xx] digits_room [OF assms(1), of "- xx"] assms(2) by (simp add: printint_chars_def)

lemma procdump_pcs_ok:
  assumes "cpu_ok s" and "lock_free ConsLock s" and "screen_ok s"
  shows "returns (procdump_pcs pcs s) (printed s)"
  using assms
proof (induction pcs arbitrary: s)
  case (Cons pc pcs)
  have "returns (cprintf (Some [32, 37, 112]) [ArgWord pc] s) (printed s)"
    using Cons.prems by (intro cprintf_ok) (simp_all add: printint_chars_unsigned)
  then obtain t where t: "cprintf (Some [32, 37, 112]) [ArgWord pc] s = Ret t" "printed s t" by (elim returnsE)
  have "returns (procdump_pcs pcs t) (printed t)"
    using Cons.prems same_machine_ok [OF printed_sel(3) [OF t(2)]] printed_sel(5) [OF t(2)] by (intro Cons.IH) simp_all
  then show ?case using Cons.prems(3) t(1) printed_trans [OF t(2)] by (auto elim!: returns_mono)
qed simp

definition pids_ok :: "'a proc_state_scheme \<Rightarrow> bool" where
  "pids_ok s \<longleftrightarrow> (\<forall>p\<in>set (procs s). 0 \<le> p_pid p \<and> p_pid p < 2147483648)"

lemma pids_ok_map: "pids_ok s \<longleftrightarrow> (\<forall>n\<in>set (map p_pid (procs s)). 0 \<le> n \<and> n < 2147483648)"
  by (simp add: pids_ok_def)

lemma pids_ok_same_table: "same_table t s \<Longrightarrow> pids_ok s \<Longrightarrow> pids_ok t"
  by (simp only: pids_ok_map same_table_def)

lemma sint_pid: "0 \<le> n \<Longrightarrow> n < 2147483648 \<Longrightarrow> sint (of_int n :: u32) = n"
  by (simp add: signed_of_int signed_take_bit_int_eq_self)

lemma procdump_line_ok:
  assumes "cpu_ok s" and "lock_free ConsLock s" and "screen_ok s" and "0 \<le> p_pid p" and "p_pid p < 2147483648"
  shows "returns (procdump_line p s) (printed s)"
proof -
  have keep: "cpu_ok u" "lock_free ConsLock u" "screen_ok u" if "printed s u" for u
    using same_machine_ok [OF printed_sel(3) [OF that]] assms(1,2) printed_sel(5) [OF that] by simp_all
  let ?st = "map of_char (state_name (p_state p)) :: u8 list" and ?n = "map of_char (p_name p) :: u8 list"
  have "returns (cprintf (Some [37, 100, 32, 37, 115, 32, 37, 115]) [ArgWord (of_int (p_pid p)), ArgStr (Some ?st), ArgStr (Some ?n)] s)
      (printed s)"
    using assms by (intro cprintf_ok) (simp_all add: printint_chars_signed sint_pid)
  then obtain t where t: "cprintf (Some [37, 100, 32, 37, 115, 32, 37, 115])
      [ArgWord (of_int (p_pid p)), ArgStr (Some ?st), ArgStr (Some ?n)] s = Ret t" "printed s t" by (elim returnsE)
  have "returns (if p_state p = SLEEPING then procdump_pcs (getcallerpcs (ctx_ebp (p_context p) + 8) (mem t)) t else Ret t) (printed t)"
    using procdump_pcs_ok [OF keep [OF t(2)]] keep [OF t(2)] by simp
  then obtain u where u: "(if p_state p = SLEEPING then procdump_pcs (getcallerpcs (ctx_ebp (p_context p) + 8) (mem t)) t else Ret t)
      = Ret u" "printed t u" by (elim returnsE)
  have su: "printed s u" by (rule printed_trans [OF t(2) u(2)])
  have "returns (cprintf (Some [10]) [] u) (printed u)"
    using keep [OF su] by (intro cprintf_ok) simp_all
  then show ?thesis using t(1) u(1) printed_trans [OF su] by (auto simp: procdump_line_def elim!: returns_mono)
qed

lemma procdump_loop_ok:
  assumes "cpu_ok s" and "lock_free ConsLock s" and "screen_ok s" and "pids_ok s" and "\<forall>i\<in>set is. i < length (procs s)"
  shows "returns (procdump_loop is s) (printed s)"
  using assms
proof (induction "is" arbitrary: s)
  case (Cons i "is")
  show ?case
  proof (cases "p_state (procs s ! i) = UNUSED")
    case False
    have "procs s ! i \<in> set (procs s)" using Cons.prems(5) by simp
    then have "returns (procdump_line (procs s ! i) s) (printed s)"
      using Cons.prems by (intro procdump_line_ok) (simp_all add: pids_ok_def)
    then obtain t where t: "procdump_line (procs s ! i) s = Ret t" "printed s t" by (elim returnsE)
    have "returns (procdump_loop is t) (printed t)"
      using Cons.prems same_machine_ok [OF printed_sel(3) [OF t(2)]] printed_sel [OF t(2)]
      by (intro Cons.IH) (simp_all add: pids_ok_def)
    then show ?thesis using False t(1) printed_trans [OF t(2)] by (auto elim!: returns_mono)
  qed (use Cons in simp)
qed simp

lemma procdump_ok:
  assumes "cpu_ok s" and "lock_free ConsLock s" and "screen_ok s" and "pids_ok s" and "length (procs s) = NPROC"
  shows "returns (procdump s) (printed s)"
  unfolding procdump_def using assms by (intro procdump_loop_ok) simp_all

section \<open>The interrupt handler\<close>

lemma restored_acquired_same:
  fixes t :: "'a cons_state_scheme"
  shows "same_table (restored s t) t" "procs (restored s t) = procs t" "procs (acquired l t) = procs t"
  by (simp_all add: same_table_def restored_def acquired_def pushed_def)

lemma consoleintr_edits:
  assumes "cpu_ok s" and "lock_free ConsLock s" and "lock_free PtableLock s" and "screen_ok s" and "input_ok s"
    and "length (procs s) = NPROC" and "pids_ok s" and "\<forall>c\<in>set cs. 0 \<le> c \<and> c < 256"
  shows "returns (consoleintr (cs @ [- 1]) s) (\<lambda>t. same_machine t s \<and> screen_ok t \<and> input_ok t \<and>
    (committed t, pending t) = fold edit_char cs (committed s, pending s) \<and>
    (\<exists>u. same_machine u s \<and> same_table u s \<and> Ret t = (if ctrl 80 \<in> set cs then procdump u else Ret u)))"
proof -
  let ?a = "acquired ConsLock s"
  have "returns (consoleintr_loop (cs @ [- 1]) False ?a) (\<lambda>(d, t). d = (False \<or> ctrl 80 \<in> set cs) \<and> same_table t ?a \<and>
    same_machine t ?a \<and> screen_ok t \<and> input_ok t \<and> (committed t, pending t) = fold edit_char cs (committed ?a, pending ?a))"
    using assms by (intro consoleintr_loop_edits) (simp_all add: acquired_ok)
  then obtain t where t: "consoleintr_loop (cs @ [- 1]) False ?a = Ret (ctrl 80 \<in> set cs, t)" "same_machine t ?a" "screen_ok t" "input_ok t"
      "(committed t, pending t) = fold edit_char cs (committed s, pending s)" "same_table t ?a"
    by (elim returnsE) (auto split: prod.splits)
  let ?u = "restored s t"
  have rel: "release ConsLock t = Ret ?u" by (rule release_same [OF assms(1,2) t(2)])
  have m: "same_machine ?u s" using t(2) by (simp add: same_machine_def restored_def)
  have tab: "same_table ?u s" using t(6) by (simp add: same_table_def restored_acquired_same)
  have len: "length (procs ?u) = NPROC" using tab assms(6) by (metis same_table_def length_map)
  have "returns (procdump ?u) (printed ?u)"
    using same_machine_ok [OF m] assms(1,2) t(3) len pids_ok_same_table [OF tab assms(7)]
    by (intro procdump_ok) simp_all
  then obtain v where v: "procdump ?u = Ret v" "printed ?u v" by (elim returnsE)
  note pv = printed_sel [OF v(2)]
  have run: "consoleintr (cs @ [- 1]) s = (if ctrl 80 \<in> set cs then procdump ?u else Ret ?u)"
    by (simp add: consoleintr_def acquire_free assms(1,2) t(1) rel)
  show ?thesis
  proof (cases "ctrl 80 \<in> set cs")
    case True
    then show ?thesis unfolding run using v(1) pv t m tab same_machine_trans [OF pv(3) m] by auto
  next
    case False
    then show ?thesis unfolding run using t m tab by auto
  qed
qed

text \<open>
  C8: Whatever the keyboard sends, the interrupt handler of the console never panics and performs exactly
  the line editing that \<open>edit_char\<close> describes on the committed input and the pending line (erase, kill line,
  commit on newline, control-D or a full buffer, drop when full), keeps the ring and the screen cursor in
  bounds, and leaves the interrupt and lock state as it found it. When control-P was among the characters it
  ends with the listing of the processes, which is printed after the console lock has been given back: printing
  takes the lock again. (Every process number in the table is a non-negative C integer.)
\<close>

theorem console_line_editing:
  assumes "cpu_ok s" and "lock_free ConsLock s" and "lock_free PtableLock s" and "screen_ok s" and "input_ok s"
    and "length (procs s) = NPROC" and "pids_ok s" and "\<forall>c\<in>set cs. 0 \<le> c \<and> c < 256"
  shows "returns (consoleintr (cs @ [- 1]) s) (\<lambda>t. same_machine t s \<and> screen_ok t \<and> input_ok t \<and>
    (committed t, pending t) = fold edit_char cs (committed s, pending s) \<and>
    (\<exists>u. same_machine u s \<and> same_table u s \<and> Ret t = (if ctrl 80 \<in> set cs then procdump u else Ret u)))"
  by (rule consoleintr_edits [OF assms])

theorem console_line_editing_witness:
  "returns (consoleintr ([104, 105, 8, 111, 16, 13, 120] @ [- 1]) (consoleinit boot_cons)) (\<lambda>t. same_machine t (consoleinit boot_cons) \<and>
    screen_ok t \<and> input_ok t \<and> committed t = [104, 111, 10] \<and> pending t = [120] \<and> (\<exists>u. same_table u boot_cons \<and> procdump u = Ret t))"
proof -
  let ?s = "consoleinit boot_cons"
  have b: "screen_ok ?s" "input_ok ?s" "committed ?s = []" "pending ?s = []"
    by (simp_all add: consoleinit_def initlock_def boot_cons_def fs_state.defs screen_ok_def input_ok_def committed_def pending_def)
  have c: "cpu_ok ?s" "lock_free ConsLock ?s" "lock_free PtableLock ?s" "procs ?s = procs boot_proc"
    using boot_cons_ok cpu_ok_cong [of ?s boot_cons] by (simp_all add: consoleinit_def initlock_def lock_free_def)
  have p: "length (procs ?s) = NPROC" "pids_ok ?s" by (simp_all add: pids_ok_def c(4) boot_proc_def zero_proc_def kmem_state.defs)
  have "returns (consoleintr ([104, 105, 8, 111, 16, 13, 120] @ [- 1]) ?s) (\<lambda>t. same_machine t ?s \<and>
    screen_ok t \<and> input_ok t \<and>
    (committed t, pending t) = fold edit_char [104, 105, 8, 111, 16, 13, 120] (committed ?s, pending ?s) \<and>
    (\<exists>u. same_machine u ?s \<and> same_table u ?s \<and>
      Ret t = (if ctrl 80 \<in> set [104, 105, 8, 111, 16, 13, 120] then procdump u else Ret u)))"
    using b c p by (intro console_line_editing) simp_all
  then show ?thesis by (rule returns_mono) (auto simp: b c(4) edit_char_def ctrl_def Let_def same_table_def)
qed

section \<open>Printed numbers\<close>

text \<open>Reading a printed number back.\<close>

definition digit_value :: "int \<Rightarrow> int" where
  "digit_value c = (if c < 58 then c - 48 else c - 87)"

definition parse_digits :: "nat \<Rightarrow> int list \<Rightarrow> int" where
  "parse_digits base cs = foldl (\<lambda>a c. int base * a + digit_value c) 0 cs"

definition parse_signed :: "nat \<Rightarrow> int list \<Rightarrow> int" where
  "parse_signed base cs = (case cs of [] \<Rightarrow> 0
     | c # ds \<Rightarrow> if c = 45 then - parse_digits base ds else parse_digits base cs)"

lemma digit_char_value: "d < 16 \<Longrightarrow> digit_value (digit_char d) = int d"
  by (simp add: digit_value_def digit_char_def)

lemma digits_ne: "2 \<le> base \<Longrightarrow> digits base x \<noteq> []"
  by (simp add: digits.simps [of base x])

lemma digits_range: "2 \<le> base \<Longrightarrow> c \<in> set (digits base x) \<Longrightarrow> c \<ge> 48"
proof (induction base x rule: digits.induct)
  case (1 base x)
  then show ?case by (subst (asm) (2) digits.simps) (auto simp: digit_char_def split: if_splits)
qed

lemma parse_digits_rev:
  assumes "2 \<le> base" and "base \<le> 16"
  shows "parse_digits base (rev (digits base x)) = int x"
  using assms
proof (induction base x rule: digits.induct)
  case (1 base x)
  have v: "digit_value (digit_char (x mod base)) = int (x mod base)"
    using 1(2,3) by (intro digit_char_value) (simp add: less_le_trans [OF mod_less_divisor])
  show ?case
  proof (cases "x div base = 0")
    case True
    then have "x mod base = x" using 1(2) by (auto simp: div_eq_0_iff)
    then show ?thesis using 1(2) True v by (simp add: digits.simps [of base x] parse_digits_def)
  next
    case False
    then have "parse_digits base (rev (digits base (x div base))) = int (x div base)" using 1 by simp
    then have "parse_digits base (rev (digits base x)) = int base * int (x div base) + int (x mod base)"
      using 1(2) False v by (simp add: digits.simps [of base x] parse_digits_def)
    also have "\<dots> = int (base * (x div base) + x mod base)" by (simp only: of_nat_add of_nat_mult)
    finally show ?thesis by simp
  qed
qed

lemma last_digit_nonzero: "2 \<le> base \<Longrightarrow> base \<le> 16 \<Longrightarrow> 0 < x \<Longrightarrow> last (digits base x) \<noteq> 48"
proof (induction base x rule: digits.induct)
  case (1 base x)
  show ?case
  proof (cases "x div base = 0")
    case True
    then have "x mod base = x" using 1(2) by (auto simp: div_eq_0_iff)
    then show ?thesis using 1(2,4) True by (simp add: digits.simps [of base x] digit_char_def)
  next
    case False
    then show ?thesis using 1 digits_ne [of base "x div base"] by (simp add: digits.simps [of base x])
  qed
qed

lemma unat_signed_magnitude:
  "sint (w :: u32) < 0 \<Longrightarrow> int (unat (- w)) = - sint w"
  "\<not> sint (w :: u32) < 0 \<Longrightarrow> int (unat w) = sint w"
proof -
  have lo: "- (2 ^ 31) \<le> sint w" and hi: "sint w < 2 ^ 31"
    using sint_ge [of w] sint_lt [of w] by simp_all
  have "uint (word_of_int (- sint w) :: u32) = (- sint w) mod 2 ^ 32"
    by (simp only: uint_word_of_int) simp
  moreover have "(word_of_int (- sint w) :: u32) = - w" by simp
  ultimately have n: "uint (- w) = (- sint w) mod 2 ^ 32" by simp
  show "int (unat (- w)) = - sint w" if "sint w < 0"
  proof -
    have "(- sint w) mod 2 ^ 32 = - sint w" using that lo by (intro mod_pos_pos_trivial) simp_all
    then show ?thesis using n by (simp only: uint_nat)
  qed
  show "int (unat w) = sint w" if "\<not> sint w < 0"
  proof -
    have "uint w = sint w mod 2 ^ 32" by (simp add: uint_sint take_bit_eq_mod)
    also have "\<dots> = sint w" using that hi by (intro mod_pos_pos_trivial) simp_all
    finally show ?thesis by (simp only: uint_nat)
  qed
qed

text \<open>
  C39: In the bases the kernel uses, \<^verbatim>\<open>printint\<close> stays inside its array of 16 characters and prints a number
  that reads back as the value of the argument: the signed value with a sign, the unsigned value without,
  without leading zeros. The most negative integer is the one signed argument left out: there \<^verbatim>\<open>-xx\<close> is
  undefined in C.
\<close>

theorem printint_reads_back:
  assumes "base = 10 \<or> base = 16"
  shows "(if sint xx = - 2147483648 then printint_chars xx base True = UB
      else \<exists>cs. printint_chars xx base True = Ret cs \<and> length cs \<le> 16 \<and> parse_signed base cs = sint xx) \<and>
    (\<exists>cs. printint_chars xx base False = Ret cs \<and> length cs \<le> 16 \<and> parse_signed base cs = uint xx \<and> (xx = 0 \<or> hd cs \<noteq> 48))"
proof -
  have base: "2 \<le> base" "base \<le> 16" using assms by auto
  have hd: "hd (rev (digits base x)) \<noteq> 45" "rev (digits base x) \<noteq> []" for x
    using digits_ne [OF base(1), of x] digits_range [OF base(1), of "last (digits base x)" x]
    by (auto simp: hd_rev)
  have pos: "parse_signed base (rev (digits base x)) = int x" for x
    using hd [of x] parse_digits_rev [OF base, of x] by (cases "rev (digits base x)") (auto simp: parse_signed_def)
  have neg: "parse_signed base (45 # rev (digits base x)) = - int x" for x
    using parse_digits_rev [OF base, of x] by (simp add: parse_signed_def)
  have room: "length (digits base (unat (w :: u32))) \<le> 10" for w by (rule digits_room [OF assms])
  have s: "if sint xx = - 2147483648 then printint_chars xx base True = UB
      else \<exists>cs. printint_chars xx base True = Ret cs \<and> length cs \<le> 16 \<and> parse_signed base cs = sint xx"
  proof (cases "sint xx = - 2147483648")
    case True
    then show ?thesis by (simp add: printint_chars_def)
  next
    case False
    then show ?thesis
      using printint_chars_signed [OF assms False] pos [of "unat xx"] neg [of "unat (- xx)"] unat_signed_magnitude [of xx]
        room [of xx] room [of "- xx"] by (cases "sint xx < 0") simp_all
  qed
  have "\<exists>cs. printint_chars xx base False = Ret cs \<and> length cs \<le> 16 \<and> parse_signed base cs = uint xx \<and> (xx = 0 \<or> hd cs \<noteq> 48)"
    using printint_chars_unsigned [OF assms, of xx] pos [of "unat xx"] room [of xx] last_digit_nonzero [OF base, of "unat xx"]
    by (auto simp: hd_rev unat_gt_0)
  with s show ?thesis by blast
qed

theorem printint_reads_back_witness:
  "(\<exists>cs. printint_chars 0x80000001 10 True = Ret cs \<and> parse_signed 10 cs = - 2147483647) \<and>
   (\<exists>cs. printint_chars 0xbeef 16 False = Ret cs \<and> parse_signed 16 cs = 0xbeef \<and> hd cs \<noteq> 48)"
proof -
  have "sint (0x80000001 :: u32) = - 2147483647" by code_simp
  then show ?thesis using printint_reads_back [of 10 "0x80000001"] printint_reads_back [of 16 "0xbeef"] by auto
qed

end
