(* ===== verification/Pipe.thy ===== *)
theory Pipe
  imports Console
begin

text \<open>
  Pipes, \<^verbatim>\<open>pipe.c\<close> (\<^verbatim>\<open>pipealloc\<close> is in theory \<open>File\<close>, with the file table it fills). A pipe is named by the
  address of the page that holds it. The counters \<^verbatim>\<open>nread\<close> and \<^verbatim>\<open>nwrite\<close> are 32-bit words that only grow and
  wrap around; a position in the buffer is a counter modulo \<^verbatim>\<open>PIPESIZE\<close>. The list \<open>ws\<close> of an operation
  holds what the rest of the system does each time the operation goes to sleep.
\<close>

section \<open>State\<close>

abbreviation (input) PIPESIZE :: nat where "PIPESIZE \<equiv> 512"

record pipe =
  pipe_data :: "u8 list"
  nread :: u32
  nwrite :: u32
  readopen :: bool
  writeopen :: bool

record pipe_state = cons_state +
  pipes :: "u32 \<Rightarrow> pipe"

definition upd_pipe :: "u32 \<Rightarrow> (pipe \<Rightarrow> pipe) \<Rightarrow> 'a pipe_state_scheme \<Rightarrow> 'a pipe_state_scheme" where
  "upd_pipe p f s = s\<lparr>pipes := (pipes s)(p := f (pipes s p))\<rparr>"

section \<open>The ring buffer\<close>

definition pipe_full :: "pipe \<Rightarrow> bool" where
  "pipe_full p \<longleftrightarrow> nwrite p = nread p + of_nat PIPESIZE"

definition pipe_empty :: "pipe \<Rightarrow> bool" where
  "pipe_empty p \<longleftrightarrow> nread p = nwrite p"

definition pipe_put :: "u8 \<Rightarrow> pipe \<Rightarrow> pipe" where
  "pipe_put b p = p\<lparr>pipe_data := (pipe_data p)[unat (nwrite p) mod PIPESIZE := b], nwrite := nwrite p + 1\<rparr>"

definition pipe_get :: "pipe \<Rightarrow> u8 \<times> pipe" where
  "pipe_get p = (pipe_data p ! (unat (nread p) mod PIPESIZE), p\<lparr>nread := nread p + 1\<rparr>)"

section \<open>Operations\<close>

definition pipeclose :: "u32 \<Rightarrow> bool \<Rightarrow> 'a pipe_state_scheme \<Rightarrow> 'a pipe_state_scheme outcome" where
  "pipeclose p writable s =
     bindO (acquire (PipeLock p) s) (\<lambda>s.
     bindO (if writable then wakeup (ChanPipeRead p) (upd_pipe p (\<lambda>x. x\<lparr>writeopen := False\<rparr>) s)
            else wakeup (ChanPipeWrite p) (upd_pipe p (\<lambda>x. x\<lparr>readopen := False\<rparr>) s)) (\<lambda>s.
       if \<not> readopen (pipes s p) \<and> \<not> writeopen (pipes s p)
       then bindO (release (PipeLock p) s) (\<lambda>s. kfree p s)
       else release (PipeLock p) s))"

text \<open>The inner loop of \<^verbatim>\<open>pipewrite\<close>; \<open>None\<close> when it gives up with -1.\<close>

primrec pipewrite_wait :: "'a pipe_state_scheme wakes \<Rightarrow> u32 \<Rightarrow> 'a pipe_state_scheme \<Rightarrow>
    ('a pipe_state_scheme wakes option \<times> 'a pipe_state_scheme) outcome" where
  "pipewrite_wait [] p s =
     (if pipe_full (pipes s p) then
        if \<not> readopen (pipes s p) then Ret (None, s)
        else bindO (curproc s) (\<lambda>(c, s). if p_killed (procs s ! c) then Ret (None, s) else Blocked)
      else Ret (Some [], s))"
| "pipewrite_wait (w # ws) p s =
     (if pipe_full (pipes s p) then
        if \<not> readopen (pipes s p) then Ret (None, s)
        else bindO (curproc s) (\<lambda>(c, s).
          if p_killed (procs s ! c) then Ret (None, s)
          else
            bindO (wakeup (ChanPipeRead p) s) (\<lambda>s.
            bindO (sleep w (ChanPipeWrite p) (Some (PipeLock p)) s) (\<lambda>s. pipewrite_wait ws p s)))
      else Ret (Some (w # ws), s))"

primrec pipewrite_loop :: "nat \<Rightarrow> nat \<Rightarrow> 'a pipe_state_scheme wakes \<Rightarrow> u32 \<Rightarrow> 'a pipe_state_scheme source \<Rightarrow>
    'a pipe_state_scheme \<Rightarrow> (bool \<times> 'a pipe_state_scheme) outcome" where
  "pipewrite_loop 0 i ws p get s = Ret (True, s)"
| "pipewrite_loop (Suc n) i ws p get s =
     bindO (pipewrite_wait ws p s) (\<lambda>(ws, s).
       case ws of None \<Rightarrow> Ret (False, s)
       | Some ws \<Rightarrow>
           bindO (get i 1 s) (\<lambda>(bs, s).
             pipewrite_loop n (i + 1) ws p get (upd_pipe p (pipe_put (bs ! 0)) s)))"

definition pipewrite :: "'a pipe_state_scheme wakes \<Rightarrow> u32 \<Rightarrow> 'a pipe_state_scheme source \<Rightarrow> int \<Rightarrow>
    'a pipe_state_scheme \<Rightarrow> (int \<times> 'a pipe_state_scheme) outcome" where
  "pipewrite ws p get n s =
     bindO (acquire (PipeLock p) s) (\<lambda>s.
     bindO (pipewrite_loop (nat n) 0 ws p get s) (\<lambda>(ok, s).
       if ok then
         bindO (wakeup (ChanPipeRead p) s) (\<lambda>s.
         bindO (release (PipeLock p) s) (\<lambda>s. Ret (n, s)))
       else bindO (release (PipeLock p) s) (\<lambda>s. Ret (- 1, s))))"

primrec piperead_wait :: "'a pipe_state_scheme wakes \<Rightarrow> u32 \<Rightarrow> 'a pipe_state_scheme \<Rightarrow>
    (bool \<times> 'a pipe_state_scheme) outcome" where
  "piperead_wait [] p s =
     (if pipe_empty (pipes s p) \<and> writeopen (pipes s p)
      then bindO (curproc s) (\<lambda>(c, s). if p_killed (procs s ! c) then Ret (False, s) else Blocked)
      else Ret (True, s))"
| "piperead_wait (w # ws) p s =
     (if pipe_empty (pipes s p) \<and> writeopen (pipes s p)
      then bindO (curproc s) (\<lambda>(c, s).
        if p_killed (procs s ! c) then Ret (False, s)
        else bindO (sleep w (ChanPipeRead p) (Some (PipeLock p)) s) (\<lambda>s. piperead_wait ws p s))
      else Ret (True, s))"

primrec piperead_loop :: "nat \<Rightarrow> nat \<Rightarrow> u32 \<Rightarrow> 'a pipe_state_scheme sink \<Rightarrow> 'a pipe_state_scheme \<Rightarrow>
    (nat \<times> 'a pipe_state_scheme) outcome" where
  "piperead_loop 0 i p put s = Ret (i, s)"
| "piperead_loop (Suc n) i p put s =
     (if pipe_empty (pipes s p) then Ret (i, s)
      else
        let (b, x) = pipe_get (pipes s p) in
        bindO (put i [b] (upd_pipe p (\<lambda>_. x) s)) (\<lambda>s. piperead_loop n (i + 1) p put s))"

definition piperead :: "'a pipe_state_scheme wakes \<Rightarrow> u32 \<Rightarrow> 'a pipe_state_scheme sink \<Rightarrow> int \<Rightarrow>
    'a pipe_state_scheme \<Rightarrow> (int \<times> 'a pipe_state_scheme) outcome" where
  "piperead ws p put n s =
     bindO (acquire (PipeLock p) s) (\<lambda>s.
     bindO (piperead_wait ws p s) (\<lambda>(ok, s).
       if \<not> ok then bindO (release (PipeLock p) s) (\<lambda>s. Ret (- 1, s))
       else
         bindO (piperead_loop (nat n) 0 p put s) (\<lambda>(i, s).
         bindO (wakeup (ChanPipeWrite p) s) (\<lambda>s.
         bindO (release (PipeLock p) s) (\<lambda>s. Ret (int i, s))))))"

section \<open>The ring buffer is a bounded queue\<close>

definition pipe_ok :: "pipe \<Rightarrow> bool" where
  "pipe_ok p \<longleftrightarrow> length (pipe_data p) = PIPESIZE \<and> unat (nwrite p - nread p) \<le> PIPESIZE"

definition pipe_contents :: "pipe \<Rightarrow> u8 list" where
  "pipe_contents p = ring_list PIPESIZE (pipe_data p) (nread p) (unat (nwrite p - nread p))"

lemma length_pipe_contents [simp]: "length (pipe_contents p) = unat (nwrite p - nread p)"
  by (simp add: pipe_contents_def)

lemma pipe_full_iff: "pipe_full p \<longleftrightarrow> unat (nwrite p - nread p) = PIPESIZE"
proof
  assume "pipe_full p"
  then have "nwrite p - nread p = 512" by (simp add: pipe_full_def)
  then show "unat (nwrite p - nread p) = PIPESIZE" by simp
next
  assume "unat (nwrite p - nread p) = PIPESIZE"
  then have "nwrite p - nread p = of_nat PIPESIZE" by (simp add: word_unat_eq_iff)
  then show "pipe_full p" by (simp add: pipe_full_def algebra_simps)
qed

lemma pipe_put_law:
  assumes "pipe_ok p" and "\<not> pipe_full p"
  shows "pipe_ok (pipe_put b p) \<and> pipe_contents (pipe_put b p) = pipe_contents p @ [b]"
proof -
  let ?n = "unat (nwrite p - nread p)"
  have n: "?n < PIPESIZE" using assms by (simp add: pipe_ok_def pipe_full_iff)
  then have len: "unat (nwrite p + 1 - nread p) = Suc ?n" by (intro u32_diff_add1) simp
  have "nwrite p = nread p + of_nat ?n" by simp
  then have "ring_list PIPESIZE ((pipe_data p)[unat (nwrite p) mod PIPESIZE := b]) (nread p) (Suc ?n)
      = pipe_contents p @ [b]"
    using ring_list_snoc [of PIPESIZE ?n "pipe_data p" "nread p" b] assms(1) n
    by (simp add: pipe_ok_def pipe_contents_def)
  then show ?thesis using assms(1) n by (simp add: pipe_ok_def pipe_contents_def pipe_put_def len)
qed

lemma pipe_get_law:
  assumes "pipe_ok p" and "\<not> pipe_empty p"
  shows "pipe_ok (snd (pipe_get p)) \<and>
    pipe_contents p = fst (pipe_get p) # pipe_contents (snd (pipe_get p))"
proof -
  have ne: "nwrite p \<noteq> nread p" using assms(2) by (simp add: pipe_empty_def)
  then have "unat (nwrite p - nread p) \<noteq> 0" by (simp add: unat_eq_0)
  then have "unat (nwrite p - nread p) = Suc (unat (nwrite p - (nread p + 1)))"
    using u32_diff_sub1' [OF ne] by simp
  then show ?thesis
    using assms(1) by (simp add: pipe_ok_def pipe_get_def pipe_contents_def ring_list_Cons)
qed

interpretation ring: byte_queue pipe_put pipe_get pipe_full pipe_empty pipe_ok pipe_contents PIPESIZE
proof
  fix p :: pipe and b :: u8
  assume ok: "pipe_ok p"
  show "length (pipe_contents p) \<le> PIPESIZE" using ok by (simp add: pipe_ok_def)
  show "pipe_full p \<longleftrightarrow> length (pipe_contents p) = PIPESIZE" by (simp add: pipe_full_iff)
  show "pipe_empty p \<longleftrightarrow> pipe_contents p = []"
    using length_pipe_contents [of p] by (auto simp: pipe_empty_def unat_eq_0 simp del: length_pipe_contents)
  show "pipe_ok (pipe_put b p) \<and> pipe_contents (pipe_put b p) = pipe_contents p @ [b]" if "\<not> pipe_full p"
    by (rule pipe_put_law [OF ok that])
  show "pipe_ok (snd (pipe_get p)) \<and> pipe_contents p = fst (pipe_get p) # pipe_contents (snd (pipe_get p))"
    if "\<not> pipe_empty p"
    by (rule pipe_get_law [OF ok that])
qed

section \<open>What the operations do\<close>

lemma acquired_pipe_sel [simp]:
  "pipes (acquired l s) = pipes s" "pipes (wakeup1 ch s) = pipes s"
  by (simp_all add: acquired_def pushed_def wakeup1_def)

lemma upd_pipe_sel [simp]:
  "pipes (upd_pipe p f s) = (pipes s)(p := f (pipes s p))" "lapicid (upd_pipe p f s) = lapicid s"
  "eflags (upd_pipe p f s) = eflags s" "cpus (upd_pipe p f s) = cpus s" "locks (upd_pipe p f s) = locks s"
  "lock_free l (upd_pipe p f s) = lock_free l s" "procs (upd_pipe p f s) = procs s"
  by (simp_all add: upd_pipe_def lock_free_def)

lemma upd_pipe_ok [simp]: "cpu_ok (upd_pipe p f s) = cpu_ok s"
  by (rule cpu_ok_cong) simp_all

lemma pipewrite_wait_room: "\<not> pipe_full (pipes s p) \<Longrightarrow> pipewrite_wait ws p s = Ret (Some ws, s)"
  by (cases ws) simp_all

lemma piperead_wait_data: "\<not> pipe_empty (pipes s p) \<or> \<not> writeopen (pipes s p) \<Longrightarrow> piperead_wait ws p s = Ret (True, s)"
  by (cases ws) auto

lemma user_bytes_cong: "cr3 t = cr3 s \<Longrightarrow> mem t = mem s \<Longrightarrow> user_bytes va bs t = user_bytes va bs s"
  by (simp add: user_bytes_def translate_cong [of t s])

lemma uget_bytes:
  assumes "user_bytes src bs s" and "i < length bs"
  shows "uget src i 1 s = Ret ([bs ! i], s)"
proof -
  obtain a where "translate False (src + of_nat i) s = Some a" "mem s a = bs ! i" using assms by (auto simp: user_bytes_def)
  then show ?thesis by (simp add: uget_def uload8_mapped)
qed

lemma pipewrite_loop_room:
  assumes "pipe_ok (pipes s p)" and "n = length bs - i" and "i \<le> length bs" and "user_bytes src bs s"
    and "length (pipe_contents (pipes s p)) + n \<le> PIPESIZE"
  shows "pipewrite_loop n i ws p (uget src) s = Ret (True, upd_pipe p (ring.put_all (drop i bs)) s)"
  using assms
proof (induction n arbitrary: i s)
  case 0
  then show ?case by (simp add: upd_pipe_def)
next
  case (Suc n)
  have i: "i < length bs" using Suc.prems(2) by simp
  then have bs: "drop i bs = bs ! i # drop (Suc i) bs" by (simp add: Cons_nth_drop_Suc)
  have nf: "\<not> pipe_full (pipes s p)" using ring.full_iff [OF Suc.prems(1)] Suc.prems(5) by simp
  note law = pipe_put_law [OF Suc.prems(1) nf, of "bs ! i"]
  let ?s = "upd_pipe p (pipe_put (bs ! i)) s"
  have "user_bytes src bs ?s = user_bytes src bs s" by (rule user_bytes_cong) (simp_all add: upd_pipe_def)
  then have "pipewrite_loop n (Suc i) ws p (uget src) ?s = Ret (True, upd_pipe p (ring.put_all (drop (Suc i) bs)) ?s)"
    using law Suc.prems i by (intro Suc.IH) (simp_all del: length_pipe_contents)
  moreover have "upd_pipe p (ring.put_all (drop (Suc i) bs)) ?s = upd_pipe p (ring.put_all (drop i bs)) s"
    by (simp add: upd_pipe_def bs)
  ultimately show ?case
    using pipewrite_wait_room [OF nf, of ws] uget_bytes [OF Suc.prems(4) i] by simp
qed

lemma pipewrite_room:
  assumes "cpu_ok s" and "lock_free (PipeLock p) s" and "lock_free PtableLock s"
    and "pipe_ok (pipes s p)" and "length (pipe_contents (pipes s p)) + length bs \<le> PIPESIZE" and "user_bytes src bs s"
  shows "pipewrite ws p (uget src) (int (length bs)) s
    = Ret (int (length bs), wakeup1 (ChanPipeRead p) (upd_pipe p (ring.put_all bs) s))"
proof -
  let ?a = "acquired (PipeLock p) s"
  let ?t = "upd_pipe p (ring.put_all bs) ?a"
  have "user_bytes src bs ?a = user_bytes src bs s" by (rule user_bytes_cong) (simp_all add: acquired_def pushed_def)
  then have "pipewrite_loop (length bs) 0 ws p (uget src) ?a = Ret (True, ?t)"
    using pipewrite_loop_room [of ?a p "length bs" bs 0 src ws] assms(4-6) by simp
  moreover have "wakeup (ChanPipeRead p) ?t = Ret (wakeup1 (ChanPipeRead p) ?t)"
    using assms(1,3) by (intro wakeup_eq) (simp_all add: acquired_ok)
  moreover have "release (PipeLock p) (wakeup1 (ChanPipeRead p) ?t) = Ret (restored s (wakeup1 (ChanPipeRead p) ?t))"
    by (rule release_acquired [OF assms(1,2)]) simp_all
  moreover have "restored s (wakeup1 (ChanPipeRead p) ?t) = wakeup1 (ChanPipeRead p) (upd_pipe p (ring.put_all bs) s)"
    by (simp add: restored_def wakeup1_def upd_pipe_def acquired_def pushed_def)
  ultimately show ?thesis
    using assms(1,2) by (simp add: pipewrite_def acquire_free)
qed

text \<open>
  The bytes \<open>c\<close> of the pipe go to the reader's buffer, whose physical bytes are \<open>pa i, pa (i + 1), \<dots>\<close>; no other
  byte of the memory changes.
\<close>

definition delivered :: "u8 list \<Rightarrow> nat \<Rightarrow> (nat \<Rightarrow> u32) \<Rightarrow> mem \<Rightarrow> mem \<Rightarrow> bool" where
  "delivered c i pa m m' \<longleftrightarrow> (\<forall>j<length c. m' (pa (i + j)) = c ! j) \<and> (\<forall>a. a \<notin> pa ` {i..<i + length c} \<longrightarrow> m' a = m a)"

lemma delivered_take:
  "delivered (take n c) 0 pa m m' \<longleftrightarrow> (\<forall>i<min n (length c). m' (pa i) = c ! i) \<and>
     (\<forall>a. a \<notin> pa ` {..<min n (length c)} \<longrightarrow> m' a = m a)"
  by (auto simp: delivered_def atLeast0LessThan min.commute)

lemma delivered_Cons:
  assumes "delivered c (Suc i) pa (m(pa i := b)) m'" and "inj_on pa {..<i + Suc (length c)}"
  shows "delivered (b # c) i pa m m'"
proof -
  have d: "\<And>j. j < length c \<Longrightarrow> m' (pa (Suc i + j)) = c ! j"
      "\<And>a. a \<notin> pa ` {Suc i..<Suc i + length c} \<Longrightarrow> m' a = (m(pa i := b)) a"
    using assms(1) unfolding delivered_def by blast+
  have "pa i \<notin> pa ` {Suc i..<Suc i + length c}"
  proof
    assume "pa i \<in> pa ` {Suc i..<Suc i + length c}"
    then obtain j where "j \<in> {Suc i..<Suc i + length c}" "pa i = pa j" by blast
    then show False using inj_onD [OF assms(2), of i j] by auto
  qed
  from d(2) [OF this] have "m' (pa i) = b" by simp
  moreover have "m' a = m a" if "a \<notin> pa ` {i..<i + Suc (length c)}" for a
  proof -
    have "a \<noteq> pa i" "a \<notin> pa ` {Suc i..<Suc i + length c}" using that by force+
    then show ?thesis using d(2) [of a] by simp
  qed
  moreover have "m' (pa (i + j)) = (b # c) ! j" if "j < Suc (length c)" for j
    using that d(1) [of "j - 1"] calculation(1) by (cases j) auto
  ultimately show ?thesis by (simp add: delivered_def)
qed

lemma user_bufferD:
  fixes s t :: "'a proc_state_scheme"
  assumes "user_buffer va n pa s" and "cr3 t = cr3 s" and "\<forall>a. a \<notin> pa ` {..<n} \<longrightarrow> mem t a = mem s a" and "i < n"
  shows "translate True (va + of_nat i) t = Some (pa i)"
  using assms(1) [unfolded user_buffer_def, THEN conjunct2, THEN spec, THEN mp, OF assms(2), THEN mp, OF assms(3)] assms(4) by simp

lemma piperead_loop_takes:
  fixes s s0 :: "'a pipe_state_scheme"
  assumes "user_buffer dst N pa s0" and "cr3 s = cr3 s0" and "\<forall>a. a \<notin> pa ` {..<N} \<longrightarrow> mem s a = mem s0 a"
    and "i + n \<le> N" and "pipe_ok (pipes s p)"
  shows "returns (piperead_loop n i p (uput dst) s) (\<lambda>(r, s').
    r = i + min n (length (pipe_contents (pipes s p))) \<and>
    delivered (take n (pipe_contents (pipes s p))) i pa (mem s) (mem s') \<and>
    pipe_ok (pipes s' p) \<and> pipe_contents (pipes s' p) = drop n (pipe_contents (pipes s p)) \<and> same_machine s' s)"
  using assms(2-)
proof (induction n arbitrary: i s)
  case 0
  then show ?case by (simp add: delivered_def)
next
  case (Suc n)
  show ?case
  proof (cases "pipe_empty (pipes s p)")
    case True
    then have "pipe_contents (pipes s p) = []" using ring.empty_iff [OF Suc.prems(4)] by simp
    then show ?thesis using True Suc.prems(4) by (simp add: delivered_def del: length_pipe_contents)
  next
    case False
    obtain b x where g: "pipe_get (pipes s p) = (b, x)" by force
    have law: "pipe_ok x" "pipe_contents (pipes s p) = b # pipe_contents x"
      using pipe_get_law [OF Suc.prems(4) False] g by simp_all
    let ?s = "upd_pipe p (\<lambda>_. x) s"
    let ?t = "?s\<lparr>mem := (mem ?s)(pa i := b)\<rparr>"
    have i: "i < N" using Suc.prems(3) by simp
    have sel: "mem ?s = mem s" "cr3 ?s = cr3 s" by (simp_all add: upd_pipe_def)
    have "cr3 ?s = cr3 s0" "\<forall>a. a \<notin> pa ` {..<N} \<longrightarrow> mem ?s a = mem s0 a" using Suc.prems(1,2) sel by simp_all
    then have "translate True (dst + of_nat i) ?s = Some (pa i)" by (rule user_bufferD [OF assms(1) _ _ i])
    then have put: "uput dst i [b] ?s = Ret ?t" by (simp add: uput_def ustore8_mapped)
    have tt: "pipes ?t p = x" "same_machine ?t s" "mem ?t = (mem s)(pa i := b)" by (simp_all add: upd_pipe_def same_machine_def)
    have rest: "returns (piperead_loop n (i + 1) p (uput dst) ?t) (\<lambda>(r, s').
      r = (i + 1) + min n (length (pipe_contents (pipes ?t p))) \<and>
      delivered (take n (pipe_contents (pipes ?t p))) (i + 1) pa (mem ?t) (mem s') \<and>
      pipe_ok (pipes s' p) \<and> pipe_contents (pipes s' p) = drop n (pipe_contents (pipes ?t p)) \<and> same_machine s' ?t)"
    proof (rule Suc.IH)
      show "\<forall>a. a \<notin> pa ` {..<N} \<longrightarrow> mem ?t a = mem s0 a" using Suc.prems(2) i unfolding tt(3) by auto
      show "cr3 ?t = cr3 s0" using Suc.prems(1) sel(2) by simp
      show "i + 1 + n \<le> N" using Suc.prems(3) by simp
      show "pipe_ok (pipes ?t p)" unfolding tt(1) by (rule law(1))
    qed
    have inj: "inj_on pa {..<i + Suc (length (take n (pipe_contents x)))}"
    proof (rule inj_on_subset)
      show "inj_on pa {..<N}" using assms(1) by (simp add: user_buffer_def)
      show "{..<i + Suc (length (take n (pipe_contents x)))} \<subseteq> {..<N}" using Suc.prems(3) by (auto simp del: length_pipe_contents)
    qed
    have step: "piperead_loop (Suc n) i p (uput dst) s = piperead_loop n (i + 1) p (uput dst) ?t"
      using False g put by simp
    show ?thesis unfolding step
    proof (rule returns_mono [OF rest], clarify)
      fix r and s' :: "'a pipe_state_scheme"
      assume "delivered (take n (pipe_contents (pipes ?t p))) (i + 1) pa (mem ?t) (mem s')"
      then have d: "delivered (b # take n (pipe_contents x)) i pa (mem s) (mem s')"
        unfolding tt by (intro delivered_Cons [OF _ inj]) simp
      assume "same_machine s' ?t" "pipe_ok (pipes s' p)" "pipe_contents (pipes s' p) = drop n (pipe_contents (pipes ?t p))"
      then show "(i + 1) + min n (length (pipe_contents (pipes ?t p))) = i + min (Suc n) (length (pipe_contents (pipes s p))) \<and>
        delivered (take (Suc n) (pipe_contents (pipes s p))) i pa (mem s) (mem s') \<and> pipe_ok (pipes s' p) \<and>
        pipe_contents (pipes s' p) = drop (Suc n) (pipe_contents (pipes s p)) \<and> same_machine s' s"
        using d same_machine_trans [OF _ tt(2)] unfolding law(2) tt(1) by (simp del: length_pipe_contents)
    qed
  qed
qed

lemma piperead_takes:
  assumes "user_buffer dst n pa s" and "cpu_ok s" and "lock_free (PipeLock p) s" and "lock_free PtableLock s"
    and "pipe_ok (pipes s p)" and "pipe_contents (pipes s p) \<noteq> [] \<or> \<not> writeopen (pipes s p)"
  shows "returns (piperead ws p (uput dst) (int n) s) (\<lambda>(r, s').
    r = int (min n (length (pipe_contents (pipes s p)))) \<and>
    delivered (take n (pipe_contents (pipes s p))) 0 pa (mem s) (mem s') \<and>
    pipe_ok (pipes s' p) \<and> pipe_contents (pipes s' p) = drop n (pipe_contents (pipes s p)) \<and> same_machine s' s)"
proof -
  let ?a = "acquired (PipeLock p) s"
  have w: "piperead_wait ws p ?a = Ret (True, ?a)"
    using assms(6) ring.empty_iff [OF assms(5)] by (intro piperead_wait_data) simp
  have sel: "mem ?a = mem s" "cr3 ?a = cr3 s" by (simp_all add: acquired_def pushed_def)
  have "returns (piperead_loop n 0 p (uput dst) ?a) (\<lambda>(r, s').
    r = 0 + min n (length (pipe_contents (pipes ?a p))) \<and>
    delivered (take n (pipe_contents (pipes ?a p))) 0 pa (mem ?a) (mem s') \<and>
    pipe_ok (pipes s' p) \<and> pipe_contents (pipes s' p) = drop n (pipe_contents (pipes ?a p)) \<and> same_machine s' ?a)"
    using assms(5) sel by (intro piperead_loop_takes [OF assms(1)]) simp_all
  then obtain r t where t: "piperead_loop n 0 p (uput dst) ?a = Ret (r, t)"
      "r = min n (length (pipe_contents (pipes s p)))" "delivered (take n (pipe_contents (pipes s p))) 0 pa (mem s) (mem t)"
      "pipe_ok (pipes t p)" "pipe_contents (pipes t p) = drop n (pipe_contents (pipes s p))" "same_machine t ?a"
    using sel by (auto simp: returns_iff simp del: length_pipe_contents)
  let ?w = "wakeup1 (ChanPipeWrite p) t"
  have okt: "cpu_ok t" "lock_free PtableLock t"
    using same_machine_ok [OF t(6)] acquired_ok [OF assms(2), of "PipeLock p"] assms(4) by (simp_all add: lock_free_def acquired_def)
  then have "wakeup (ChanPipeWrite p) t = Ret ?w" by (intro wakeup_eq)
  moreover have "same_machine ?w ?a" using t(6) by (simp add: same_machine_def)
  then have "release (PipeLock p) ?w = Ret (restored s ?w)" by (rule release_same [OF assms(2,3)])
  moreover have "pipes (restored s ?w) = pipes t" "mem (restored s ?w) = mem t" by (simp_all add: restored_def wakeup1_def)
  moreover have "same_machine (restored s ?w) s" using t(6) by (simp add: restored_def same_machine_def)
  ultimately show ?thesis
    using assms(2,3) t(1-5) w by (simp add: piperead_def acquire_free del: length_pipe_contents)
qed

section \<open>Properties\<close>


text \<open>The state at boot, for concrete runs.\<close>

definition boot_pipe :: pipe_state where
  "boot_pipe = cons_state.extend boot_cons 
     \<lparr>pipes = (\<lambda>_. \<lparr>pipe_data = replicate PIPESIZE 0, nread = 0, nwrite = 0, readopen = True, writeopen = True\<rparr>)\<rparr>"

lemma boot_pipe_ok [simp]:
  "cpu_ok boot_pipe" "lock_free l boot_pipe" "me boot_pipe = 0" "procs boot_pipe = procs boot_proc"
  using boot_proc_ok(1) cpu_ok_cong [of boot_pipe boot_proc]
  by (simp_all add: boot_pipe_def boot_proc_def boot_kmem_def boot_cpu_def kmem_state.defs boot_sleep_def proc_state.defs boot_bio_def sleep_state.defs boot_log_def bio_state.defs boot_fs_def log_state.defs boot_cons_def fs_state.defs cons_state.defs cpu_ok_def lock_free_def me_def find_index_def readeflags_IF_def)

text \<open>
  A page table that maps the user page at \<^verbatim>\<open>0x1000\<close> for reading and writing, to the frame at \<^verbatim>\<open>0x2000\<close>; the page starts with the
  string \<^verbatim>\<open>hi\<close>.
\<close>

definition pipe_mem :: mem where
  "pipe_mem = (store32 (store32 (\<lambda>_. 0) 0x80000000 0x1007) 0x80001004 0x2007)(0x80002000 := 104, 0x80002001 := 105)"

definition pipe_user :: pipe_state where
  "pipe_user = boot_pipe\<lparr>cr3 := 0, mem := pipe_mem\<rparr>"

lemma pipe_user_translate:
  assumes "cr3 t = 0" and "\<forall>a. a < 0x80002000 \<longrightarrow> mem t a = pipe_mem a"
  shows "translate wr 0x1000 t = Some 0x80002000" "translate wr 0x1001 t = Some 0x80002001"
    "translate wr 0x1100 t = Some 0x80002100" "translate wr 0x1101 t = Some 0x80002101"
proof -
  have e: "load32 (mem t) 0x80000000 = 0x1007" "load32 (mem t) 0x80001004 = 0x2007"
    by (simp_all add: load32_def assms(2) pipe_mem_def store32_def)
  show "translate wr 0x1000 t = Some 0x80002000" "translate wr 0x1001 t = Some 0x80002001"
    "translate wr 0x1100 t = Some 0x80002100" "translate wr 0x1101 t = Some 0x80002101"
    unfolding translate_def assms(1) by (simp_all add: e PDX_def PTX_def P2V_def PTE_ADDR_def)
qed

lemma pipe_user_memory:
  "user_bytes 0x1000 [104, 105] pipe_user" "cr3 s = 0 \<Longrightarrow> mem s = pipe_mem \<Longrightarrow> user_buffer 0x1100 1 (\<lambda>i. 0x80002100 + of_nat i) s"
proof -
  have m: "cr3 pipe_user = 0" "mem pipe_user = pipe_mem" by (simp_all add: pipe_user_def)
  note tr = pipe_user_translate [OF m(1), unfolded m(2)]
  show "user_bytes 0x1000 [104, 105] pipe_user"
    using tr by (simp add: user_bytes_Cons m(2)) (simp add: user_bytes_def pipe_mem_def)
  show "user_buffer 0x1100 1 (\<lambda>i. 0x80002100 + of_nat i) s" if "cr3 s = 0" "mem s = pipe_mem"
  proof -
    have "translate True (0x1100 + of_nat i) t = Some (0x80002100 + of_nat i)"
      if t: "cr3 t = 0" "\<forall>a. a \<notin> (\<lambda>i. 0x80002100 + of_nat i) ` {..<1 :: nat} \<longrightarrow> mem t a = pipe_mem a" "i < (1 :: nat)"
      for i and t :: "'a proc_state_scheme"
    proof -
      have "a \<notin> (\<lambda>i. 0x80002100 + of_nat i) ` {..<1 :: nat}" if "a < 0x80002000" for a :: u32
        using that by (auto simp: lessThan_Suc)
      then show ?thesis using t pipe_user_translate(3) [of t True] by simp
    qed
    moreover have "inj_on (\<lambda>i. 0x80002100 + of_nat i :: u32) {..<1 :: nat}" by (rule inj_onI) simp
    ultimately show ?thesis unfolding user_buffer_def that by blast
  qed
qed


end
