(* ===== verification/File.thy ===== *)
theory File
  imports Pipe
begin

text \<open>
  The open-file table, \<^verbatim>\<open>file.c\<close>, with \<^verbatim>\<open>pipealloc\<close> of \<^verbatim>\<open>pipe.c\<close>. A pointer to a \<^verbatim>\<open>struct file\<close> is its index.
\<close>

section \<open>State\<close>

datatype fdtype = FD_NONE | FD_PIPE | FD_INODE

record kfile =
  f_type :: fdtype
  f_ref :: int
  f_readable :: bool
  f_writable :: bool
  f_pipe :: u32
  f_ip :: nat
  f_off :: u32

record file_state = pipe_state +
  files :: "kfile list"

definition upd_file :: "nat \<Rightarrow> (kfile \<Rightarrow> kfile) \<Rightarrow> 'a file_state_scheme \<Rightarrow> 'a file_state_scheme" where
  "upd_file i f s = s\<lparr>files := (files s)[i := f (files s ! i)]\<rparr>"

section \<open>Operations\<close>

definition fileinit :: "'a file_state_scheme \<Rightarrow> 'a file_state_scheme" where
  "fileinit s = initlock FtableLock ''ftable'' s"

definition filealloc :: "'a file_state_scheme \<Rightarrow> (nat option \<times> 'a file_state_scheme) outcome" where
  "filealloc s =
     locked FtableLock (\<lambda>s.
       case find_index (\<lambda>f. f_ref f = 0) (files s) of
         Some i \<Rightarrow> Ret (Some i, upd_file i (\<lambda>f. f\<lparr>f_ref := 1\<rparr>) s)
       | None \<Rightarrow> Ret (None, s)) s"

definition filedup :: "nat \<Rightarrow> 'a file_state_scheme \<Rightarrow> (nat \<times> 'a file_state_scheme) outcome" where
  "filedup f s =
     locked FtableLock (\<lambda>s.
       if f_ref (files s ! f) < 1 then Panic ''filedup''
       else Ret (f, upd_file f (\<lambda>x. x\<lparr>f_ref := f_ref x + 1\<rparr>) s)) s"

definition fileclose :: "nat \<Rightarrow> 'a file_state_scheme \<Rightarrow> 'a file_state_scheme outcome" where
  "fileclose f s =
     bindO (locked FtableLock (\<lambda>s.
         if f_ref (files s ! f) < 1 then Panic ''fileclose''
         else
           let s = upd_file f (\<lambda>x. x\<lparr>f_ref := f_ref x - 1\<rparr>) s in
           if f_ref (files s ! f) > 0 then Ret (None, s)
           else Ret (Some (files s ! f), upd_file f (\<lambda>x. x\<lparr>f_ref := 0, f_type := FD_NONE\<rparr>) s)) s)
       (\<lambda>(ff, s).
     case ff of None \<Rightarrow> Ret s
     | Some ff \<Rightarrow>
         (case f_type ff of
            FD_PIPE \<Rightarrow> pipeclose (f_pipe ff) (f_writable ff) s
          | FD_INODE \<Rightarrow>
              bindO (begin_op [] s) (\<lambda>s.
              bindO (iput (f_ip ff) s) (\<lambda>s.
              end_op s))
          | FD_NONE \<Rightarrow> Ret s))"

definition filestat :: "nat \<Rightarrow> u32 \<Rightarrow> 'a file_state_scheme \<Rightarrow> (int \<times> 'a file_state_scheme) outcome" where
  "filestat f st s =
     (let x = files s ! f in
      if f_type x = FD_INODE then
        bindO (ilock (Some (f_ip x)) s) (\<lambda>s.
        bindO (stati (f_ip x) st s) (\<lambda>s.
        bindO (iunlock (Some (f_ip x)) s) (\<lambda>s. Ret (0, s))))
      else Ret (- 1, s))"

definition fileread :: "'a file_state_scheme wakes \<Rightarrow> nat \<Rightarrow> u32 \<Rightarrow> int \<Rightarrow> 'a file_state_scheme \<Rightarrow>
    (int \<times> 'a file_state_scheme) outcome" where
  "fileread ws f addr n s =
     (let x = files s ! f in
      if \<not> f_readable x then Ret (- 1, s)
      else case f_type x of
        FD_PIPE \<Rightarrow> piperead ws (f_pipe x) (uput addr) n s
      | FD_INODE \<Rightarrow>
          bindO (ilock (Some (f_ip x)) s) (\<lambda>s.
          bindO (readi (devsw_read ws) (uput addr) (f_ip x) (f_off (files s ! f)) (of_int n) s) (\<lambda>((r, _), s).
            let s = (if r > 0 then upd_file f (\<lambda>x. x\<lparr>f_off := f_off x + of_int r\<rparr>) s else s) in
            bindO (iunlock (Some (f_ip x)) s) (\<lambda>s. Ret (r, s))))
      | FD_NONE \<Rightarrow> Panic ''fileread'')"

text \<open>
  The loop of \<^verbatim>\<open>filewrite\<close> over pieces of at most \<^verbatim>\<open>((MAXOPBLOCKS-1-1-2)/2)*512\<close> bytes. Every round but the
  last writes a whole piece, so the number of rounds is bounded by \<open>n\<close>.
\<close>

definition filewrite_max :: int where
  "filewrite_max = ((int MAXOPBLOCKS - 1 - 1 - 2) div 2) * 512"

primrec filewrite_loop :: "nat \<Rightarrow> nat \<Rightarrow> u32 \<Rightarrow> int \<Rightarrow> int \<Rightarrow> 'a file_state_scheme \<Rightarrow>
    (int \<times> 'a file_state_scheme) outcome" where
  "filewrite_loop 0 f addr n i s = Ret (i, s)"
| "filewrite_loop (Suc k) f addr n i s =
     (if i < n then
        let n1 = (if n - i > filewrite_max then filewrite_max else n - i); ip = f_ip (files s ! f) in
        bindO (begin_op [] s) (\<lambda>s.
        bindO (ilock (Some ip) s) (\<lambda>s.
        bindO (writei devsw_write (uget (addr + of_int i)) ip (f_off (files s ! f)) (of_int n1) s) (\<lambda>(r, s).
          let s = (if r > 0 then upd_file f (\<lambda>x. x\<lparr>f_off := f_off x + of_int r\<rparr>) s else s) in
          bindO (iunlock (Some ip) s) (\<lambda>s.
          bindO (end_op s) (\<lambda>s.
            if r < 0 then Ret (i, s)
            else if r \<noteq> n1 then Panic ''short filewrite''
            else filewrite_loop k f addr n (i + r) s)))))
      else Ret (i, s))"

definition filewrite :: "'a file_state_scheme wakes \<Rightarrow> nat \<Rightarrow> u32 \<Rightarrow> int \<Rightarrow> 'a file_state_scheme \<Rightarrow>
    (int \<times> 'a file_state_scheme) outcome" where
  "filewrite ws f addr n s =
     (let x = files s ! f in
      if \<not> f_writable x then Ret (- 1, s)
      else case f_type x of
        FD_PIPE \<Rightarrow> pipewrite ws (f_pipe x) (uget addr) n s
      | FD_INODE \<Rightarrow>
          bindO (filewrite_loop (nat n) f addr n 0 s) (\<lambda>(i, s). Ret (if i = n then n else - 1, s))
      | FD_NONE \<Rightarrow> Panic ''filewrite'')"

section \<open>Creating a pipe\<close>

definition close_opt :: "nat option \<Rightarrow> 'a file_state_scheme \<Rightarrow> 'a file_state_scheme outcome" where
  "close_opt f s = (case f of None \<Rightarrow> Ret s | Some f \<Rightarrow> fileclose f s)"

definition pipealloc :: "'a file_state_scheme \<Rightarrow> ((nat \<times> nat) option \<times> 'a file_state_scheme) outcome" where
  "pipealloc s =
     (let bad = (\<lambda>f0 f1 s. bindO (close_opt f0 s) (\<lambda>s. bindO (close_opt f1 s) (\<lambda>s. Ret (None, s)))) in
      bindO (filealloc s) (\<lambda>(f0, s).
      case f0 of None \<Rightarrow> bad None None s
      | Some a \<Rightarrow>
          bindO (filealloc s) (\<lambda>(f1, s).
          case f1 of None \<Rightarrow> bad (Some a) None s
          | Some b \<Rightarrow>
              bindO (kalloc s) (\<lambda>(p, s).
                if p = 0 then bad (Some a) (Some b) s
                else
                  let s = upd_pipe p (\<lambda>x. x\<lparr>readopen := True, writeopen := True, nwrite := 0, nread := 0\<rparr>) s;
                      s = initlock (PipeLock p) ''pipe'' s;
                      s = upd_file a (\<lambda>x. x\<lparr>f_type := FD_PIPE, f_readable := True, f_writable := False,
                            f_pipe := p\<rparr>) s;
                      s = upd_file b (\<lambda>x. x\<lparr>f_type := FD_PIPE, f_readable := False, f_writable := True,
                            f_pipe := p\<rparr>) s
                  in Ret (Some (a, b), s)))))"

text \<open>The state at boot, for concrete runs.\<close>

definition boot_file :: file_state where
  "boot_file = pipe_state.extend boot_pipe 
     \<lparr>files = replicate NFILE \<lparr>f_type = FD_NONE, f_ref = 0, f_readable = False, f_writable = False, f_pipe = 0,
        f_ip = 0, f_off = 0\<rparr>\<rparr>"

lemma boot_file_ok [simp]:
  "cpu_ok boot_file" "lock_free l boot_file" "me boot_file = 0" "procs boot_file = procs boot_proc"
  using boot_proc_ok(1) cpu_ok_cong [of boot_file boot_proc]
  by (simp_all add: boot_file_def boot_proc_def boot_kmem_def boot_cpu_def kmem_state.defs boot_sleep_def proc_state.defs boot_bio_def sleep_state.defs boot_log_def bio_state.defs boot_fs_def log_state.defs boot_cons_def fs_state.defs boot_pipe_def cons_state.defs pipe_state.defs cpu_ok_def lock_free_def me_def find_index_def readeflags_IF_def)

section \<open>References\<close>

lemma file_upd [simp]:
  "cpu_ok (s\<lparr>files := fs\<rparr>) = cpu_ok s" "lock_free l (s\<lparr>files := fs\<rparr>) = lock_free l s"
  "files (acquired l s) = files s" "(acquired l s)\<lparr>files := fs\<rparr> = acquired l (s\<lparr>files := fs\<rparr>)"
proof -
  show "cpu_ok (s\<lparr>files := fs\<rparr>) = cpu_ok s" by (rule cpu_ok_cong) simp_all
qed (simp_all add: lock_free_def acquired_def pushed_def me_def)

lemma filedup_eq:
  assumes "cpu_ok s" and "lock_free FtableLock s"
  shows "filedup f s = (if f_ref (files s ! f) < 1 then Panic ''filedup''
    else Ret (f, upd_file f (\<lambda>x. x\<lparr>f_ref := f_ref x + 1\<rparr>) s))"
proof (cases "f_ref (files s ! f) < 1")
  case False
  then show ?thesis unfolding filedup_def using assms by (simp add: locked_update upd_file_def)
qed (use assms in \<open>simp add: filedup_def locked_def acquire_free\<close>)

lemma filealloc_eq:
  assumes "cpu_ok s" and "lock_free FtableLock s"
  shows "filealloc s = (case find_index (\<lambda>f. f_ref f = 0) (files s) of
       Some i \<Rightarrow> Ret (Some i, upd_file i (\<lambda>f. f\<lparr>f_ref := 1\<rparr>) s) | None \<Rightarrow> Ret (None, s))"
  unfolding filealloc_def using assms
  by (cases "find_index (\<lambda>f. f_ref f = 0) (files s)") (simp_all add: locked_update upd_file_def)

text \<open>Closing one of several references.\<close>

lemma fileclose_shared:
  assumes "cpu_ok s" and "lock_free FtableLock s" and "f < length (files s)" and "1 < f_ref (files s ! f)"
  shows "fileclose f s = Ret (upd_file f (\<lambda>x. x\<lparr>f_ref := f_ref x - 1\<rparr>) s)"
proof -
  let ?t = "upd_file f (\<lambda>x. x\<lparr>f_ref := f_ref x - 1\<rparr>) s"
  have "locked FtableLock (\<lambda>s.
         if f_ref (files s ! f) < 1 then Panic ''fileclose''
         else
           let s = upd_file f (\<lambda>x. x\<lparr>f_ref := f_ref x - 1\<rparr>) s in
           if f_ref (files s ! f) > 0 then Ret (None, s)
           else Ret (Some (files s ! f), upd_file f (\<lambda>x. x\<lparr>f_ref := 0, f_type := FD_NONE\<rparr>) s)) s = Ret (None :: kfile option, ?t)"
    by (rule locked_update) (use assms in \<open>simp_all add: upd_file_def Let_def\<close>)
  then show ?thesis by (simp add: fileclose_def)
qed

text \<open>
  C36: References to open files. \<^verbatim>\<open>filealloc\<close> hands out a file to which nobody refers, with one reference, and
  fails only when every file has references; a duplicated reference that is closed again leaves the file table
  as it was, without closing the pipe or the inode behind it; duplicating or closing a file without references
  panics.
\<close>

theorem file_references:
  assumes "cpu_ok s" and "lock_free FtableLock s" and "f < length (files s)"
  shows "(case filealloc s of
      Ret (Some i, t) \<Rightarrow> i < length (files s) \<and> f_ref (files s ! i) = 0 \<and> f_ref (files t ! i) = 1 \<and> (\<forall>j. j \<noteq> i \<longrightarrow> files t ! j = files s ! j)
    | Ret (None, t) \<Rightarrow> t = s \<and> (\<forall>x\<in>set (files s). f_ref x \<noteq> 0) | _ \<Rightarrow> False) \<and>
    (1 \<le> f_ref (files s ! f) \<longrightarrow> bindO (filedup f s) (\<lambda>(g, t). fileclose g t) = Ret s) \<and>
    (f_ref (files s ! f) < 1 \<longrightarrow> filedup f s = Panic ''filedup'' \<and> fileclose f s = Panic ''fileclose'')"
proof (intro conjI impI)
  show "case filealloc s of
      Ret (Some i, t) \<Rightarrow> i < length (files s) \<and> f_ref (files s ! i) = 0 \<and> f_ref (files t ! i) = 1 \<and> (\<forall>j. j \<noteq> i \<longrightarrow> files t ! j = files s ! j)
    | Ret (None, t) \<Rightarrow> t = s \<and> (\<forall>x\<in>set (files s). f_ref x \<noteq> 0) | _ \<Rightarrow> False"
  proof (cases "find_index (\<lambda>f. f_ref f = 0) (files s)")
    case None
    then have "filealloc s = Ret (None, s)" using assms(1,2) by (simp add: filealloc_eq)
    then show ?thesis using None by (simp add: find_index_None)
  next
    case (Some i)
    then show ?thesis using assms(1,2) find_index_Some [OF Some] by (simp add: filealloc_eq upd_file_def)
  qed
  assume r: "1 \<le> f_ref (files s ! f)"
  let ?t = "upd_file f (\<lambda>x. x\<lparr>f_ref := f_ref x + 1\<rparr>) s"
  have "fileclose f ?t = Ret (upd_file f (\<lambda>x. x\<lparr>f_ref := f_ref x - 1\<rparr>) ?t)"
    using assms r by (intro fileclose_shared) (simp_all add: upd_file_def)
  moreover have "upd_file f (\<lambda>x. x\<lparr>f_ref := f_ref x - 1\<rparr>) ?t = s"
    using assms(3) by (simp add: upd_file_def)
  ultimately show "bindO (filedup f s) (\<lambda>(g, t). fileclose g t) = Ret s" using assms r by (simp add: filedup_eq)
next
  assume r: "f_ref (files s ! f) < 1"
  show "filedup f s = Panic ''filedup''" using assms r by (simp add: filedup_eq)
  show "fileclose f s = Panic ''fileclose''" using assms r by (simp add: fileclose_def locked_def acquire_free)
qed

theorem file_references_witness:
  "bindO (filedup 3 (upd_file 3 (\<lambda>x. x\<lparr>f_ref := 1, f_type := FD_PIPE\<rparr>) boot_file)) (\<lambda>(g, t). fileclose g t)
     = Ret (upd_file 3 (\<lambda>x. x\<lparr>f_ref := 1, f_type := FD_PIPE\<rparr>) boot_file) \<and>
   filedup 4 boot_file = Panic ''filedup''"
proof -
  let ?s = "upd_file 3 (\<lambda>x. x\<lparr>f_ref := 1, f_type := FD_PIPE\<rparr>) boot_file"
  have f: "files boot_file = replicate NFILE \<lparr>f_type = FD_NONE, f_ref = 0, f_readable = False, f_writable = False, f_pipe = 0,
        f_ip = 0, f_off = 0\<rparr>" by (simp add: boot_file_def pipe_state.defs)
  have ok: "cpu_ok ?s" "lock_free FtableLock ?s" by (simp_all add: upd_file_def)
  have "3 < length (files ?s)" "f_ref (files ?s ! 3) = 1" by (simp_all add: upd_file_def f)
  then show ?thesis
    using file_references [OF ok, of 3] file_references [OF boot_file_ok(1,2), of 4] by (simp add: f)
qed

end
