(* ===== verification/Lifecycle.thy ===== *)
theory Lifecycle
  imports File
begin

text \<open>
  The life of a process, the part of \<^verbatim>\<open>proc.c\<close> that uses address spaces and files: the first process,
  growing memory, \<^verbatim>\<open>fork\<close>, \<^verbatim>\<open>exit\<close>, \<^verbatim>\<open>wait\<close> and \<^verbatim>\<open>waitpid\<close>, and \<^verbatim>\<open>forkret\<close>.
\<close>

section \<open>State\<close>

text \<open>\<open>forkret_first\<close> is the static variable of \<^verbatim>\<open>forkret\<close>; the other two are linker symbols of \<^verbatim>\<open>initcode\<close>.\<close>

record life_state = file_state +
  forkret_first :: bool
  sym_initcode_start :: u32
  sym_initcode_size :: u32

section \<open>The first process\<close>

definition user_trapframe :: trapframe where
  "user_trapframe = zero_trapframe\<lparr>tf_cs := 27, tf_ds := 35, tf_es := 35, tf_ss := 35,
     tf_eflags := FL_IF, tf_esp := PGSIZE, tf_eip := 0\<rparr>"

definition userinit :: "'a life_state_scheme \<Rightarrow> 'a life_state_scheme outcome" where
  "userinit s =
     bindO (allocproc s) (\<lambda>(np, s).
       let s = s\<lparr>initproc := np\<rparr> in
       case np of None \<Rightarrow> Panic ''trap''
       | Some p \<Rightarrow>
           bindO (setupkvm s) (\<lambda>(pgdir, s).
             let s = upd_proc p (\<lambda>q. q\<lparr>p_pgdir := pgdir\<rparr>) s in
             if pgdir = 0 then Panic ''userinit: out of memory?''
             else
               bindO (inituvm pgdir (sym_initcode_start s) (sym_initcode_size s) s) (\<lambda>s.
                 let s = upd_proc p (\<lambda>q. q\<lparr>p_sz := PGSIZE, p_tf := user_trapframe, p_name := ''initcode''\<rparr>) s in
                 bindO (namei [slash] s) (\<lambda>(ip, s).
                   let s = upd_proc p (\<lambda>q. q\<lparr>p_cwd := ip\<rparr>) s in
                   bindO (locked PtableLock (\<lambda>s. Ret ((), upd_proc p (\<lambda>q. q\<lparr>p_state := RUNNABLE\<rparr>) s)) s)
                     (\<lambda>(_, s). Ret s)))))"

definition forkret :: "'a life_state_scheme \<Rightarrow> 'a life_state_scheme outcome" where
  "forkret s =
     bindO (release PtableLock s) (\<lambda>s.
       if forkret_first s then
         bindO (iinit ROOTDEV (s\<lparr>forkret_first := False\<rparr>)) (\<lambda>s. initlog (sint ROOTDEV) s)
       else Ret s)"

section \<open>Growing\<close>

definition growproc :: "int \<Rightarrow> 'a proc_state_scheme \<Rightarrow> (int \<times> 'a proc_state_scheme) outcome" where
  "growproc n s =
     bindO (curproc s) (\<lambda>(c, s).
       let pgdir = p_pgdir (procs s ! c); sz = p_sz (procs s ! c);
           done = (\<lambda>sz s. bindO (switchuvm (Some c) (upd_proc c (\<lambda>q. q\<lparr>p_sz := sz\<rparr>) s)) (\<lambda>s. Ret (0, s))) in
       if n > 0 then
         bindO (allocuvm pgdir sz (sz + of_int n) s) (\<lambda>(sz, s). if sz = 0 then Ret (- 1, s) else done sz s)
       else if n < 0 then
         bindO (deallocuvm pgdir sz (sz + of_int n) s) (\<lambda>(sz, s). if sz = 0 then Ret (- 1, s) else done sz s)
       else done sz s)"

section \<open>Fork\<close>

primrec fork_files :: "nat list \<Rightarrow> nat \<Rightarrow> nat \<Rightarrow> 'a file_state_scheme \<Rightarrow> 'a file_state_scheme outcome" where
  "fork_files [] c np s = Ret s"
| "fork_files (i # is) c np s =
     bindO (case p_ofile (procs s ! c) ! i of
              None \<Rightarrow> Ret s
            | Some f \<Rightarrow>
                bindO (filedup f s) (\<lambda>(f, s).
                  Ret (upd_proc np (\<lambda>q. q\<lparr>p_ofile := (p_ofile q)[i := Some f]\<rparr>) s))) (\<lambda>s.
     fork_files is c np s)"

definition fork :: "'a file_state_scheme \<Rightarrow> (int \<times> 'a file_state_scheme) outcome" where
  "fork s =
     bindO (curproc s) (\<lambda>(c, s).
     bindO (allocproc s) (\<lambda>(np, s).
       case np of None \<Rightarrow> Ret (- 1, s)
       | Some np \<Rightarrow>
           bindO (copyuvm (p_pgdir (procs s ! c)) (p_sz (procs s ! c)) s) (\<lambda>(pgdir, s).
             let s = upd_proc np (\<lambda>q. q\<lparr>p_pgdir := pgdir\<rparr>) s in
             if pgdir = 0 then
               bindO (kfree (p_kstack (procs s ! np)) s) (\<lambda>s.
                 Ret (- 1, upd_proc np (\<lambda>q. q\<lparr>p_kstack := 0, p_state := UNUSED\<rparr>) s))
             else
               let s = upd_proc np (\<lambda>q. q\<lparr>p_sz := p_sz (procs s ! c), p_parent := Some c,
                         p_tf := (p_tf (procs s ! c))\<lparr>tf_eax := 0\<rparr>\<rparr>) s in
               bindO (fork_files [0..<NOFILE] c np s) (\<lambda>s.
               bindO (case p_cwd (procs s ! c) of None \<Rightarrow> Panic ''trap'' | Some cwd \<Rightarrow> idup cwd s) (\<lambda>(cwd, s).
                 let s = upd_proc np (\<lambda>q. q\<lparr>p_cwd := Some cwd, p_name := take 15 (p_name (procs s ! c))\<rparr>) s;
                     pid = p_pid (procs s ! np) in
                 bindO (locked PtableLock (\<lambda>s.
                     Ret ((), upd_proc np (\<lambda>q. q\<lparr>p_priority := 0, p_state := RUNNABLE\<rparr>) s)) s) (\<lambda>(_, s).
                 Ret (pid, s)))))))"

section \<open>Exit\<close>

primrec exit_files :: "nat list \<Rightarrow> nat \<Rightarrow> 'a file_state_scheme \<Rightarrow> 'a file_state_scheme outcome" where
  "exit_files [] c s = Ret s"
| "exit_files (fd # fds) c s =
     bindO (case p_ofile (procs s ! c) ! fd of
              None \<Rightarrow> Ret s
            | Some f \<Rightarrow>
                bindO (fileclose f s) (\<lambda>s.
                  Ret (upd_proc c (\<lambda>q. q\<lparr>p_ofile := (p_ofile q)[fd := None]\<rparr>) s))) (\<lambda>s.
     exit_files fds c s)"

definition reparent1 :: "nat \<Rightarrow> nat \<Rightarrow> 'a proc_state_scheme \<Rightarrow> 'a proc_state_scheme" where
  "reparent1 c i s =
     (if p_parent (procs s ! i) = Some c then
        let s = upd_proc i (\<lambda>q. q\<lparr>p_parent := initproc s\<rparr>) s in
        if p_state (procs s ! i) = ZOMBIE then wakeup1 (parent_chan (initproc s)) s else s
      else s)"

definition reparent :: "nat \<Rightarrow> 'a proc_state_scheme \<Rightarrow> 'a proc_state_scheme" where
  "reparent c s = fold (reparent1 c) [0..<NPROC] s"

text \<open>\<open>exit_zombie\<close>: from the \<^verbatim>\<open>acquire(&ptable.lock)\<close> up to the call of \<^verbatim>\<open>sched\<close>.\<close>

definition exit_zombie :: "nat \<Rightarrow> int \<Rightarrow> 'a proc_state_scheme \<Rightarrow> 'a proc_state_scheme" where
  "exit_zombie c status s =
     (let s = wakeup1 (parent_chan (p_parent (procs s ! c))) s;
          s = reparent c s
      in upd_proc c (\<lambda>q. q\<lparr>p_state := ZOMBIE, p_exit_status := status\<rparr>) s)"

definition exit_proc :: "('a file_state_scheme \<Rightarrow> 'a file_state_scheme outcome) \<Rightarrow> int \<Rightarrow> 'a file_state_scheme \<Rightarrow>
    'b outcome" where
  "exit_proc resume status s =
     bindO (curproc s) (\<lambda>(c, s).
       if Some c = initproc s then Panic ''init exiting''
       else
         bindO (exit_files [0..<NOFILE] c s) (\<lambda>s.
         bindO (begin_op [] s) (\<lambda>s.
         bindO (case p_cwd (procs s ! c) of None \<Rightarrow> Panic ''trap'' | Some cwd \<Rightarrow> iput cwd s) (\<lambda>s.
         bindO (end_op s) (\<lambda>s.
           let s = upd_proc c (\<lambda>q. q\<lparr>p_cwd := None\<rparr>) s in
           bindO (acquire PtableLock s) (\<lambda>s.
           bindO (sched resume (exit_zombie c status s)) (\<lambda>_.
           Panic ''zombie exit'')))))))"

section \<open>Waiting for a child\<close>

text \<open>
  Reaping the zombie in slot \<open>i\<close>, the same lines in \<^verbatim>\<open>wait\<close> and \<^verbatim>\<open>waitpid\<close>; \<open>status\<close> is the user address the
  exit status is stored at.
\<close>

definition reap :: "nat \<Rightarrow> u32 \<Rightarrow> 'a proc_state_scheme \<Rightarrow> (int \<times> 'a proc_state_scheme) outcome" where
  "reap i status s =
     (let pid = p_pid (procs s ! i) in
      bindO (kfree (p_kstack (procs s ! i)) s) (\<lambda>s.
        let s = upd_proc i (\<lambda>q. q\<lparr>p_kstack := 0\<rparr>) s in
        bindO (freevm (p_pgdir (procs s ! i)) s) (\<lambda>s.
          let s = upd_proc i (\<lambda>q. q\<lparr>p_pid := 0, p_parent := None, p_name := [], p_killed := False,
                    p_state := UNUSED\<rparr>) s in
          bindO (ustore32 status (of_int (p_exit_status (procs s ! i))) s) (\<lambda>s.
          bindO (release PtableLock s) (\<lambda>s. Ret (pid, s))))))"

definition wait_step :: "nat \<Rightarrow> proc list \<Rightarrow> bool \<times> nat option" where
  "wait_step c ps =
     (\<exists>p\<in>set ps. p_parent p = Some c,
      find_index (\<lambda>p. p_parent p = Some c \<and> p_state p = ZOMBIE) ps)"

primrec wait_loop :: "'a proc_state_scheme wakes \<Rightarrow> nat \<Rightarrow> u32 \<Rightarrow> 'a proc_state_scheme \<Rightarrow>
    (int \<times> 'a proc_state_scheme) outcome" where
  "wait_loop [] c status s =
     (case wait_step c (procs s) of
        (_, Some i) \<Rightarrow> reap i status s
      | (havekids, None) \<Rightarrow>
          if \<not> havekids \<or> p_killed (procs s ! c) then bindO (release PtableLock s) (\<lambda>s. Ret (- 1, s))
          else Blocked)"
| "wait_loop (w # ws) c status s =
     (case wait_step c (procs s) of
        (_, Some i) \<Rightarrow> reap i status s
      | (havekids, None) \<Rightarrow>
          if \<not> havekids \<or> p_killed (procs s ! c) then bindO (release PtableLock s) (\<lambda>s. Ret (- 1, s))
          else bindO (sleep w (ChanProc c) (Some PtableLock) s) (\<lambda>s. wait_loop ws c status s))"

definition wait :: "'a proc_state_scheme wakes \<Rightarrow> u32 \<Rightarrow> 'a proc_state_scheme \<Rightarrow>
    (int \<times> 'a proc_state_scheme) outcome" where
  "wait ws status s =
     bindO (curproc s) (\<lambda>(c, s).
     bindO (acquire PtableLock s) (\<lambda>s. wait_loop ws c status s))"

text \<open>\<^verbatim>\<open>waitpid\<close> looks for any process with the id, and sleeps on that process's parent.\<close>

primrec waitpid_loop :: "'a proc_state_scheme wakes \<Rightarrow> nat \<Rightarrow> int \<Rightarrow> u32 \<Rightarrow> 'a proc_state_scheme \<Rightarrow>
    (int \<times> 'a proc_state_scheme) outcome" where
  "waitpid_loop [] c pid status s =
     (case find_index (\<lambda>p. p_pid p = pid) (procs s) of
        None \<Rightarrow> bindO (release PtableLock s) (\<lambda>s. Ret (- 1, s))
      | Some i \<Rightarrow>
          if p_state (procs s ! i) = ZOMBIE then reap i status s
          else if p_killed (procs s ! c) then bindO (release PtableLock s) (\<lambda>s. Ret (- 1, s))
          else Blocked)"
| "waitpid_loop (w # ws) c pid status s =
     (case find_index (\<lambda>p. p_pid p = pid) (procs s) of
        None \<Rightarrow> bindO (release PtableLock s) (\<lambda>s. Ret (- 1, s))
      | Some i \<Rightarrow>
          if p_state (procs s ! i) = ZOMBIE then reap i status s
          else if p_killed (procs s ! c) then bindO (release PtableLock s) (\<lambda>s. Ret (- 1, s))
          else
            bindO (sleep w (parent_chan (p_parent (procs s ! i))) (Some PtableLock) s) (\<lambda>s.
            waitpid_loop ws c pid status s))"

definition waitpid :: "'a proc_state_scheme wakes \<Rightarrow> int \<Rightarrow> u32 \<Rightarrow> int \<Rightarrow> 'a proc_state_scheme \<Rightarrow>
    (int \<times> 'a proc_state_scheme) outcome" where
  "waitpid ws pid status options s =
     bindO (curproc s) (\<lambda>(c, s).
     bindO (acquire PtableLock s) (\<lambda>s. waitpid_loop ws c pid status s))"

section \<open>Exit and wait meet\<close>

definition woken :: "chan \<Rightarrow> proc \<Rightarrow> proc" where
  "woken ch p = (if p_state p = SLEEPING \<and> p_chan p = ch then p\<lparr>p_state := RUNNABLE\<rparr> else p)"

definition adopted :: "nat \<Rightarrow> nat \<Rightarrow> proc \<Rightarrow> proc" where
  "adopted c i p = (if p_parent p = Some c then p\<lparr>p_parent := Some i\<rparr> else p)"

lemma woken_sel [simp]:
  "p_parent (woken ch p) = p_parent p" "p_chan (woken ch p) = p_chan p" "p_exit_status (woken ch p) = p_exit_status p"
  "p_state (woken ch p) = ZOMBIE \<longleftrightarrow> p_state p = ZOMBIE"
  "woken ch (p\<lparr>p_parent := x\<rparr>) = (woken ch p)\<lparr>p_parent := x\<rparr>" "woken ch (woken ch p) = woken ch p"
  by (simp_all add: woken_def)

lemma adopted_sel [simp]:
  "p_state (adopted c i p) = p_state p" "p_chan (adopted c i p) = p_chan p" "p_exit_status (adopted c i p) = p_exit_status p"
  "p_parent (adopted c i p) = (if p_parent p = Some c then Some i else p_parent p)"
  "woken ch (adopted c i p) = adopted c i (woken ch p)"
  by (simp_all add: adopted_def)

lemma woken_awake: "p_state p = SLEEPING \<Longrightarrow> p_chan p = ch \<Longrightarrow> p_state (woken ch p) = RUNNABLE"
  by (simp add: woken_def)

lemma woken_runnable [simp]: "p_state p = RUNNABLE \<Longrightarrow> woken ch p = p"
  by (simp add: woken_def)

lemma procs_wakeup1: "procs (wakeup1 ch s) = map (woken ch) (procs s)"
  by (simp add: wakeup1_def woken_def)

text \<open>The loop over the table, on its first \<open>n\<close> entries.\<close>

definition orphan_zombie :: "nat \<Rightarrow> nat \<Rightarrow> proc list \<Rightarrow> bool" where
  "orphan_zombie n c ps = (\<exists>p\<in>set (take n ps). p_parent p = Some c \<and> p_state p = ZOMBIE)"

lemma orphan_zombie_Suc:
  "n < length ps \<Longrightarrow> orphan_zombie (Suc n) c ps \<longleftrightarrow>
     orphan_zombie n c ps \<or> p_parent (ps ! n) = Some c \<and> p_state (ps ! n) = ZOMBIE"
  by (auto simp: orphan_zombie_def take_Suc_conv_app_nth)

lemma reparent1_sel [simp]:
  "initproc (reparent1 c n s) = initproc s" "length (procs (reparent1 c n s)) = length (procs s)"
  by (simp_all add: reparent1_def Let_def)

lemma reparent_prefix:
  fixes c :: nat
  assumes "initproc s = Some i" and "n \<le> length (procs s)"
  defines "t \<equiv> fold (reparent1 c) [0..<n] s"
  shows "initproc t = Some i \<and> length (procs t) = length (procs s) \<and>
    (\<forall>j<length (procs s). procs t ! j =
       (let p = (if j < n then adopted c i (procs s ! j) else procs s ! j) in
        if orphan_zombie n c (procs s) then woken (ChanProc i) p else p))"
  using assms(2) unfolding t_def
proof (induction n)
  case 0
  then show ?case using assms(1) by (simp add: orphan_zombie_def)
next
  case (Suc n)
  define u where "u = fold (reparent1 c) [0..<n] s"
  have u: "initproc u = Some i" "length (procs u) = length (procs s)"
    and nth: "j < length (procs s) \<Longrightarrow> procs u ! j = (let p = (if j < n then adopted c i (procs s ! j) else procs s ! j) in
        if orphan_zombie n c (procs s) then woken (ChanProc i) p else p)" for j
    using Suc unfolding u_def by simp_all
  have n: "n < length (procs s)" using Suc.prems by simp
  have z: "p_parent (procs u ! n) = p_parent (procs s ! n)" "p_state (procs u ! n) = ZOMBIE \<longleftrightarrow> p_state (procs s ! n) = ZOMBIE"
    using nth [OF n] by (simp_all add: Let_def)
  have step: "fold (reparent1 c) [0..<Suc n] s = reparent1 c n u" by (simp add: u_def)
  have "procs (reparent1 c n u) ! j = (let p = (if j < Suc n then adopted c i (procs s ! j) else procs s ! j) in
        if orphan_zombie (Suc n) c (procs s) then woken (ChanProc i) p else p)" if "j < length (procs s)" for j
    using that n nth [OF that] nth [OF n] u z
    by (cases "j = n") (auto simp: reparent1_def Let_def procs_wakeup1 parent_chan_def orphan_zombie_Suc adopted_def less_Suc_eq)
  then show ?case unfolding step using u by simp
qed

lemma orphan_zombie_woken [simp]: "orphan_zombie n c (map (woken ch) ps) = orphan_zombie n c ps"
  by (auto simp: orphan_zombie_def take_map)

lemma orphan_zombieD:
  "orphan_zombie n c ps \<Longrightarrow> n \<le> length ps \<Longrightarrow> \<exists>j<n. p_parent (ps ! j) = Some c \<and> p_state (ps ! j) = ZOMBIE"
  by (fastforce simp: orphan_zombie_def in_set_conv_nth)

lemma nth_exit_zombie:
  assumes "length (procs s) = NPROC" and "initproc s = Some i" and "p_parent (procs s ! c) = Some q" and "j < NPROC"
  shows "procs (exit_zombie c status s) ! j =
    (let p = adopted c i (woken (ChanProc q) (procs s ! j));
         p = (if orphan_zombie NPROC c (procs s) then woken (ChanProc i) p else p)
     in if j = c then p\<lparr>p_state := ZOMBIE, p_exit_status := status\<rparr> else p)"
  using reparent_prefix [of "wakeup1 (ChanProc q) s" i NPROC c] assms
  by (simp add: exit_zombie_def reparent_def Let_def parent_chan_def procs_wakeup1 nth_list_update)

lemma length_exit_zombie [simp]:
  "length (procs s) = NPROC \<Longrightarrow> initproc s = Some i \<Longrightarrow> length (procs (exit_zombie c status s)) = NPROC"
  using reparent_prefix [of "wakeup1 (parent_chan (p_parent (procs s ! c))) s" i NPROC c]
  by (simp add: exit_zombie_def reparent_def Let_def)

lemma wait_step_finds:
  "k < length ps \<Longrightarrow> p_parent (ps ! k) = Some q \<Longrightarrow> p_state (ps ! k) = ZOMBIE \<Longrightarrow> \<exists>m. wait_step q ps = (True, Some m)"
  using find_index_exists [of k ps "\<lambda>p. p_parent p = Some q \<and> p_state p = ZOMBIE"] by (auto simp: wait_step_def)

text \<open>
  C11: \<^verbatim>\<open>exit\<close> hands everything over. The exiting process becomes a zombie carrying its status; all its children,
  and nobody else, move to the init process; its parent, if asleep in \<^verbatim>\<open>wait\<close>, is runnable and finds a zombie
  child when it looks; and if a child was already a zombie the same holds of init, so that no exit is missed.
\<close>

theorem exit_hands_over:
  assumes "length (procs s) = NPROC" and "initproc s = Some i" and "p_parent (procs s ! c) = Some q"
    and "c < NPROC" and "i < NPROC" and "q < NPROC" and "i \<noteq> c" and "q \<noteq> c"
  shows "let t = exit_zombie c status s; asleep = (\<lambda>j. p_state (procs s ! j) = SLEEPING \<and> p_chan (procs s ! j) = ChanProc j) in
    p_state (procs t ! c) = ZOMBIE \<and> p_exit_status (procs t ! c) = status \<and>
    (\<forall>j<NPROC. p_parent (procs t ! j) = (if p_parent (procs s ! j) = Some c then Some i else p_parent (procs s ! j))) \<and>
    (asleep q \<longrightarrow> p_state (procs t ! q) = RUNNABLE) \<and> (\<exists>k. wait_step q (procs t) = (True, Some k)) \<and>
    ((\<exists>j<NPROC. p_parent (procs s ! j) = Some c \<and> p_state (procs s ! j) = ZOMBIE) \<longrightarrow>
       (asleep i \<longrightarrow> p_state (procs t ! i) = RUNNABLE) \<and> (\<exists>k. wait_step i (procs t) = (True, Some k)))"
proof -
  define t where "t = exit_zombie c status s"
  note nth = nth_exit_zombie [OF assms(1-3), of _ status, folded t_def]
  have len: "length (procs t) = NPROC" using assms by (simp add: t_def)
  have c: "p_state (procs t ! c) = ZOMBIE" "p_exit_status (procs t ! c) = status" "p_parent (procs t ! c) = Some q"
    using nth [OF assms(4)] assms(3,8) by (simp_all add: Let_def)
  have parent: "p_parent (procs t ! j) = (if p_parent (procs s ! j) = Some c then Some i else p_parent (procs s ! j))"
    if "j < NPROC" for j using nth [OF that] by (simp add: Let_def)
  have q: "p_state (procs t ! q) = RUNNABLE" if "p_state (procs s ! q) = SLEEPING" "p_chan (procs s ! q) = ChanProc q"
    using nth [OF assms(6)] woken_awake [OF that] assms(8) by (simp add: Let_def)
  have fq: "\<exists>k. wait_step q (procs t) = (True, Some k)" by (rule wait_step_finds [of c]) (use len c assms(4) in simp_all)
  have oz: "orphan_zombie NPROC c (procs s)" if "\<exists>j<NPROC. p_parent (procs s ! j) = Some c \<and> p_state (procs s ! j) = ZOMBIE"
    using that assms(1) by (auto simp: orphan_zombie_def)
  have i: "p_state (procs t ! i) = RUNNABLE"
    if "orphan_zombie NPROC c (procs s)" "p_state (procs s ! i) = SLEEPING" "p_chan (procs s ! i) = ChanProc i"
  proof -
    have "p_state (woken (ChanProc i) (woken (ChanProc q) (procs s ! i))) = RUNNABLE" using that by (auto simp: woken_def)
    then show ?thesis using nth [OF assms(5)] that(1) assms(7) by (simp add: Let_def)
  qed
  have fi: "\<exists>k. wait_step i (procs t) = (True, Some k)" if z: "orphan_zombie NPROC c (procs s)"
  proof -
    obtain j where j: "j < NPROC" "p_parent (procs s ! j) = Some c" "p_state (procs s ! j) = ZOMBIE"
      using orphan_zombieD [OF z] assms(1) by auto
    show ?thesis by (rule wait_step_finds [of j]) (use len nth [OF j(1)] j in \<open>simp_all add: Let_def\<close>)
  qed
  show ?thesis using c(1,2) parent q fq i fi oz by (simp add: t_def [symmetric])
qed

text \<open>Init and a shell asleep in \<^verbatim>\<open>wait\<close>, a child of the shell that exits, and its own child, a zombie.\<close>

definition example_family :: proc_state where
  "example_family = boot_proc\<lparr>initproc := Some 0, procs :=
     [zero_proc\<lparr>p_pid := 1, p_state := SLEEPING, p_chan := ChanProc 0\<rparr>,
      zero_proc\<lparr>p_pid := 2, p_state := SLEEPING, p_chan := ChanProc 1, p_parent := Some 0\<rparr>,
      zero_proc\<lparr>p_pid := 3, p_state := RUNNING, p_parent := Some 1\<rparr>,
      zero_proc\<lparr>p_pid := 4, p_state := ZOMBIE, p_parent := Some 2\<rparr>] @ replicate 60 zero_proc\<rparr>"

theorem exit_hands_over_witness:
  "p_exit_status (procs (exit_zombie 2 7 example_family) ! 2) = 7 \<and>
   p_state (procs (exit_zombie 2 7 example_family) ! 1) = RUNNABLE \<and>
   p_parent (procs (exit_zombie 2 7 example_family) ! 3) = Some 0 \<and>
   p_state (procs (exit_zombie 2 7 example_family) ! 0) = RUNNABLE"
proof -
  let ?t = "exit_zombie 2 7 example_family"
  have "length (procs example_family) = NPROC" "initproc example_family = Some 0" "p_parent (procs example_family ! 2) = Some 1"
    "p_state (procs example_family ! 1) = SLEEPING" "p_chan (procs example_family ! 1) = ChanProc 1"
    "p_state (procs example_family ! 0) = SLEEPING" "p_chan (procs example_family ! 0) = ChanProc 0"
    "p_parent (procs example_family ! 3) = Some 2" "p_state (procs example_family ! 3) = ZOMBIE"
    by (simp_all add: example_family_def)
  note e = this
  have z: "\<exists>j<NPROC. p_parent (procs example_family ! j) = Some 2 \<and> p_state (procs example_family ! j) = ZOMBIE"
    using e(8,9) by (intro exI [of _ 3]) simp
  have p: "\<forall>j<NPROC. p_parent (procs ?t ! j) = (if p_parent (procs example_family ! j) = Some 2 then Some 0 else p_parent (procs example_family ! j))"
    and "p_exit_status (procs ?t ! 2) = 7" "p_state (procs ?t ! 1) = RUNNABLE" "p_state (procs ?t ! 0) = RUNNABLE"
    using exit_hands_over [OF e(1-3), of 7] e(4-7) z by (simp_all add: Let_def)
  then show ?thesis using p [rule_format, of 3] e(8) by simp
qed

text \<open>The machine at boot with the process in slot 0 running, for concrete runs.\<close>

definition boot_life :: life_state where
  "boot_life = (file_state.extend boot_file \<lparr>forkret_first = True, sym_initcode_start = 0, sym_initcode_size = 0\<rparr>)
     \<lparr>cpus := [boot_cpu\<lparr>cpu_proc := Some 0\<rparr>]\<rparr>"

lemma boot_life_ok:
  "cpu_ok boot_life" "me boot_life = 0" "cpu_proc (cpus boot_life ! 0) = Some 0" "length (procs boot_life) = NPROC"
  "procs boot_life ! 0 = zero_proc" 
  by (simp_all add: boot_life_def file_state.defs boot_file_def boot_proc_def boot_kmem_def boot_cpu_def kmem_state.defs boot_sleep_def proc_state.defs boot_bio_def sleep_state.defs boot_log_def bio_state.defs boot_fs_def log_state.defs boot_cons_def fs_state.defs boot_pipe_def cons_state.defs pipe_state.defs cpu_ok_def me_def find_index_def readeflags_IF_def)

end
