(* ===== verification/Exec.thy ===== *)
theory Exec
  imports File
begin

text \<open>
  Loading a program: \<^verbatim>\<open>exec.c\<close> and \<^verbatim>\<open>loaduvm\<close> of \<^verbatim>\<open>vm.c\<close>. Path and arguments are the byte strings that the
  system call has fetched from user memory. The message \<^verbatim>\<open>exec: fail\<close> is left out.
\<close>

section \<open>ELF headers\<close>

record elfhdr =
  elf_magic :: u32
  elf_entry :: u32
  elf_phoff :: u32
  elf_phnum :: u16

record proghdr =
  ph_type :: u32
  ph_off :: u32
  ph_vaddr :: u32
  ph_filesz :: u32
  ph_memsz :: u32

text \<open>The fields the kernel reads, at their offsets in the 52 and 32 bytes of the structures.\<close>

definition elfhdr_of :: "u8 list \<Rightarrow> elfhdr" where
  "elfhdr_of bs = \<lparr>elf_magic = get32 bs 0, elf_entry = get32 bs 24, elf_phoff = get32 bs 28, elf_phnum = get16 bs 44\<rparr>"

definition proghdr_of :: "u8 list \<Rightarrow> proghdr" where
  "proghdr_of bs = \<lparr>ph_type = get32 bs 0, ph_off = get32 bs 4, ph_vaddr = get32 bs 8, ph_filesz = get32 bs 16,
     ph_memsz = get32 bs 20\<rparr>"

abbreviation (input) ELF_MAGIC :: u32 where "ELF_MAGIC \<equiv> 0x464C457F"
abbreviation (input) ELF_PROG_LOAD :: u32 where "ELF_PROG_LOAD \<equiv> 1"

section \<open>Loading a segment\<close>

definition kmem_put :: "u32 \<Rightarrow> 'a kmem_state_scheme sink" where
  "kmem_put dst k bs s = Ret (s\<lparr>mem := write_bytes (dst + of_nat k) bs (mem s)\<rparr>)"

primrec loaduvm_loop :: "nat \<Rightarrow> u32 \<Rightarrow> u32 \<Rightarrow> nat \<Rightarrow> u32 \<Rightarrow> u32 \<Rightarrow> u32 \<Rightarrow> 'a cons_state_scheme \<Rightarrow>
    (int \<times> 'a cons_state_scheme) outcome" where
  "loaduvm_loop 0 pgdir addr ip offset i sz s = (if i < sz then Blocked else Ret (0, s))"
| "loaduvm_loop (Suc k) pgdir addr ip offset i sz s =
     (if i < sz then
        bindO (walkpgdir pgdir (addr + i) False s) (\<lambda>(pte, s).
          if pte = 0 then Panic ''loaduvm: address should exist''
          else
            let pa = PTE_ADDR (load32 (mem s) pte);
                n = (if sz - i < PGSIZE then sz - i else PGSIZE) in
            bindO (readi (devsw_read []) (kmem_put (P2V pa)) ip (offset + i) n s) (\<lambda>((r, _), s).
              if r \<noteq> sint n then Ret (- 1, s)
              else loaduvm_loop k pgdir addr ip offset (i + PGSIZE) sz s))
      else Ret (0, s))"

definition loaduvm :: "u32 \<Rightarrow> u32 \<Rightarrow> nat \<Rightarrow> u32 \<Rightarrow> u32 \<Rightarrow> 'a cons_state_scheme \<Rightarrow>
    (int \<times> 'a cons_state_scheme) outcome" where
  "loaduvm pgdir addr ip offset sz s =
     (if addr mod PGSIZE \<noteq> 0 then Panic ''loaduvm: addr must be page aligned''
      else loaduvm_loop (unat sz div 4096 + 1) pgdir addr ip offset 0 sz s)"

section \<open>Exec\<close>

text \<open>
  The loop over the program headers: the new size, or \<open>None\<close> for the jump to \<^verbatim>\<open>bad\<close>.
\<close>

primrec exec_load :: "nat \<Rightarrow> u32 \<Rightarrow> nat \<Rightarrow> u32 \<Rightarrow> u32 \<Rightarrow> 'a cons_state_scheme \<Rightarrow>
    (u32 option \<times> 'a cons_state_scheme) outcome" where
  "exec_load 0 pgdir ip off sz s = Ret (Some sz, s)"
| "exec_load (Suc n) pgdir ip off sz s =
     bindO (readi (devsw_read []) kput ip off 32 s) (\<lambda>((r, bs), s).
       let ph = proghdr_of bs in
       if r \<noteq> 32 then Ret (None, s)
       else if ph_type ph \<noteq> ELF_PROG_LOAD then exec_load n pgdir ip (off + 32) sz s
       else if ph_memsz ph < ph_filesz ph then Ret (None, s)
       else if ph_vaddr ph + ph_memsz ph < ph_vaddr ph then Ret (None, s)
       else
         bindO (allocuvm pgdir sz (ph_vaddr ph + ph_memsz ph) s) (\<lambda>(sz, s).
           if sz = 0 then Ret (None, s)
           else if ph_vaddr ph mod PGSIZE \<noteq> 0 then Ret (None, s)
           else
             bindO (loaduvm pgdir (ph_vaddr ph) ip (ph_off ph) (ph_filesz ph) s) (\<lambda>(r, s).
               if r < 0 then Ret (None, s) else exec_load n pgdir ip (off + 32) sz s)))"

text \<open>The loop over the arguments: the stack pointer and the addresses of the strings pushed.\<close>

fun exec_args :: "u32 \<Rightarrow> u8 list list \<Rightarrow> nat \<Rightarrow> u32 \<Rightarrow> u32 list \<Rightarrow> 'a proc_state_scheme \<Rightarrow>
    ((u32 \<times> u32 list) option \<times> 'a proc_state_scheme) outcome" where
  "exec_args pgdir [] argc sp ustack s = Ret (Some (sp, ustack), s)"
| "exec_args pgdir (a # argv) argc sp ustack s =
     (if argc \<ge> MAXARG then Ret (None, s)
      else
        let sp = (sp - (of_nat (length a) + 1)) AND NOT 3 in
        bindO (copyout pgdir sp (a @ [0]) s) (\<lambda>(r, s).
          if r < 0 then Ret (None, s)
          else exec_args pgdir argv (argc + 1) sp (ustack @ [sp]) s))"

definition bytes_of_words :: "u32 list \<Rightarrow> u8 list" where
  "bytes_of_words ws = concat (map (\<lambda>w. put32 [0, 0, 0, 0] 0 w) ws)"

definition basename :: "u8 list \<Rightarrow> u8 list" where
  "basename path = rev (takeWhile (\<lambda>c. c \<noteq> slash) (rev path))"

definition exec_bad :: "u32 \<Rightarrow> nat option \<Rightarrow> 'a cons_state_scheme \<Rightarrow> (int \<times> 'a cons_state_scheme) outcome" where
  "exec_bad pgdir ip s =
     bindO (if pgdir \<noteq> 0 then freevm pgdir s else Ret s) (\<lambda>s.
     bindO (case ip of None \<Rightarrow> Ret s
            | Some ip \<Rightarrow> bindO (iunlockput ip s) (\<lambda>s. end_op s)) (\<lambda>s.
     Ret (- 1, s)))"

text \<open>
  The part after the image is loaded: the stack page below \<^verbatim>\<open>STACKBASE\<close>, the arguments, and the commit to
  the new image.
\<close>

definition exec_commit :: "nat \<Rightarrow> u8 list \<Rightarrow> u8 list list \<Rightarrow> elfhdr \<Rightarrow> u32 \<Rightarrow> u32 \<Rightarrow> 'a cons_state_scheme \<Rightarrow>
    (int \<times> 'a cons_state_scheme) outcome" where
  "exec_commit c path argv elf pgdir sz s =
     (let new = PGROUNDUP (STACKBASE - PGSIZE) in
      bindO (allocuvm pgdir new STACKBASE s) (\<lambda>(r, s).
        if r = 0 then exec_bad pgdir None s
        else
          bindO (exec_args pgdir argv 0 STACKBASE [] s) (\<lambda>(res, s).
            case res of None \<Rightarrow> exec_bad pgdir None s
            | Some (sp, strs) \<Rightarrow>
                let argc = of_nat (length strs) :: u32;
                    ustack = [0xFFFFFFFF, argc, sp - (argc + 1) * 4] @ strs @ [0];
                    sp = sp - (3 + argc + 1) * 4 in
                bindO (copyout pgdir sp (bytes_of_words ustack) s) (\<lambda>(r, s).
                  if r < 0 then exec_bad pgdir None s
                  else
                    let oldpgdir = p_pgdir (procs s ! c);
                        s = upd_proc c (\<lambda>q. q\<lparr>p_name := take 15 (map (\<lambda>b. char_of (unat b)) (basename path)),
                              p_pgdir := pgdir, p_sz := sz, p_stack_psize := 1,
                              p_tf := (p_tf q)\<lparr>tf_eip := elf_entry elf, tf_esp := sp\<rparr>\<rparr>) s in
                    bindO (switchuvm (Some c) s) (\<lambda>s.
                    bindO (freevm oldpgdir s) (\<lambda>s. Ret (0, s)))))))"

definition exec :: "u8 list \<Rightarrow> u8 list list \<Rightarrow> 'a cons_state_scheme \<Rightarrow> (int \<times> 'a cons_state_scheme) outcome" where
  "exec path argv s =
     bindO (curproc s) (\<lambda>(c, s).
     bindO (begin_op [] s) (\<lambda>s.
     bindO (namei path s) (\<lambda>(pp, s).
       case pp of None \<Rightarrow> bindO (end_op s) (\<lambda>s. Ret (- 1, s))
       | Some ip \<Rightarrow>
           bindO (ilock (Some ip) s) (\<lambda>s.
           bindO (readi (devsw_read []) kput ip 0 52 s) (\<lambda>((r, bs), s).
             let elf = elfhdr_of bs in
             if r \<noteq> 52 then exec_bad 0 (Some ip) s
             else if elf_magic elf \<noteq> ELF_MAGIC then exec_bad 0 (Some ip) s
             else
               bindO (setupkvm s) (\<lambda>(pgdir, s).
                 if pgdir = 0 then exec_bad 0 (Some ip) s
                 else
                   bindO (exec_load (unat (elf_phnum elf)) pgdir ip (elf_phoff elf) 0 s) (\<lambda>(r, s).
                     case r of None \<Rightarrow> exec_bad pgdir (Some ip) s
                     | Some sz \<Rightarrow>
                         bindO (iunlockput ip s) (\<lambda>s.
                         bindO (end_op s) (\<lambda>s.
                         exec_commit c path argv elf pgdir sz s)))))))))"

end
