(* ===== verification/Syscall.thy ===== *)
theory Syscall
  imports Lifecycle Exec
begin

text \<open>
  System calls: fetching arguments from user memory (\<^verbatim>\<open>syscall.c\<close>), the process calls of \<^verbatim>\<open>sysproc.c\<close>, the file
  calls of \<^verbatim>\<open>sysfile.c\<close>, and the dispatcher. A call that can sleep takes the list \<open>ws\<close> of what happens while it
  sleeps, and one that gives up the CPU for good or yields takes \<open>resume\<close>. An argument string is fetched
  with its bytes.
\<close>

section \<open>Fetching arguments\<close>

definition fetchint :: "u32 \<Rightarrow> 'a proc_state_scheme \<Rightarrow> (int option \<times> 'a proc_state_scheme) outcome" where
  "fetchint addr s =
     (if addr \<ge> STACKBASE \<or> addr + 4 > STACKBASE then Ret (None, s)
      else bindO (uload32 addr s) (\<lambda>(w, s). Ret (Some (sint w), s)))"

primrec fetchstr_loop :: "nat \<Rightarrow> u32 \<Rightarrow> 'a proc_state_scheme \<Rightarrow> (u8 list option \<times> 'a proc_state_scheme) outcome" where
  "fetchstr_loop 0 a s = Ret (None, s)"
| "fetchstr_loop (Suc n) a s =
     bindO (uload8 a s) (\<lambda>(b, s).
       if b = 0 then Ret (Some [], s)
       else bindO (fetchstr_loop n (a + 1) s) (\<lambda>(r, s). Ret (map_option (\<lambda>bs. b # bs) r, s)))"

text \<open>The string is looked for between \<open>addr\<close> and \<^verbatim>\<open>STACKBASE\<close>.\<close>

definition fetchstr :: "u32 \<Rightarrow> 'a proc_state_scheme \<Rightarrow> (u8 list option \<times> 'a proc_state_scheme) outcome" where
  "fetchstr addr s =
     (if addr \<ge> STACKBASE then Ret (None, s) else fetchstr_loop (unat (STACKBASE - addr)) addr s)"

definition argint :: "nat \<Rightarrow> 'a proc_state_scheme \<Rightarrow> (int option \<times> 'a proc_state_scheme) outcome" where
  "argint n s =
     bindO (curproc s) (\<lambda>(p, s). fetchint (tf_esp (p_tf (procs s ! p)) + 4 + 4 * of_nat n) s)"

definition argptr :: "nat \<Rightarrow> int \<Rightarrow> 'a proc_state_scheme \<Rightarrow> (u32 option \<times> 'a proc_state_scheme) outcome" where
  "argptr n sz s =
     bindO (argint n s) (\<lambda>(r, s).
       case r of None \<Rightarrow> Ret (None, s)
       | Some i \<Rightarrow>
           let a = of_int i :: u32 in
           if sz < 0 \<or> a \<ge> STACKBASE \<or> a + of_int sz > STACKBASE then Ret (None, s) else Ret (Some a, s))"

definition argstr :: "nat \<Rightarrow> 'a proc_state_scheme \<Rightarrow> (u8 list option \<times> 'a proc_state_scheme) outcome" where
  "argstr n s =
     bindO (argint n s) (\<lambda>(r, s).
       case r of None \<Rightarrow> Ret (None, s) | Some addr \<Rightarrow> fetchstr (of_int addr) s)"

text \<open>\<open>with_arg m f\<close>: the test \<^verbatim>\<open>if(arg(...) < 0) return -1;\<close>.\<close>

definition with_arg :: "('r option \<times> 's) outcome \<Rightarrow> ('r \<Rightarrow> 's \<Rightarrow> (int \<times> 's) outcome) \<Rightarrow> (int \<times> 's) outcome" where
  "with_arg m f = bindO m (\<lambda>(r, s). case r of None \<Rightarrow> Ret (- 1, s) | Some x \<Rightarrow> f x s)"

section \<open>Process calls\<close>

text \<open>
  \<^verbatim>\<open>sys_getpriority\<close> passes the user address on, which \<^verbatim>\<open>getpriority\<close> never stores through: the word there
  plays no role.
\<close>

definition sys_getpriority :: "'a proc_state_scheme \<Rightarrow> (int \<times> 'a proc_state_scheme) outcome" where
  "sys_getpriority s =
     with_arg (argint 0 s) (\<lambda>pid s.
     with_arg (argptr 1 4 s) (\<lambda>priority s.
     bindO (getpriority pid (uint priority) s) (\<lambda>((r, _), s). Ret (r, s))))"

definition sys_setpriority :: "('a proc_state_scheme \<Rightarrow> 'a proc_state_scheme outcome) \<Rightarrow> 'a proc_state_scheme \<Rightarrow>
    (int \<times> 'a proc_state_scheme) outcome" where
  "sys_setpriority resume s =
     with_arg (argint 0 s) (\<lambda>pid s.
     with_arg (argint 1 s) (\<lambda>priority s.
     setpriority resume pid priority s))"

definition sys_fork :: "'a file_state_scheme \<Rightarrow> (int \<times> 'a file_state_scheme) outcome" where
  "sys_fork s = fork s"

definition sys_exit :: "('a file_state_scheme \<Rightarrow> 'a file_state_scheme outcome) \<Rightarrow> 'a file_state_scheme \<Rightarrow>
    (int \<times> 'a file_state_scheme) outcome" where
  "sys_exit resume s = with_arg (argint 0 s) (\<lambda>status s. exit_proc resume status s)"

definition sys_wait :: "'a proc_state_scheme wakes \<Rightarrow> 'a proc_state_scheme \<Rightarrow> (int \<times> 'a proc_state_scheme) outcome" where
  "sys_wait ws s = with_arg (argptr 0 4 s) (\<lambda>status s. wait ws status s)"

definition sys_waitpid :: "'a proc_state_scheme wakes \<Rightarrow> 'a proc_state_scheme \<Rightarrow> (int \<times> 'a proc_state_scheme) outcome" where
  "sys_waitpid ws s =
     with_arg (argint 0 s) (\<lambda>pid s.
     with_arg (argptr 1 4 s) (\<lambda>status s.
     with_arg (argint 2 s) (\<lambda>options s.
     waitpid ws pid status options s)))"

definition sys_kill :: "'a proc_state_scheme \<Rightarrow> (int \<times> 'a proc_state_scheme) outcome" where
  "sys_kill s = with_arg (argint 0 s) (\<lambda>pid s. kill pid s)"

definition sys_getpid :: "'a proc_state_scheme \<Rightarrow> (int \<times> 'a proc_state_scheme) outcome" where
  "sys_getpid s = bindO (curproc s) (\<lambda>(p, s). Ret (p_pid (procs s ! p), s))"

definition sys_sbrk :: "'a proc_state_scheme \<Rightarrow> (int \<times> 'a proc_state_scheme) outcome" where
  "sys_sbrk s =
     with_arg (argint 0 s) (\<lambda>n s.
     bindO (curproc s) (\<lambda>(p, s).
       let addr = sint (p_sz (procs s ! p)) in
       bindO (growproc n s) (\<lambda>(r, s). Ret (if r < 0 then - 1 else addr, s))))"

text \<open>The loop \<^verbatim>\<open>while(ticks - ticks0 < n)\<close>; the comparison is unsigned.\<close>

primrec sys_sleep_wait :: "'a proc_state_scheme wakes \<Rightarrow> u32 \<Rightarrow> u32 \<Rightarrow> 'a proc_state_scheme \<Rightarrow>
    (bool \<times> 'a proc_state_scheme) outcome" where
  "sys_sleep_wait [] ticks0 n s =
     (if ticks s - ticks0 < n
      then bindO (curproc s) (\<lambda>(p, s). if p_killed (procs s ! p) then Ret (False, s) else Blocked)
      else Ret (True, s))"
| "sys_sleep_wait (w # ws) ticks0 n s =
     (if ticks s - ticks0 < n
      then bindO (curproc s) (\<lambda>(p, s).
        if p_killed (procs s ! p) then Ret (False, s)
        else bindO (sleep w ChanTicks (Some TicksLock) s) (\<lambda>s. sys_sleep_wait ws ticks0 n s))
      else Ret (True, s))"

definition sys_sleep :: "'a proc_state_scheme wakes \<Rightarrow> 'a proc_state_scheme \<Rightarrow> (int \<times> 'a proc_state_scheme) outcome" where
  "sys_sleep ws s =
     with_arg (argint 0 s) (\<lambda>n s.
     bindO (acquire TicksLock s) (\<lambda>s.
     bindO (sys_sleep_wait ws (ticks s) (of_int n) s) (\<lambda>(ok, s).
     bindO (release TicksLock s) (\<lambda>s. Ret (if ok then 0 else - 1, s)))))"

definition sys_uptime :: "'a proc_state_scheme \<Rightarrow> (int \<times> 'a proc_state_scheme) outcome" where
  "sys_uptime s = locked TicksLock (\<lambda>s. Ret (sint (ticks s), s)) s"

section \<open>File descriptors\<close>

definition argfd :: "nat \<Rightarrow> 'a proc_state_scheme \<Rightarrow> ((nat \<times> nat) option \<times> 'a proc_state_scheme) outcome" where
  "argfd n s =
     bindO (argint n s) (\<lambda>(r, s).
       case r of None \<Rightarrow> Ret (None, s)
       | Some fd \<Rightarrow>
           if fd < 0 \<or> fd \<ge> int NOFILE then Ret (None, s)
           else bindO (curproc s) (\<lambda>(p, s).
             Ret (map_option (\<lambda>f. (nat fd, f)) (p_ofile (procs s ! p) ! nat fd), s)))"

definition fdalloc :: "nat \<Rightarrow> 'a proc_state_scheme \<Rightarrow> (int \<times> 'a proc_state_scheme) outcome" where
  "fdalloc f s =
     bindO (curproc s) (\<lambda>(p, s).
       case find_index (\<lambda>x. x = None) (take NOFILE (p_ofile (procs s ! p))) of
         Some fd \<Rightarrow> Ret (int fd, upd_proc p (\<lambda>q. q\<lparr>p_ofile := (p_ofile q)[fd := Some f]\<rparr>) s)
       | None \<Rightarrow> Ret (- 1, s))"

definition sys_dup :: "'a file_state_scheme \<Rightarrow> (int \<times> 'a file_state_scheme) outcome" where
  "sys_dup s =
     with_arg (argfd 0 s) (\<lambda>(_, f) s.
     bindO (fdalloc f s) (\<lambda>(fd, s).
       if fd < 0 then Ret (- 1, s) else bindO (filedup f s) (\<lambda>(_, s). Ret (fd, s))))"

definition sys_read :: "'a file_state_scheme wakes \<Rightarrow> 'a file_state_scheme \<Rightarrow> (int \<times> 'a file_state_scheme) outcome" where
  "sys_read ws s =
     with_arg (argfd 0 s) (\<lambda>(_, f) s.
     with_arg (argint 2 s) (\<lambda>n s.
     with_arg (argptr 1 n s) (\<lambda>p s.
     fileread ws f p n s)))"

definition sys_write :: "'a file_state_scheme wakes \<Rightarrow> 'a file_state_scheme \<Rightarrow> (int \<times> 'a file_state_scheme) outcome" where
  "sys_write ws s =
     with_arg (argfd 0 s) (\<lambda>(_, f) s.
     with_arg (argint 2 s) (\<lambda>n s.
     with_arg (argptr 1 n s) (\<lambda>p s.
     filewrite ws f p n s)))"

definition sys_close :: "'a file_state_scheme \<Rightarrow> (int \<times> 'a file_state_scheme) outcome" where
  "sys_close s =
     with_arg (argfd 0 s) (\<lambda>(fd, f) s.
     bindO (curproc s) (\<lambda>(p, s).
     bindO (fileclose f (upd_proc p (\<lambda>q. q\<lparr>p_ofile := (p_ofile q)[fd := None]\<rparr>) s)) (\<lambda>s. Ret (0, s))))"

definition sys_fstat :: "'a file_state_scheme \<Rightarrow> (int \<times> 'a file_state_scheme) outcome" where
  "sys_fstat s =
     with_arg (argfd 0 s) (\<lambda>(_, f) s.
     with_arg (argptr 1 20 s) (\<lambda>st s. filestat f st s))"

section \<open>Directory calls\<close>

definition link_bad :: "nat \<Rightarrow> 'a fs_state_scheme \<Rightarrow> (int \<times> 'a fs_state_scheme) outcome" where
  "link_bad ip s =
     bindO (ilock (Some ip) s) (\<lambda>s.
     bindO (iupdate ip (upd_inode ip (\<lambda>x. x\<lparr>i_nlink := i_nlink x - 1\<rparr>) s)) (\<lambda>s.
     bindO (iunlockput ip s) (\<lambda>s.
     bindO (end_op s) (\<lambda>s. Ret (- 1, s)))))"

definition sys_link :: "'a fs_state_scheme \<Rightarrow> (int \<times> 'a fs_state_scheme) outcome" where
  "sys_link s =
     with_arg (argstr 0 s) (\<lambda>old s.
     with_arg (argstr 1 s) (\<lambda>new s.
     bindO (begin_op [] s) (\<lambda>s.
     bindO (namei old s) (\<lambda>(pp, s).
       case pp of None \<Rightarrow> bindO (end_op s) (\<lambda>s. Ret (- 1, s))
       | Some ip \<Rightarrow>
           bindO (ilock (Some ip) s) (\<lambda>s.
             if i_type (inodes s ! ip) = T_DIR then
               bindO (iunlockput ip s) (\<lambda>s. bindO (end_op s) (\<lambda>s. Ret (- 1, s)))
             else
               bindO (iupdate ip (upd_inode ip (\<lambda>x. x\<lparr>i_nlink := i_nlink x + 1\<rparr>) s)) (\<lambda>s.
               bindO (iunlock (Some ip) s) (\<lambda>s.
               bindO (nameiparent new s) (\<lambda>((dd, name), s).
                 case dd of None \<Rightarrow> link_bad ip s
                 | Some dp \<Rightarrow>
                     bindO (ilock (Some dp) s) (\<lambda>s.
                     bindO (if i_dev (inodes s ! dp) \<noteq> i_dev (inodes s ! ip) then Ret (- 1, s)
                            else dirlink dp name (i_inum (inodes s ! ip)) s) (\<lambda>(r, s).
                       if r < 0 then bindO (iunlockput dp s) (\<lambda>s. link_bad ip s)
                       else
                         bindO (iunlockput dp s) (\<lambda>s.
                         bindO (iput ip s) (\<lambda>s.
                         bindO (end_op s) (\<lambda>s. Ret (0, s))))))))))))))"

primrec isdirempty_loop :: "nat \<Rightarrow> nat \<Rightarrow> nat \<Rightarrow> 'a fs_state_scheme \<Rightarrow> (bool \<times> 'a fs_state_scheme) outcome" where
  "isdirempty_loop 0 dp off s = Ret (True, s)"
| "isdirempty_loop (Suc k) dp off s =
     (if off < unat (i_size (inodes s ! dp)) then
        bindO (read_dirent dp off ''isdirempty: readi'' s) (\<lambda>(de, s).
          if de_inum de \<noteq> 0 then Ret (False, s) else isdirempty_loop k dp (off + 16) s)
      else Ret (True, s))"

definition isdirempty :: "nat \<Rightarrow> 'a fs_state_scheme \<Rightarrow> (bool \<times> 'a fs_state_scheme) outcome" where
  "isdirempty dp s = isdirempty_loop (unat (i_size (inodes s ! dp)) div 16 + 1) dp 32 s"

definition unlink_bad :: "nat \<Rightarrow> 'a fs_state_scheme \<Rightarrow> (int \<times> 'a fs_state_scheme) outcome" where
  "unlink_bad dp s = bindO (iunlockput dp s) (\<lambda>s. bindO (end_op s) (\<lambda>s. Ret (- 1, s)))"

definition sys_unlink :: "'a fs_state_scheme \<Rightarrow> (int \<times> 'a fs_state_scheme) outcome" where
  "sys_unlink s =
     with_arg (argstr 0 s) (\<lambda>path s.
     bindO (begin_op [] s) (\<lambda>s.
     bindO (nameiparent path s) (\<lambda>((dd, name), s).
       case dd of None \<Rightarrow> bindO (end_op s) (\<lambda>s. Ret (- 1, s))
       | Some dp \<Rightarrow>
           bindO (ilock (Some dp) s) (\<lambda>s.
             if namecmp name [46] = 0 \<or> namecmp name [46, 46] = 0 then unlink_bad dp s
             else
               bindO (dirlookup dp name s) (\<lambda>(found, s).
                 case found of None \<Rightarrow> unlink_bad dp s
                 | Some (ip, off) \<Rightarrow>
                     bindO (ilock (Some ip) s) (\<lambda>s.
                       if sint (i_nlink (inodes s ! ip)) < 1 then Panic ''unlink: nlink < 1''
                       else
                         bindO (if i_type (inodes s ! ip) = T_DIR then isdirempty ip s else Ret (True, s))
                           (\<lambda>(empty, s).
                         if \<not> empty then bindO (iunlockput ip s) (\<lambda>s. unlink_bad dp s)
                         else
                           bindO (writei no_dev (kget (replicate 16 0)) dp (of_nat off) 16 s) (\<lambda>(r, s).
                             if r \<noteq> 16 then Panic ''unlink: writei''
                             else
                               bindO (if i_type (inodes s ! ip) = T_DIR
                                      then iupdate dp (upd_inode dp (\<lambda>x. x\<lparr>i_nlink := i_nlink x - 1\<rparr>) s)
                                      else Ret s) (\<lambda>s.
                               bindO (iunlockput dp s) (\<lambda>s.
                               bindO (iupdate ip (upd_inode ip (\<lambda>x. x\<lparr>i_nlink := i_nlink x - 1\<rparr>) s)) (\<lambda>s.
                               bindO (iunlockput ip s) (\<lambda>s.
                               bindO (end_op s) (\<lambda>s. Ret (0, s))))))))))))))"

definition create :: "u8 list \<Rightarrow> u16 \<Rightarrow> u16 \<Rightarrow> u16 \<Rightarrow> 'a fs_state_scheme \<Rightarrow> (nat option \<times> 'a fs_state_scheme) outcome" where
  "create path type major minor s =
     bindO (nameiparent path s) (\<lambda>((dd, name), s).
       case dd of None \<Rightarrow> Ret (None, s)
       | Some dp \<Rightarrow>
           bindO (ilock (Some dp) s) (\<lambda>s.
           bindO (dirlookup dp name s) (\<lambda>(found, s).
             case found of
               Some (ip, _) \<Rightarrow>
                 bindO (iunlockput dp s) (\<lambda>s.
                 bindO (ilock (Some ip) s) (\<lambda>s.
                   if type = T_FILE \<and> i_type (inodes s ! ip) = T_FILE then Ret (Some ip, s)
                   else bindO (iunlockput ip s) (\<lambda>s. Ret (None, s))))
             | None \<Rightarrow>
                 bindO (ialloc (i_dev (inodes s ! dp)) type s) (\<lambda>(ip, s).
                 bindO (ilock (Some ip) s) (\<lambda>s.
                 bindO (iupdate ip (upd_inode ip (\<lambda>x. x\<lparr>i_major := major, i_minor := minor, i_nlink := 1\<rparr>) s)) (\<lambda>s.
                 bindO (if type = T_DIR then
                          bindO (iupdate dp (upd_inode dp (\<lambda>x. x\<lparr>i_nlink := i_nlink x + 1\<rparr>) s)) (\<lambda>s.
                          bindO (dirlink ip [46] (i_inum (inodes s ! ip)) s) (\<lambda>(r1, s).
                            if r1 < 0 then Panic ''create dots''
                            else
                              bindO (dirlink ip [46, 46] (i_inum (inodes s ! dp)) s) (\<lambda>(r2, s).
                                if r2 < 0 then Panic ''create dots'' else Ret s)))
                        else Ret s) (\<lambda>s.
                 bindO (dirlink dp name (i_inum (inodes s ! ip)) s) (\<lambda>(r, s).
                   if r < 0 then Panic ''create: dirlink''
                   else bindO (iunlockput dp s) (\<lambda>s. Ret (Some ip, s))))))))))"

abbreviation (input) O_RDONLY :: int where "O_RDONLY \<equiv> 0"
abbreviation (input) O_WRONLY :: u32 where "O_WRONLY \<equiv> 1"
abbreviation (input) O_RDWR :: u32 where "O_RDWR \<equiv> 2"
abbreviation (input) O_CREATE :: u32 where "O_CREATE \<equiv> 0x200"

text \<open>The inode that \<^verbatim>\<open>sys_open\<close> works on, locked; \<open>None\<close> after the \<^verbatim>\<open>end_op()\<close> of a failed lookup.\<close>

definition open_inode :: "u8 list \<Rightarrow> int \<Rightarrow> 'a fs_state_scheme \<Rightarrow> (nat option \<times> 'a fs_state_scheme) outcome" where
  "open_inode path omode s =
     (if (of_int omode :: u32) AND O_CREATE \<noteq> 0 then
        bindO (create path T_FILE 0 0 s) (\<lambda>(pp, s).
          case pp of None \<Rightarrow> bindO (end_op s) (\<lambda>s. Ret (None, s)) | Some ip \<Rightarrow> Ret (Some ip, s))
      else
        bindO (namei path s) (\<lambda>(pp, s).
          case pp of None \<Rightarrow> bindO (end_op s) (\<lambda>s. Ret (None, s))
          | Some ip \<Rightarrow>
              bindO (ilock (Some ip) s) (\<lambda>s.
                if i_type (inodes s ! ip) = T_DIR \<and> omode \<noteq> O_RDONLY then
                  bindO (iunlockput ip s) (\<lambda>s. bindO (end_op s) (\<lambda>s. Ret (None, s)))
                else Ret (Some ip, s))))"

definition sys_open :: "'a file_state_scheme \<Rightarrow> (int \<times> 'a file_state_scheme) outcome" where
  "sys_open s =
     with_arg (argstr 0 s) (\<lambda>path s.
     with_arg (argint 1 s) (\<lambda>omode s.
     bindO (begin_op [] s) (\<lambda>s.
     bindO (open_inode path omode s) (\<lambda>(pp, s).
       case pp of None \<Rightarrow> Ret (- 1, s)
       | Some ip \<Rightarrow>
           bindO (filealloc s) (\<lambda>(ff, s).
           bindO (case ff of None \<Rightarrow> Ret (- 1, s) | Some f \<Rightarrow> fdalloc f s) (\<lambda>(fd, s).
             if fd < 0 then
               bindO (close_opt ff s) (\<lambda>s.
               bindO (iunlockput ip s) (\<lambda>s.
               bindO (end_op s) (\<lambda>s. Ret (- 1, s))))
             else
               bindO (iunlock (Some ip) s) (\<lambda>s.
               bindO (end_op s) (\<lambda>s.
                 let m = (of_int omode :: u32) in
                 Ret (fd, upd_file (the ff) (\<lambda>x. x\<lparr>f_type := FD_INODE, f_ip := ip, f_off := 0,
                   f_readable := (m AND O_WRONLY = 0),
                   f_writable := (m AND O_WRONLY \<noteq> 0 \<or> m AND O_RDWR \<noteq> 0)\<rparr>) s)))))))))"

text \<open>The failure path \<^verbatim>\<open>end_op(); return -1;\<close>, and the success path of the calls that create an inode.\<close>

definition end_fail :: "'a log_state_scheme \<Rightarrow> (int \<times> 'a log_state_scheme) outcome" where
  "end_fail s = bindO (end_op s) (\<lambda>s. Ret (- 1, s))"

definition end_created :: "(nat option \<times> 'a fs_state_scheme) outcome \<Rightarrow> (int \<times> 'a fs_state_scheme) outcome" where
  "end_created m =
     bindO m (\<lambda>(pp, s).
       case pp of None \<Rightarrow> end_fail s
       | Some ip \<Rightarrow> bindO (iunlockput ip s) (\<lambda>s. bindO (end_op s) (\<lambda>s. Ret (0, s))))"

definition sys_mkdir :: "'a fs_state_scheme \<Rightarrow> (int \<times> 'a fs_state_scheme) outcome" where
  "sys_mkdir s =
     bindO (begin_op [] s) (\<lambda>s.
     bindO (argstr 0 s) (\<lambda>(r, s).
       case r of None \<Rightarrow> end_fail s | Some path \<Rightarrow> end_created (create path T_DIR 0 0 s)))"

definition sys_mknod :: "'a fs_state_scheme \<Rightarrow> (int \<times> 'a fs_state_scheme) outcome" where
  "sys_mknod s =
     bindO (begin_op [] s) (\<lambda>s.
     bindO (argstr 0 s) (\<lambda>(r, s).
       case r of None \<Rightarrow> end_fail s
       | Some path \<Rightarrow>
     bindO (argint 1 s) (\<lambda>(r, s).
       case r of None \<Rightarrow> end_fail s
       | Some major \<Rightarrow>
     bindO (argint 2 s) (\<lambda>(r, s).
       case r of None \<Rightarrow> end_fail s
       | Some minor \<Rightarrow> end_created (create path T_DEV (of_int major) (of_int minor) s)))))"

definition sys_chdir :: "'a fs_state_scheme \<Rightarrow> (int \<times> 'a fs_state_scheme) outcome" where
  "sys_chdir s =
     bindO (curproc s) (\<lambda>(c, s).
     bindO (begin_op [] s) (\<lambda>s.
     bindO (argstr 0 s) (\<lambda>(r, s).
       case r of None \<Rightarrow> end_fail s
       | Some path \<Rightarrow>
           bindO (namei path s) (\<lambda>(pp, s).
             case pp of None \<Rightarrow> end_fail s
             | Some ip \<Rightarrow>
                 bindO (ilock (Some ip) s) (\<lambda>s.
                   if i_type (inodes s ! ip) \<noteq> T_DIR then bindO (iunlockput ip s) end_fail
                   else
                     bindO (iunlock (Some ip) s) (\<lambda>s.
                     bindO (case p_cwd (procs s ! c) of None \<Rightarrow> Panic ''trap'' | Some cwd \<Rightarrow> iput cwd s) (\<lambda>s.
                     bindO (end_op s) (\<lambda>s.
                     Ret (0, upd_proc c (\<lambda>q. q\<lparr>p_cwd := Some ip\<rparr>) s)))))))))"

section \<open>Exec and pipe\<close>

text \<open>\<open>n\<close> entries of \<^verbatim>\<open>argv\<close> are left. The null pointer ends the array.\<close>

primrec exec_argv :: "nat \<Rightarrow> u32 \<Rightarrow> 'a proc_state_scheme \<Rightarrow> (u8 list list option \<times> 'a proc_state_scheme) outcome" where
  "exec_argv 0 uargv s = Ret (None, s)"
| "exec_argv (Suc n) uargv s =
     bindO (fetchint uargv s) (\<lambda>(r, s).
       case r of None \<Rightarrow> Ret (None, s)
       | Some uarg \<Rightarrow>
           if uarg = 0 then Ret (Some [], s)
           else
             bindO (fetchstr (of_int uarg) s) (\<lambda>(a, s).
               case a of None \<Rightarrow> Ret (None, s)
               | Some a \<Rightarrow>
                   bindO (exec_argv n (uargv + 4) s) (\<lambda>(r, s). Ret (map_option (\<lambda>as. a # as) r, s))))"

definition sys_exec :: "'a cons_state_scheme \<Rightarrow> (int \<times> 'a cons_state_scheme) outcome" where
  "sys_exec s =
     with_arg (argstr 0 s) (\<lambda>path s.
     with_arg (argint 1 s) (\<lambda>uargv s.
     with_arg (exec_argv MAXARG (of_int uargv) s) (\<lambda>argv s.
     exec path argv s)))"

definition sys_pipe :: "'a file_state_scheme \<Rightarrow> (int \<times> 'a file_state_scheme) outcome" where
  "sys_pipe s =
     with_arg (argptr 0 8 s) (\<lambda>fd s.
     with_arg (pipealloc s) (\<lambda>(rf, wf) s.
     bindO (fdalloc rf s) (\<lambda>(fd0, s).
     bindO (if fd0 < 0 then Ret (- 1, s) else fdalloc wf s) (\<lambda>(fd1, s).
       if fd0 < 0 \<or> fd1 < 0 then
         bindO (if fd0 \<ge> 0
                then bindO (curproc s) (\<lambda>(p, s).
                  Ret (upd_proc p (\<lambda>q. q\<lparr>p_ofile := (p_ofile q)[nat fd0 := None]\<rparr>) s))
                else Ret s) (\<lambda>s.
         bindO (fileclose rf s) (\<lambda>s.
         bindO (fileclose wf s) (\<lambda>s. Ret (- 1, s))))
       else
         bindO (ustore32 fd (of_int fd0) s) (\<lambda>s.
         bindO (ustore32 (fd + 4) (of_int fd1) s) (\<lambda>s. Ret (0, s)))))))"

section \<open>The dispatcher\<close>

definition syscalls :: "'a life_state_scheme wakes \<Rightarrow> ('a life_state_scheme \<Rightarrow> 'a life_state_scheme outcome) \<Rightarrow> int \<Rightarrow>
    ('a life_state_scheme \<Rightarrow> (int \<times> 'a life_state_scheme) outcome) option" where
  "syscalls ws resume num =
     (if num = 1 then Some sys_fork else if num = 2 then Some (sys_exit resume)
      else if num = 3 then Some (sys_wait ws) else if num = 4 then Some sys_pipe
      else if num = 5 then Some (sys_read ws) else if num = 6 then Some sys_kill
      else if num = 7 then Some sys_exec else if num = 8 then Some sys_fstat
      else if num = 9 then Some sys_chdir else if num = 10 then Some sys_dup
      else if num = 11 then Some sys_getpid else if num = 12 then Some sys_sbrk
      else if num = 13 then Some (sys_sleep ws) else if num = 14 then Some sys_uptime
      else if num = 15 then Some sys_open else if num = 16 then Some (sys_write ws)
      else if num = 17 then Some sys_mknod else if num = 18 then Some sys_unlink
      else if num = 19 then Some sys_link else if num = 20 then Some sys_mkdir
      else if num = 21 then Some sys_close else if num = 22 then Some (sys_waitpid ws)
      else if num = 23 then Some sys_getpriority else if num = 24 then Some (sys_setpriority resume)
      else None)"

definition syscall :: "'a life_state_scheme wakes \<Rightarrow> ('a life_state_scheme \<Rightarrow> 'a life_state_scheme outcome) \<Rightarrow>
    'a life_state_scheme \<Rightarrow> 'a life_state_scheme outcome" where
  "syscall ws resume s =
     bindO (curproc s) (\<lambda>(c, s).
       case syscalls ws resume (sint (tf_eax (p_tf (procs s ! c)))) of
         Some call \<Rightarrow>
           bindO (call s) (\<lambda>(r, s).
             Ret (upd_proc c (\<lambda>q. q\<lparr>p_tf := (p_tf q)\<lparr>tf_eax := of_int r\<rparr>\<rparr>) s))
       | None \<Rightarrow> Ret (upd_proc c (\<lambda>q. q\<lparr>p_tf := (p_tf q)\<lparr>tf_eax := - 1\<rparr>\<rparr>) s))"

section \<open>Bounds of user arguments\<close>

lemma stackbase_range:
  "a \<ge> STACKBASE \<or> a + of_int sz > STACKBASE \<longleftrightarrow> \<not> (uint a < 2147483647 \<and> uint a + sz \<le> 2147483647)"
  if "0 \<le> sz" "sz < 2147483648" for a :: u32
proof (cases "uint a < 2147483647")
  case True
  have "uint (a + of_int sz) = (uint a + sz) mod 4294967296" by (simp add: uint_word_ariths uint_word_of_int take_bit_eq_mod mod_simps)
  also have "\<dots> = uint a + sz" using True that uint_ge_0 [of a] by (intro mod_pos_pos_trivial) linarith+
  finally show ?thesis using True by (auto simp: word_le_def word_less_def)
qed (auto simp: word_le_def)

lemma fetchint_eq:
  "fetchint a s = (if uint a + 4 \<le> 2147483647 then bindO (uload32 a s) (\<lambda>(w, s). Ret (Some (sint w), s)) else Ret (None, s))"
  using stackbase_range [of 4 a] by (auto simp: fetchint_def)

lemma fetchstr_loop_Some:
  "fetchstr_loop n a s = Ret (Some bs, t) \<Longrightarrow> length bs < n \<and> 0 \<notin> set bs"
  by (induction n arbitrary: a s bs) (fastforce simp: outcome_simps split: if_splits)+

lemma fetchstr_loop_string:
  "user_bytes va (bs @ [0]) s \<Longrightarrow> 0 \<notin> set bs \<Longrightarrow> length bs < n \<Longrightarrow> fetchstr_loop n va s = Ret (Some bs, s)"
proof (induction bs arbitrary: va n)
  case Nil
  then show ?case by (cases n) (auto simp: user_bytes_Cons uload8_mapped)
next
  case (Cons b bs)
  then show ?case by (cases n) (auto simp: user_bytes_Cons uload8_mapped)
qed

lemma fetchstr_loop_endless: "user_bytes va bs s \<Longrightarrow> 0 \<notin> set bs \<Longrightarrow> fetchstr_loop (length bs) va s = Ret (None, s)"
  by (induction bs arbitrary: va) (auto simp: user_bytes_Cons uload8_mapped)

lemma below_stackbase: "uint a < 2147483647 \<Longrightarrow> \<not> a \<ge> STACKBASE \<and> int (unat (STACKBASE - a)) = 2147483647 - uint a" for a :: u32
proof -
  assume "uint a < 2147483647"
  then have "a < STACKBASE" by (simp add: word_less_def)
  moreover from this have "unat (STACKBASE - a) = 2147483647 - unat a"
    using unat_sub_if_size [of STACKBASE a] by (auto simp: word_less_nat_alt word_le_nat_alt word_size split: if_splits)
  moreover have "uint a = int (unat a)" by simp
  ultimately show ?thesis using leD by (auto simp: word_less_nat_alt word_le_nat_alt)
qed

lemma fetchstr_accepts:
  assumes "uint a + int (length bs) < 2147483647" and "user_bytes a (bs @ [0]) s" and "0 \<notin> set bs"
  shows "fetchstr a s = Ret (Some bs, s)"
proof -
  have b: "\<not> a \<ge> STACKBASE" "int (unat (STACKBASE - a)) = 2147483647 - uint a" using below_stackbase [of a] assms(1) by simp_all
  then have "length bs < unat (STACKBASE - a)" using assms(1) by linarith
  then show ?thesis using fetchstr_loop_string [OF assms(2,3)] b(1) by (simp add: fetchstr_def)
qed

lemma fetchstr_unterminated:
  assumes "uint a + int (length bs) = 2147483647" and "user_bytes a bs s" and "0 \<notin> set bs"
  shows "fetchstr a s = Ret (None, s)"
proof (cases "bs = []")
  case True
  then show ?thesis using assms(1) by (simp add: fetchstr_def word_le_def)
next
  case False
  then have "0 < length bs" by simp
  then have "uint a < 2147483647" using assms(1) by linarith
  then have b: "\<not> a \<ge> STACKBASE" "int (unat (STACKBASE - a)) = 2147483647 - uint a" using below_stackbase [of a] by simp_all
  then have "unat (STACKBASE - a) = length bs" using assms(1) by linarith
  then show ?thesis using fetchstr_loop_endless [OF assms(2,3)] b(1) by (simp add: fetchstr_def)
qed

lemma fetchstr_below:
  assumes "fetchstr a s = Ret (Some bs, t)"
  shows "uint a + int (length bs) < 2147483647 \<and> 0 \<notin> set bs"
proof -
  have f: "\<not> a \<ge> STACKBASE" "fetchstr_loop (unat (STACKBASE - a)) a s = Ret (Some bs, t)"
    using assms by (simp_all add: fetchstr_def split: if_splits)
  then have "uint a < 2147483647" by (simp add: word_le_def)
  then have "int (unat (STACKBASE - a)) = 2147483647 - uint a" using below_stackbase [of a] by simp
  then show ?thesis using fetchstr_loop_Some [OF f(2)] by linarith
qed


text \<open>A process whose stack pointer lies in the kernel.\<close>

definition wild_stack :: life_state where
  "wild_stack = upd_proc 0 (\<lambda>q. q\<lparr>p_tf := user_trapframe\<lparr>tf_esp := 0x80000000\<rparr>\<rparr>) boot_life"

text \<open>A page table that maps the user page at \<^verbatim>\<open>0x1000\<close>, which holds the string \<^verbatim>\<open>h\<close>.\<close>

definition mapped_page :: life_state where
  "mapped_page = wild_stack\<lparr>cr3 := 0, mem := (store32 (store32 (\<lambda>_. 0) 0x80000000 0x1007) 0x80001004 0x2007)(0x80002000 := 104)\<rparr>"

lemma mapped_page_bytes: "user_bytes 0x1000 [104, 0, 0, 0] mapped_page"
proof -
  let ?m = "(store32 (store32 (\<lambda>_. 0) 0x80000000 0x1007) 0x80001004 0x2007)(0x80002000 := 104)"
  have m: "mem mapped_page = ?m" "cr3 mapped_page = 0" by (simp_all add: mapped_page_def)
  have e: "load32 ?m 0x80000000 = 0x1007" "load32 ?m 0x80001004 = 0x2007"
    by (simp_all add: load32_def store32_def)
  have t: "translate False 0x1000 mapped_page = Some 0x80002000" "translate False 0x1001 mapped_page = Some 0x80002001"
    "translate False 0x1002 mapped_page = Some 0x80002002" "translate False 0x1003 mapped_page = Some 0x80002003"
    unfolding translate_def m by (simp_all add: e PDX_def PTX_def P2V_def PTE_ADDR_def)
  have b: "?m 0x80002000 = 104" "?m 0x80002001 = 0" "?m 0x80002002 = 0" "?m 0x80002003 = 0" by (simp_all add: store32_def)
  have "user_bytes 0x1004 [] mapped_page" by (simp add: user_bytes_def)
  then show ?thesis unfolding user_bytes_Cons using t b by (simp add: m del: fun_upd_apply)
qed


end
