(* ===== verification/Trap.thy ===== *)
theory Trap
  imports Syscall
begin

text \<open>
  Traps and interrupts, \<^verbatim>\<open>trap.c\<close>: the interrupt descriptor table and \<^verbatim>\<open>trap()\<close> itself, with the page-fault
  branch that grows the user stack. Acknowledging an interrupt (\<^verbatim>\<open>lapiceoi\<close>) has no effect in the model, and
  the diagnostics printed for a bad trap are left out.
\<close>

section \<open>The interrupt descriptor table\<close>

abbreviation (input) T_PGFLT :: u32 where "T_PGFLT \<equiv> 14"
abbreviation (input) T_SYSCALL :: u32 where "T_SYSCALL \<equiv> 64"
abbreviation (input) T_IRQ0 :: u32 where "T_IRQ0 \<equiv> 32"
abbreviation (input) IRQ_TIMER :: u32 where "IRQ_TIMER \<equiv> 0"
abbreviation (input) IRQ_KBD :: u32 where "IRQ_KBD \<equiv> 1"
abbreviation (input) IRQ_COM1 :: u32 where "IRQ_COM1 \<equiv> 4"
abbreviation (input) IRQ_IDE :: u32 where "IRQ_IDE \<equiv> 14"
abbreviation (input) IRQ_SPURIOUS :: u32 where "IRQ_SPURIOUS \<equiv> 31"

text \<open>\<open>vectors\<close> are the 256 entry points that \<^verbatim>\<open>vectors.pl\<close> generates.\<close>

definition tvinit :: "(nat \<Rightarrow> u32) \<Rightarrow> 'a machine_scheme \<Rightarrow> gatedesc list \<times> 'a machine_scheme" where
  "tvinit vectors s =
     (let idt = map (\<lambda>i. SETGATE False (of_nat (SEG_KCODE * 8)) (vectors i) 0) [0..<256];
          idt = idt[64 := SETGATE True (of_nat (SEG_KCODE * 8)) (vectors 64) DPL_USER]
      in (idt, initlock TicksLock ''time'' s))"

section \<open>Trap\<close>

text \<open>
  What a trap finds outside the kernel: the faulting address in \<^verbatim>\<open>cr2\<close>, the characters that the keyboard
  and the serial line deliver, and the behaviour of the rest of the system while this thread sleeps or has
  given up the CPU.
\<close>

record 's trap_env =
  te_cr2 :: u32
  te_kbd :: "int list"
  te_uart :: "int list"
  te_wakes :: "('s \<Rightarrow> 's outcome) list"
  te_resume :: "'s \<Rightarrow> 's outcome"

definition killed_check :: "'a life_state_scheme trap_env \<Rightarrow> trapframe \<Rightarrow> 'a life_state_scheme \<Rightarrow>
    'a life_state_scheme outcome" where
  "killed_check env tf s =
     bindO (myproc s) (\<lambda>(pp, s).
       case pp of None \<Rightarrow> Ret s
       | Some p \<Rightarrow>
           if p_killed (procs s ! p) \<and> tf_cs tf AND 3 = 3 then exit_proc (te_resume env) 1 s else Ret s)"

definition timer_tick :: "'a proc_state_scheme \<Rightarrow> 'a proc_state_scheme outcome" where
  "timer_tick s =
     bindO (cpuid s) (\<lambda>c.
       if c = 0 then
         bindO (locked TicksLock (\<lambda>s.
             bindO (wakeup ChanTicks (s\<lparr>ticks := ticks s + 1\<rparr>)) (\<lambda>s. Ret ((), s))) s) (\<lambda>(_, s). Ret s)
       else Ret s)"

definition bad_trap :: "trapframe \<Rightarrow> 'a proc_state_scheme \<Rightarrow> 'a proc_state_scheme outcome" where
  "bad_trap tf s =
     bindO (myproc s) (\<lambda>(pp, s).
       case pp of None \<Rightarrow> Panic ''trap''
       | Some p \<Rightarrow>
           if tf_cs tf AND 3 = 0 then Panic ''trap''
           else Ret (upd_proc p (\<lambda>q. q\<lparr>p_killed := True\<rparr>) s))"

text \<open>The \<^verbatim>\<open>switch\<close> of \<^verbatim>\<open>trap()\<close>. With the disk driver in memory, \<^verbatim>\<open>ideintr\<close> does nothing.\<close>

definition trap_switch :: "'a life_state_scheme trap_env \<Rightarrow> trapframe \<Rightarrow> 'a life_state_scheme \<Rightarrow>
    'a life_state_scheme outcome" where
  "trap_switch env tf s =
     (let n = tf_trapno tf in
      if n = T_IRQ0 + IRQ_TIMER then timer_tick s
      else if n = T_IRQ0 + IRQ_IDE \<or> n = T_IRQ0 + IRQ_IDE + 1 then Ret s
      else if n = T_IRQ0 + IRQ_KBD then consoleintr (te_kbd env) s
      else if n = T_IRQ0 + IRQ_COM1 then consoleintr (te_uart env) s
      else if n = T_IRQ0 + 7 \<or> n = T_IRQ0 + IRQ_SPURIOUS then Ret s
      else if n = T_PGFLT \<and> te_cr2 env \<le> STACKBASE then pgfault (te_cr2 env) s
      else bad_trap tf s)"

definition trap :: "'a life_state_scheme trap_env \<Rightarrow> trapframe \<Rightarrow> 'a life_state_scheme \<Rightarrow>
    'a life_state_scheme outcome" where
  "trap env tf s =
     (if tf_trapno tf = T_SYSCALL then
        let check = (\<lambda>s. bindO (curproc s) (\<lambda>(p, s).
              if p_killed (procs s ! p) then exit_proc (te_resume env) 1 s else Ret (p, s))) in
        bindO (check s) (\<lambda>(p, s).
        bindO (syscall (te_wakes env) (te_resume env) (upd_proc p (\<lambda>q. q\<lparr>p_tf := tf\<rparr>) s)) (\<lambda>s.
        bindO (check s) (\<lambda>(_, s). Ret s)))
      else
        bindO (trap_switch env tf s) (\<lambda>s.
        bindO (killed_check env tf s) (\<lambda>s.
        bindO (bindO (myproc s) (\<lambda>(pp, s).
            case pp of None \<Rightarrow> Ret s
            | Some p \<Rightarrow>
                if p_state (procs s ! p) = RUNNING \<and> tf_trapno tf = T_IRQ0 + IRQ_TIMER
                then yield (te_resume env) s else Ret s)) (\<lambda>s.
        killed_check env tf s))))"

section \<open>Killed processes\<close>

text \<open>\<^verbatim>\<open>exit\<close> does not return to its caller.\<close>

lemma exit_proc_no_return: "exit_proc resume status s \<noteq> Ret x"
  by (auto simp: exit_proc_def outcome_simps split: if_splits)

lemma exit_proc_bind: "bindO (exit_proc resume status s) f = exit_proc resume status s"
  unfolding exit_proc_def bindO_assoc by (intro bindO_cong) (auto simp: bindO_assoc Let_def)

lemma myproc_Ret:
  assumes "myproc s = Ret (pp, t)"
  shows "pp = cpu_proc (cpus t ! me t) \<and> procs t = procs s"
proof -
  obtain u c where u: "pushcli s = Ret u" "mycpu u = Ret c" "pp = cpu_proc (cpus u ! c)" "popcli u = Ret t"
    using assms by (auto simp: myproc_def outcome_simps)
  have c: "find_index (\<lambda>c. apicid c = lapicid u) (cpus u) = Some c"
    using u(2) by (auto simp: mycpu_def split: if_splits option.splits)
  then have l: "c < length (cpus u)" by (auto dest: find_index_Some)
  define d where "d = (cpus u ! c)\<lparr>ncli := ncli (cpus u ! c) - 1\<rparr>"
  have t: "cpus t = (cpus u)[c := d]" "lapicid t = lapicid u" "procs t = procs u"
    using u(2,4) by (auto simp: popcli_def d_def Let_def sti_def split: if_splits)
  have "find_index (\<lambda>c. apicid c = lapicid t) (cpus t) = find_index (\<lambda>c. apicid c = lapicid u) (cpus u)"
    by (rule find_index_cong) (use l in \<open>auto simp: t d_def nth_list_update\<close>)
  then have "me t = c" using c by (simp add: me_def)
  moreover have "procs u = procs s"
    using u(1) by (auto simp: pushcli_def outcome_simps Let_def cli_def)
  ultimately show ?thesis using u(3) t l by (simp add: d_def)
qed

lemma curproc_Ret:
  assumes "curproc s = Ret (p, t)"
  shows "cpu_proc (cpus t ! me t) = Some p \<and> procs t = procs s"
proof -
  have "myproc s = Ret (Some p, t)" using assms by (auto simp: curproc_def outcome_simps split: option.splits)
  from myproc_Ret [OF this] show ?thesis by simp
qed

definition current_killed :: "'a proc_state_scheme \<Rightarrow> bool" where
  "current_killed s = (case cpu_proc (cpus s ! me s) of None \<Rightarrow> False | Some p \<Rightarrow> p_killed (procs s ! p))"

lemma killed_check_Ret:
  assumes "killed_check env tf s = Ret t" and "tf_cs tf AND 3 = 3"
  shows "\<not> current_killed t \<and> procs t = procs s"
proof -
  obtain pp where m: "myproc s = Ret (pp, t)" and k: "\<And>p. pp = Some p \<Longrightarrow> \<not> p_killed (procs t ! p)"
    using assms exit_proc_no_return
    by (simp add: killed_check_def outcome_simps split: option.splits if_splits) fastforce+
  then show ?thesis using myproc_Ret [OF m] k by (auto simp: current_killed_def split: option.splits)
qed

text \<open>The traps that \<^verbatim>\<open>trap\<close> handles; any other is an error of the program, or of the kernel in kernel mode.\<close>

definition handled_trap :: "'s trap_env \<Rightarrow> trapframe \<Rightarrow> bool" where
  "handled_trap env tf \<longleftrightarrow> tf_trapno tf \<in> {32, 33, 36, 39, 46, 47, 63, 64} \<or> tf_trapno tf = 14 \<and> te_cr2 env \<le> STACKBASE"

lemma killed_check_exits:
  assumes "cpu_ok u" and "cpu_proc (cpus u ! me u) = Some p" and "p_killed (procs u ! p)" and "tf_cs tf AND 3 = 3"
  shows "bindO (killed_check env tf u) f = exit_proc (te_resume env) 1 u"
proof -
  have "killed_check env tf u = exit_proc (te_resume env) 1 u" using assms by (simp add: killed_check_def myproc_ok)
  then show ?thesis by (simp add: exit_proc_bind)
qed

lemma trap_unhandled:
  assumes "\<not> handled_trap env tf" and "cpu_ok s" and "cpu_proc (cpus s ! me s) = Some p" and "p < length (procs s)"
  shows "tf_cs tf AND 3 = 0 \<Longrightarrow> trap env tf s = Panic ''trap''"
    and "tf_cs tf AND 3 = 3 \<Longrightarrow> trap env tf s = exit_proc (te_resume env) 1 (upd_proc p (\<lambda>q. q\<lparr>p_killed := True\<rparr>) s)"
proof -
  define u where "u = upd_proc p (\<lambda>q. q\<lparr>p_killed := True\<rparr>) s"
  have b: "trap_switch env tf s = bad_trap tf s" using assms(1) by (auto simp: trap_switch_def Let_def handled_trap_def)
  have bad: "bad_trap tf s = (if tf_cs tf AND 3 = 0 then Panic ''trap'' else Ret u)"
    using assms(2,3) by (simp add: bad_trap_def myproc_ok u_def)
  have u: "cpu_ok u" "me u = me s" "cpus u = cpus s" "p_killed (procs u ! p)"
    using assms(2,4) by (simp_all add: u_def me_def)
  have n: "tf_trapno tf \<noteq> 64" using assms(1) by (simp add: handled_trap_def)
  show "trap env tf s = Panic ''trap''" if "tf_cs tf AND 3 = 0" using that n by (simp add: trap_def b bad)
  show "trap env tf s = exit_proc (te_resume env) 1 (upd_proc p (\<lambda>q. q\<lparr>p_killed := True\<rparr>) s)" if "tf_cs tf AND 3 = 3"
    using that n killed_check_exits [of u p tf env] u assms(3) by (simp add: trap_def b bad flip: u_def)
qed

lemma trap_killed:
  assumes "trap env tf s = Ret t" and "tf_cs tf AND 3 = 3"
  shows "\<not> current_killed t"
proof (cases "tf_trapno tf = 64")
  case True
  then obtain u p where "curproc u = Ret (p, t)" "\<not> p_killed (procs t ! p)"
    using assms(1) exit_proc_no_return by (simp add: trap_def outcome_simps split: if_splits) fastforce
  then show ?thesis using curproc_Ret [of u p t] by (simp add: current_killed_def)
next
  case False
  then obtain u where "killed_check env tf u = Ret t" using assms(1) by (auto simp: trap_def outcome_simps)
  then show ?thesis using killed_check_Ret assms(2) by blast
qed

text \<open>
  C30: A killed process does not run on. When a trap from user mode returns, the process that continues has not
  been killed. A trap from user mode that the kernel does not handle does exactly what \<^verbatim>\<open>exit(1)\<close> of the process does,
  with its \<^verbatim>\<open>killed\<close> flag set, and so does a system call or an interrupt for which there is nothing to do when the process has
  been killed before; \<^verbatim>\<open>exit\<close> never returns. The unhandled trap from kernel mode panics.
\<close>

theorem killed_process_stops:
  assumes "cpu_ok s" and "cpu_proc (cpus s ! me s) = Some p" and "p < length (procs s)"
  shows "(tf_cs tf AND 3 = 3 \<longrightarrow> whenever (trap env tf s) (\<lambda>t. \<not> current_killed t)) \<and>
    (\<not> handled_trap env tf \<and> tf_cs tf AND 3 = 3 \<longrightarrow>
       trap env tf s = exit_proc (te_resume env) 1 (upd_proc p (\<lambda>q. q\<lparr>p_killed := True\<rparr>) s)) \<and>
    (p_killed (procs s ! p) \<and> (tf_trapno tf = 64 \<or> tf_trapno tf \<in> {39, 46, 47, 63} \<and> tf_cs tf AND 3 = 3) \<longrightarrow>
       trap env tf s = exit_proc (te_resume env) 1 s) \<and>
    (\<forall>u t. exit_proc (te_resume env) 1 u \<noteq> Ret t) \<and>
    (\<not> handled_trap env tf \<and> tf_cs tf AND 3 = 0 \<longrightarrow> trap env tf s = Panic ''trap'')"
proof (intro conjI impI)
  assume k: "p_killed (procs s ! p) \<and> (tf_trapno tf = 64 \<or> tf_trapno tf \<in> {39, 46, 47, 63} \<and> tf_cs tf AND 3 = 3)"
  show "trap env tf s = exit_proc (te_resume env) 1 s"
  proof (cases "tf_trapno tf = 64")
    case True
    then show ?thesis using k assms(1,2) by (simp add: trap_def Let_def curproc_ok exit_proc_bind)
  next
    case False
    then show ?thesis
      using k assms(1,2) killed_check_exits [of s p tf env] by (auto simp: trap_def trap_switch_def Let_def)
  qed
qed (use trap_killed [of env tf s] trap_unhandled [OF _ assms, of env tf] in \<open>auto intro: wheneverI simp: exit_proc_no_return\<close>)

definition quiet_env :: "life_state trap_env" where
  "quiet_env = \<lparr>te_cr2 = 0, te_kbd = [], te_uart = [], te_wakes = [], te_resume = Ret\<rparr>"

text \<open>A spurious interrupt returns to the process; a general protection fault of it ends it.\<close>

theorem killed_process_stops_witness:
  "trap quiet_env (user_trapframe\<lparr>tf_trapno := 39\<rparr>) boot_life = Ret boot_life \<and> \<not> current_killed boot_life \<and>
   trap quiet_env (user_trapframe\<lparr>tf_trapno := 13\<rparr>) boot_life = exit_proc Ret 1 (upd_proc 0 (\<lambda>q. q\<lparr>p_killed := True\<rparr>) boot_life) \<and>
   trap quiet_env (zero_trapframe\<lparr>tf_trapno := 13, tf_cs := 8\<rparr>) boot_life = Panic ''trap''"
proof -
  have r: "trap quiet_env (user_trapframe\<lparr>tf_trapno := 39\<rparr>) boot_life = Ret boot_life"
    using boot_life_ok
    by (simp add: trap_def trap_switch_def killed_check_def Let_def user_trapframe_def zero_trapframe_def quiet_env_def myproc_ok zero_proc_def)
  have user: "tf_cs (user_trapframe\<lparr>tf_trapno := n\<rparr>) AND 3 = 3" for n by (simp add: user_trapframe_def)
  have h: "\<not> handled_trap quiet_env (user_trapframe\<lparr>tf_trapno := 13\<rparr>)"
    "\<not> handled_trap quiet_env (zero_trapframe\<lparr>tf_trapno := 13, tf_cs := 8\<rparr>)"
    by (simp_all add: handled_trap_def)
  have k: "tf_cs (zero_trapframe\<lparr>tf_trapno := 13, tf_cs := 8\<rparr>) AND 3 = 0" by (simp add: zero_trapframe_def)
  have c: "cpu_proc (cpus boot_life ! me boot_life) = Some 0" "0 < length (procs boot_life)" using boot_life_ok by simp_all
  have q: "te_resume quiet_env = Ret" by (simp add: quiet_env_def)
  note stops = killed_process_stops [where env = quiet_env, OF boot_life_ok(1) c]
  show ?thesis
    using r user [of 39] user [of 13] h k q stops [of "user_trapframe\<lparr>tf_trapno := 39\<rparr>"] stops [of "user_trapframe\<lparr>tf_trapno := 13\<rparr>"]
      stops [of "zero_trapframe\<lparr>tf_trapno := 13, tf_cs := 8\<rparr>"]
    by simp blast
qed

end
