(* ===== verification/Ide.thy ===== *)
theory Ide
  imports Bio
begin

text \<open>
  The disk driver \<^verbatim>\<open>ide.c\<close> for a PATA controller, which the kernel uses in place of \<^verbatim>\<open>memide.c\<close> when it is linked
  with a disk: a queue of requests through the \<^verbatim>\<open>qnext\<close> fields of the buffers, at most one of them with the
  controller. The ports are modelled by what goes through them: the list of values written, the status bytes still
  to be read from port \<^verbatim>\<open>0x1f7\<close> and the sectors still to be read from port \<^verbatim>\<open>0x1f0\<close>. A thread that polls a port that
  gives nothing any more is \<open>Blocked\<close>. The routing of the interrupt (\<^verbatim>\<open>ioapicenable\<close>) has no effect in the model.
\<close>

section \<open>The driver\<close>

abbreviation (input) SECTOR_SIZE :: nat where "SECTOR_SIZE \<equiv> 512"
abbreviation (input) IDE_BSY :: u8 where "IDE_BSY \<equiv> 0x80"
abbreviation (input) IDE_DRDY :: u8 where "IDE_DRDY \<equiv> 0x40"
abbreviation (input) IDE_DF :: u8 where "IDE_DF \<equiv> 0x20"
abbreviation (input) IDE_ERR :: u8 where "IDE_ERR \<equiv> 0x01"
abbreviation (input) IDE_CMD_READ :: u8 where "IDE_CMD_READ \<equiv> 0x20"
abbreviation (input) IDE_CMD_WRITE :: u8 where "IDE_CMD_WRITE \<equiv> 0x30"
abbreviation (input) IDE_CMD_RDMUL :: u8 where "IDE_CMD_RDMUL \<equiv> 0xC4"
abbreviation (input) IDE_CMD_WRMUL :: u8 where "IDE_CMD_WRMUL \<equiv> 0xC5"

datatype port_out = Outb u16 u8 | Outsl u16 "u8 list"

record ide_state = bio_state +
  idequeue :: "nat option"
  qnext :: "nat \<Rightarrow> nat option"
  havedisk1 :: bool
  ide_out :: "port_out list"
  ide_status :: "u8 list"
  ide_in :: "u8 list list"

definition out :: "port_out list \<Rightarrow> 'a ide_state_scheme \<Rightarrow> 'a ide_state_scheme" where
  "out ps s = s\<lparr>ide_out := ide_out s @ ps\<rparr>"

primrec idewait_loop :: "bool \<Rightarrow> u8 list \<Rightarrow> (int \<times> u8 list) outcome" where
  "idewait_loop checkerr [] = Blocked"
| "idewait_loop checkerr (r # rs) =
     (if r AND (IDE_BSY OR IDE_DRDY) \<noteq> IDE_DRDY then idewait_loop checkerr rs
      else Ret (if checkerr \<and> r AND (IDE_DF OR IDE_ERR) \<noteq> 0 then - 1 else 0, rs))"

definition idewait :: "bool \<Rightarrow> 'a ide_state_scheme \<Rightarrow> (int \<times> 'a ide_state_scheme) outcome" where
  "idewait checkerr s = bindO (idewait_loop checkerr (ide_status s)) (\<lambda>(r, rs). Ret (r, s\<lparr>ide_status := rs\<rparr>))"

primrec probe_loop :: "nat \<Rightarrow> 'a ide_state_scheme \<Rightarrow> 'a ide_state_scheme outcome" where
  "probe_loop 0 s = Ret s"
| "probe_loop (Suc n) s =
     (case ide_status s of
        [] \<Rightarrow> Blocked
      | r # rs \<Rightarrow> let s = s\<lparr>ide_status := rs\<rparr> in if r \<noteq> 0 then Ret (s\<lparr>havedisk1 := True\<rparr>) else probe_loop n s)"

definition ideinit :: "'a ide_state_scheme \<Rightarrow> 'a ide_state_scheme outcome" where
  "ideinit s =
     bindO (idewait False (initlock IdeLock ''ide'' s)) (\<lambda>(_, s).
     bindO (probe_loop 1000 (out [Outb 0x1F6 (0xE0 OR push_bit 4 1)] s)) (\<lambda>s.
     Ret (out [Outb 0x1F6 (0xE0 OR push_bit 4 0)] s)))"

definition idestart :: "nat option \<Rightarrow> 'a ide_state_scheme \<Rightarrow> 'a ide_state_scheme outcome" where
  "idestart bp s =
     (case bp of
        None \<Rightarrow> Panic ''idestart''
      | Some b \<Rightarrow>
          let x = bufs s ! b in
          if unat (b_blockno x) \<ge> FSSIZE then Panic ''incorrect blockno''
          else
            let sector_per_block = BSIZE div SECTOR_SIZE;
                sector = b_blockno x * of_nat sector_per_block;
                read_cmd = (if sector_per_block = 1 then IDE_CMD_READ else IDE_CMD_RDMUL);
                write_cmd = (if sector_per_block = 1 then IDE_CMD_WRITE else IDE_CMD_WRMUL) in
            if sector_per_block > 7 then Panic ''idestart''
            else
              bindO (idewait False s) (\<lambda>(_, s).
              Ret (out ([Outb 0x3F6 0, Outb 0x1F2 (of_nat sector_per_block), Outb 0x1F3 (ucast (sector AND 0xFF)),
                    Outb 0x1F4 (ucast (drop_bit 8 sector AND 0xFF)), Outb 0x1F5 (ucast (drop_bit 16 sector AND 0xFF)),
                    Outb 0x1F6 (0xE0 OR push_bit 4 (ucast (b_dev x AND 1)) OR ucast (drop_bit 24 sector AND 0x0F))]
                  @ (if b_dirty x then [Outb 0x1F7 write_cmd, Outsl 0x1F0 (b_data x)] else [Outb 0x1F7 read_cmd])) s)))"

definition ide_read :: "nat \<Rightarrow> 'a ide_state_scheme \<Rightarrow> 'a ide_state_scheme outcome" where
  "ide_read b s =
     (if b_dirty (bufs s ! b) then Ret s
      else bindO (idewait True s) (\<lambda>(r, s).
        if r \<ge> 0 then (case ide_in s of [] \<Rightarrow> Blocked
          | d # ds \<Rightarrow> Ret (upd_buf b (\<lambda>x. x\<lparr>b_data := d\<rparr>) (s\<lparr>ide_in := ds\<rparr>)))
        else Ret s))"

definition ideintr :: "'a ide_state_scheme \<Rightarrow> 'a ide_state_scheme outcome" where
  "ideintr s =
     bindO (acquire IdeLock s) (\<lambda>s.
       case idequeue s of
         None \<Rightarrow> release IdeLock s
       | Some b \<Rightarrow>
           let s = s\<lparr>idequeue := qnext s b\<rparr> in
           bindO (ide_read b s) (\<lambda>s.
           let s = upd_buf b (\<lambda>x. x\<lparr>b_valid := True, b_dirty := False\<rparr>) s in
           bindO (wakeup (ChanBuf b) s) (\<lambda>s.
           bindO (if idequeue s \<noteq> None then idestart (idequeue s) s else Ret s) (\<lambda>s.
           release IdeLock s))))"

text \<open>The loop of \<^verbatim>\<open>iderw\<close> to the end of the queue; it does not return on a circular one.\<close>

partial_function (option) queue_end :: "(nat \<Rightarrow> nat option) \<Rightarrow> nat \<Rightarrow> nat option" where
  "queue_end nx b = (case nx b of None \<Rightarrow> Some b | Some c \<Rightarrow> queue_end nx c)"

definition ide_append :: "nat \<Rightarrow> 'a ide_state_scheme \<Rightarrow> 'a ide_state_scheme outcome" where
  "ide_append b s =
     (let s = s\<lparr>qnext := (qnext s)(b := None)\<rparr> in
      case idequeue s of
        None \<Rightarrow> Ret (s\<lparr>idequeue := Some b\<rparr>)
      | Some h \<Rightarrow> (case queue_end (qnext s) h of None \<Rightarrow> Blocked
          | Some l \<Rightarrow> Ret (s\<lparr>qnext := (qnext s)(l := Some b)\<rparr>)))"

text \<open>Lines of \<^verbatim>\<open>iderw\<close> that append the request and start the disk if it is the only one.\<close>

definition ide_submit :: "nat \<Rightarrow> 'a ide_state_scheme \<Rightarrow> 'a ide_state_scheme outcome" where
  "ide_submit b s = bindO (ide_append b s) (\<lambda>s. if idequeue s = Some b then idestart (idequeue s) s else Ret s)"

primrec ide_wait :: "'a ide_state_scheme wakes \<Rightarrow> nat \<Rightarrow> 'a ide_state_scheme \<Rightarrow> 'a ide_state_scheme outcome" where
  "ide_wait [] b s = (if b_valid (bufs s ! b) \<and> \<not> b_dirty (bufs s ! b) then Ret s else Blocked)"
| "ide_wait (w # ws) b s =
     (if b_valid (bufs s ! b) \<and> \<not> b_dirty (bufs s ! b) then Ret s
      else bindO (sleep w (ChanBuf b) (Some IdeLock) s) (\<lambda>s. ide_wait ws b s))"

definition ide_iderw :: "'a ide_state_scheme wakes \<Rightarrow> nat \<Rightarrow> 'a ide_state_scheme \<Rightarrow> 'a ide_state_scheme outcome" where
  "ide_iderw ws b s =
     bindO (holdingsleep (BufLk b) s) (\<lambda>(h, s).
       let x = bufs s ! b in
       if \<not> h then Panic ''iderw: buf not locked''
       else if b_valid x \<and> \<not> b_dirty x then Panic ''iderw: nothing to do''
       else if b_dev x \<noteq> 0 \<and> \<not> havedisk1 s then Panic ''iderw: ide disk 1 not present''
       else
         bindO (acquire IdeLock s) (\<lambda>s.
         bindO (ide_submit b s) (\<lambda>s.
         bindO (ide_wait ws b s) (\<lambda>s.
         release IdeLock s))))"

section \<open>Commands to the controller\<close>

text \<open>What \<^verbatim>\<open>idestart\<close> writes for a request, and how a controller reads it: drive, sector and, for a write, the data.\<close>

definition ide_cmd :: "buf \<Rightarrow> port_out list" where
  "ide_cmd x =
     [Outb 0x3F6 0, Outb 0x1F2 1, Outb 0x1F3 (ucast (b_blockno x AND 0xFF)),
      Outb 0x1F4 (ucast (drop_bit 8 (b_blockno x) AND 0xFF)), Outb 0x1F5 (ucast (drop_bit 16 (b_blockno x) AND 0xFF)),
      Outb 0x1F6 (0xE0 OR push_bit 4 (ucast (b_dev x AND 1)) OR ucast (drop_bit 24 (b_blockno x) AND 0x0F))]
     @ (if b_dirty x then [Outb 0x1F7 IDE_CMD_WRITE, Outsl 0x1F0 (b_data x)] else [Outb 0x1F7 IDE_CMD_READ])"

definition ata_decode :: "port_out list \<Rightarrow> (bool \<times> u32 \<times> u8 list option) option" where
  "ata_decode ps = (case ps of
     Outb p0 _ # Outb p1 n # Outb p2 l0 # Outb p3 l1 # Outb p4 l2 # Outb p5 dh # Outb p6 cmd # rest \<Rightarrow>
       if [p0, p1, p2, p3, p4, p5, p6] = [0x3F6, 0x1F2, 0x1F3, 0x1F4, 0x1F5, 0x1F6, 0x1F7] \<and> n = 1 \<and> bit dh 6
       then let lba = ucast l0 OR push_bit 8 (ucast l1) OR push_bit 16 (ucast l2) OR push_bit 24 (ucast (dh AND 0x0F)) in
         (case rest of [] \<Rightarrow> if cmd = IDE_CMD_READ then Some (bit dh 4, lba, None) else None
          | [Outsl p d] \<Rightarrow> if cmd = IDE_CMD_WRITE \<and> p = 0x1F0 then Some (bit dh 4, lba, Some d) else None
          | _ \<Rightarrow> None)
       else None
   | _ \<Rightarrow> None)"

definition request :: "buf \<Rightarrow> bool \<times> u32 \<times> u8 list option" where
  "request x = (bit (b_dev x) 0, b_blockno x, if b_dirty x then Some (b_data x) else None)"

lemma lba_bytes:
  fixes b :: u32
  assumes "unat b < FSSIZE"
  shows "ucast (ucast (b AND 0xFF) :: u8) OR push_bit 8 (ucast (ucast (drop_bit 8 b AND 0xFF) :: u8)) = b"
    and "drop_bit 16 b = 0" and "drop_bit 24 b = 0"
proof -
  have z: "drop_bit n b = 0" if "10 \<le> n" for n
  proof -
    have "(2 :: nat) ^ 10 \<le> 2 ^ n" using that by (intro power_increasing) simp_all
    then have "unat b < 2 ^ n" using assms by simp
    then have "unat (drop_bit n b) = 0" by (simp only: unat_drop_bit_eq) (simp add: drop_bit_eq_div)
    then show ?thesis by (simp add: word_unat_eq_iff)
  qed
  show "drop_bit 16 b = 0" "drop_bit 24 b = 0" by (simp_all add: z)
  have hi: "\<not> bit b n" if "10 \<le> n" for n using arg_cong [OF z [OF that], of "\<lambda>w. bit w 0"] by (simp add: bit_drop_bit_eq)
  have m: "(0xFF :: u32) = mask 8" by (simp add: mask_eq_exp_minus_1)
  show "ucast (ucast (b AND 0xFF) :: u8) OR push_bit 8 (ucast (ucast (drop_bit 8 b AND 0xFF) :: u8)) = b"
  proof (rule bit_word_eqI)
    fix n :: nat
    assume "n < LENGTH(32)"
    then show "bit (ucast (ucast (b AND 0xFF) :: u8) OR push_bit 8 (ucast (ucast (drop_bit 8 b AND 0xFF) :: u8)) :: u32) n = bit b n"
      using hi [of n] unfolding m by (cases "n < 8"; cases "n < 10")
        (auto simp: bit_or_iff bit_and_iff bit_push_bit_iff bit_ucast_iff bit_drop_bit_eq bit_mask_iff dest: bit_imp_le_length)
  qed
qed

lemma decode_cmd:
  assumes "unat (b_blockno x) < FSSIZE"
  shows "ata_decode (ide_cmd x) = Some (request x)"
proof -
  have d: "b_dev x AND 1 = of_bool (bit (b_dev x) 0)"
    by (simp add: and_one_eq mod_2_eq_odd bit_0)
  show ?thesis
    using lba_bytes [OF assms]
    by (cases "bit (b_dev x) 0"; cases "b_dirty x") (simp_all add: ata_decode_def ide_cmd_def request_def d)
qed

section \<open>The queue\<close>

primrec qchain :: "(nat \<Rightarrow> nat option) \<Rightarrow> nat option \<Rightarrow> nat list \<Rightarrow> bool" where
  "qchain nx h [] = (h = None)"
| "qchain nx h (b # bs) = (h = Some b \<and> qchain nx (nx b) bs)"

lemma qchain_upd: "x \<notin> set q \<Longrightarrow> qchain (nx(x := v)) h q = qchain nx h q"
  by (induction q arbitrary: h) auto

lemma qchain_unique: "qchain nx h p \<Longrightarrow> qchain nx h q \<Longrightarrow> p = q"
proof (induction p arbitrary: h q)
  case Nil
  then show ?case by (cases q) auto
next
  case (Cons b p)
  then show ?case by (cases q) auto
qed

lemma queue_end_last: "qchain nx (Some h) q \<Longrightarrow> queue_end nx h = Some (last q)"
proof (induction q arbitrary: h)
  case (Cons b q)
  then show ?case by (cases q) (auto simp: queue_end.simps [of nx b])
qed simp

lemma qchain_snoc:
  assumes "qchain nx h q" and "distinct q" and "b \<notin> set q" and "nx b = None" and "q \<noteq> []"
  shows "qchain (nx(last q := Some b)) h (q @ [b])"
  using assms
proof (induction q arbitrary: h)
  case (Cons c q)
  show ?case
  proof (cases "q = []")
    case True
    then show ?thesis using Cons.prems by simp
  next
    case False
    then have "qchain (nx(last q := Some b)) (nx c) (q @ [b])" using Cons.prems by (intro Cons.IH) simp_all
    moreover have "c \<noteq> last q" using False Cons.prems last_in_set [of q] by auto
    ultimately show ?thesis using False Cons.prems by (simp add: fun_upd_def)
  qed
qed simp

lemma ide_append_ok:
  assumes "qchain (qnext s) (idequeue s) q" and "distinct q" and "b \<notin> set q"
  obtains nx h where "ide_append b s = Ret (s\<lparr>qnext := nx, idequeue := h\<rparr>)" and "qchain nx h (q @ [b])"
proof (cases q)
  case Nil
  then show thesis using assms by (intro that [where nx = "(qnext s)(b := None)" and h = "Some b"]) (simp_all add: ide_append_def Let_def)
next
  case (Cons c r)
  let ?nx = "(qnext s)(b := None)"
  have h: "idequeue s = Some c" using assms(1) Cons by simp
  have ch: "qchain ?nx (Some c) q" using assms h qchain_upd [of b q] by simp
  show thesis
  proof (rule that [where nx = "?nx(last q := Some b)" and h = "idequeue s"])
    show "ide_append b s = Ret (s\<lparr>qnext := ?nx(last q := Some b), idequeue := idequeue s\<rparr>)"
      using queue_end_last [OF ch] h by (simp add: ide_append_def Let_def)
    show "qchain (?nx(last q := Some b)) (idequeue s) (q @ [b])"
      using qchain_snoc [OF ch assms(2,3)] Cons h by simp
  qed
qed

lemma idestart_cmd:
  assumes "idestart bp s = Ret t"
  obtains b rs where "bp = Some b" and "unat (b_blockno (bufs s ! b)) < FSSIZE"
    and "t = s\<lparr>ide_status := rs, ide_out := ide_out s @ ide_cmd (bufs s ! b)\<rparr>"
  using assms by (auto simp: idestart_def idewait_def out_def ide_cmd_def Let_def bindO_eq_Ret_iff not_le split: option.splits if_splits)

section \<open>Interleavings of requests and interrupts\<close>

text \<open>The part of the state that the driver works on; the locks and the process table do not belong to it.\<close>

definition same_ide :: "'a ide_state_scheme \<Rightarrow> 'a ide_state_scheme \<Rightarrow> bool" where
  "same_ide t s \<longleftrightarrow> bufs t = bufs s \<and> idequeue t = idequeue s \<and> qnext t = qnext s \<and> ide_out t = ide_out s \<and>
     ide_status t = ide_status s \<and> ide_in t = ide_in s"

lemma same_ide_more: "machine.more t = machine.more s \<Longrightarrow> same_ide t s" for t s :: "'a ide_state_scheme"
  by (cases s; cases t) (simp add: same_ide_def)

lemma lock_same_ide: "acquire l s = Ret t \<Longrightarrow> same_ide t s" "release l s = Ret t \<Longrightarrow> same_ide t s"
  by (simp_all add: acquire_more release_more same_ide_more)

lemma wakeup_same_ide: "wakeup ch s = Ret t \<Longrightarrow> same_ide t s" for t s :: "'a ide_state_scheme"
  by (auto simp: wakeup_def locked_def bindO_eq_Ret_iff wakeup1_def same_ide_def dest!: lock_same_ide)

text \<open>What an interrupt does to the head of the queue.\<close>

definition completed :: "nat \<Rightarrow> 'a ide_state_scheme \<Rightarrow> 'a ide_state_scheme \<Rightarrow> bool" where
  "completed b s t \<longleftrightarrow> (\<exists>d. bufs t = (bufs s)[b := (bufs s ! b)\<lparr>b_data := d, b_valid := True, b_dirty := False\<rparr>] \<and>
     (d = b_data (bufs s ! b) \<or> (\<not> b_dirty (bufs s ! b) \<and> (\<exists>ds. ide_in s = d # ds))))"

lemma ide_read_data:
  assumes "ide_read b s = Ret t"
  obtains d where "bufs t = (bufs s)[b := (bufs s ! b)\<lparr>b_data := d\<rparr>]" and "idequeue t = idequeue s" and "qnext t = qnext s"
    and "ide_out t = ide_out s" and "d = b_data (bufs s ! b) \<or> (\<not> b_dirty (bufs s ! b) \<and> (\<exists>ds. ide_in s = d # ds))"
proof (cases "b_dirty (bufs s ! b)")
  case True
  then show thesis using assms by (intro that [of "b_data (bufs s ! b)"]) (simp_all add: ide_read_def)
next
  case False
  then obtain r rs where r: "idewait_loop True (ide_status s) = Ret (r, rs)"
    using assms by (auto simp: ide_read_def idewait_def bindO_eq_Ret_iff)
  then have t: "(if r \<ge> 0 then (case ide_in s of [] \<Rightarrow> Blocked
        | d # ds \<Rightarrow> Ret (upd_buf b (\<lambda>x. x\<lparr>b_data := d\<rparr>) (s\<lparr>ide_status := rs, ide_in := ds\<rparr>)))
      else Ret (s\<lparr>ide_status := rs\<rparr>)) = Ret t"
    using assms False by (cases "r \<ge> 0") (simp_all add: ide_read_def idewait_def)
  show thesis
  proof (cases "r \<ge> 0")
    case True
    then obtain d ds where "ide_in s = d # ds" "t = upd_buf b (\<lambda>x. x\<lparr>b_data := d\<rparr>) (s\<lparr>ide_status := rs, ide_in := ds\<rparr>)"
      using t by (auto split: list.splits)
    then show thesis using False by (intro that [of d]) (simp_all add: upd_buf_def)
  next
    case False
    then show thesis using t by (intro that [of "b_data (bufs s ! b)"]) auto
  qed
qed

lemma ideintr_served:
  assumes "ideintr s = Ret t" and "qchain (qnext s) (idequeue s) (b # q)" and "b \<notin> set q"
  shows "qchain (qnext t) (idequeue t) q" and "completed b s t" and "ide_out t = ide_out s @ (case q of [] \<Rightarrow> [] | c # _ \<Rightarrow> ide_cmd (bufs s ! c))"
    and "q \<noteq> [] \<Longrightarrow> unat (b_blockno (bufs s ! hd q)) < FSSIZE"
proof -
  obtain s1 where s1: "acquire IdeLock s = Ret s1" using assms(1) by (auto simp: ideintr_def bindO_eq_Ret_iff)
  note a = lock_same_ide(1) [OF s1, unfolded same_ide_def]
  let ?s2 = "s1\<lparr>idequeue := qnext s1 b\<rparr>"
  have h: "idequeue s1 = Some b" using a assms(2) by simp
  obtain s3 s5 s6 where s3: "ide_read b ?s2 = Ret s3"
    and s5: "wakeup (ChanBuf b) (upd_buf b (\<lambda>x. x\<lparr>b_valid := True, b_dirty := False\<rparr>) s3) = Ret s5"
    and s6: "(if idequeue s5 \<noteq> None then idestart (idequeue s5) s5 else Ret s5) = Ret s6" "release IdeLock s6 = Ret t"
    using assms(1) s1 h unfolding ideintr_def Let_def by (auto simp: bindO_eq_Ret_iff simp del: if_split)
  obtain d where d: "bufs s3 = (bufs s)[b := (bufs s ! b)\<lparr>b_data := d\<rparr>]" "idequeue s3 = qnext s b" "qnext s3 = qnext s" "ide_out s3 = ide_out s"
    "d = b_data (bufs s ! b) \<or> (\<not> b_dirty (bufs s ! b) \<and> (\<exists>ds. ide_in s = d # ds))"
    by (rule ide_read_data [OF s3]) (use a in auto)
  have w: "same_ide s5 (upd_buf b (\<lambda>x. x\<lparr>b_valid := True, b_dirty := False\<rparr>) s3)" by (rule wakeup_same_ide [OF s5])
  let ?x = "(bufs s ! b)\<lparr>b_data := d, b_valid := True, b_dirty := False\<rparr>"
  have five: "bufs s5 = (bufs s)[b := ?x]" "idequeue s5 = qnext s b" "qnext s5 = qnext s" "ide_out s5 = ide_out s"
    using w d(1-4) by (cases "b < length (bufs s)"; simp add: same_ide_def upd_buf_def list_update_beyond)+
  note e = lock_same_ide(2) [OF s6(2), unfolded same_ide_def]
  have ch: "qchain (qnext s) (qnext s b) q" using assms(2) by simp
  show "completed b s t"
  proof -
    have "bufs s6 = bufs s5" using s6(1) by (auto split: if_splits elim!: idestart_cmd)
    then show ?thesis unfolding completed_def using e five(1) d(5) by (intro exI [of _ d]) simp
  qed
  have q: "q = [] \<longleftrightarrow> idequeue s5 = None" "q \<noteq> [] \<Longrightarrow> idequeue s5 = Some (hd q)" using ch five(2) by (cases q; auto)+
  have "qchain (qnext t) (idequeue t) q \<and> ide_out t = ide_out s @ (case q of [] \<Rightarrow> [] | c # _ \<Rightarrow> ide_cmd (bufs s ! c)) \<and>
    (q \<noteq> [] \<longrightarrow> unat (b_blockno (bufs s ! hd q)) < FSSIZE)"
  proof (cases "q = []")
    case True
    then show ?thesis using q s6(1) e five ch by simp
  next
    case False
    then have st: "idestart (Some (hd q)) s5 = Ret s6" using q s6(1) by simp
    have "bufs s5 ! hd q = bufs s ! hd q" using False assms(3) five(1) by (cases q) auto
    then show ?thesis using False e five ch by (rule_tac idestart_cmd [OF st]) (auto split: list.splits)
  qed
  then show "qchain (qnext t) (idequeue t) q" "ide_out t = ide_out s @ (case q of [] \<Rightarrow> [] | c # _ \<Rightarrow> ide_cmd (bufs s ! c))"
    "q \<noteq> [] \<Longrightarrow> unat (b_blockno (bufs s ! hd q)) < FSSIZE" by blast+
qed

text \<open>
  Runs of the driver: a thread that holds the lock of a buffer with something to do, not in the queue, submits it with the
  contents \<open>x\<close>, or the controller interrupts. The run carries the requests so far and the number of those that are done.
\<close>

inductive ide_run :: "'a ide_state_scheme \<Rightarrow> buf list \<Rightarrow> nat \<Rightarrow> 'a ide_state_scheme \<Rightarrow> bool" for s0 where
  start: "ide_run s0 [] 0 s0"
| submit: "ide_run s0 (reqs @ [x]) k t"
    if "ide_run s0 reqs k s" and "b < length (bufs s)" and "\<not> b_valid x \<or> b_dirty x"
      and "\<forall>q. qchain (qnext s) (idequeue s) q \<longrightarrow> b \<notin> set q" and "ide_submit b (upd_buf b (\<lambda>_. x) s) = Ret t"
| interrupt: "ide_run s0 reqs (if idequeue s = None then k else Suc k) t"
    if "ide_run s0 reqs k s" and "ideintr s = Ret t"

definition ide_inv :: "'a ide_state_scheme \<Rightarrow> buf list \<Rightarrow> nat \<Rightarrow> 'a ide_state_scheme \<Rightarrow> bool" where
  "ide_inv s0 reqs k s \<longleftrightarrow> (\<exists>q. qchain (qnext s) (idequeue s) q \<and> distinct q \<and> (\<forall>b\<in>set q. b < length (bufs s)) \<and>
     k \<le> length reqs \<and> map (\<lambda>b. bufs s ! b) q = drop k reqs \<and>
     (\<exists>cs. ide_out s = ide_out s0 @ concat cs \<and> map ata_decode cs = map (\<lambda>x. Some (request x)) (take (k + of_bool (q \<noteq> [])) reqs)))"

lemma ide_invI:
  assumes "qchain (qnext s) (idequeue s) q" and "distinct q" and "\<forall>b\<in>set q. b < length (bufs s)" and "k \<le> length reqs"
    and "map (\<lambda>b. bufs s ! b) q = drop k reqs" and "ide_out s = ide_out s0 @ concat cs"
    and "map ata_decode cs = map (\<lambda>x. Some (request x)) (take (k + of_bool (q \<noteq> [])) reqs)"
  shows "ide_inv s0 reqs k s"
  unfolding ide_inv_def using assms by blast

lemma ide_inv_submit:
  assumes inv: "ide_inv s0 reqs k s" and b: "b < length (bufs s)" "\<forall>q. qchain (qnext s) (idequeue s) q \<longrightarrow> b \<notin> set q"
    and t: "ide_submit b (upd_buf b (\<lambda>_. x) s) = Ret t"
  shows "ide_inv s0 (reqs @ [x]) k t"
proof -
  let ?s = "upd_buf b (\<lambda>_. x) s"
  obtain q cs where q: "qchain (qnext s) (idequeue s) q" "distinct q" "\<forall>c\<in>set q. c < length (bufs s)" "k \<le> length reqs"
      "map (\<lambda>b. bufs s ! b) q = drop k reqs" "ide_out s = ide_out s0 @ concat cs"
      "map ata_decode cs = map (\<lambda>x. Some (request x)) (take (k + of_bool (q \<noteq> [])) reqs)"
    using inv by (auto simp: ide_inv_def)
  have nq: "b \<notin> set q" using b(2) q(1) by blast
  have us: "qnext ?s = qnext s" "idequeue ?s = idequeue s" "ide_out ?s = ide_out s" "bufs ?s = (bufs s)[b := x]" by (simp_all add: upd_buf_def)
  obtain nx h where a: "ide_append b ?s = Ret (?s\<lparr>qnext := nx, idequeue := h\<rparr>)" "qchain nx h (q @ [b])"
    by (rule ide_append_ok [of ?s q b]) (use q(1,2) nq us in auto)
  let ?u = "?s\<lparr>qnext := nx, idequeue := h\<rparr>"
  have m: "map (\<lambda>c. (bufs s)[b := x] ! c) (q @ [b]) = drop k (reqs @ [x])"
  proof -
    have "map (\<lambda>c. (bufs s)[b := x] ! c) q = map (\<lambda>c. bufs s ! c) q" by (intro map_cong refl nth_list_update_neq) (use nq in auto)
    then show ?thesis using q(4,5) b(1) by simp
  qed
  have kq: "length q = length reqs - k" using arg_cong [OF q(5), of length] by simp
  show ?thesis
  proof (cases "q = []")
    case True
    then have "h = Some b" "k = length reqs" using a(2) kq q(4) by simp_all
    then have st: "idestart (Some b) ?u = Ret t" using t a(1) by (simp add: ide_submit_def)
    obtain c rs where c: "Some b = Some c" "unat (b_blockno (bufs ?u ! c)) < FSSIZE"
        "t = ?u\<lparr>ide_status := rs, ide_out := ide_out ?u @ ide_cmd (bufs ?u ! c)\<rparr>"
      by (rule idestart_cmd [OF st])
    have bu: "bufs ?u ! b = x" using b(1) by (simp add: upd_buf_def)
    have n: "unat (b_blockno x) < FSSIZE" using c(1,2) bu by simp
    have tt: "qnext t = nx" "idequeue t = h" "bufs t = (bufs s)[b := x]" "ide_out t = ide_out s @ ide_cmd x"
      unfolding c(3) using c(1) bu us by simp_all
    have "map ata_decode (cs @ [ide_cmd x]) = map (\<lambda>x. Some (request x)) (take (k + of_bool (q @ [b] \<noteq> [])) (reqs @ [x]))"
      using q(7) True \<open>k = length reqs\<close> decode_cmd [OF n] by simp
    then show ?thesis
      by (rule ide_invI [rotated 6]) (use a(2) q(2-4,6) nq b(1) m in \<open>simp_all only: tt, simp_all\<close>)
  next
    case False
    then have "h \<noteq> Some b" using a(2) nq by (cases q) auto
    then have "t = ?u" using t a(1) by (simp add: ide_submit_def)
    then have tt: "qnext t = nx" "idequeue t = h" "bufs t = (bufs s)[b := x]" "ide_out t = ide_out s" using us by simp_all
    have "k < length reqs" using kq False by (cases q) auto
    then have "take (k + of_bool (q @ [b] \<noteq> [])) (reqs @ [x]) = take (k + of_bool (q \<noteq> [])) reqs" using False by simp
    then have "map ata_decode cs = map (\<lambda>x. Some (request x)) (take (k + of_bool (q @ [b] \<noteq> [])) (reqs @ [x]))" using q(7) by simp
    then show ?thesis
      by (rule ide_invI [rotated 6]) (use a(2) q(2-4,6) nq b(1) m in \<open>simp_all only: tt, simp_all\<close>)
  qed
qed

lemma ideintr_idle:
  assumes "ideintr s = Ret t" and "idequeue s = None"
  shows "same_ide t s"
proof -
  obtain s1 where s1: "acquire IdeLock s = Ret s1" using assms(1) by (auto simp: ideintr_def bindO_eq_Ret_iff)
  note a = lock_same_ide(1) [OF s1]
  then have "release IdeLock s1 = Ret t" using assms s1 by (simp add: ideintr_def same_ide_def)
  then show ?thesis using a lock_same_ide(2) [of IdeLock s1 t] by (simp add: same_ide_def)
qed

lemma ide_inv_interrupt:
  assumes inv: "ide_inv s0 reqs k s" and t: "ideintr s = Ret t"
  shows "ide_inv s0 reqs (if idequeue s = None then k else Suc k) t"
proof (cases "idequeue s")
  case None
  then show ?thesis using inv ideintr_idle [OF t None] by (simp add: ide_inv_def same_ide_def)
next
  case (Some b)
  obtain q' cs where q': "qchain (qnext s) (idequeue s) q'" "distinct q'" "\<forall>c\<in>set q'. c < length (bufs s)" "k \<le> length reqs"
      "map (\<lambda>b. bufs s ! b) q' = drop k reqs" "ide_out s = ide_out s0 @ concat cs"
      "map ata_decode cs = map (\<lambda>x. Some (request x)) (take (k + of_bool (q' \<noteq> [])) reqs)"
    using inv by (auto simp: ide_inv_def)
  obtain q where q: "q' = b # q" using q'(1) Some by (cases q') auto
  have nq: "b \<notin> set q" using q'(2) q by simp
  note r = ideintr_served [OF t q'(1) [unfolded q] nq]
  have k: "k < length reqs" "reqs ! k = bufs s ! b" "map (\<lambda>b. bufs s ! b) q = drop (Suc k) reqs"
  proof -
    show k: "k < length reqs" using q'(5) q by (cases "k < length reqs") auto
    show "reqs ! k = bufs s ! b" "map (\<lambda>b. bufs s ! b) q = drop (Suc k) reqs" using trans [OF q'(5) [unfolded q list.map] Cons_nth_drop_Suc [OF k, symmetric]] by simp_all
  qed
  obtain d where bt: "bufs t = (bufs s)[b := (bufs s ! b)\<lparr>b_data := d, b_valid := True, b_dirty := False\<rparr>]" using r(2) by (auto simp: completed_def)
  have m: "map (\<lambda>c. bufs t ! c) q = drop (Suc k) reqs"
    unfolding k(3) [symmetric] bt by (intro map_cong refl nth_list_update_neq) (use nq in auto)
  obtain cs' where cs': "ide_out t = ide_out s0 @ concat cs'" "map ata_decode cs' = map (\<lambda>x. Some (request x)) (take (Suc k + of_bool (q \<noteq> [])) reqs)"
  proof (cases q)
    case Nil
    then show thesis using that [of cs] r(3) q'(6,7) q by simp
  next
    case (Cons c q2)
    have "Suc k < length reqs" "reqs ! Suc k = bufs s ! c" using k(3) Cons by (cases "Suc k < length reqs"; auto simp: Cons_nth_drop_Suc [symmetric])+
    then show thesis
      using that [of "cs @ [ide_cmd (bufs s ! c)]"] r(3,4) q'(6,7) q Cons decode_cmd [of "bufs s ! c"] by (simp add: take_Suc_conv_app_nth)
  qed
  show ?thesis
    unfolding ide_inv_def using Some r(1) q' q bt m cs' k(1) by (intro exI [of _ q] conjI exI [of _ cs']) auto
qed

lemma ide_run_inv: "ide_run s0 reqs k s \<Longrightarrow> idequeue s0 = None \<Longrightarrow> ide_inv s0 reqs k s"
proof (induction rule: ide_run.induct)
  case start
  then show ?case by (intro ide_invI [where q = "[]" and cs = "[]"]) simp_all
next
  case (submit reqs k s b x t)
  then show ?case by (intro ide_inv_submit) simp_all
next
  case (interrupt reqs k s t)
  then show ?case by (intro ide_inv_interrupt) simp_all
qed

section \<open>Progress\<close>

definition ide_ready :: "u8 \<Rightarrow> bool" where "ide_ready r \<longleftrightarrow> r AND (IDE_BSY OR IDE_DRDY) = IDE_DRDY"

lemma idewait_ready:
  assumes "n < length (filter ide_ready st)"
  shows "returns (idewait_loop c st) (\<lambda>(r, rest). n \<le> length (filter ide_ready rest) \<and> (r = 0 \<or> r = - 1))"
  using assms by (induction st) (auto simp: ide_ready_def)

lemma idestart_returns:
  assumes "n < length (filter ide_ready (ide_status s))" and "unat (b_blockno (bufs s ! b)) < FSSIZE"
  shows "returns (idestart (Some b) s) (\<lambda>t. same_machine t s)"
  using idewait_ready [OF assms(1), of False] assms(2)
  by (auto simp: idestart_def idewait_def out_def Let_def returns_bindO not_le same_machine_def elim!: returns_mono)

text \<open>An interrupt is served completely when the controller becomes ready and delivers the data.\<close>

lemma ideintr_returns:
  assumes ok: "cpu_ok s" "lock_free IdeLock s" "lock_free PtableLock s" and q: "idequeue s = Some b" and inp: "ide_in s \<noteq> []"
    and st: "1 < length (filter ide_ready (ide_status s))" and nxt: "\<And>c. qnext s b = Some c \<Longrightarrow> unat (b_blockno (bufs s ! c)) < FSSIZE"
  shows "returns (ideintr s) (\<lambda>t. same_machine t s)"
proof -
  let ?a = "acquired IdeLock s"
  have a: "acquire IdeLock s = Ret ?a" by (rule acquire_free [OF ok(1,2)])
  have sel: "idequeue ?a = Some b" "qnext ?a = qnext s" "bufs ?a = bufs s" "ide_in ?a = ide_in s" "ide_status ?a = ide_status s"
    using q lock_same_ide(1) [OF a] by (simp_all add: same_ide_def)
  let ?s2 = "?a\<lparr>idequeue := qnext ?a b\<rparr>"
  have "returns (ide_read b ?s2) (\<lambda>u. same_machine u ?a \<and> idequeue u = qnext s b \<and> 1 \<le> length (filter ide_ready (ide_status u)) \<and>
      (\<exists>d. bufs u = (bufs s)[b := (bufs s ! b)\<lparr>b_data := d\<rparr>]))"
  proof (cases "b_dirty (bufs s ! b)")
    case True
    then show ?thesis using sel st by (auto simp: ide_read_def same_machine_def intro!: exI [of _ "b_data (bufs s ! b)"])
  next
    case False
    obtain d ds where "ide_in s = d # ds" using inp by (cases "ide_in s") auto
    moreover have "\<exists>d. bufs s = (bufs s)[b := (bufs s ! b)\<lparr>b_data := d\<rparr>]" by (rule exI [of _ "b_data (bufs s ! b)"]) simp
    ultimately show ?thesis
      using False sel idewait_ready [OF st, of True]
      by (auto simp: ide_read_def idewait_def returns_bindO same_machine_def upd_buf_def elim!: returns_mono intro: exI [of _ d])
  qed
  then obtain u d where u: "ide_read b ?s2 = Ret u" "same_machine u ?a" "idequeue u = qnext s b" "1 \<le> length (filter ide_ready (ide_status u))"
      "bufs u = (bufs s)[b := (bufs s ! b)\<lparr>b_data := d\<rparr>]" by (auto elim!: returnsE)
  let ?v = "upd_buf b (\<lambda>x. x\<lparr>b_valid := True, b_dirty := False\<rparr>) u"
  let ?w = "wakeup1 (ChanBuf b) ?v"
  have mv: "same_machine ?v ?a" using u(2) by (simp add: same_machine_def upd_buf_def)
  have w: "wakeup (ChanBuf b) ?v = Ret ?w"
    using same_machine_ok [OF mv] ok acquired_ok by (intro wakeup_eq) simp_all
  have mw: "same_machine ?w ?a" using mv by (simp add: same_machine_def)
  note sw = wakeup_same_ide [OF w, unfolded same_ide_def]
  have "returns (if idequeue ?w \<noteq> None then idestart (idequeue ?w) ?w else Ret ?w) (\<lambda>x. same_machine x ?w)"
  proof (cases "qnext s b")
    case None
    then show ?thesis using sw u(3) by (simp add: upd_buf_def)
  next
    case (Some c)
    have "b_blockno (bufs ?w ! c) = b_blockno (bufs s ! c)" using sw u(5) by (cases "c = b"; cases "b < length (bufs s)") (simp_all add: upd_buf_def list_update_beyond)
    moreover have "filter ide_ready (ide_status u) \<noteq> []" using u(4) by auto
    ultimately have "returns (idestart (Some c) ?w) (\<lambda>x. same_machine x ?w)" using sw nxt [OF Some] by (intro idestart_returns [of 0]) (simp_all add: upd_buf_def)
    then show ?thesis using Some sw u(3) by (simp add: upd_buf_def)
  qed
  then obtain x where x: "(if idequeue ?w \<noteq> None then idestart (idequeue ?w) ?w else Ret ?w) = Ret x" "same_machine x ?w" by (rule returnsE)
  have mx: "same_machine x ?a" by (rule same_machine_trans [OF x(2) mw])
  have l: "lapicid x = lapicid s" using mx by (simp add: same_machine_def acquired_def pushed_def)
  have "ideintr s = Ret (restored s x)"
    using a sel u(1) w x(1) release_same [OF ok(1,2) mx] unfolding ideintr_def by (simp add: Let_def del: if_split)
  then show ?thesis using restored_same [OF l] by simp
qed

section \<open>Order of service\<close>


definition ide_boot :: ide_state where
  "ide_boot = bio_state.extend boot_bio \<lparr>idequeue = None, qnext = (\<lambda>_. None), havedisk1 = True, ide_out = [],
     ide_status = [0xC0, 0x40, 0x50, 0x40], ide_in = [replicate BSIZE 7]\<rparr>"

lemma ide_boot_ok: "cpu_ok ide_boot" "lock_free l ide_boot" "length (bufs ide_boot) = NBUF + 1" "idequeue ide_boot = None"
  "qnext ide_boot b = None" "ide_out ide_boot = []" "ide_status ide_boot = [0xC0, 0x40, 0x50, 0x40]" "ide_in ide_boot = [replicate BSIZE 7]"
  using boot_bio_ok cpu_ok_cong [of ide_boot boot_bio] by (simp_all add: ide_boot_def bio_state.defs lock_free_def boot_bio_def sleep_state.defs)

definition ide_write :: buf where
  "ide_write = \<lparr>b_valid = True, b_dirty = True, b_dev = 1, b_blockno = 5, b_refcnt = 1, b_prev = 0, b_next = 0, b_data = replicate BSIZE 9\<rparr>"


end
