(* ===== verification/Crash.thy ===== *)
theory Crash
  imports Log
begin

text \<open>
  Crash safety of the write-ahead log. The disk changes one block at a time, in \<^verbatim>\<open>bwrite\<close>; the theory follows
  the disk through every block write of \<^verbatim>\<open>commit\<close> and shows that recovery from the disk at any of these points
  gives either the state before the transaction or the state after it.
\<close>

section \<open>Block numbers\<close>

lemma unat_block: "0 \<le> x \<Longrightarrow> x < 2147483648 \<Longrightarrow> unat (of_int x :: u32) = nat x"
  by (simp add: unat_eq_nat_uint uint_word_of_int)

lemma sint_block: "0 \<le> x \<Longrightarrow> x < 2147483648 \<Longrightarrow> sint (of_int x :: u32) = x"
  by (simp add: sint_uint uint_word_of_int signed_take_bit_int_eq_self)

lemma block_inj:
  assumes "0 \<le> x" and "x < 2147483648" and "0 \<le> y" and "y < 2147483648"
  shows "(of_int x :: u32) = of_int y \<longleftrightarrow> x = y"
  using unat_block [OF assms(1,2)] unat_block [OF assms(3,4)] assms by (metis nat_eq_iff nat_0_le)

lemma more_log:
  assumes "bio_state.more t = bio_state.more s"
  shows "log_start t = log_start s" "log_size t = log_size s" "log_outstanding t = log_outstanding s"
    "log_committing t = log_committing s" "log_dev t = log_dev s" "lh_n t = lh_n s" "lh_block t = lh_block s"
  using assms by (cases s; cases t; simp)+

section \<open>Copying one block\<close>

text \<open>What a copy of block \<open>ky\<close> to block \<open>kx\<close> through the cache does.\<close>

definition copied :: "u32 \<Rightarrow> u32 \<Rightarrow> 'a log_state_scheme \<Rightarrow> 'a log_state_scheme \<Rightarrow> bool" where
  "copied kx ky s t \<longleftrightarrow> cache_ok {} t \<and> bio_state.more t = bio_state.more s \<and>
     memdisk t = (memdisk s)[unat kx := content ky s] \<and> disk_trace t = disk_trace s @ [memdisk t] \<and>
     (\<forall>j. content j t = (if j = kx then content ky s else content j s)) \<and>
     (\<forall>j. pinned j t \<longleftrightarrow> pinned j s \<and> j \<noteq> kx) \<and> (\<exists>i<NBUF. \<not> b_dirty (bufs t ! i)) \<and>
     ((\<forall>i<NBUF. \<not> b_dirty (bufs s ! i)) \<longrightarrow> (\<forall>i<NBUF. \<not> b_dirty (bufs t ! i)))"

lemma copied_by_copy:
  assumes "cache_ok {} s" and "same_content s2 s" and "memdisk s2 = memdisk s" and "cache_ok {x, y} s2" and "x \<noteq> y"
    and "caches kx (bufs s2 ! x)" and "caches ky (bufs s2 ! y)" and "b_valid (bufs s2 ! x)"
    and "b_data (bufs s2 ! y) = content ky s" and "unat kx < length (memdisk s)"
  obtains u v where "bwrite x (upd_buf x (\<lambda>b. b\<lparr>b_data := b_data (bufs s2 ! y)\<rparr>) s2) = Ret u"
    "brelse y u = Ret v" "returns (brelse x v) (copied kx ky s)"
proof -
  have d: "b_dirty (bufs s2 ! y) \<or> b_data (bufs s2 ! y) = memdisk s2 ! unat ky"
    using held_clean [OF assms(1,4,2) _ assms(7)] assms(3,9) by simp
  have len: "unat kx < length (memdisk s2)" using assms(3,10) by simp
  have x: "x < NBUF" using cache_okD(3) [OF assms(4)] by simp
  obtain u v where uv: "bwrite x (upd_buf x (\<lambda>b. b\<lparr>b_data := b_data (bufs s2 ! y)\<rparr>) s2) = Ret u" "brelse y u = Ret v"
    "returns (brelse x v) (\<lambda>t. cache_ok {} t \<and> same_thread t s2 \<and> bio_state.more t = bio_state.more s2 \<and>
       memdisk t = (memdisk s2)[unat kx := b_data (bufs s2 ! y)] \<and>
       (\<forall>j. content j t = (if j = kx then b_data (bufs s2 ! y) else content j s2)) \<and>
       (\<forall>j. pinned j t \<longleftrightarrow> pinned j s2 \<and> j \<noteq> kx) \<and>
       (\<forall>i<NBUF. b_dirty (bufs t ! i) \<longleftrightarrow> i \<noteq> x \<and> b_dirty (bufs s2 ! i)) \<and> disk_trace t = disk_trace s2 @ [memdisk t])"
    by (rule copy_ok [OF assms(4-8) len d])
  have sc: "content j s2 = content j s" "pinned j s2 = pinned j s" "bio_state.more s2 = bio_state.more s"
    "i < NBUF \<Longrightarrow> b_dirty (bufs s2 ! i) = b_dirty (bufs s ! i)" "disk_trace s2 = disk_trace s" for i j
    using assms(2) by (simp_all add: same_content_def)
  have "returns (brelse x v) (copied kx ky s)"
    using uv(3)
  proof (rule returns_mono, elim conjE)
    fix t
    assume t: "cache_ok {} t" "bio_state.more t = bio_state.more s2"
      "memdisk t = (memdisk s2)[unat kx := b_data (bufs s2 ! y)]"
      "\<forall>j. content j t = (if j = kx then b_data (bufs s2 ! y) else content j s2)"
      "\<forall>j. pinned j t \<longleftrightarrow> pinned j s2 \<and> j \<noteq> kx"
      "\<forall>i<NBUF. b_dirty (bufs t ! i) \<longleftrightarrow> i \<noteq> x \<and> b_dirty (bufs s2 ! i)" "disk_trace t = disk_trace s2 @ [memdisk t]"
    have "\<exists>i<NBUF. \<not> b_dirty (bufs t ! i)" using t(6) x by (intro exI [of _ x]) simp
    then show "copied kx ky s t" unfolding copied_def using t sc assms(3,9) by simp
  qed
  then show thesis using uv(1,2) that by blast
qed

definition log_blk :: "'a log_state_scheme \<Rightarrow> nat \<Rightarrow> u32" where
  "log_blk s i = of_int (log_start s + int i + 1)"

definition home_blk :: "'a log_state_scheme \<Rightarrow> nat \<Rightarrow> u32" where
  "home_blk s i = of_int (lh_block s ! i)"

text \<open>A state in which entry \<open>i\<close> of the log can be copied in either direction.\<close>

definition can_copy :: "'a log_state_scheme \<Rightarrow> nat \<Rightarrow> bool" where
  "can_copy s i \<longleftrightarrow> cache_ok {} s \<and> log_dev s = 1 \<and> log_blk s i \<noteq> home_blk s i \<and>
     unat (log_blk s i) < length (memdisk s) \<and> unat (home_blk s i) < length (memdisk s) \<and>
     (\<exists>j<NBUF. \<not> b_dirty (bufs s ! j)) \<and> (pinned (home_blk s i) s \<or> (\<forall>j<NBUF. \<not> b_dirty (bufs s ! j)))"

lemma write_block_copied:
  assumes "can_copy s i"
  shows "returns (write_block (int i) s) (copied (log_blk s i) (home_blk s i) s)"
proof -
  have c: "cache_ok {} s" "log_dev s = 1" "log_blk s i \<noteq> home_blk s i" "unat (log_blk s i) < length (memdisk s)"
    "unat (home_blk s i) < length (memdisk s)" "\<exists>j<NBUF. \<not> b_dirty (bufs s ! j)"
    "pinned (home_blk s i) s \<or> (\<forall>j<NBUF. \<not> b_dirty (bufs s ! j))"
    using assms unfolding can_copy_def by blast+
  obtain b1 b2 t1 t where r: "bread 1 (log_blk s i) s = Ret (b1, t1)" "bread 1 (home_blk s i) t1 = Ret (b2, t)" "b1 \<noteq> b2"
    "cache_ok {b1, b2} t" "caches (log_blk s i) (bufs t ! b1)" "caches (home_blk s i) (bufs t ! b2)"
    "b_valid (bufs t ! b1)" "b_data (bufs t ! b2) = content (home_blk s i) s" "same_content t s" "memdisk t = memdisk s"
    "same_content t1 s"
    by (rule two_reads [OF c(1,3-7)]) blast
  have "bio_state.more t1 = bio_state.more s" using r(11) by (simp add: same_content_def)
  note m = more_log [OF this]
  obtain u v where "bwrite b1 (upd_buf b1 (\<lambda>b. b\<lparr>b_data := b_data (bufs t ! b2)\<rparr>) t) = Ret u" "brelse b2 u = Ret v"
    "returns (brelse b1 v) (copied (log_blk s i) (home_blk s i) s)"
    by (rule copied_by_copy [OF c(1) r(9,10,4,3,5,6,7,8) c(4)])
  moreover have "(of_int (log_start s + int i + 1) :: u32) = log_blk s i" "(of_int (lh_block s ! i) :: u32) = home_blk s i"
    by (simp_all add: log_blk_def home_blk_def)
  ultimately show ?thesis
    using r(1,2) by (simp add: write_block_def c(2) m Let_def del: of_int_add)
qed

lemma install_block_copied:
  assumes "can_copy s i"
  shows "returns (install_block (int i) s) (copied (home_blk s i) (log_blk s i) s)"
proof -
  have c: "cache_ok {} s" "log_dev s = 1" "log_blk s i \<noteq> home_blk s i" "unat (log_blk s i) < length (memdisk s)"
    "unat (home_blk s i) < length (memdisk s)" "\<exists>j<NBUF. \<not> b_dirty (bufs s ! j)"
    "pinned (home_blk s i) s \<or> (\<forall>j<NBUF. \<not> b_dirty (bufs s ! j))"
    using assms unfolding can_copy_def by blast+
  obtain b1 b2 t1 t where r: "bread 1 (log_blk s i) s = Ret (b1, t1)" "bread 1 (home_blk s i) t1 = Ret (b2, t)" "b1 \<noteq> b2"
    "cache_ok {b1, b2} t" "caches (log_blk s i) (bufs t ! b1)" "caches (home_blk s i) (bufs t ! b2)"
    "b_valid (bufs t ! b2)" "b_data (bufs t ! b1) = content (log_blk s i) s" "same_content t s" "memdisk t = memdisk s"
    "same_content t1 s"
    by (rule two_reads [OF c(1,3-7)]) blast
  have "bio_state.more t1 = bio_state.more s" using r(11) by (simp add: same_content_def)
  note m = more_log [OF this]
  have "cache_ok {b2, b1} t" using r(4) by (simp add: insert_commute)
  then obtain u v where "bwrite b2 (upd_buf b2 (\<lambda>b. b\<lparr>b_data := b_data (bufs t ! b1)\<rparr>) t) = Ret u" "brelse b1 u = Ret v"
    "returns (brelse b2 v) (copied (home_blk s i) (log_blk s i) s)"
    by (rule copied_by_copy [OF c(1) r(9,10) _ r(3) [symmetric] r(6,5,7,8) c(5)])
  moreover have "(of_int (log_start s + int i + 1) :: u32) = log_blk s i" "(of_int (lh_block s ! i) :: u32) = home_blk s i"
    by (simp_all add: log_blk_def home_blk_def)
  ultimately show ?thesis
    using r(1,2) by (simp add: install_block_def c(2) m Let_def del: of_int_add)
qed

section \<open>Copying the entries of the log\<close>

text \<open>The first \<open>k\<close> blocks \<open>src i\<close> have been copied to the blocks \<open>dst i\<close>.\<close>

definition copied_upto :: "(nat \<Rightarrow> u32) \<Rightarrow> (nat \<Rightarrow> u32) \<Rightarrow> nat \<Rightarrow> 'a log_state_scheme \<Rightarrow> 'a log_state_scheme \<Rightarrow> bool" where
  "copied_upto dst src k s t \<longleftrightarrow> cache_ok {} t \<and> bio_state.more t = bio_state.more s \<and>
     length (memdisk t) = length (memdisk s) \<and>
     (\<forall>i<k. content (dst i) t = content (src i) s \<and> memdisk t ! unat (dst i) = content (src i) s) \<and>
     (\<forall>j. (\<forall>i<k. j \<noteq> dst i) \<longrightarrow> content j t = content j s \<and> memdisk t ! unat j = memdisk s ! unat j \<and> pinned j t = pinned j s) \<and>
     (\<forall>i<k. \<not> pinned (dst i) t) \<and> (\<exists>i<NBUF. \<not> b_dirty (bufs t ! i)) \<and>
     ((\<forall>i<NBUF. \<not> b_dirty (bufs s ! i)) \<longrightarrow> (\<forall>i<NBUF. \<not> b_dirty (bufs t ! i)))"

lemma copied_upto_0: "cache_ok {} s \<Longrightarrow> \<exists>i<NBUF. \<not> b_dirty (bufs s ! i) \<Longrightarrow> copied_upto dst src 0 s s"
  by (simp add: copied_upto_def)

lemma copied_upto_Suc:
  assumes "copied_upto dst src k s t" and "copied (dst k) (src k) t u" and "\<And>i. i < k \<Longrightarrow> dst i \<noteq> dst k"
    and "\<And>i. i < k \<Longrightarrow> src k \<noteq> dst i" and "unat (dst k) < length (memdisk s)"
  shows "copied_upto dst src (Suc k) s u"
proof -
  have t: "cache_ok {} t" "bio_state.more t = bio_state.more s" "length (memdisk t) = length (memdisk s)"
    "\<And>i. i < k \<Longrightarrow> content (dst i) t = content (src i) s \<and> memdisk t ! unat (dst i) = content (src i) s"
    "\<And>j. (\<And>i. i < k \<Longrightarrow> j \<noteq> dst i) \<Longrightarrow> content j t = content j s \<and> memdisk t ! unat j = memdisk s ! unat j \<and> pinned j t = pinned j s"
    "\<And>i. i < k \<Longrightarrow> \<not> pinned (dst i) t"
    "(\<forall>i<NBUF. \<not> b_dirty (bufs s ! i)) \<longrightarrow> (\<forall>i<NBUF. \<not> b_dirty (bufs t ! i))"
    using assms(1) unfolding copied_upto_def by blast+
  have u: "cache_ok {} u" "bio_state.more u = bio_state.more t" "memdisk u = (memdisk t)[unat (dst k) := content (src k) t]"
    "\<And>j. content j u = (if j = dst k then content (src k) t else content j t)"
    "\<And>j. pinned j u \<longleftrightarrow> pinned j t \<and> j \<noteq> dst k" "\<exists>i<NBUF. \<not> b_dirty (bufs u ! i)"
    "(\<forall>i<NBUF. \<not> b_dirty (bufs t ! i)) \<longrightarrow> (\<forall>i<NBUF. \<not> b_dirty (bufs u ! i))"
    using assms(2) unfolding copied_def by blast+
  have src: "content (src k) t = content (src k) s" using t(5) [of "src k"] assms(4) by blast
  have md: "memdisk u ! unat j = (if j = dst k then content (src k) s else memdisk t ! unat j)" for j
    using u(3) src assms(5) t(3) by (simp add: nth_list_update word_unat_eq_iff)
  have "content (dst i) u = content (src i) s \<and> memdisk u ! unat (dst i) = content (src i) s \<and> \<not> pinned (dst i) u"
    if "i < Suc k" for i
  proof (cases "i = k")
    case True
    then show ?thesis using u(4,5) md src by simp
  next
    case False
    then have "i < k" using that by simp
    then show ?thesis using t(4,6) [of i] assms(3) [of i] u(4,5) md by simp
  qed
  moreover have "content j u = content j s \<and> memdisk u ! unat j = memdisk s ! unat j \<and> pinned j u = pinned j s"
    if "\<forall>i<Suc k. j \<noteq> dst i" for j
    using that t(5) [of j] u(4,5) md by simp
  moreover have "length (memdisk u) = length (memdisk s)" "bio_state.more u = bio_state.more s"
    using u(2,3) t(2,3) by simp_all
  ultimately show ?thesis unfolding copied_upto_def using u(1,6,7) t(7) by blast
qed

text \<open>
  The disks written on the way from \<open>s\<close> to \<open>t\<close> satisfy \<open>P\<close>; copying the entries one after the other, each of them
  is the disk after a number of copies.
\<close>

definition traced :: "(u8 list list \<Rightarrow> bool) \<Rightarrow> 'a bio_state_scheme \<Rightarrow> 'a bio_state_scheme \<Rightarrow> bool" where
  "traced P s t \<longleftrightarrow> (\<exists>ds. disk_trace t = disk_trace s @ ds \<and> (\<forall>d\<in>set ds. P d))"

lemma traced_refl [simp]: "traced P s s"
  by (simp add: traced_def)

lemma traced_step: "disk_trace t = disk_trace s @ [d] \<Longrightarrow> P d \<Longrightarrow> traced P t u \<Longrightarrow> traced P s u"
  by (auto simp: traced_def)

definition copy_disk :: "(nat \<Rightarrow> u32) \<Rightarrow> (nat \<Rightarrow> u32) \<Rightarrow> nat \<Rightarrow> 'a log_state_scheme \<Rightarrow> u8 list list \<Rightarrow> bool" where
  "copy_disk dst src n s d \<longleftrightarrow> (\<exists>k\<le>n. \<exists>t. copied_upto dst src k s t \<and> memdisk t = d)"

text \<open>The shape of a log: its blocks and the home blocks of its entries are different blocks of the disk.\<close>

definition log_layout :: "'a log_state_scheme \<Rightarrow> bool" where
  "log_layout s \<longleftrightarrow> log_dev s = 1 \<and> 0 \<le> log_start s \<and> log_start s + log_size s \<le> int (length (memdisk s)) \<and>
     length (memdisk s) < 2147483648 \<and> length (lh_block s) = LOGSIZE \<and> 0 \<le> lh_n s \<and> lh_n s \<le> int LOGSIZE \<and> lh_n s < log_size s \<and>
     distinct (take (nat (lh_n s)) (lh_block s)) \<and>
     (\<forall>i<nat (lh_n s). 0 \<le> lh_block s ! i \<and> lh_block s ! i < int (length (memdisk s)) \<and>
        (lh_block s ! i < log_start s \<or> log_start s + log_size s \<le> lh_block s ! i))"

definition header_blk :: "'a log_state_scheme \<Rightarrow> u32" where "header_blk s = of_int (log_start s)"

lemma log_layoutD:
  assumes "log_layout s" and "i < nat (lh_n s)"
  shows "unat (log_blk s i) = nat (log_start s) + i + 1" "unat (log_blk s i) < length (memdisk s)"
    "unat (home_blk s i) = nat (lh_block s ! i)" "unat (home_blk s i) < length (memdisk s)"
    "log_blk s i \<noteq> header_blk s" "home_blk s i \<noteq> header_blk s"
    "j < nat (lh_n s) \<Longrightarrow> home_blk s i \<noteq> log_blk s j"
    "j < nat (lh_n s) \<Longrightarrow> i \<noteq> j \<Longrightarrow> log_blk s i \<noteq> log_blk s j"
    "j < nat (lh_n s) \<Longrightarrow> i \<noteq> j \<Longrightarrow> home_blk s i \<noteq> home_blk s j"
proof -
  have l: "0 \<le> log_start s" "log_start s + log_size s \<le> int (length (memdisk s))" "length (memdisk s) < 2147483648"
    "lh_n s \<le> int LOGSIZE" "length (lh_block s) = LOGSIZE" "distinct (take (nat (lh_n s)) (lh_block s))" "lh_n s < log_size s" "0 \<le> lh_n s"
    using assms(1) by (simp_all add: log_layout_def)
  have h: "0 \<le> lh_block s ! j" "lh_block s ! j < int (length (memdisk s))"
      "lh_block s ! j < log_start s \<or> log_start s + log_size s \<le> lh_block s ! j" if "j < nat (lh_n s)" for j
    using assms(1) that by (simp_all add: log_layout_def)
  have lb: "unat (log_blk s j) = nat (log_start s) + j + 1" if "j < nat (lh_n s)" for j
  proof -
    have "unat (log_blk s j) = nat (log_start s + int j + 1)"
      unfolding log_blk_def using l that by (intro unat_block) simp_all
    then show ?thesis using l by (simp add: nat_add_distrib)
  qed
  have hb: "unat (home_blk s j) = nat (lh_block s ! j)" if "j < nat (lh_n s)" for j
    unfolding home_blk_def using h [OF that] l by (intro unat_block) simp_all
  have hd: "unat (header_blk s) = nat (log_start s)" unfolding header_blk_def using l by (intro unat_block) simp_all
  show "unat (log_blk s i) = nat (log_start s) + i + 1" "unat (home_blk s i) = nat (lh_block s ! i)"
    using lb hb assms(2) by blast+
  show "unat (log_blk s i) < length (memdisk s)" "unat (home_blk s i) < length (memdisk s)"
    using lb [OF assms(2)] hb [OF assms(2)] h [OF assms(2)] assms(2) l by auto
  show "log_blk s i \<noteq> header_blk s" "home_blk s i \<noteq> header_blk s"
    using lb [OF assms(2)] hb [OF assms(2)] hd h [OF assms(2)] l by (auto simp: word_unat_eq_iff)
  show "home_blk s i \<noteq> log_blk s j" if "j < nat (lh_n s)"
    using lb [OF that] hb [OF assms(2)] h [OF assms(2)] l that by (auto simp: word_unat_eq_iff)
  show "log_blk s i \<noteq> log_blk s j" if "j < nat (lh_n s)" "i \<noteq> j"
    using lb [OF that(1)] lb [OF assms(2)] that by (auto simp: word_unat_eq_iff)
  show "home_blk s i \<noteq> home_blk s j" if "j < nat (lh_n s)" "i \<noteq> j"
  proof
    assume "home_blk s i = home_blk s j"
    then have "nat (lh_block s ! i) = nat (lh_block s ! j)" using hb assms(2) that(1) by (metis)
    then have "lh_block s ! i = lh_block s ! j" using h [OF assms(2)] h [OF that(1)] by simp
    then have "take (nat (lh_n s)) (lh_block s) ! i = take (nat (lh_n s)) (lh_block s) ! j" using assms(2) that(1) by simp
    moreover have "(take (nat (lh_n s)) (lh_block s) ! i = take (nat (lh_n s)) (lh_block s) ! j) = (i = j)"
      by (rule nth_eq_iff_index_eq [OF l(6)]) (use l(4,5) assms(2) that in simp_all)
    ultimately show False using that(2) by blast
  qed
qed

lemma layout_more:
  assumes "bio_state.more t = bio_state.more s" and "length (memdisk t) = length (memdisk s)"
  shows "log_layout t = log_layout s" "log_blk t = log_blk s" "home_blk t = home_blk s" "header_blk t = header_blk s"
  using more_log [OF assms(1)] assms(2) by (simp_all add: log_layout_def log_blk_def home_blk_def header_blk_def fun_eq_iff)

text \<open>A state in which every entry can be copied: the home blocks are pinned, or nothing is modified.\<close>

definition all_copyable :: "'a log_state_scheme \<Rightarrow> bool" where
  "all_copyable s \<longleftrightarrow> (\<forall>i<nat (lh_n s). pinned (home_blk s i) s) \<or> (\<forall>j<NBUF. \<not> b_dirty (bufs s ! j))"

lemma can_copy_upto:
  assumes "log_layout s" and "all_copyable s" and "copied_upto dst src k s t" and "k < nat (lh_n s)"
    and "\<And>i. i < k \<Longrightarrow> home_blk s k \<noteq> dst i"
  shows "can_copy t k"
proof -
  have t: "cache_ok {} t" "bio_state.more t = bio_state.more s" "length (memdisk t) = length (memdisk s)"
    "pinned (home_blk s k) t = pinned (home_blk s k) s" "\<exists>i<NBUF. \<not> b_dirty (bufs t ! i)"
    "(\<forall>i<NBUF. \<not> b_dirty (bufs s ! i)) \<longrightarrow> (\<forall>i<NBUF. \<not> b_dirty (bufs t ! i))"
    using assms(3,5) unfolding copied_upto_def by blast+
  note same = layout_more [OF t(2,3)] and l = log_layoutD [OF assms(1,4)]
  have "pinned (home_blk s k) t \<or> (\<forall>j<NBUF. \<not> b_dirty (bufs t ! j))"
    using assms(2,4) t(4,6) unfolding all_copyable_def by blast
  moreover have "log_dev t = 1" using more_log(5) [OF t(2)] assms(1) by (simp add: log_layout_def)
  ultimately show ?thesis
    unfolding can_copy_def same(2,3) using t(1,3,5) l(2,4) l(7) [OF assms(4)] by auto
qed

lemma write_loop_copies:
  assumes "log_layout s" and "all_copyable s" and "copied_upto (log_blk s) (home_blk s) k s t" and "k + n \<le> nat (lh_n s)"
  shows "returns (write_loop n (int k) t) (\<lambda>u. copied_upto (log_blk s) (home_blk s) (k + n) s u \<and>
    traced (copy_disk (log_blk s) (home_blk s) (k + n) s) t u)"
  using assms(3,4)
proof (induction n arbitrary: k t)
  case 0
  then show ?case by simp
next
  case (Suc n)
  then have k: "k < nat (lh_n s)" by simp
  note l = log_layoutD [OF assms(1)]
  have "can_copy t k"
    using l(7) [OF k] k by (intro can_copy_upto [OF assms(1,2) Suc.prems(1) k]) simp
  moreover have "bio_state.more t = bio_state.more s" "length (memdisk t) = length (memdisk s)"
    using Suc.prems(1) by (simp_all add: copied_upto_def)
  ultimately have "returns (write_block (int k) t) (copied (log_blk s k) (home_blk s k) t)"
    using write_block_copied [of t k] layout_more(2,3) [of t s] by simp
  then have "returns (write_block (int k) t) (\<lambda>u. copied_upto (log_blk s) (home_blk s) (Suc k) s u \<and>
      disk_trace u = disk_trace t @ [memdisk u])"
  proof (rule returns_mono)
    fix u
    assume u: "copied (log_blk s k) (home_blk s k) t u"
    have "copied_upto (log_blk s) (home_blk s) (Suc k) s u"
      by (rule copied_upto_Suc [OF Suc.prems(1) u]) (use l(2) [OF k] l(7,8) k in auto)
    then show "copied_upto (log_blk s) (home_blk s) (Suc k) s u \<and> disk_trace u = disk_trace t @ [memdisk u]"
      using u by (simp add: copied_def)
  qed
  then have "returns (write_block (int k) t) (\<lambda>u. returns (write_loop n (int (Suc k)) u)
      (\<lambda>v. copied_upto (log_blk s) (home_blk s) (Suc k + n) s v \<and> traced (copy_disk (log_blk s) (home_blk s) (Suc k + n) s) t v))"
  proof (rule returns_mono)
    fix u
    assume u: "copied_upto (log_blk s) (home_blk s) (Suc k) s u \<and> disk_trace u = disk_trace t @ [memdisk u]"
    then have "copy_disk (log_blk s) (home_blk s) (Suc k + n) s (memdisk u)"
      unfolding copy_disk_def using conjunct1 [OF u] le_add1 [of "Suc k" n] by blast
    with u show "returns (write_loop n (int (Suc k)) u)
      (\<lambda>v. copied_upto (log_blk s) (home_blk s) (Suc k + n) s v \<and> traced (copy_disk (log_blk s) (home_blk s) (Suc k + n) s) t v)"
      using Suc.IH [of "Suc k" u] Suc.prems(2) by (auto elim!: returns_mono intro: traced_step)
  qed
  then show ?case by (simp add: add.commute [of 1])
qed

lemma install_loop_copies:
  assumes "log_layout s" and "all_copyable s" and "copied_upto (home_blk s) (log_blk s) k s t" and "k + n \<le> nat (lh_n s)"
  shows "returns (install_loop n (int k) t) (\<lambda>u. copied_upto (home_blk s) (log_blk s) (k + n) s u \<and>
    traced (copy_disk (home_blk s) (log_blk s) (k + n) s) t u)"
  using assms(3,4)
proof (induction n arbitrary: k t)
  case 0
  then show ?case by simp
next
  case (Suc n)
  then have k: "k < nat (lh_n s)" by simp
  note l = log_layoutD [OF assms(1)]
  have "can_copy t k"
    using l(9) [OF k] k by (intro can_copy_upto [OF assms(1,2) Suc.prems(1) k]) simp
  moreover have "bio_state.more t = bio_state.more s" "length (memdisk t) = length (memdisk s)"
    using Suc.prems(1) by (simp_all add: copied_upto_def)
  ultimately have "returns (install_block (int k) t) (copied (home_blk s k) (log_blk s k) t)"
    using install_block_copied [of t k] layout_more(2,3) [of t s] by simp
  then have "returns (install_block (int k) t) (\<lambda>u. copied_upto (home_blk s) (log_blk s) (Suc k) s u \<and>
      disk_trace u = disk_trace t @ [memdisk u])"
  proof (rule returns_mono)
    fix u
    assume u: "copied (home_blk s k) (log_blk s k) t u"
    have "copied_upto (home_blk s) (log_blk s) (Suc k) s u"
    proof (rule copied_upto_Suc [OF Suc.prems(1) u])
      show "home_blk s i \<noteq> home_blk s k" "log_blk s k \<noteq> home_blk s i" if "i < k" for i
        using l(7,9) [of i k] that k by auto
      show "unat (home_blk s k) < length (memdisk s)" by (rule l(4) [OF k])
    qed
    then show "copied_upto (home_blk s) (log_blk s) (Suc k) s u \<and> disk_trace u = disk_trace t @ [memdisk u]"
      using u by (simp add: copied_def)
  qed
  then have "returns (install_block (int k) t) (\<lambda>u. returns (install_loop n (int (Suc k)) u)
      (\<lambda>v. copied_upto (home_blk s) (log_blk s) (Suc k + n) s v \<and> traced (copy_disk (home_blk s) (log_blk s) (Suc k + n) s) t v))"
  proof (rule returns_mono)
    fix u
    assume u: "copied_upto (home_blk s) (log_blk s) (Suc k) s u \<and> disk_trace u = disk_trace t @ [memdisk u]"
    then have "copy_disk (home_blk s) (log_blk s) (Suc k + n) s (memdisk u)"
      unfolding copy_disk_def using conjunct1 [OF u] le_add1 [of "Suc k" n] by blast
    with u show "returns (install_loop n (int (Suc k)) u)
      (\<lambda>v. copied_upto (home_blk s) (log_blk s) (Suc k + n) s v \<and> traced (copy_disk (home_blk s) (log_blk s) (Suc k + n) s) t v)"
      using Suc.IH [of "Suc k" u] Suc.prems(2) by (auto elim!: returns_mono intro: traced_step)
  qed
  then show ?case by (simp add: add.commute [of 1])
qed

section \<open>The header\<close>

lemma put_words:
  assumes "\<And>i. i < m \<Longrightarrow> 8 + 4 * i \<le> length d"
  shows "length (fold (\<lambda>i d. put32 d (4 + 4 * i) (f i)) [0..<m] d) = length d"
    and "get32 (fold (\<lambda>i d. put32 d (4 + 4 * i) (f i)) [0..<m] d) 0 = get32 d 0"
    and "i < m \<Longrightarrow> get32 (fold (\<lambda>i d. put32 d (4 + 4 * i) (f i)) [0..<m] d) (4 + 4 * i) = f i"
proof -
  have "length (fold (\<lambda>i d. put32 d (4 + 4 * i) (f i)) [0..<m] d) = length d \<and>
    get32 (fold (\<lambda>i d. put32 d (4 + 4 * i) (f i)) [0..<m] d) 0 = get32 d 0 \<and>
    (\<forall>i<m. get32 (fold (\<lambda>i d. put32 d (4 + 4 * i) (f i)) [0..<m] d) (4 + 4 * i) = f i)"
    using assms
  proof (induction m)
    case (Suc m)
    then have IH: "length (fold (\<lambda>i d. put32 d (4 + 4 * i) (f i)) [0..<m] d) = length d"
      "get32 (fold (\<lambda>i d. put32 d (4 + 4 * i) (f i)) [0..<m] d) 0 = get32 d 0"
      "\<And>i. i < m \<Longrightarrow> get32 (fold (\<lambda>i d. put32 d (4 + 4 * i) (f i)) [0..<m] d) (4 + 4 * i) = f i"
      by auto
    show ?case using IH Suc.prems [of m] by (auto simp: less_Suc_eq)
  qed simp
  then show "length (fold (\<lambda>i d. put32 d (4 + 4 * i) (f i)) [0..<m] d) = length d"
    "get32 (fold (\<lambda>i d. put32 d (4 + 4 * i) (f i)) [0..<m] d) 0 = get32 d 0"
    "i < m \<Longrightarrow> get32 (fold (\<lambda>i d. put32 d (4 + 4 * i) (f i)) [0..<m] d) (4 + 4 * i) = f i"
    by blast+
qed

lemma header_bytes_read:
  assumes "length d = BSIZE" and "0 \<le> n" and "n \<le> int LOGSIZE"
  shows "length (header_bytes n bl d) = BSIZE" and "sint (get32 (header_bytes n bl d) 0) = n"
    and "i < nat n \<Longrightarrow> get32 (header_bytes n bl d) (4 + 4 * i) = of_int (bl ! i)"
proof -
  note w = put_words [of "nat n" "put32 d 0 (of_int n)", where f = "\<lambda>i. of_int (bl ! i)"]
  show "length (header_bytes n bl d) = BSIZE" using w(1) assms by (simp add: header_bytes_def)
  show "sint (get32 (header_bytes n bl d) 0) = n" using w(2) assms sint_block [of n] by (simp add: header_bytes_def)
  show "get32 (header_bytes n bl d) (4 + 4 * i) = of_int (bl ! i)" if "i < nat n"
    using w(3) that assms by (simp add: header_bytes_def)
qed

section \<open>Recovery as a function on disks\<close>

text \<open>What \<^verbatim>\<open>recover_from_log\<close> makes of the blocks of a disk, the clearing of the header apart.\<close>

definition recover_disk :: "nat \<Rightarrow> u8 list list \<Rightarrow> u8 list list" where
  "recover_disk start d =
     fold (\<lambda>i e. e[unat (get32 (d ! start) (4 + 4 * i)) := e ! (start + i + 1)])
       [0..<nat (sint (get32 (d ! start) 0))] d"

lemma recover_disk_empty: "sint (get32 (d ! start) 0) = 0 \<Longrightarrow> recover_disk start d = d"
  by (simp add: recover_disk_def)

lemma install_fold:
  assumes "\<And>i. i < m \<Longrightarrow> home i < length d" and "\<And>i j. i < m \<Longrightarrow> j < m \<Longrightarrow> home i \<noteq> start + j + 1"
    and "inj_on home {..<m}"
  shows "n \<le> m \<Longrightarrow> length (fold (\<lambda>i e. e[home i := e ! (start + i + 1)]) [0..<n] d) = length d \<and>
      (\<forall>i<n. fold (\<lambda>i e. e[home i := e ! (start + i + 1)]) [0..<n] d ! home i = d ! (start + i + 1)) \<and>
      (\<forall>p. p \<notin> home ` {..<n} \<longrightarrow> fold (\<lambda>i e. e[home i := e ! (start + i + 1)]) [0..<n] d ! p = d ! p)"
proof (induction n)
  case (Suc n)
  let ?e = "fold (\<lambda>i e. e[home i := e ! (start + i + 1)]) [0..<n] d"
  have IH: "length ?e = length d" "\<And>i. i < n \<Longrightarrow> ?e ! home i = d ! (start + i + 1)"
    "\<And>p. p \<notin> home ` {..<n} \<Longrightarrow> ?e ! p = d ! p"
    using Suc.IH Suc.prems by simp_all
  have "start + n + 1 \<notin> home ` {..<n}"
  proof
    assume "start + n + 1 \<in> home ` {..<n}"
    then obtain i where "i < n" "start + n + 1 = home i" by auto
    then show False using assms(2) [of i n] Suc.prems by simp
  qed
  then have src: "?e ! (start + n + 1) = d ! (start + n + 1)" by (rule IH(3))
  have "(?e[home n := ?e ! (start + n + 1)]) ! home i = d ! (start + i + 1)" if "i < Suc n" for i
  proof (cases "i = n")
    case True
    then show ?thesis using src assms(1) [of n] Suc.prems IH(1) by simp
  next
    case False
    then have "home n \<noteq> home i" using inj_onD [OF assms(3), of n i] that Suc.prems by auto
    then show ?thesis using IH(2) [of i] False that by simp
  qed
  moreover have "(?e[home n := ?e ! (start + n + 1)]) ! p = d ! p" if "p \<notin> home ` {..<Suc n}" for p
  proof -
    have "home n \<noteq> p" "p \<notin> home ` {..<n}" using that by auto
    then show ?thesis using IH(3) [of p] by simp
  qed
  ultimately show ?case using IH(1) by simp
qed simp

section \<open>Writing the header\<close>

lemma lh_n_upd [simp]:
  "cache_ok H (s\<lparr>lh_n := n\<rparr>) = cache_ok H s" "content k (s\<lparr>lh_n := n\<rparr>) = content k s" "pinned k (s\<lparr>lh_n := n\<rparr>) = pinned k s"
  "header_blk (s\<lparr>lh_n := n\<rparr>) = header_blk s" "log_blk (s\<lparr>lh_n := n\<rparr>) = log_blk s" "home_blk (s\<lparr>lh_n := n\<rparr>) = home_blk s"
proof -
  have st: "same_thread (s\<lparr>lh_n := n\<rparr>) s" "same_thread s (s\<lparr>lh_n := n\<rparr>)" by (simp_all add: same_thread_def same_machine_def)
  have "kthread (s\<lparr>lh_n := n\<rparr>) = kthread s" using same_thread_kthread(1) [OF st(1)] same_thread_kthread(1) [OF st(2)] by blast
  moreover have "cur_pid (s\<lparr>lh_n := n\<rparr>) = cur_pid s" if "kthread s" by (rule same_thread_kthread(2) [OF st(1) that])
  ultimately show "cache_ok H (s\<lparr>lh_n := n\<rparr>) = cache_ok H s" unfolding cache_ok_def by (auto split: if_splits)
qed (simp_all add: content_def pinned_def header_blk_def log_blk_def home_blk_def fun_eq_iff split: option.split)

text \<open>The state after a write of the header.\<close>

definition header_written :: "'a log_state_scheme \<Rightarrow> 'a log_state_scheme \<Rightarrow> bool" where
  "header_written s t \<longleftrightarrow> cache_ok {} t \<and> bio_state.more t = bio_state.more s \<and>
     memdisk t = (memdisk s)[unat (header_blk s) := header_bytes (lh_n s) (lh_block s) (content (header_blk s) s)] \<and>
     disk_trace t = disk_trace s @ [memdisk t] \<and>
     (\<forall>j. j \<noteq> header_blk s \<longrightarrow> content j t = content j s \<and> (pinned j t = pinned j s)) \<and>
     \<not> pinned (header_blk s) t \<and> (\<exists>i<NBUF. \<not> b_dirty (bufs t ! i)) \<and>
     ((\<forall>i<NBUF. \<not> b_dirty (bufs s ! i)) \<longrightarrow> (\<forall>i<NBUF. \<not> b_dirty (bufs t ! i)))"

lemma write_head_ok:
  assumes "cache_ok {} s" and "log_dev s = 1" and "unat (header_blk s) < length (memdisk s)"
    and "\<exists>i<NBUF. \<not> b_dirty (bufs s ! i)"
  shows "returns (write_head s) (header_written s)"
proof -
  let ?h = "header_bytes (lh_n s) (lh_block s) (content (header_blk s) s)"
  obtain b s1 where b: "bread 1 (header_blk s) s = Ret (b, s1)" "b_data (bufs s1 ! b) = content (header_blk s) s"
    "bio_state.more s1 = bio_state.more s"
    "returns (bindO (bwrite b (upd_buf b (\<lambda>x. x\<lparr>b_data := ?h\<rparr>) s1)) (\<lambda>s2. brelse b s2)) (\<lambda>t.
       cache_ok {} t \<and> bio_state.more t = bio_state.more s \<and> memdisk t = (memdisk s)[unat (header_blk s) := ?h] \<and>
       (\<forall>j. content j t = (if j = header_blk s then ?h else content j s)) \<and>
       (\<forall>j. pinned j t \<longleftrightarrow> pinned j s \<and> j \<noteq> header_blk s) \<and>
       (\<exists>i<NBUF. \<not> b_dirty (bufs t ! i)) \<and> (\<forall>i<NBUF. b_dirty (bufs t ! i) \<longrightarrow> b_dirty (bufs s ! i)) \<and>
       disk_trace t = disk_trace s @ [memdisk t])"
    by (rule block_update [OF assms(1,3,4)]) blast
  note m = more_log [OF b(3)]
  have e: "upd_buf b (\<lambda>x. x\<lparr>b_data := header_bytes (lh_n s1) (lh_block s1) (b_data x)\<rparr>) s1 = upd_buf b (\<lambda>x. x\<lparr>b_data := ?h\<rparr>) s1"
    by (simp add: upd_buf_def b(2) m)
  have d: "(of_int (log_start s) :: u32) = header_blk s" by (simp add: header_blk_def)
  have "write_head s = bindO (bwrite b (upd_buf b (\<lambda>x. x\<lparr>b_data := ?h\<rparr>) s1)) (\<lambda>s2. brelse b s2)"
    using b(1) by (simp add: write_head_def assms(2) d Let_def e)
  then show ?thesis using b(4) by (auto elim!: returns_mono simp: header_written_def)
qed

section \<open>Crashes\<close>

text \<open>The data of a disk: the blocks that are not part of the log.\<close>

definition same_data :: "'a log_state_scheme \<Rightarrow> u8 list list \<Rightarrow> u8 list list \<Rightarrow> bool" where
  "same_data s d e \<longleftrightarrow> length d = length e \<and>
     (\<forall>j<length d. int j < log_start s \<or> log_start s + log_size s \<le> int j \<longrightarrow> d ! j = e ! j)"

lemma same_data_nth:
  "same_data s d e \<Longrightarrow> j < length e \<Longrightarrow> int j < log_start s \<or> log_start s + log_size s \<le> int j \<Longrightarrow> d ! j = e ! j"
  unfolding same_data_def by metis

text \<open>The blocks as the kernel sees them, through the cache.\<close>

definition contents :: "'a bio_state_scheme \<Rightarrow> u8 list list" where
  "contents s = map (\<lambda>j. content (of_nat j) s) [0..<length (memdisk s)]"

lemma recover_disk_entries:
  assumes "log_layout s" and "length d = length (memdisk s)" and "sint (get32 (d ! nat (log_start s)) 0) = lh_n s"
    and "\<forall>i<nat (lh_n s). get32 (d ! nat (log_start s)) (4 + 4 * i) = home_blk s i"
  shows "length (recover_disk (nat (log_start s)) d) = length d"
    and "i < nat (lh_n s) \<Longrightarrow> recover_disk (nat (log_start s)) d ! unat (home_blk s i) = d ! unat (log_blk s i)"
    and "(\<And>i. i < nat (lh_n s) \<Longrightarrow> p \<noteq> unat (home_blk s i)) \<Longrightarrow> recover_disk (nat (log_start s)) d ! p = d ! p"
proof -
  note l = log_layoutD [OF assms(1)]
  have r: "recover_disk (nat (log_start s)) d =
      fold (\<lambda>i e. e[unat (home_blk s i) := e ! (nat (log_start s) + i + 1)]) [0..<nat (lh_n s)] d"
    unfolding recover_disk_def assms(3) by (rule fold_cong) (simp_all add: assms(4))
  have f: "length (recover_disk (nat (log_start s)) d) = length d \<and>
      (\<forall>i<nat (lh_n s). recover_disk (nat (log_start s)) d ! unat (home_blk s i) = d ! (nat (log_start s) + i + 1)) \<and>
      (\<forall>p. p \<notin> (\<lambda>i. unat (home_blk s i)) ` {..<nat (lh_n s)} \<longrightarrow> recover_disk (nat (log_start s)) d ! p = d ! p)"
    unfolding r
  proof (rule install_fold [where m = "nat (lh_n s)"])
    show "unat (home_blk s i) < length d" if "i < nat (lh_n s)" for i using l(4) [OF that] assms(2) by simp
    show "unat (home_blk s i) \<noteq> nat (log_start s) + j + 1" if "i < nat (lh_n s)" "j < nat (lh_n s)" for i j
      using l(1) [OF that(2)] l(7) [OF that] by (metis word_unat_eq_iff)
    show "inj_on (\<lambda>i. unat (home_blk s i)) {..<nat (lh_n s)}"
      using l(9) by (intro inj_onI) (metis lessThan_iff word_unat_eq_iff)
  qed simp
  show "length (recover_disk (nat (log_start s)) d) = length d" using f by blast
  show "recover_disk (nat (log_start s)) d ! unat (home_blk s i) = d ! unat (log_blk s i)" if "i < nat (lh_n s)"
    using f that l(1) [OF that] by simp
  show "recover_disk (nat (log_start s)) d ! p = d ! p" if "\<And>i. i < nat (lh_n s) \<Longrightarrow> p \<noteq> unat (home_blk s i)"
    using f that by blast
qed

lemma header_entries:
  assumes "log_layout s" and "h = header_bytes (lh_n s) (lh_block s) g" and "length g = BSIZE"
  shows "sint (get32 h 0) = lh_n s" and "i < nat (lh_n s) \<Longrightarrow> get32 h (4 + 4 * i) = home_blk s i"
proof -
  have n: "0 \<le> lh_n s" "lh_n s \<le> int LOGSIZE" using assms(1) by (simp_all add: log_layout_def)
  note hd = header_bytes_read [OF assms(3) n, where bl = "lh_block s"]
  show "sint (get32 h 0) = lh_n s" using hd(2) assms(2) by simp
  show "get32 h (4 + 4 * i) = home_blk s i" if "i < nat (lh_n s)" using hd(3) [OF that] assms(2) by (simp add: home_blk_def)
qed

text \<open>
  A transaction ready to commit: the blocks of its entries, and no others, are modified in the cache, and the
  header on the disk is that of an empty log.
\<close>

definition commit_ready :: "'a log_state_scheme \<Rightarrow> bool" where
  "commit_ready s \<longleftrightarrow> log_layout s \<and> 0 < lh_n s \<and> cache_ok {} s \<and> (\<exists>i<NBUF. \<not> b_dirty (bufs s ! i)) \<and>
     (\<forall>j. pinned j s \<longleftrightarrow> (\<exists>i<nat (lh_n s). j = home_blk s i)) \<and>
     length (memdisk s ! nat (log_start s)) = BSIZE \<and> sint (get32 (memdisk s ! nat (log_start s)) 0) = 0"

lemma header_nat: "log_layout s \<Longrightarrow> unat (header_blk s) = nat (log_start s) \<and> nat (log_start s) < length (memdisk s)"
  by (auto simp: log_layout_def header_blk_def intro!: unat_block)

lemma off_log_block:
  assumes "log_layout s" and "j < length (memdisk s)" and "int j < log_start s \<or> log_start s + log_size s \<le> int j"
  shows "unat (of_nat j :: u32) = j" "(of_nat j :: u32) \<noteq> header_blk s"
    "i < nat (lh_n s) \<Longrightarrow> (of_nat j :: u32) \<noteq> log_blk s i"
proof -
  have b: "length (memdisk s) < 2147483648" "lh_n s < log_size s" "0 \<le> lh_n s" "0 \<le> log_start s"
    using assms(1) by (simp_all add: log_layout_def)
  then show j: "unat (of_nat j :: u32) = j" using assms(2) by (simp add: unat_of_nat)
  show "(of_nat j :: u32) \<noteq> header_blk s" using j header_nat [OF assms(1)] assms(3) b by auto
  show "(of_nat j :: u32) \<noteq> log_blk s i" if "i < nat (lh_n s)"
    using j log_layoutD(1) [OF assms(1) that] assms(3) b that by auto
qed

lemma crash_before_header:
  assumes "commit_ready s" and "copied_upto (log_blk s) (home_blk s) k s t" and "k \<le> nat (lh_n s)"
  shows "same_data s (recover_disk (nat (log_start s)) (memdisk t)) (memdisk s)"
    "memdisk t ! nat (log_start s) = memdisk s ! nat (log_start s)"
proof -
  have l: "log_layout s" using assms(1) by (simp add: commit_ready_def)
  have keep: "memdisk t ! unat j = memdisk s ! unat j" if "\<And>i. i < k \<Longrightarrow> j \<noteq> log_blk s i" for j
    using assms(2) that unfolding copied_upto_def by blast
  have len: "length (memdisk t) = length (memdisk s)" using assms(2) by (simp add: copied_upto_def)
  have "memdisk t ! unat (header_blk s) = memdisk s ! unat (header_blk s)"
  proof (rule keep)
    show "header_blk s \<noteq> log_blk s i" if "i < k" for i using log_layoutD(5) [OF l, of i] that assms(3) by auto
  qed
  then show h: "memdisk t ! nat (log_start s) = memdisk s ! nat (log_start s)" using header_nat [OF l] by simp
  have "sint (get32 (memdisk s ! nat (log_start s)) 0) = 0" using assms(1) by (simp add: commit_ready_def)
  then have e: "recover_disk (nat (log_start s)) (memdisk t) = memdisk t" using h by (intro recover_disk_empty) simp
  have "memdisk t ! j = memdisk s ! j" if "j < length (memdisk s)" "int j < log_start s \<or> log_start s + log_size s \<le> int j" for j
    using keep [of "of_nat j"] off_log_block(1,3) [OF l that] assms(3) by simp
  then show "same_data s (recover_disk (nat (log_start s)) (memdisk t)) (memdisk s)"
    unfolding same_data_def e using len by simp
qed

text \<open>The disk and the cache once the header has been written.\<close>

definition committed :: "'a log_state_scheme \<Rightarrow> 'a log_state_scheme \<Rightarrow> bool" where
  "committed s u \<longleftrightarrow> cache_ok {} u \<and> (\<exists>i<NBUF. \<not> b_dirty (bufs u ! i)) \<and> bio_state.more u = bio_state.more s \<and>
     length (memdisk u) = length (memdisk s) \<and>
     memdisk u ! nat (log_start s) = header_bytes (lh_n s) (lh_block s) (memdisk s ! nat (log_start s)) \<and>
     (\<forall>i<nat (lh_n s). memdisk u ! unat (log_blk s i) = content (home_blk s i) s \<and> content (log_blk s i) u = content (home_blk s i) s) \<and>
     (\<forall>j. j \<noteq> header_blk s \<and> (\<forall>i<nat (lh_n s). j \<noteq> log_blk s i) \<longrightarrow>
        memdisk u ! unat j = memdisk s ! unat j \<and> content j u = content j s) \<and>
     (\<forall>j. pinned j u = pinned j s)"

lemma commit_readyD:
  assumes "commit_ready s"
  shows "log_layout s" "cache_ok {} s" "\<exists>i<NBUF. \<not> b_dirty (bufs s ! i)" "all_copyable s"
    "length (memdisk s ! nat (log_start s)) = BSIZE" "\<not> pinned (header_blk s) s"
    "i < nat (lh_n s) \<Longrightarrow> \<not> pinned (log_blk s i) s" "i < nat (lh_n s) \<Longrightarrow> pinned (home_blk s i) s"
    "(\<And>i. i < nat (lh_n s) \<Longrightarrow> j \<noteq> home_blk s i) \<Longrightarrow> \<not> pinned j s"
proof -
  show r: "log_layout s" "cache_ok {} s" "\<exists>i<NBUF. \<not> b_dirty (bufs s ! i)" "length (memdisk s ! nat (log_start s)) = BSIZE"
    using assms unfolding commit_ready_def by blast+
  have p: "pinned j s \<longleftrightarrow> (\<exists>i<nat (lh_n s). j = home_blk s i)" for j using assms unfolding commit_ready_def by blast
  note l = log_layoutD [OF r(1)]
  show "all_copyable s" using p by (auto simp: all_copyable_def)
  show "\<not> pinned (log_blk s i) s" if "i < nat (lh_n s)" using p [of "log_blk s i"] l(7) [OF _ that] by metis
  show "\<not> pinned (header_blk s) s" using p [of "header_blk s"] l(6) by metis
  show "pinned (home_blk s i) s" if "i < nat (lh_n s)" using p that by blast
  show "\<not> pinned j s" if "\<And>i. i < nat (lh_n s) \<Longrightarrow> j \<noteq> home_blk s i" using p that by blast
qed

lemma committed_by_header:
  assumes "commit_ready s" and "copied_upto (log_blk s) (home_blk s) (nat (lh_n s)) s t" and "header_written t u"
  shows "committed s u"
proof -
  note r = commit_readyD [OF assms(1)]
  note l = log_layoutD [OF r(1)] and h = header_nat [OF r(1)]
  have tt: "bio_state.more t = bio_state.more s" "length (memdisk t) = length (memdisk s)"
    "\<And>i. i < nat (lh_n s) \<Longrightarrow> content (log_blk s i) t = content (home_blk s i) s \<and>
       memdisk t ! unat (log_blk s i) = content (home_blk s i) s \<and> \<not> pinned (log_blk s i) t"
    "\<And>j. \<forall>i<nat (lh_n s). j \<noteq> log_blk s i \<Longrightarrow>
       content j t = content j s \<and> memdisk t ! unat j = memdisk s ! unat j \<and> pinned j t = pinned j s"
    using assms(2) unfolding copied_upto_def by blast+
  note m = more_log [OF tt(1)] and same = layout_more [OF tt(1,2)]
  have hl: "\<forall>i<nat (lh_n s). header_blk s \<noteq> log_blk s i" using l(5) by metis
  have hc: "content (header_blk s) t = memdisk s ! nat (log_start s)"
    using tt(4) [OF hl] content_clean [OF r(2,6)] h by simp
  have u: "cache_ok {} u" "bio_state.more u = bio_state.more s"
    "memdisk u = (memdisk t)[nat (log_start s) := header_bytes (lh_n s) (lh_block s) (memdisk s ! nat (log_start s))]"
    "\<And>j. j \<noteq> header_blk s \<Longrightarrow> content j u = content j t \<and> pinned j u = pinned j t"
    "\<not> pinned (header_blk s) u" "\<exists>i<NBUF. \<not> b_dirty (bufs u ! i)"
    using assms(3) unfolding header_written_def same(4) m hc using tt(1) h by simp_all
  have md: "memdisk u ! unat j = memdisk t ! unat j" if "j \<noteq> header_blk s" for j
    using that u(3) h by (simp add: word_unat_eq_iff)
  have "pinned j u = pinned j s" for j
  proof (cases "j = header_blk s")
    case True
    then show ?thesis using u(5) r(6) by simp
  next
    case False
    then show ?thesis using u(4) [OF False] tt(3,4) r(7) by (cases "\<exists>i<nat (lh_n s). j = log_blk s i") auto
  qed
  moreover have "memdisk u ! unat (log_blk s i) = content (home_blk s i) s \<and> content (log_blk s i) u = content (home_blk s i) s"
    if "i < nat (lh_n s)" for i
    using tt(3) [OF that] md [OF l(5) [OF that]] u(4) [OF l(5) [OF that]] by simp
  moreover have "memdisk u ! unat j = memdisk s ! unat j \<and> content j u = content j s"
    if "j \<noteq> header_blk s" "\<forall>i<nat (lh_n s). j \<noteq> log_blk s i" for j
    using tt(4) [OF that(2)] md [OF that(1)] u(4) [OF that(1)] by simp
  moreover have "length (memdisk u) = length (memdisk s)"
    "memdisk u ! nat (log_start s) = header_bytes (lh_n s) (lh_block s) (memdisk s ! nat (log_start s))"
    using u(3) tt(2) h by simp_all
  ultimately show ?thesis unfolding committed_def using u(1,2,6) by blast
qed

lemma write_log_copies:
  assumes "commit_ready s"
  shows "returns (write_log s) (\<lambda>t. copied_upto (log_blk s) (home_blk s) (nat (lh_n s)) s t \<and>
    traced (copy_disk (log_blk s) (home_blk s) (nat (lh_n s)) s) s t)"
proof -
  note r = commit_readyD [OF assms]
  show ?thesis using write_loop_copies [OF r(1,4) copied_upto_0 [OF r(2,3)], of "nat (lh_n s)"] by (simp add: write_log_def)
qed

lemma commit_point:
  assumes "commit_ready s"
  shows "returns (write_log s) (\<lambda>t. traced (copy_disk (log_blk s) (home_blk s) (nat (lh_n s)) s) s t \<and>
    returns (write_head t) (\<lambda>u. committed s u \<and> disk_trace u = disk_trace t @ [memdisk u]))"
  using write_log_copies [OF assms]
proof (rule returns_mono, elim conjE)
  fix t
  note r = commit_readyD [OF assms]
  assume tr: "traced (copy_disk (log_blk s) (home_blk s) (nat (lh_n s)) s) s t"
  assume t: "copied_upto (log_blk s) (home_blk s) (nat (lh_n s)) s t"
  then have tt: "cache_ok {} t" "bio_state.more t = bio_state.more s" "length (memdisk t) = length (memdisk s)"
    "\<exists>i<NBUF. \<not> b_dirty (bufs t ! i)"
    unfolding copied_upto_def by blast+
  have "returns (write_head t) (header_written t)"
    using r(1) tt(3) header_nat [OF r(1)]
    by (intro write_head_ok [OF tt(1) _ _ tt(4)]) (simp_all add: more_log [OF tt(2)] layout_more [OF tt(2,3)] log_layout_def)
  then have "returns (write_head t) (\<lambda>u. committed s u \<and> disk_trace u = disk_trace t @ [memdisk u])"
    by (rule returns_mono) (use committed_by_header [OF assms t] in \<open>simp add: header_written_def\<close>)
  with tr show "traced (copy_disk (log_blk s) (home_blk s) (nat (lh_n s)) s) s t \<and>
    returns (write_head t) (\<lambda>u. committed s u \<and> disk_trace u = disk_trace t @ [memdisk u])" ..
qed

text \<open>The disk during the installation: what is already home, and what recovery makes of it.\<close>

lemma committedD:
  assumes "commit_ready s" and "committed s u"
  shows "log_layout u" "all_copyable u" "cache_ok {} u" "\<exists>i<NBUF. \<not> b_dirty (bufs u ! i)" "lh_n u = lh_n s"
    "log_blk u = log_blk s" "home_blk u = home_blk s" "header_blk u = header_blk s"
    "i < nat (lh_n s) \<Longrightarrow> memdisk u ! unat (log_blk s i) = content (home_blk s i) s"
    "i < nat (lh_n s) \<Longrightarrow> content (log_blk s i) u = content (home_blk s i) s"
proof -
  note r = commit_readyD [OF assms(1)]
  have u: "bio_state.more u = bio_state.more s" "length (memdisk u) = length (memdisk s)" "\<And>j. pinned j u = pinned j s"
    "\<And>i. i < nat (lh_n s) \<Longrightarrow> memdisk u ! unat (log_blk s i) = content (home_blk s i) s \<and> content (log_blk s i) u = content (home_blk s i) s"
    using assms(2) unfolding committed_def by blast+
  note same = layout_more [OF u(1,2)]
  show "log_layout u" "log_blk u = log_blk s" "home_blk u = home_blk s" "header_blk u = header_blk s" "lh_n u = lh_n s"
    using same r(1) more_log [OF u(1)] by simp_all
  then show "all_copyable u" unfolding all_copyable_def using u(3) r(8) by auto
  show "cache_ok {} u" "\<exists>i<NBUF. \<not> b_dirty (bufs u ! i)" using assms(2) unfolding committed_def by blast+
  show "memdisk u ! unat (log_blk s i) = content (home_blk s i) s" "content (log_blk s i) u = content (home_blk s i) s"
    if "i < nat (lh_n s)" using u(4) [OF that] by blast+
qed

lemma crash_after_header:
  assumes "commit_ready s" and "committed s u" and "copied_upto (home_blk s) (log_blk s) k u v" and "k \<le> nat (lh_n s)"
  shows "same_data s (recover_disk (nat (log_start s)) (memdisk v)) (contents s)"
proof -
  note r = commit_readyD [OF assms(1)] and c = committedD [OF assms(1,2)]
  note l = log_layoutD [OF r(1)] and h = header_nat [OF r(1)]
  have u: "length (memdisk u) = length (memdisk s)"
    "memdisk u ! nat (log_start s) = header_bytes (lh_n s) (lh_block s) (memdisk s ! nat (log_start s))"
    "\<And>j. j \<noteq> header_blk s \<Longrightarrow> \<forall>i<nat (lh_n s). j \<noteq> log_blk s i \<Longrightarrow> memdisk u ! unat j = memdisk s ! unat j"
    using assms(2) unfolding committed_def by blast+
  have v: "length (memdisk v) = length (memdisk u)"
    "\<And>j. \<forall>i<k. j \<noteq> home_blk s i \<Longrightarrow> memdisk v ! unat j = memdisk u ! unat j"
    using assms(3) unfolding copied_upto_def by blast+
  have "\<forall>i<k. header_blk s \<noteq> home_blk s i" using l(6) assms(4) by (metis less_le_trans)
  then have hd: "memdisk v ! nat (log_start s) = header_bytes (lh_n s) (lh_block s) (memdisk s ! nat (log_start s))"
    using v(2) [of "header_blk s"] u(2) h by simp
  have len: "length (memdisk v) = length (memdisk s)" using v(1) u(1) by simp
  have he: "\<forall>i<nat (lh_n s). get32 (memdisk v ! nat (log_start s)) (4 + 4 * i) = home_blk s i"
    using header_entries(2) [OF r(1) hd r(5)] by blast
  note rec = recover_disk_entries [OF r(1) len header_entries(1) [OF r(1) hd r(5)] he]
  have "recover_disk (nat (log_start s)) (memdisk v) ! j = content (of_nat j) s"
    if j: "j < length (memdisk s)" "int j < log_start s \<or> log_start s + log_size s \<le> int j" for j
  proof (cases "\<exists>i<nat (lh_n s). (of_nat j :: u32) = home_blk s i")
    case True
    then obtain i where i: "i < nat (lh_n s)" "(of_nat j :: u32) = home_blk s i" by blast
    have "\<forall>i'<k. log_blk s i \<noteq> home_blk s i'" using l(7) i(1) assms(4) by (metis less_le_trans)
    then show ?thesis
      using rec(2) [OF i(1)] v(2) [of "log_blk s i"] c(9) [OF i(1)] i(2) off_log_block(1) [OF r(1) j] by simp
  next
    case False
    note o = off_log_block [OF r(1) j]
    have "p < nat (lh_n s) \<Longrightarrow> j \<noteq> unat (home_blk s p)" for p using False o(1) by (metis word_unat_eq_iff)
    moreover have "memdisk v ! j = memdisk u ! j" using v(2) [of "of_nat j"] False assms(4) o(1) by auto
    moreover have "memdisk u ! j = memdisk s ! j" using u(3) [OF o(2)] o(1,3) by simp
    moreover have "content (of_nat j) s = memdisk s ! j"
      using content_clean [OF r(2) r(9) [of "of_nat j"]] False o(1) by simp
    ultimately show ?thesis using rec(3) [of j] by simp
  qed
  then show ?thesis unfolding same_data_def contents_def using rec(1) len by simp
qed

text \<open>The end of a commit: the data is home, nothing is modified any more and the log is empty.\<close>

definition log_done :: "'a log_state_scheme \<Rightarrow> 'a log_state_scheme \<Rightarrow> bool" where
  "log_done s t \<longleftrightarrow> cache_ok {} t \<and> lh_n t = 0 \<and> log_start t = log_start s \<and> log_size t = log_size s \<and>
     log_outstanding t = log_outstanding s \<and> log_layout t \<and> (\<forall>j. \<not> pinned j t) \<and>
     length (memdisk t ! nat (log_start s)) = BSIZE \<and> sint (get32 (memdisk t ! nat (log_start s)) 0) = 0 \<and> recover_disk (nat (log_start s)) (memdisk t) = memdisk t"

lemma clear_header:
  assumes "cache_ok {} v" and "log_layout v" and "\<exists>i<NBUF. \<not> b_dirty (bufs v ! i)" and "\<And>j. \<not> pinned j v"
    and "length (memdisk v ! nat (log_start v)) = BSIZE"
  shows "returns (write_head (v\<lparr>lh_n := 0\<rparr>)) (\<lambda>t. log_done v t \<and>
    (\<forall>j. j \<noteq> nat (log_start v) \<longrightarrow> memdisk t ! j = memdisk v ! j) \<and> length (memdisk t) = length (memdisk v) \<and>
    disk_trace t = disk_trace v @ [memdisk t])"
proof -
  note h = header_nat [OF assms(2)]
  have hc: "content (header_blk v) v = memdisk v ! nat (log_start v)" using content_clean [OF assms(1,4)] h by simp
  have "returns (write_head (v\<lparr>lh_n := 0\<rparr>)) (header_written (v\<lparr>lh_n := 0\<rparr>))"
    using assms(1-3) h by (intro write_head_ok) (simp_all add: log_layout_def)
  then show ?thesis
  proof (rule returns_mono)
    fix t
    assume "header_written (v\<lparr>lh_n := 0\<rparr>) t"
    then have t: "cache_ok {} t" "bio_state.more t = bio_state.more (v\<lparr>lh_n := 0\<rparr>)"
      "memdisk t = (memdisk v)[nat (log_start v) := header_bytes 0 (lh_block v) (memdisk v ! nat (log_start v))]"
      "\<And>j. j \<noteq> header_blk v \<Longrightarrow> \<not> pinned j t" "\<not> pinned (header_blk v) t" "disk_trace t = disk_trace v @ [memdisk t]"
      unfolding header_written_def using assms(4) h hc by simp_all
    have np: "\<not> pinned j t" for j using t(4,5) by (cases "j = header_blk v") auto
    have z: "sint (get32 (memdisk t ! nat (log_start v)) 0) = 0"
      using header_bytes_read(2) [OF assms(5), of 0] t(3) h by simp
    have m: "log_start t = log_start v" "lh_n t = 0" "log_size t = log_size v" "log_outstanding t = log_outstanding v"
      using more_log [OF t(2)] by simp_all
    have ly: "log_layout t" using assms(2) more_log [OF t(2)] t(3) by (simp add: log_layout_def)
    have hl: "length (memdisk t ! nat (log_start v)) = BSIZE" using header_bytes_read(1) [OF assms(5), of 0] t(3) h by simp
    show "log_done v t \<and> (\<forall>j. j \<noteq> nat (log_start v) \<longrightarrow> memdisk t ! j = memdisk v ! j) \<and> length (memdisk t) = length (memdisk v) \<and>
      disk_trace t = disk_trace v @ [memdisk t]"
      using t(1,3,6) m np z recover_disk_empty [OF z] ly hl by (simp add: log_done_def)
  qed
qed

lemma installed:
  assumes "commit_ready s" and "committed s u" and "copied_upto (home_blk s) (log_blk s) (nat (lh_n s)) u v"
  shows "cache_ok {} v" "log_layout v" "\<exists>i<NBUF. \<not> b_dirty (bufs v ! i)" "\<not> pinned j v"
    "length (memdisk v ! nat (log_start v)) = BSIZE" "log_start v = log_start s" "same_data s (memdisk v) (contents s)"
    "log_size v = log_size s" "log_outstanding v = log_outstanding s"
proof -
  note r = commit_readyD [OF assms(1)] and c = committedD [OF assms(1,2)]
  note l = log_layoutD [OF r(1)] and h = header_nat [OF r(1)]
  have u: "length (memdisk u) = length (memdisk s)" "\<And>j. pinned j u = pinned j s" "bio_state.more u = bio_state.more s"
    "memdisk u ! nat (log_start s) = header_bytes (lh_n s) (lh_block s) (memdisk s ! nat (log_start s))"
    "\<And>j. j \<noteq> header_blk s \<Longrightarrow> \<forall>i<nat (lh_n s). j \<noteq> log_blk s i \<Longrightarrow> memdisk u ! unat j = memdisk s ! unat j"
    using assms(2) unfolding committed_def by blast+
  have v: "length (memdisk v) = length (memdisk u)" "bio_state.more v = bio_state.more u"
    "\<And>j. \<forall>i<nat (lh_n s). j \<noteq> home_blk s i \<Longrightarrow> memdisk v ! unat j = memdisk u ! unat j \<and> pinned j v = pinned j u"
    "\<And>i. i < nat (lh_n s) \<Longrightarrow> memdisk v ! unat (home_blk s i) = content (log_blk s i) u \<and> \<not> pinned (home_blk s i) v"
    using assms(3) unfolding copied_upto_def by blast+
  show "cache_ok {} v" "\<exists>i<NBUF. \<not> b_dirty (bufs v ! i)" using assms(3) unfolding copied_upto_def by blast+
  show "log_layout v" using layout_more(1) [OF v(2,1)] c(1) by simp
  show ls: "log_start v = log_start s" "log_size v = log_size s" "log_outstanding v = log_outstanding s"
    using more_log [OF v(2)] more_log [OF u(3)] by simp_all
  show "\<not> pinned j v" using v(3) [of j] v(4) u(2) r(9) [of j] by (cases "\<exists>i<nat (lh_n s). j = home_blk s i") auto
  have "\<forall>i<nat (lh_n s). header_blk s \<noteq> home_blk s i" using l(6) by metis
  then have "memdisk v ! nat (log_start s) = memdisk u ! nat (log_start s)" using v(3) [of "header_blk s"] h by simp
  moreover have "0 \<le> lh_n s" "lh_n s \<le> int LOGSIZE" using r(1) by (simp_all add: log_layout_def)
  ultimately show "length (memdisk v ! nat (log_start v)) = BSIZE" using u(4) header_bytes_read(1) [OF r(5)] ls(1) by simp
  have "memdisk v ! j = content (of_nat j) s"
    if j: "j < length (memdisk s)" "int j < log_start s \<or> log_start s + log_size s \<le> int j" for j
  proof (cases "\<exists>i<nat (lh_n s). (of_nat j :: u32) = home_blk s i")
    case True
    then obtain i where i: "i < nat (lh_n s)" "(of_nat j :: u32) = home_blk s i" by blast
    then show ?thesis using v(4) [OF i(1)] c(10) [OF i(1)] off_log_block(1) [OF r(1) j] by simp
  next
    case False
    note o = off_log_block [OF r(1) j]
    have "memdisk v ! j = memdisk s ! j" using v(3) [of "of_nat j"] u(5) [OF o(2)] o False by simp
    then show ?thesis using content_clean [OF r(2) r(9) [of "of_nat j"]] False o(1) by simp
  qed
  then show "same_data s (memdisk v) (contents s)" unfolding same_data_def contents_def using v(1) u(1) by simp
qed

lemma install_from:
  assumes "commit_ready s" and "committed s u"
  shows "returns (install_trans u) (\<lambda>v. copied_upto (home_blk s) (log_blk s) (nat (lh_n s)) u v \<and>
    traced (copy_disk (home_blk s) (log_blk s) (nat (lh_n s)) u) u v)"
proof -
  note c = committedD [OF assms]
  show ?thesis using install_loop_copies [OF c(1,2) copied_upto_0 [OF c(3,4)], of "nat (lh_n s)"]
    unfolding c(5-8) install_trans_def by simp
qed

text \<open>
  The disks that a run from \<open>s\<close> to \<open>t\<close> writes split into a first part from which recovery makes the data \<open>d\<close> and a
  rest from which it makes the data \<open>e\<close>.
\<close>

definition crash_points :: "'a log_state_scheme \<Rightarrow> 'a log_state_scheme \<Rightarrow> u8 list list \<Rightarrow> u8 list list \<Rightarrow> bool" where
  "crash_points s t d e \<longleftrightarrow> (\<exists>before after. disk_trace t = disk_trace s @ before @ after \<and>
     (\<forall>x\<in>set (memdisk s # before). same_data s (recover_disk (nat (log_start s)) x) d) \<and>
     (\<forall>x\<in>set after. same_data s (recover_disk (nat (log_start s)) x) e) \<and>
     after \<noteq> [] \<and> last after = memdisk t)"

lemma crash_pointsI:
  assumes "traced P s t" and "disk_trace u = disk_trace t @ [memdisk u]" and "traced Q u v" and "disk_trace w = disk_trace v @ [memdisk w]"
    and "\<And>x. x = memdisk s \<or> P x \<Longrightarrow> same_data s (recover_disk (nat (log_start s)) x) d"
    and "\<And>x. x = memdisk u \<or> Q x \<or> x = memdisk w \<Longrightarrow> same_data s (recover_disk (nat (log_start s)) x) e"
  shows "crash_points s w d e"
proof -
  obtain before where b: "disk_trace t = disk_trace s @ before" "\<forall>x\<in>set before. P x" using assms(1) by (auto simp: traced_def)
  obtain during where m: "disk_trace v = disk_trace u @ during" "\<forall>x\<in>set during. Q x" using assms(3) by (auto simp: traced_def)
  show ?thesis unfolding crash_points_def
    by (intro exI [of _ before] exI [of _ "memdisk u # during @ [memdisk w]"])
      (use assms(2,4-6) b m in auto)
qed

lemma commit_traced:
  assumes "commit_ready s"
  shows "returns (commit s) (\<lambda>t. log_done s t \<and> same_data s (memdisk t) (contents s) \<and> crash_points s t (memdisk s) (contents s))"
proof -
  note r = commit_readyD [OF assms]
  let ?n = "nat (lh_n s)" and ?R = "recover_disk (nat (log_start s))"
  let ?P = "copy_disk (log_blk s) (home_blk s) ?n s"
  let ?post = "\<lambda>t. log_done s t \<and> same_data s (memdisk t) (contents s) \<and> crash_points s t (memdisk s) (contents s)"
  have old: "same_data s (?R x) (memdisk s)" if "x = memdisk s \<or> ?P x" for x
    using that crash_before_header(1) [OF assms] copied_upto_0 [OF r(2,3), of "log_blk s" "home_blk s"]
    by (auto simp: copy_disk_def)
  have new: "same_data s (?R x) (contents s)"
    if "committed s u" "x = memdisk u \<or> copy_disk (home_blk s) (log_blk s) ?n u x" for u x
    using that crash_after_header [OF assms that(1)]
      copied_upto_0 [OF committedD(3,4) [OF assms that(1)], of "home_blk s" "log_blk s"]
    by (auto simp: copy_disk_def)
  have fin: "returns (write_head (v\<lparr>lh_n := 0\<rparr>)) ?post"
    if t: "traced ?P s t" and u: "committed s u" "disk_trace u = disk_trace t @ [memdisk u]"
      and v: "copied_upto (home_blk s) (log_blk s) ?n u v" "traced (copy_disk (home_blk s) (log_blk s) ?n u) u v" for t u v
  proof -
    note i = installed [OF assms u(1) v(1)]
    show ?thesis
    proof (rule returns_mono [OF clear_header [OF i(1-5)]])
      fix w
      assume w: "log_done v w \<and> (\<forall>j. j \<noteq> nat (log_start v) \<longrightarrow> memdisk w ! j = memdisk v ! j) \<and>
        length (memdisk w) = length (memdisk v) \<and> disk_trace w = disk_trace v @ [memdisk w]"
      moreover have "0 \<le> log_start s" "0 < log_size s" using r(1) by (auto simp: log_layout_def)
      ultimately have done': "log_done s w" "same_data s (memdisk w) (contents s)"
        using i(6-9) by (auto simp: log_done_def same_data_def)
      moreover have "?R (memdisk w) = memdisk w" using done'(1) by (simp add: log_done_def)
      ultimately have "crash_points s w (memdisk s) (contents s)"
        using w old new [OF u(1)] by (intro crash_pointsI [OF t u(2) v(2)]) auto
      then show "?post w" using done' by blast
    qed
  qed
  have ins: "returns (install_trans u) (\<lambda>v. returns (write_head (v\<lparr>lh_n := 0\<rparr>)) ?post)"
    if "traced ?P s t" "committed s u" "disk_trace u = disk_trace t @ [memdisk u]" for t u
    using install_from [OF assms that(2)] fin [OF that] by (auto elim!: returns_mono)
  have "0 < lh_n s" using assms by (simp add: commit_ready_def)
  then show ?thesis
    unfolding commit_def using commit_point [OF assms] ins by (auto elim!: returns_mono)
qed

lemma commit_done:
  assumes "commit_ready s"
  shows "returns (commit s) (\<lambda>t. log_done s t \<and> same_data s (memdisk t) (contents s))"
  using commit_traced [OF assms] by (rule returns_mono) blast

text \<open>
  C2: A commit is atomic with respect to crashes. The disk changes one block at a time, and the trace of the
  disk lists what it held after every block write that the run of \<^verbatim>\<open>commit\<close> makes. There is a point in this
  sequence up to which recovery from the disk finds the old data, from the start of the commit on, and from
  which recovery finds the data as the transaction left it in the cache, up to the last write. When \<^verbatim>\<open>commit\<close>
  returns, the new data is home, no block is pinned in the cache any more and the log on the disk is empty.
\<close>

theorem commit_crash_safe:
  assumes "commit_ready s"
  shows "returns (commit s) (\<lambda>t. log_done s t \<and> same_data s (memdisk t) (contents s) \<and>
    (\<exists>before after. disk_trace t = disk_trace s @ before @ after \<and>
       (\<forall>x\<in>set (memdisk s # before). same_data s (recover_disk (nat (log_start s)) x) (memdisk s)) \<and>
       (\<forall>x\<in>set after. same_data s (recover_disk (nat (log_start s)) x) (contents s)) \<and>
       after \<noteq> [] \<and> last after = memdisk t))"
  using commit_traced [OF assms] unfolding crash_points_def .

section \<open>Recovery\<close>

lemma cache_ok_transfer:
  fixes s :: "'a bio_state_scheme" and t :: "'b bio_state_scheme"
  assumes "cache_ok H s" and "same_thread t s" and "bufs t = bufs s" and "memdisk t = memdisk s"
    and "\<And>i. sleeplocks t (BufLk i) = sleeplocks s (BufLk i)"
  shows "cache_ok H t"
proof -
  have "kthread s" using assms(1) by (simp add: cache_ok_def)
  note k = same_thread_kthread [OF assms(2) this]
  show ?thesis using assms(1) k unfolding cache_ok_def assms(3-5) by auto
qed

text \<open>
  A state in which recovery can run: nothing is modified in the cache and the header on the disk is that of a
  log whose entries are different blocks outside the log.
\<close>

definition disk_header :: "'a log_state_scheme \<Rightarrow> 'a log_state_scheme" where
  "disk_header s = (let d = memdisk s ! nat (log_start s) in s\<lparr>lh_n := sint (get32 d 0),
     lh_block := fold (\<lambda>i bl. bl[i := sint (get32 d (4 + 4 * i))]) [0..<nat (sint (get32 d 0))] (lh_block s)\<rparr>)"

definition recover_ready :: "'a log_state_scheme \<Rightarrow> bool" where
  "recover_ready s \<longleftrightarrow> cache_ok {} s \<and> (\<forall>i<NBUF. \<not> b_dirty (bufs s ! i)) \<and> log_layout (disk_header s) \<and>
     length (memdisk s ! nat (log_start s)) = BSIZE"

lemma disk_header_sel [simp]:
  "bufs (disk_header s) = bufs s" "memdisk (disk_header s) = memdisk s" "sleeplocks (disk_header s) = sleeplocks s"
  "log_start (disk_header s) = log_start s" "log_size (disk_header s) = log_size s"
  "log_outstanding (disk_header s) = log_outstanding s" "log_dev (disk_header s) = log_dev s"
  "lh_n (disk_header s) = sint (get32 (memdisk s ! nat (log_start s)) 0)"
  "same_thread (disk_header s) s"
  by (simp_all add: disk_header_def Let_def same_thread_def same_machine_def)

lemma not_pinned_clean: "\<forall>i<NBUF. \<not> b_dirty (bufs s ! i) \<Longrightarrow> \<not> pinned j s"
  unfolding pinned_def by blast

lemma read_head_ok:
  assumes "recover_ready s"
  shows "returns (read_head s) (\<lambda>t. cache_ok {} t \<and> (\<forall>i<NBUF. \<not> b_dirty (bufs t ! i)) \<and> memdisk t = memdisk s \<and>
    bio_state.more t = bio_state.more (disk_header s))"
proof -
  have r: "cache_ok {} s" "\<forall>i<NBUF. \<not> b_dirty (bufs s ! i)" "log_layout (disk_header s)"
    using assms unfolding recover_ready_def by blast+
  have lay: "log_dev s = 1" "sint (get32 (memdisk s ! nat (log_start s)) 0) \<le> int LOGSIZE" using r(3) by (simp_all add: log_layout_def)
  have h: "unat (header_blk s) = nat (log_start s)" "nat (log_start s) < length (memdisk s)"
    using header_nat [OF r(3)] by (simp_all add: header_blk_def)
  have ex: "\<exists>i<NBUF. caches (header_blk s) (bufs s ! i) \<or> i \<notin> {} \<and> \<not> b_dirty (bufs s ! i)" using r(2) by (intro exI [of _ 0]) simp
  obtain b s1 where b: "bread 1 (header_blk s) s = Ret (b, s1)" "caches (header_blk s) (bufs s1 ! b)"
    "b_data (bufs s1 ! b) = content (header_blk s) s" "cache_ok {b} s1" "same_content s1 s" "memdisk s1 = memdisk s"
    by (rule bread_ok [OF r(1) _ ex]) (use h in \<open>simp; blast\<close>)+
  have more: "bio_state.more s1 = bio_state.more s" and d1: "\<forall>i<NBUF. \<not> b_dirty (bufs s1 ! i)" using b(5) r(2) by (simp_all add: same_content_def)
  have c: "content (header_blk s) s = memdisk s ! nat (log_start s)"
    using content_clean [OF r(1) not_pinned_clean [OF r(2)]] h by simp
  have rd: "read_head s = brelse b (disk_header s1)"
    using b(1,3) lay by (simp add: read_head_def c Let_def header_blk_def [symmetric] disk_header_def b(6) more_log [OF more])
  have "cache_ok {b} (disk_header s1)" by (rule cache_ok_transfer [OF b(4)]) simp_all
  moreover have "caches (header_blk s) (bufs (disk_header s1) ! b)" using b(2) by simp
  moreover have "b_dirty (bufs (disk_header s1) ! b) \<or> b_data (bufs (disk_header s1) ! b) = memdisk (disk_header s1) ! unat (header_blk s)"
    using b(3,6) c h by simp
  ultimately obtain t where t: "brelse b (disk_header s1) = Ret t" "cache_ok ({b} - {b}) t" "same_content t (disk_header s1)"
      "memdisk t = memdisk (disk_header s1)"
    by (rule brelse_content [OF _ singletonI]) blast
  have "bio_state.more (disk_header s1) = bio_state.more (disk_header s)"
    using more b(6) by (cases s1; cases s) (simp add: disk_header_def Let_def)
  then show ?thesis unfolding rd t(1) using t(2-4) d1 b(6) by (simp add: same_content_def)
qed

lemma recover_installs:
  assumes "log_layout v" and "copied_upto (home_blk v) (log_blk v) (nat (lh_n v)) v w" and "cache_ok {} v"
    and "\<forall>i<NBUF. \<not> b_dirty (bufs v ! i)" and "j < length (memdisk v)"
    and "\<forall>i<nat (lh_n v). get32 (memdisk v ! nat (log_start v)) (4 + 4 * i) = home_blk v i"
    and "sint (get32 (memdisk v ! nat (log_start v)) 0) = lh_n v"
  shows "memdisk w ! j = recover_disk (nat (log_start v)) (memdisk v) ! j"
proof -
  note l = log_layoutD [OF assms(1)]
  have w: "\<And>i. i < nat (lh_n v) \<Longrightarrow> memdisk w ! unat (home_blk v i) = content (log_blk v i) v"
    "\<And>j. \<forall>i<nat (lh_n v). j \<noteq> home_blk v i \<Longrightarrow> memdisk w ! unat j = memdisk v ! unat j"
    using assms(2) unfolding copied_upto_def by blast+
  have c: "content k v = memdisk v ! unat k" for k by (rule content_clean [OF assms(3) not_pinned_clean [OF assms(4)]]) simp
  note rec = recover_disk_entries [OF assms(1) refl assms(7,6)]
  have j: "unat (of_nat j :: u32) = j" using assms(1,5) by (simp add: unat_of_nat log_layout_def)
  show ?thesis
  proof (cases "\<exists>i<nat (lh_n v). (of_nat j :: u32) = home_blk v i")
    case True
    then obtain i where "i < nat (lh_n v)" "j = unat (home_blk v i)" using j by metis
    then show ?thesis using rec(2) w(1) c by simp
  next
    case False
    then have "j \<noteq> unat (home_blk v i)" if "i < nat (lh_n v)" for i using j that by (metis word_unat_eq_iff)
    then show ?thesis using rec(3) [of j] w(2) [of "of_nat j"] False j by auto
  qed
qed

lemma set_words_nth:
  "n \<le> length bl \<Longrightarrow> length (fold (\<lambda>i bl. bl[i := f i]) [0..<n] bl) = length bl \<and>
    (\<forall>i<n. fold (\<lambda>i bl. bl[i := f i]) [0..<n] bl ! i = f i)"
  by (induction n) (auto simp: less_Suc_eq)

lemma disk_header_entries:
  assumes "log_layout (disk_header s)" and "i < nat (lh_n (disk_header s))"
  shows "get32 (memdisk s ! nat (log_start s)) (4 + 4 * i) = home_blk (disk_header s) i"
proof -
  let ?n = "nat (sint (get32 (memdisk s ! nat (log_start s)) 0))"
  let ?f = "\<lambda>i. sint (get32 (memdisk s ! nat (log_start s)) (4 + 4 * i))"
  have bl: "lh_block (disk_header s) = fold (\<lambda>i bl. bl[i := ?f i]) [0..<?n] (lh_block s)" by (simp add: disk_header_def Let_def)
  have len: "length (fold (\<lambda>i bl. bl[i := ?f i]) xs b) = length b" for xs b by (induction xs arbitrary: b) simp_all
  have "length (lh_block s) = LOGSIZE" "?n \<le> LOGSIZE" using assms(1) len by (auto simp: log_layout_def bl)
  then have "lh_block (disk_header s) ! i = ?f i" using set_words_nth [of ?n "lh_block s" ?f] assms(2) unfolding bl by simp
  then show ?thesis by (simp add: home_blk_def)
qed

text \<open>
  C14: Recovery at boot does what the function on disks says: starting from a cache without modified blocks and
  a well-formed header, \<^verbatim>\<open>recover_from_log\<close> returns, every block of the disk other than the header has the value
  that \<open>recover_disk\<close> computes, and the log on the disk is empty, so that a second recovery changes nothing.
\<close>

theorem recovery_refines_recover_disk:
  assumes "recover_ready s"
  shows "returns (recover_from_log s) (\<lambda>t. log_done s t \<and> length (memdisk t) = length (memdisk s) \<and>
    (\<forall>j<length (memdisk s). j \<noteq> nat (log_start s) \<longrightarrow>
       memdisk t ! j = recover_disk (nat (log_start s)) (memdisk s) ! j))"
proof -
  let ?h = "disk_header s"
  have r: "log_layout ?h" "length (memdisk s ! nat (log_start s)) = BSIZE" using assms by (simp_all add: recover_ready_def)
  have "returns (install_trans v) (\<lambda>w. returns (write_head (w\<lparr>lh_n := 0\<rparr>)) (\<lambda>t. log_done s t \<and>
      length (memdisk t) = length (memdisk s) \<and> (\<forall>j<length (memdisk s). j \<noteq> nat (log_start s) \<longrightarrow>
        memdisk t ! j = recover_disk (nat (log_start s)) (memdisk s) ! j)))"
    if v: "cache_ok {} v" "\<forall>i<NBUF. \<not> b_dirty (bufs v ! i)" "memdisk v = memdisk s" "bio_state.more v = bio_state.more ?h" for v
  proof -
    have len: "length (memdisk v) = length (memdisk ?h)" using v(3) by simp
    note same = layout_more [OF v(4) len] and m = more_log [OF v(4)]
    have lay: "log_layout v" using same r(1) by simp
    have ex: "\<exists>i<NBUF. \<not> b_dirty (bufs v ! i)" using v(2) by (intro exI [of _ 0]) simp
    have he: "\<forall>i<nat (lh_n v). get32 (memdisk v ! nat (log_start v)) (4 + 4 * i) = home_blk v i"
      using disk_header_entries [OF r(1)] same v(3) m by simp
    have "returns (install_trans v) (copied_upto (home_blk v) (log_blk v) (nat (lh_n v)) v)"
      using install_loop_copies [OF lay _ copied_upto_0 [OF v(1) ex], of "nat (lh_n v)"] v(2)
      by (auto simp: install_trans_def all_copyable_def elim!: returns_mono)
    then show ?thesis
    proof (rule returns_mono)
      fix w
      assume cw: "copied_upto (home_blk v) (log_blk v) (nat (lh_n v)) v w"
      then have w: "cache_ok {} w" "bio_state.more w = bio_state.more v" "length (memdisk w) = length (memdisk v)"
        "\<exists>i<NBUF. \<not> b_dirty (bufs w ! i)" "\<forall>i<NBUF. \<not> b_dirty (bufs w ! i)"
        "\<And>j. \<forall>i<nat (lh_n v). j \<noteq> home_blk v i \<Longrightarrow> memdisk w ! unat j = memdisk v ! unat j"
        using v(2) unfolding copied_upto_def by blast+
      have ins: "memdisk w ! j = recover_disk (nat (log_start s)) (memdisk s) ! j" if "j < length (memdisk s)" for j
        using recover_installs [OF lay cw v(1,2) _ he, of j] that v(3) m by simp
      have lw: "log_layout w" "log_start w = log_start s" "log_size w = log_size s" "log_outstanding w = log_outstanding s"
        using layout_more [OF w(2,3)] lay more_log [OF w(2)] m by simp_all
      have "\<forall>i<nat (lh_n v). header_blk v \<noteq> home_blk v i" using log_layoutD(6) [OF lay] by metis
      then have "memdisk w ! nat (log_start w) = memdisk s ! nat (log_start s)"
        using w(6) [of "header_blk v"] header_nat [OF lay] v(3) m lw by simp
      then have "length (memdisk w ! nat (log_start w)) = BSIZE" using r(2) by simp
      from clear_header [OF w(1) lw(1) w(4) not_pinned_clean [OF w(5)] this]
      show "returns (write_head (w\<lparr>lh_n := 0\<rparr>)) (\<lambda>t. log_done s t \<and> length (memdisk t) = length (memdisk s) \<and>
          (\<forall>j<length (memdisk s). j \<noteq> nat (log_start s) \<longrightarrow> memdisk t ! j = recover_disk (nat (log_start s)) (memdisk s) ! j))"
        by (rule returns_mono) (use ins lw w(3) v(3) in \<open>simp add: log_done_def\<close>)
    qed
  qed
  then show ?thesis
    unfolding recover_from_log_def using read_head_ok [OF assms] by (auto elim!: returns_mono)
qed

section \<open>A transaction of one block\<close>

text \<open>Block 40 is modified in the cache and the only entry of a log that starts at block 2.\<close>

definition one_block_cache :: bio_state where
  "one_block_cache = boot_cache\<lparr>bufs := (bufs boot_cache)[0 := (bufs boot_cache ! 0)\<lparr>b_valid := True, b_dirty := True,
     b_dev := 1, b_blockno := 40, b_data := replicate BSIZE 7\<rparr>]\<rparr>"

definition one_block_log :: log_state where
  "one_block_log = bio_state.extend one_block_cache \<lparr>log_start = 2, log_size = 30, log_outstanding = 0,
     log_committing = True, log_dev = 1, lh_n = 1, lh_block = 40 # replicate (LOGSIZE - 1) 0\<rparr>"

lemma boot_cache_bufs: "length (bufs boot_cache) = NBUF + 1" "i < NBUF \<Longrightarrow> \<not> caches k (bufs boot_cache ! i)"
  using cache_okD(2) [OF boot_cache_ok(1)] boot_cache_ok(3) [of i] by (simp_all add: caches_def)

lemma one_block_cache_ok: "cache_ok {} one_block_cache"
proof (rule cache_ok_change [OF boot_cache_ok(1), where b = 0])
  note ok = cache_okD [OF boot_cache_ok(1)]
  show "same_thread one_block_cache boot_cache" by (simp add: one_block_cache_def same_thread_def same_machine_def)
  show "buf_ok (0 \<in> ({} :: nat set)) (memdisk one_block_cache) (bufs one_block_cache ! 0)"
    using ok(2) ok(4) [of 0] by (simp add: one_block_cache_def buf_ok_def)
  show "b_dev (bufs one_block_cache ! 0) \<noteq> 1" if "i < NBUF" "caches (b_blockno (bufs one_block_cache ! 0)) (bufs boot_cache ! i)" for i
    using that boot_cache_bufs(2) [of i] by blast
  show "sl_locked (sleeplocks one_block_cache (BufLk 0)) = (0 \<in> ({} :: nat set))"
    using ok(5) [of 0] by (simp add: one_block_cache_def)
qed (use boot_cache_bufs(1) in \<open>simp_all add: one_block_cache_def\<close>)

lemma one_block_sel:
  "memdisk one_block_log = replicate FSSIZE (replicate BSIZE 0)" "bufs one_block_log = bufs one_block_cache"
  "sleeplocks one_block_log = sleeplocks one_block_cache" "same_thread one_block_log one_block_cache"
  "log_start one_block_log = 2" "lh_n one_block_log = 1" "lh_block one_block_log = 40 # replicate (LOGSIZE - 1) 0"
  "log_dev one_block_log = 1" "log_size one_block_log = 30" "memdisk one_block_cache = memdisk boot_cache"
  using boot_cache_ok(2) by (simp_all add: one_block_log_def one_block_cache_def bio_state.defs same_thread_def same_machine_def)

lemma one_block_ready: "commit_ready one_block_log"
proof -
  have c: "cache_ok {} one_block_log"
    by (rule cache_ok_transfer [OF one_block_cache_ok]) (use one_block_sel boot_cache_ok(2) in simp_all)
  have d: "b_dirty (bufs one_block_log ! i) \<longleftrightarrow> i = 0" if "i < NBUF" for i
    using boot_cache_ok(3) [OF that] boot_cache_bufs(1) by (simp add: one_block_sel one_block_cache_def nth_list_update)
  have h: "home_blk one_block_log 0 = 40" by (simp add: home_blk_def one_block_sel)
  have p: "pinned j one_block_log \<longleftrightarrow> j = 40" for j
  proof -
    have "caches j (bufs one_block_log ! 0) \<longleftrightarrow> j = 40"
      using boot_cache_bufs(1) by (auto simp: one_block_sel one_block_cache_def caches_def)
    moreover have "(0 :: nat) < NBUF" by simp
    ultimately show ?thesis unfolding pinned_def using d by metis
  qed
  have "log_layout one_block_log" by (simp add: log_layout_def one_block_sel)
  moreover have "\<exists>i<NBUF. \<not> b_dirty (bufs one_block_log ! i)" using d [of 1] by (intro exI [of _ 1]) simp
  moreover have "length (memdisk one_block_log ! 2) = BSIZE" "get32 (memdisk one_block_log ! 2) 0 = 0"
    unfolding one_block_sel by (simp_all add: get32_def)
  ultimately show ?thesis unfolding commit_ready_def using c p h by (simp add: one_block_sel)
qed

theorem commit_crash_safe_witness:
  "returns (commit one_block_log) (\<lambda>t. memdisk t ! 40 = replicate BSIZE 7 \<and>
     (\<exists>before after. disk_trace t = disk_trace one_block_log @ before @ after \<and> (\<forall>x\<in>set before. recover_disk 2 x ! 40 = replicate BSIZE 0) \<and>
       (\<forall>x\<in>set after. recover_disk 2 x ! 40 = replicate BSIZE 7) \<and> last after = memdisk t))"
proof -
  have m: "length (memdisk one_block_log) = FSSIZE" "memdisk one_block_log ! 40 = replicate BSIZE 0"
    unfolding one_block_sel by (simp_all)
  have "content 40 one_block_log = b_data (bufs one_block_log ! 0)"
  proof (rule content_cached)
    show "caches 40 (bufs one_block_log ! 0)" "b_valid (bufs one_block_log ! 0)"
      using boot_cache_bufs(1) by (simp_all add: one_block_sel one_block_cache_def caches_def)
    then show "j = 0" if "j < NBUF" "caches 40 (bufs one_block_log ! j)" for j
      using that cache_okD(7) [OF commit_readyD(2) [OF one_block_ready], of j 0 40] by simp
  qed simp
  then have "contents one_block_log ! 40 = replicate BSIZE 7"
    using boot_cache_bufs(1) m by (simp add: contents_def one_block_sel one_block_cache_def del: upt_rec_numeral)
  then have nth: "d ! 40 = replicate BSIZE 7" if "same_data one_block_log d (contents one_block_log)" for d
    using same_data_nth [OF that, of 40] m by (simp add: one_block_sel contents_def)
  have old: "d ! 40 = replicate BSIZE 0" if "same_data one_block_log d (memdisk one_block_log)" for d
    using same_data_nth [OF that, of 40] m by (simp add: one_block_sel)
  have one: "nat (log_start one_block_log) = 2" by (simp_all add: one_block_sel)
  show ?thesis
  proof (rule returns_mono [OF commit_crash_safe [OF one_block_ready]], elim conjE exE)
    fix t before after
    assume t: "same_data one_block_log (memdisk t) (contents one_block_log)"
      "disk_trace t = disk_trace one_block_log @ before @ after" "last after = memdisk t"
      "\<forall>x\<in>set (memdisk one_block_log # before).
         same_data one_block_log (recover_disk (nat (log_start one_block_log)) x) (memdisk one_block_log)"
      "\<forall>x\<in>set after. same_data one_block_log (recover_disk (nat (log_start one_block_log)) x) (contents one_block_log)"
    then show "memdisk t ! 40 = replicate BSIZE 7 \<and>
     (\<exists>before after. disk_trace t = disk_trace one_block_log @ before @ after \<and> (\<forall>x\<in>set before. recover_disk 2 x ! 40 = replicate BSIZE 0) \<and>
       (\<forall>x\<in>set after. recover_disk 2 x ! 40 = replicate BSIZE 7) \<and> last after = memdisk t)"
      unfolding one using nth [OF t(1)] old nth by (intro conjI exI [of _ before] exI [of _ after]) simp_all
  qed
qed

text \<open>The machine after a crash between the write of the header and the installation of block 40.\<close>

definition crashed_cache :: bio_state where
  "crashed_cache = boot_cache\<lparr>memdisk := (memdisk boot_cache)[2 := header_bytes 1 [40] (replicate BSIZE 0), 3 := replicate BSIZE 7]\<rparr>"

definition crashed_log :: log_state where
  "crashed_log = bio_state.extend crashed_cache \<lparr>log_start = 2, log_size = 30, log_outstanding = 0,
     log_committing = False, log_dev = 1, lh_n = 0, lh_block = replicate LOGSIZE 0\<rparr>"

lemma boot_cache_disk: "cache_ok {} (boot_cache\<lparr>memdisk := m\<rparr>)"
proof (rule cache_ok_change [OF boot_cache_ok(1), where b = 0])
  note ok = cache_okD [OF boot_cache_ok(1)]
  let ?s = "boot_cache\<lparr>memdisk := m\<rparr>"
  show "same_thread ?s boot_cache" by (simp add: same_thread_def same_machine_def)
  show "buf_ok (0 \<in> ({} :: nat set)) (memdisk ?s) (bufs ?s ! 0)"
    using ok(4) [of 0] boot_cache_ok(3) [of 0] by (simp add: buf_ok_def)
  show "b_dev (bufs ?s ! 0) \<noteq> 1" using boot_cache_ok(3) [of 0] by simp
  show "memdisk ?s ! unat (b_blockno (bufs boot_cache ! i)) = memdisk boot_cache ! unat (b_blockno (bufs boot_cache ! i)) \<or>
      b_dev (bufs boot_cache ! i) \<noteq> 1" if "i < NBUF" for i using boot_cache_ok(3) [OF that] by simp
  show "sl_locked (sleeplocks ?s (BufLk 0)) = (0 \<in> ({} :: nat set))" using ok(5) [of 0] by simp
qed simp_all

lemma crashed_sel:
  "bufs crashed_log = bufs boot_cache" "length (memdisk crashed_log) = FSSIZE"
  "memdisk crashed_log ! 2 = header_bytes 1 [40] (replicate BSIZE 0)" "memdisk crashed_log ! 3 = replicate BSIZE 7"
  "log_start crashed_log = 2" "lh_block crashed_log = replicate LOGSIZE 0" "log_dev crashed_log = 1" "log_size crashed_log = 30"
  unfolding crashed_log_def crashed_cache_def by (simp_all add: boot_cache_ok(2) bio_state.defs)

theorem recovery_refines_recover_disk_witness:
  "returns (recover_from_log crashed_log) (\<lambda>t. memdisk t ! 40 = replicate BSIZE 7 \<and> lh_n t = 0)"
proof -
  have c: "cache_ok {} crashed_log"
    by (rule cache_ok_transfer [OF boot_cache_disk])
      (simp_all add: crashed_log_def crashed_cache_def bio_state.defs same_thread_def same_machine_def)
  have h: "sint (get32 (memdisk crashed_log ! 2) 0) = 1" "get32 (memdisk crashed_log ! 2) 4 = 40"
      "length (memdisk crashed_log ! 2) = BSIZE"
    using header_bytes_read(1,2) [of "replicate BSIZE 0" 1 "[40]"] header_bytes_read(3) [of "replicate BSIZE 0" 1 0, where bl = "[40]"]
    by (simp_all add: crashed_sel)
  have l: "log_layout (disk_header crashed_log)"
  proof -
    have "distinct (take (Suc 0) xs)" for xs :: "int list" by (cases xs) simp_all
    then show ?thesis by (simp add: log_layout_def disk_header_def Let_def crashed_sel h [unfolded crashed_sel])
  qed
  have d: "\<not> b_dirty (bufs crashed_log ! i)" if "i < NBUF" for i using boot_cache_ok(3) [OF that] by (simp add: crashed_sel)
  have r: "recover_ready crashed_log" using c l d h(3) by (simp add: recover_ready_def crashed_sel)
  have "recover_disk 2 (memdisk crashed_log) ! 40 = replicate BSIZE 7"
    unfolding recover_disk_def h using crashed_sel(2,4) by (simp add: h(2) numeral_3_eq_3)
  then show ?thesis
    using recovery_refines_recover_disk [OF r] by (auto elim!: returns_mono simp: crashed_sel log_done_def dest: spec [of _ 40])
qed

end
