(* ===== verification/Txn.thy ===== *)
theory Txn
  imports Crash
begin

text \<open>
  Transactions of the log, on top of the buffer cache: what \<^verbatim>\<open>log_write\<close> records, the invariant that ties the
  entries of the log to the modified buffers, and the idiom of the file system (read a block, change it, log it,
  release it) as an update of the contents of the disk.
\<close>

section \<open>Absorption\<close>

lemma absorb_spec:
  "i \<le> absorb n i bl x \<and> absorb n i bl x \<le> i + n \<and> (absorb n i bl x < i + n \<longrightarrow> bl ! absorb n i bl x = x) \<and>
   (\<forall>j. i \<le> j \<and> j < absorb n i bl x \<longrightarrow> bl ! j \<noteq> x)"
proof (induction n arbitrary: i)
  case (Suc n)
  show ?case
  proof (cases "bl ! i = x")
    case False
    have "bl ! j \<noteq> x" if "i \<le> j" "j < absorb n (i + 1) bl x" for j
      using Suc.IH [of "i + 1"] that False by (cases "j = i") auto
    then show ?thesis using Suc.IH [of "i + 1"] False by auto
  qed simp
qed simp

text \<open>The state after \<^verbatim>\<open>log_write\<close>.\<close>

definition logged :: "nat \<Rightarrow> 'a log_state_scheme \<Rightarrow> 'a log_state_scheme" where
  "logged b s =
     (let x = sint (b_blockno (bufs s ! b));
          i = absorb (nat (lh_n s)) 0 (lh_block s) x;
          s = s\<lparr>lh_block := (lh_block s)[i := x], lh_n := (if int i = lh_n s then lh_n s + 1 else lh_n s)\<rparr>
      in upd_buf b (\<lambda>x. x\<lparr>b_dirty := True\<rparr>) s)"

lemma log_upd [simp]:
  "cpu_ok (s\<lparr>lh_block := bl\<rparr>) = cpu_ok s" "lock_free l (s\<lparr>lh_block := bl\<rparr>) = lock_free l s"
  "cpu_ok (s\<lparr>lh_n := n\<rparr>) = cpu_ok s" "lock_free l (s\<lparr>lh_n := n\<rparr>) = lock_free l s"
  "(acquired l s)\<lparr>lh_block := bl\<rparr> = acquired l (s\<lparr>lh_block := bl\<rparr>)"
  "(acquired l s)\<lparr>lh_n := n\<rparr> = acquired l (s\<lparr>lh_n := n\<rparr>)"
  "lh_n (acquired l s) = lh_n s" "lh_block (acquired l s) = lh_block s"
proof -
  show "cpu_ok (s\<lparr>lh_block := bl\<rparr>) = cpu_ok s" "cpu_ok (s\<lparr>lh_n := n\<rparr>) = cpu_ok s" by (rule cpu_ok_cong; simp)+
qed (simp_all add: lock_free_def acquired_def pushed_def me_def)

lemma log_write_eq:
  assumes "kthread s" and "lh_n s < int LOGSIZE" and "lh_n s < log_size s - 1" and "1 \<le> log_outstanding s"
  shows "log_write b s = Ret (logged b s)"
proof -
  have k: "cpu_ok s" "lock_free LogLock s" using assms(1) by (simp_all add: kthread_def)
  have e: "logged b s = upd_buf b (\<lambda>x. x\<lparr>b_dirty := True\<rparr>) (s\<lparr>lh_block := lh_block (logged b s), lh_n := lh_n (logged b s)\<rparr>)"
    by (simp add: logged_def Let_def upd_buf_def)
  have "cpu_ok (logged b s)" "lock_free LogLock (logged b s)" using k by (subst e; simp add: upd_buf_def)+
  then have "locked LogLock (\<lambda>s.
            let i = absorb (nat (lh_n s)) 0 (lh_block s) (sint (b_blockno (bufs s ! b)));
                s = s\<lparr>lh_block := (lh_block s)[i := sint (b_blockno (bufs s ! b))]\<rparr>;
                s = (if int i = lh_n s then s\<lparr>lh_n := lh_n s + 1\<rparr> else s)
            in Ret ((), upd_buf b (\<lambda>x. x\<lparr>b_dirty := True\<rparr>) s)) s = Ret ((), logged b s)"
    by (rule locked_update) (use k in \<open>simp_all add: logged_def Let_def\<close>)
  then show ?thesis using assms(2-4) by (simp add: log_write_def)
qed

lemma logged_sel:
  "bufs (logged b s) = bufs (upd_buf b (\<lambda>x. x\<lparr>b_dirty := True\<rparr>) s)" "memdisk (logged b s) = memdisk s"
  "sleeplocks (logged b s) = sleeplocks s" "same_thread (logged b s) s" "log_start (logged b s) = log_start s"
  "log_size (logged b s) = log_size s" "log_outstanding (logged b s) = log_outstanding s" "log_dev (logged b s) = log_dev s"
  "log_committing (logged b s) = log_committing s" "log_state.more (logged b s) = log_state.more s"
  by (simp_all add: logged_def Let_def upd_buf_def same_thread_def same_machine_def)

section \<open>The invariant of a transaction\<close>

text \<open>
  The entries of the log are the blocks that are modified in the cache, each once, and the header on the disk is
  that of an empty log.
\<close>

definition txn_ok :: "nat set \<Rightarrow> 'a log_state_scheme \<Rightarrow> bool" where
  "txn_ok H s \<longleftrightarrow> log_layout s \<and> cache_ok H s \<and>
     (\<forall>j. pinned j s \<longleftrightarrow> (\<exists>i<nat (lh_n s). j = home_blk s i)) \<and>
     length (memdisk s ! nat (log_start s)) = BSIZE \<and> sint (get32 (memdisk s ! nat (log_start s)) 0) = 0"

text \<open>A block of the disk outside the log, and room in the log for one more entry.\<close>

definition data_blk :: "u32 \<Rightarrow> 'a log_state_scheme \<Rightarrow> bool" where
  "data_blk k s \<longleftrightarrow> unat k < length (memdisk s) \<and>
     (int (unat k) < log_start s \<or> log_start s + log_size s \<le> int (unat k))"

definition log_room :: "'a log_state_scheme \<Rightarrow> bool" where
  "log_room s \<longleftrightarrow> lh_n s < int LOGSIZE \<and> lh_n s < log_size s - 1 \<and> 1 \<le> log_outstanding s"

lemma txn_okD:
  assumes "txn_ok H s"
  shows "log_layout s" "cache_ok H s" "i < NBUF \<Longrightarrow> b_dirty (bufs s ! i) \<Longrightarrow> b_dev (bufs s ! i) = 1"
    "pinned j s \<longleftrightarrow> (\<exists>i<nat (lh_n s). j = home_blk s i)" "kthread s"
    "length (memdisk s ! nat (log_start s)) = BSIZE \<and> sint (get32 (memdisk s ! nat (log_start s)) 0) = 0"
proof -
  show c: "cache_ok H s" using assms unfolding txn_ok_def by blast
  show "b_dev (bufs s ! i) = 1" if "i < NBUF" "b_dirty (bufs s ! i)" using cache_okD(4) [OF c that(1)] that(2) by (simp add: buf_ok_def)
  show "kthread s" by (rule cache_okD(1) [OF c])
qed (use assms in \<open>unfold txn_ok_def, blast+\<close>)

lemma data_blk_sint:
  assumes "log_layout s" and "data_blk k s"
  shows "sint k = int (unat k)" "of_int (sint k) = k"
proof -
  have "unat k < 2147483648" using assms by (simp add: log_layout_def data_blk_def)
  then have "int (unat k) < 2147483648" by linarith
  then have "sint (of_int (int (unat k)) :: u32) = int (unat k)" by (rule sint_block [OF of_nat_0_le_iff])
  then show "sint k = int (unat k)" by simp
  then show "of_int (sint k) = k" by simp
qed

text \<open>What \<^verbatim>\<open>log_write\<close> does to the entries: the block is added unless it is there already.\<close>

lemma logged_entries:
  assumes "log_layout s" and "data_blk k s" and "b_blockno (bufs s ! b) = k" and "lh_n s < int LOGSIZE" and "lh_n s < log_size s - 1"
  shows "log_layout (logged b s)"
    and "(\<exists>i<nat (lh_n (logged b s)). j = home_blk (logged b s) i) \<longleftrightarrow> j = k \<or> (\<exists>i<nat (lh_n s). j = home_blk s i)"
    and "lh_n (logged b s) = (if \<exists>i<nat (lh_n s). k = home_blk s i then lh_n s else lh_n s + 1)"
proof -
  let ?n = "nat (lh_n s)"
  let ?i = "absorb ?n 0 (lh_block s) (sint k)"
  have l: "0 \<le> lh_n s" "length (lh_block s) = LOGSIZE" "distinct (take ?n (lh_block s))"
    using assms(1) by (simp_all add: log_layout_def)
  have sk: "sint k = int (unat k)" "of_int (sint k) = k" using data_blk_sint [OF assms(1,2)] .
  have ab: "?i \<le> ?n" "?i < ?n \<Longrightarrow> lh_block s ! ?i = sint k" "\<And>j. j < ?i \<Longrightarrow> lh_block s ! j \<noteq> sint k"
    using absorb_spec [of 0 ?n "lh_block s" "sint k"] by auto
  have home: "home_blk s j = k \<longleftrightarrow> lh_block s ! j = sint k" if "j < ?n" for j
  proof
    assume "home_blk s j = k"
    moreover have "0 \<le> lh_block s ! j" using assms(1) that by (simp add: log_layout_def)
    ultimately show "lh_block s ! j = sint k" using log_layoutD(3) [OF assms(1) that] sk(1) by simp
  next
    assume "lh_block s ! j = sint k"
    then show "home_blk s j = k" unfolding home_blk_def using sk(2) by simp
  qed
  have L: "lh_block (logged b s) = (lh_block s)[?i := sint k]" "lh_n (logged b s) = (if int ?i = lh_n s then lh_n s + 1 else lh_n s)"
    by (simp_all add: logged_def Let_def upd_buf_def assms(3))
  have H: "home_blk (logged b s) j = (if j = ?i then k else home_blk s j)" if "j \<le> ?n" for j
    using that assms(4) l(2) sk(2) by (simp add: home_blk_def L nth_list_update)
  show "log_layout (logged b s)"
  proof (cases "?i < ?n")
    case True
    then have same: "(lh_block s)[?i := sint k] = lh_block s" using ab(2) by (metis list_update_id)
    show ?thesis using assms(1) True unfolding log_layout_def L same logged_sel by auto
  next
    case False
    then have i: "?i = ?n" using ab(1) by simp
    have "sint k \<notin> set (take ?n (lh_block s))" using ab(3) i by (auto simp: in_set_conv_nth)
    then have "distinct (take (Suc ?n) ((lh_block s)[?n := sint k]))"
      using l assms(4) by (simp add: take_Suc_conv_app_nth)
    moreover have "uint k < int (length (memdisk s))"
      using assms(2) unfolding data_blk_def by (metis of_nat_less_iff uint_nat)
    ultimately show ?thesis
      using assms(1,2,4,5) l(1) sk(1) i unfolding log_layout_def L logged_sel data_blk_def
      by (auto simp: nat_add_distrib less_Suc_eq nth_list_update)
  qed
  show "(\<exists>i<nat (lh_n (logged b s)). j = home_blk (logged b s) i) \<longleftrightarrow> j = k \<or> (\<exists>i<?n. j = home_blk s i)"
  proof (cases "?i < ?n")
    case True
    then have n: "nat (lh_n (logged b s)) = ?n" and hi: "home_blk s ?i = k" using L(2) ab(2) home by auto
    then have "home_blk (logged b s) j = home_blk s j" if "j < ?n" for j using H [of j] that by auto
    then show ?thesis using n hi True by metis
  next
    case False
    then have n: "nat (lh_n (logged b s)) = Suc ?n" using L(2) ab(1) l(1) by auto
    have "home_blk (logged b s) j = (if j = ?n then k else home_blk s j)" if "j \<le> ?n" for j using H [OF that] False ab(1) by auto
    then show ?thesis unfolding n less_Suc_eq by auto
  qed
  show "lh_n (logged b s) = (if \<exists>i<?n. k = home_blk s i then lh_n s else lh_n s + 1)"
  proof (cases "?i < ?n")
    case True
    have "k = home_blk s ?i" using ab(2) [OF True] home [OF True] by simp
    then have "\<exists>i<?n. k = home_blk s i" using True by blast
    then show ?thesis using L(2) True by auto
  next
    case False
    then have i: "?i = ?n" using ab(1) by simp
    have "\<not> (\<exists>i<?n. k = home_blk s i)"
    proof
      assume "\<exists>i<?n. k = home_blk s i"
      then obtain j where "j < ?n" "home_blk s j = k" by blast
      then show False using home [of j] ab(3) [of j] i by simp
    qed
    then show ?thesis using L(2) i l(1) by simp
  qed
qed

text \<open>There is an unmodified buffer as long as the log is not full: every modified buffer holds an entry.\<close>

lemma dirty_le_entries:
  assumes "txn_ok H s"
  shows "card {i. i < NBUF \<and> b_dirty (bufs s ! i)} \<le> nat (lh_n s)"
proof -
  let ?D = "{i. i < NBUF \<and> b_dirty (bufs s ! i)}"
  note t = txn_okD [OF assms]
  have D: "caches (b_blockno (bufs s ! i)) (bufs s ! i)" if "i \<in> ?D" for i using t(3) that by (simp add: caches_def)
  have "\<exists>e<nat (lh_n s). b_blockno (bufs s ! i) = home_blk s e" if "i \<in> ?D" for i
    using t(4) [of "b_blockno (bufs s ! i)"] D [OF that] that by (auto simp: pinned_def)
  then obtain f where f: "\<And>i. i \<in> ?D \<Longrightarrow> f i < nat (lh_n s) \<and> b_blockno (bufs s ! i) = home_blk s (f i)" by metis
  have "inj_on f ?D"
  proof (rule inj_onI)
    fix i j
    assume ij: "i \<in> ?D" "j \<in> ?D" "f i = f j"
    then have "b_blockno (bufs s ! i) = b_blockno (bufs s ! j)" using f by simp
    then show "i = j" using cache_okD(7) [OF t(2), of i j] D [OF ij(1)] D [OF ij(2)] ij by simp
  qed
  moreover have "f ` ?D \<subseteq> {..<nat (lh_n s)}" using f by blast
  ultimately show ?thesis using card_inj_on_le [of f ?D "{..<nat (lh_n s)}"] by simp
qed

lemma free_buffer:
  assumes "txn_ok H s" and "nat (lh_n s) + card H < NBUF"
  shows "\<exists>i<NBUF. i \<notin> H \<and> \<not> b_dirty (bufs s ! i)"
proof (rule ccontr)
  let ?D = "{i. i < NBUF \<and> b_dirty (bufs s ! i)}"
  assume "\<not> ?thesis"
  then have "{..<NBUF} \<subseteq> ?D \<union> H" by auto
  moreover have "finite H" using cache_okD(3) [OF txn_okD(2) [OF assms(1)]] by (rule finite_subset) simp
  ultimately have "NBUF \<le> card (?D \<union> H)" using card_mono [of "?D \<union> H" "{..<NBUF}"] by simp
  also have "\<dots> \<le> card ?D + card H" by (rule card_Un_le)
  finally show False using dirty_le_entries [OF assms(1)] assms(2) by simp
qed

section \<open>Logging a held buffer\<close>

lemma set_dirty_ok:
  assumes "cache_ok H s" and "b \<in> H" and "caches k (bufs s ! b)" and "b_valid (bufs s ! b)"
    and "bufs t = bufs (upd_buf b (\<lambda>x. x\<lparr>b_dirty := True\<rparr>) s)" and "memdisk t = memdisk s"
    and "sleeplocks t = sleeplocks s" and "same_thread t s"
  shows "cache_ok H t" and "content j t = content j s" and "pinned j t \<longleftrightarrow> pinned j s \<or> j = k"
    and "bufs t ! i = (if i = b then (bufs s ! b)\<lparr>b_dirty := True\<rparr> else bufs s ! i)"
proof -
  note ok = cache_okD [OF assms(1)]
  have b: "b < NBUF" "b < length (bufs s)" using cache_ok_held [OF assms(1,2)] by simp_all
  show bt: "bufs t ! i = (if i = b then (bufs s ! b)\<lparr>b_dirty := True\<rparr> else bufs s ! i)" for i
    using b by (simp add: assms(5) nth_upd_buf)
  have only: "i = b" if "i < NBUF" "caches k (bufs s ! i)" for i using ok(7) [OF that(1) b(1) that(2) assms(3)] .
  have bb: "bufs t ! b = (bufs s ! b)\<lparr>b_dirty := True\<rparr>" and bo: "\<And>i. i \<noteq> b \<Longrightarrow> bufs t ! i = bufs s ! i"
    by (simp_all only: bt if_True if_False refl not_False_eq_True)
  show "cache_ok H t"
  proof (rule cache_ok_change [OF assms(1,8) b(1), where J = H])
    show "length (bufs t) = length (bufs s)" by (simp add: assms(5))
    show "bufs t ! i = bufs s ! i" if "i \<noteq> b" for i by (rule bo [OF that])
    show "b_next (bufs t ! b) = b_next (bufs s ! b)" "b_prev (bufs t ! b) = b_prev (bufs s ! b)" by (simp_all add: bb)
    show "b_dev (bufs t ! b) \<noteq> 1" if "i < NBUF" "i \<noteq> b" "caches (b_blockno (bufs t ! b)) (bufs s ! i)" for i
      using that only [of i] assms(3) by (simp add: bb caches_def)
    show "buf_ok (b \<in> H) (memdisk t) (bufs t ! b)" using ok(4) [OF b(1)] assms(2,3,4) by (simp add: bb buf_ok_def caches_def)
    show "sl_locked (sleeplocks t (BufLk b)) = (b \<in> H)" using ok(5) [OF b(1)] by (simp add: assms(7))
    show "sl_pid (sleeplocks t (BufLk b)) = cur_pid s" using ok(6) [OF assms(2)] by (simp add: assms(7))
  qed (simp_all add: assms(6,7))
  have flags: "caches j (bufs t ! i) = caches j (bufs s ! i)" "b_valid (bufs t ! i) = b_valid (bufs s ! i)"
    "b_data (bufs t ! i) = b_data (bufs s ! i)" for i j
    using bb bo [of i] by (cases "i = b"; simp add: caches_def)+
  show "content j t = content j s" by (rule content_other) (simp_all add: flags assms(6))
  have "b_dirty (bufs t ! i) \<longleftrightarrow> b_dirty (bufs s ! i) \<or> i = b" for i using bb bo [of i] by (cases "i = b") simp_all
  moreover have "caches j (bufs s ! b) \<longleftrightarrow> j = k" using assms(3) by (auto simp: caches_def)
  ultimately show "pinned j t \<longleftrightarrow> pinned j s \<or> j = k" unfolding pinned_def flags using b(1) by metis
qed

lemma log_write_ok:
  assumes "txn_ok H s" and "b \<in> H" and "caches k (bufs s ! b)" and "b_valid (bufs s ! b)" and "data_blk k s" and "log_room s"
  shows "log_write b s = Ret (logged b s)" and "txn_ok H (logged b s)" and "content j (logged b s) = content j s"
    and "lh_n (logged b s) = (if pinned k s then lh_n s else lh_n s + 1)"
    and "bufs (logged b s) ! i = (if i = b then (bufs s ! b)\<lparr>b_dirty := True\<rparr> else bufs s ! i)"
proof -
  note t = txn_okD [OF assms(1)]
  have bn: "b_blockno (bufs s ! b) = k" using assms(3) by (simp add: caches_def)
  have room: "lh_n s < int LOGSIZE" "lh_n s < log_size s - 1" "1 \<le> log_outstanding s" using assms(6) by (simp_all add: log_room_def)
  note d = set_dirty_ok [OF t(2) assms(2-4) logged_sel(1-4)] and e = logged_entries [OF t(1) assms(5) bn room(1,2)]
  show "log_write b s = Ret (logged b s)" by (rule log_write_eq [OF t(5) room])
  show "content j (logged b s) = content j s" by (rule d(2))
  show bufs: "bufs (logged b s) ! i = (if i = b then (bufs s ! b)\<lparr>b_dirty := True\<rparr> else bufs s ! i)" for i by (rule d(4))
  show "lh_n (logged b s) = (if pinned k s then lh_n s else lh_n s + 1)" using e(3) t(4) [of k] by simp
  have "pinned j (logged b s) \<longleftrightarrow> (\<exists>i<nat (lh_n (logged b s)). j = home_blk (logged b s) i)" for j
    using d(3) [of j] e(2) [of j] t(4) [of j] by blast
  then show "txn_ok H (logged b s)"
    unfolding txn_ok_def using d(1) e(1) t(6) by (simp add: logged_sel)
qed

text \<open>The log fields that an update of a block leaves alone.\<close>

definition same_log :: "'a log_state_scheme \<Rightarrow> 'a log_state_scheme \<Rightarrow> bool" where
  "same_log t s \<longleftrightarrow> log_start t = log_start s \<and> log_size t = log_size s \<and> log_outstanding t = log_outstanding s \<and>
     log_committing t = log_committing s \<and> log_dev t = log_dev s \<and> log_state.more t = log_state.more s \<and>
     memdisk t = memdisk s \<and> same_thread t s"

lemma same_log_refl [simp]: "same_log s s"
  by (simp add: same_log_def)

lemma same_log_trans [trans]: "same_log u t \<Longrightarrow> same_log t s \<Longrightarrow> same_log u s"
  by (auto simp: same_log_def intro: same_thread_trans)

lemma same_log_blk: "same_log t s \<Longrightarrow> data_blk k t = data_blk k s"
  by (simp add: same_log_def data_blk_def)

lemma more_same_log: "bio_state.more t = bio_state.more s \<Longrightarrow> memdisk t = memdisk s \<Longrightarrow> same_thread t s \<Longrightarrow> same_log t s"
  by (cases s; cases t) (simp add: same_log_def)

text \<open>A read of a block by the file system.\<close>

lemma txn_bread:
  assumes "txn_ok H s" and "unat k < length (memdisk s)" and "nat (lh_n s) + card H < NBUF"
    and "\<And>i. i \<in> H \<Longrightarrow> \<not> caches k (bufs s ! i)"
  obtains b t where "bread 1 k s = Ret (b, t)" "b < NBUF" "b \<notin> H" "caches k (bufs t ! b)" "b_valid (bufs t ! b)"
    "b_data (bufs t ! b) = content k s" "txn_ok (insert b H) t" "\<And>j. content j t = content j s" "same_log t s" "lh_n t = lh_n s"
    "\<And>i. i \<noteq> b \<Longrightarrow> bufs t ! i = bufs s ! i" "\<And>j. pinned j t = pinned j s"
proof -
  note t = txn_okD [OF assms(1)]
  have ex: "\<exists>i<NBUF. caches k (bufs s ! i) \<or> i \<notin> H \<and> \<not> b_dirty (bufs s ! i)"
    using free_buffer [OF assms(1,3)] by blast
  obtain b u where r: "bread 1 k s = Ret (b, u)" "b < NBUF" "b \<notin> H" "caches k (bufs u ! b)" "b_valid (bufs u ! b)"
    "b_data (bufs u ! b) = content k s" "cache_ok (insert b H) u" "same_content u s" "memdisk u = memdisk s"
    "\<And>i. i \<noteq> b \<Longrightarrow> bufs u ! i = bufs s ! i"
    by (rule bread_ok [OF t(2) _ ex assms(2)]) (use assms(4) in blast)+
  have sc: "\<And>j. content j u = content j s" "\<And>j. pinned j u = pinned j s" "bio_state.more u = bio_state.more s" "same_thread u s"
    using r(8) by (simp_all add: same_content_def)
  note m = more_log [OF sc(3)] and same = layout_more [OF sc(3), unfolded r(9), OF refl]
  have "txn_ok (insert b H) u"
    unfolding txn_ok_def same m sc(2) r(9) using t(1,4,6) r(7) by blast
  then show thesis
    using that [OF r(1-6) _ sc(1) more_same_log [OF sc(3) r(9) sc(4)] m(6) r(10) sc(2)] by blast
qed

lemma txn_brelse:
  assumes "txn_ok H s" and "b \<in> H" and "caches k (bufs s ! b)" and "pinned k s \<or> b_data (bufs s ! b) = memdisk s ! unat k"
  obtains t where "brelse b s = Ret t" "txn_ok (H - {b}) t" "\<And>j. content j t = content j s" "same_log t s" "lh_n t = lh_n s"
    "\<And>i. i \<noteq> b \<Longrightarrow> core (bufs t ! i) = core (bufs s ! i)" "\<And>j. pinned j t = pinned j s"
proof -
  note t = txn_okD [OF assms(1)]
  obtain xs where xs: "ring_ok (bufs s) xs" "set xs = {0..<NBUF}" using cache_ok_ring [OF t(2)] by blast
  have b: "b < NBUF" using cache_ok_held [OF t(2) assms(2)] by blast
  have bn: "b_blockno (bufs s ! b) = k" using assms(3) by (simp add: caches_def)
  have "b_dirty (bufs s ! b)" if "pinned k s"
    using that cache_okD(7) [OF t(2), of _ b k] b assms(3) unfolding pinned_def by blast
  then have clean: "b_data (bufs s ! b) = memdisk s ! unat (b_blockno (bufs s ! b))" if "\<not> b_dirty (bufs s ! b)"
    using that assms(4) bn by blast
  obtain u where u: "brelse b s = Ret u" "cache_ok (H - {b}) u" "same_content u s" "memdisk u = memdisk s"
    "\<And>i. i \<noteq> b \<Longrightarrow> core (bufs u ! i) = core (bufs s ! i)" "core (bufs u ! b) = core ((bufs s ! b)\<lparr>b_refcnt := 0\<rparr>)"
    by (rule brelse_ok [OF t(2) assms(2) xs clean]) blast+
  have sc: "\<And>j. content j u = content j s" "\<And>j. pinned j u = pinned j s" "bio_state.more u = bio_state.more s" "same_thread u s"
    using u(3) by (simp_all add: same_content_def)
  note m = more_log [OF sc(3)] and same = layout_more [OF sc(3), unfolded u(4), OF refl]
  have "txn_ok (H - {b}) u"
    unfolding txn_ok_def same m sc(2) u(4) using t(1,4,6) u(2) by blast
  then show thesis using that [OF u(1) _ sc(1) more_same_log [OF sc(3) u(4) sc(4)] m(6) u(5) sc(2)] by blast
qed

section \<open>Updating a block\<close>

text \<open>The idiom of the file system on one block, with \<open>f\<close> the change of its data.\<close>

definition upd_block :: "u32 \<Rightarrow> (u8 list \<Rightarrow> u8 list) \<Rightarrow> 'a log_state_scheme \<Rightarrow> 'a log_state_scheme outcome" where
  "upd_block k f s = bindO (bread 1 k s) (\<lambda>(b, s).
     bindO (log_write b (upd_buf b (\<lambda>x. x\<lparr>b_data := f (b_data x)\<rparr>) s)) (\<lambda>s. brelse b s))"

text \<open>What it does.\<close>

definition blk_updated :: "u32 \<Rightarrow> u8 list \<Rightarrow> 'a log_state_scheme \<Rightarrow> 'a log_state_scheme \<Rightarrow> bool" where
  "blk_updated k d s t \<longleftrightarrow> same_log t s \<and> (\<forall>j. content j t = (if j = k then d else content j s)) \<and>
     lh_n t = (if pinned k s then lh_n s else lh_n s + 1) \<and> (\<forall>j. pinned j t \<longleftrightarrow> pinned j s \<or> j = k)"

lemma log_held_ok:
  assumes "txn_ok H s" and "b \<in> H" and "caches k (bufs s ! b)" and "b_valid (bufs s ! b)" and "data_blk k s" and "log_room s"
  obtains t where "log_write b (upd_buf b (\<lambda>x. x\<lparr>b_data := d\<rparr>) s) = Ret t" "txn_ok H t" "blk_updated k d s t"
    "caches k (bufs t ! b)" "b_valid (bufs t ! b)" "b_data (bufs t ! b) = d" "\<And>i. i \<noteq> b \<Longrightarrow> bufs t ! i = bufs s ! i"
proof -
  note t = txn_okD [OF assms(1)]
  let ?s = "upd_buf b (\<lambda>x. x\<lparr>b_data := d\<rparr>) s"
  note set = set_data_ok [OF t(2) assms(2-4), where d = d]
  have m: "bio_state.more ?s = bio_state.more s" "memdisk ?s = memdisk s" by simp_all
  note same = layout_more [OF m(1), unfolded m(2), OF refl] and ml = more_log [OF m(1)]
  have ok: "txn_ok H ?s" unfolding txn_ok_def same ml set(3) m(2) using t(1,3,4,6) set(1) by auto
  have c: "caches k (bufs ?s ! b)" "b_valid (bufs ?s ! b)" using assms(3,4) set(4) [of b] by (simp_all add: caches_def)
  have db: "data_blk k ?s" "log_room ?s" using assms(5,6) by (simp_all add: data_blk_def log_room_def ml)
  note w = log_write_ok [OF ok assms(2) c db]
  have "same_log (logged b ?s) ?s" by (simp add: same_log_def logged_sel)
  moreover have "same_log ?s s" by (rule more_same_log) simp_all
  ultimately have "same_log (logged b ?s) s" by (rule same_log_trans)
  moreover have "pinned j (logged b ?s) \<longleftrightarrow> pinned j s \<or> j = k" for j
    using set_dirty_ok(3) [OF set(1) assms(2) c logged_sel(1-4)] set(3) by blast
  ultimately have "blk_updated k d s (logged b ?s)"
    unfolding blk_updated_def using w(3,4) set(2,3) ml(6) by simp
  then show thesis
    using that [OF w(1,2)] w(5) [of b] w(5) set(4) c by (simp add: caches_def)
qed

lemma blk_updated_room:
  assumes "blk_updated k d s t"
  shows "lh_n t \<le> lh_n s + 1" "lh_n s \<le> lh_n t" "data_blk j t = data_blk j s" "log_start t = log_start s"
    "log_size t = log_size s" "log_outstanding t = log_outstanding s" "log_state.more t = log_state.more s" "memdisk t = memdisk s"
  using assms by (auto simp: blk_updated_def same_log_blk) (simp_all add: same_log_def)

lemma upd_block_ok:
  assumes "txn_ok H s" and "data_blk k s" and "log_room s" and "nat (lh_n s) + card H < NBUF"
    and "\<And>i. i \<in> H \<Longrightarrow> \<not> caches k (bufs s ! i)"
  shows "returns (upd_block k f s) (\<lambda>t. txn_ok H t \<and> blk_updated k (f (content k s)) s t \<and>
    (\<forall>i\<in>H. core (bufs t ! i) = core (bufs s ! i)))"
proof -
  have len: "unat k < length (memdisk s)" using assms(2) by (simp add: data_blk_def)
  obtain b u where r: "bread 1 k s = Ret (b, u)" "b \<notin> H" "caches k (bufs u ! b)" "b_valid (bufs u ! b)"
    "b_data (bufs u ! b) = content k s" "txn_ok (insert b H) u" "\<And>j. content j u = content j s" "same_log u s" "lh_n u = lh_n s"
    "\<And>i. i \<noteq> b \<Longrightarrow> bufs u ! i = bufs s ! i" "\<And>j. pinned j u = pinned j s"
    by (rule txn_bread [OF assms(1) len assms(4,5)]) blast+
  have u: "data_blk k u" "log_room u" using assms(2,3) r(8,9) same_log_blk [OF r(8)] by (simp_all add: log_room_def same_log_def)
  have bl: "b < length (bufs u)" using cache_ok_held [OF txn_okD(2) [OF r(6)], of b] by simp
  have e: "upd_buf b (\<lambda>x. x\<lparr>b_data := f (b_data x)\<rparr>) u = upd_buf b (\<lambda>x. x\<lparr>b_data := f (content k s)\<rparr>) u"
    by (simp add: upd_buf_def r(5))
  obtain v where v: "log_write b (upd_buf b (\<lambda>x. x\<lparr>b_data := f (content k s)\<rparr>) u) = Ret v" "txn_ok (insert b H) v"
    "blk_updated k (f (content k s)) u v" "caches k (bufs v ! b)" "\<And>i. i \<noteq> b \<Longrightarrow> bufs v ! i = bufs u ! i"
    by (rule log_held_ok [OF r(6) insertI1 r(3,4) u]) blast+
  have pv: "pinned k v" using v(3) by (simp add: blk_updated_def)
  obtain t where t: "brelse b v = Ret t" "txn_ok (insert b H - {b}) t" "\<And>j. content j t = content j v" "same_log t v" "lh_n t = lh_n v"
    "\<And>i. i \<noteq> b \<Longrightarrow> core (bufs t ! i) = core (bufs v ! i)" "\<And>j. pinned j t = pinned j v"
    by (rule txn_brelse [OF v(2) insertI1 v(4)]) (use pv in blast)+
  have "blk_updated k (f (content k s)) s t"
    using v(3) t(3,5,7) r(7,9,11) same_log_trans [OF t(4) same_log_trans [OF _ r(8)]] by (simp add: blk_updated_def)
  moreover have "\<forall>i\<in>H. core (bufs t ! i) = core (bufs s ! i)" using t(6) v(5) r(2,10) by metis
  moreover have "insert b H - {b} = H" using r(2) by blast
  ultimately show ?thesis unfolding upd_block_def using r(1) v(1) t(1,2) e by simp
qed

section \<open>The contract of a store of blocks\<close>

text \<open>
  \<open>view k s\<close> is the block \<open>k\<close> as its readers see it; \<open>ready n s\<close> allows \<open>n\<close> more updates. The file system's
  logged updates and the log's own direct writes both keep this contract.
\<close>

primrec updates :: "('k \<Rightarrow> ('d \<Rightarrow> 'd) \<Rightarrow> 's \<Rightarrow> 's outcome) \<Rightarrow> ('k \<times> ('d \<Rightarrow> 'd)) list \<Rightarrow> 's \<Rightarrow> 's outcome" where
  "updates upd [] s = Ret s"
| "updates upd (u # us) s = bindO (upd (fst u) (snd u) s) (\<lambda>s. updates upd us s)"

definition after_updates :: "('k \<times> ('d \<Rightarrow> 'd)) list \<Rightarrow> 'k \<Rightarrow> 'd \<Rightarrow> 'd" where
  "after_updates us k d = fold (\<lambda>(j, f) d. if j = k then f d else d) us d"

locale block_store =
  fixes view :: "'k \<Rightarrow> 's \<Rightarrow> 'd"
    and upd :: "'k \<Rightarrow> ('d \<Rightarrow> 'd) \<Rightarrow> 's \<Rightarrow> 's outcome"
    and ready :: "nat \<Rightarrow> 's \<Rightarrow> bool"
    and blk :: "'k \<Rightarrow> 's \<Rightarrow> bool"
  assumes upd_ok: "ready (Suc n) s \<Longrightarrow> blk k s \<Longrightarrow> returns (upd k f s) (\<lambda>t. ready n t \<and> view k t = f (view k s) \<and>
      (\<forall>j. j \<noteq> k \<longrightarrow> view j t = view j s) \<and> (\<forall>j. blk j t = blk j s))"
begin

lemma updates_ok:
  assumes "ready (length us + n) s" and "\<And>u. u \<in> set us \<Longrightarrow> blk (fst u) s"
  shows "returns (updates upd us s) (\<lambda>t. ready n t \<and> (\<forall>j. view j t = after_updates us j (view j s)) \<and> (\<forall>j. blk j t = blk j s))"
  using assms
proof (induction us arbitrary: s)
  case Nil
  then show ?case by (simp add: after_updates_def)
next
  case (Cons u us)
  have "returns (upd (fst u) (snd u) s) (\<lambda>t. ready (length us + n) t \<and> view (fst u) t = snd u (view (fst u) s) \<and>
      (\<forall>j. j \<noteq> fst u \<longrightarrow> view j t = view j s) \<and> (\<forall>j. blk j t = blk j s))"
    using Cons.prems by (intro upd_ok) simp_all
  then show ?case
    unfolding updates.simps returns_bindO
  proof (rule returns_mono, elim conjE)
    fix t
    assume t: "ready (length us + n) t" "view (fst u) t = snd u (view (fst u) s)"
      "\<forall>j. j \<noteq> fst u \<longrightarrow> view j t = view j s" "\<forall>j. blk j t = blk j s"
    have "returns (updates upd us t) (\<lambda>v. ready n v \<and> (\<forall>j. view j v = after_updates us j (view j t)) \<and> (\<forall>j. blk j v = blk j t))"
      using Cons.prems(2) t(1,4) by (intro Cons.IH) simp_all
    then show "returns (updates upd us t)
        (\<lambda>v. ready n v \<and> (\<forall>j. view j v = after_updates (u # us) j (view j s)) \<and> (\<forall>j. blk j v = blk j s))"
      by (rule returns_mono) (use t in \<open>auto simp: after_updates_def split_beta\<close>)
  qed
qed

lemma updates_disjoint:
  assumes "ready (length us + n) s" and "\<And>u. u \<in> set us \<Longrightarrow> blk (fst u) s" and "j \<notin> fst ` set us"
  shows "returns (updates upd us s) (\<lambda>t. view j t = view j s)"
proof -
  have "after_updates us j d = d" for d
    using assms(3) by (induction us arbitrary: d) (auto simp: after_updates_def split_beta)
  then show ?thesis using updates_ok [OF assms(1,2)] by (auto elim!: returns_mono)
qed

end

text \<open>Room in the log for \<open>n\<close> more entries, in a transaction that started in state \<open>s0\<close>.\<close>

definition log_ready :: "'a log_state_scheme \<Rightarrow> nat \<Rightarrow> 'a log_state_scheme \<Rightarrow> bool" where
  "log_ready s0 n s \<longleftrightarrow> txn_ok {} s \<and> same_log s s0 \<and> 1 \<le> log_outstanding s \<and> lh_n s + int n \<le> int LOGSIZE \<and> lh_n s + int n < log_size s \<and>
     lh_n s + int n < int NBUF"

interpretation logged_blocks: block_store content upd_block "log_ready s0" data_blk for s0
proof
  fix n k f and s :: "'a log_state_scheme"
  assume r: "log_ready s0 (Suc n) s" and d: "data_blk k s"
  have t: "txn_ok {} s" "log_room s" "nat (lh_n s) + card ({} :: nat set) < NBUF"
    using r by (auto simp: log_ready_def log_room_def)
  show "returns (upd_block k f s) (\<lambda>t. log_ready s0 n t \<and> content k t = f (content k s) \<and>
      (\<forall>j. j \<noteq> k \<longrightarrow> content j t = content j s) \<and> (\<forall>j. data_blk j t = data_blk j s))"
  proof (rule returns_mono [OF upd_block_ok [OF t(1) d t(2,3)]])
    fix u
    assume u: "txn_ok {} u \<and> blk_updated k (f (content k s)) s u \<and> (\<forall>i\<in>{}. core (bufs u ! i) = core (bufs s ! i))"
    then show "log_ready s0 n u \<and> content k u = f (content k s) \<and> (\<forall>j. j \<noteq> k \<longrightarrow> content j u = content j s) \<and>
        (\<forall>j. data_blk j u = data_blk j s)"
      using r blk_updated_room [of k "f (content k s)" s u] by (auto simp: log_ready_def blk_updated_def intro: same_log_trans)
  qed simp
qed

text \<open>The log writes its own blocks directly.\<close>

definition write_through :: "u32 \<Rightarrow> (u8 list \<Rightarrow> u8 list) \<Rightarrow> 'a bio_state_scheme \<Rightarrow> 'a bio_state_scheme outcome" where
  "write_through k f s = bindO (bread 1 k s) (\<lambda>(b, s).
     bindO (bwrite b (upd_buf b (\<lambda>x. x\<lparr>b_data := f (b_data x)\<rparr>) s)) (\<lambda>s. brelse b s))"

interpretation direct_blocks: block_store content write_through
  "\<lambda>_ s. cache_ok {} s \<and> (\<exists>i<NBUF. \<not> b_dirty (bufs s ! i))" "\<lambda>k s. unat k < length (memdisk s)"
proof
  fix n :: nat and k :: u32 and f and s :: "'a bio_state_scheme"
  assume s: "cache_ok {} s \<and> (\<exists>i<NBUF. \<not> b_dirty (bufs s ! i))" and k: "unat k < length (memdisk s)"
  obtain b s1 where b: "bread 1 k s = Ret (b, s1)" "b_data (bufs s1 ! b) = content k s"
    "\<And>d. returns (bindO (bwrite b (upd_buf b (\<lambda>x. x\<lparr>b_data := d\<rparr>) s1)) (\<lambda>s2. brelse b s2)) (\<lambda>t.
       cache_ok {} t \<and> bio_state.more t = bio_state.more s \<and> memdisk t = (memdisk s)[unat k := d] \<and>
       (\<forall>j. content j t = (if j = k then d else content j s)) \<and> (\<forall>j. pinned j t \<longleftrightarrow> pinned j s \<and> j \<noteq> k) \<and>
       (\<exists>i<NBUF. \<not> b_dirty (bufs t ! i)) \<and> (\<forall>i<NBUF. b_dirty (bufs t ! i) \<longrightarrow> b_dirty (bufs s ! i)) \<and> disk_trace t = disk_trace s @ [memdisk t])"
    by (rule block_update [OF _ k]) (use s in blast)+
  have e: "upd_buf b (\<lambda>x. x\<lparr>b_data := f (b_data x)\<rparr>) s1 = upd_buf b (\<lambda>x. x\<lparr>b_data := f (content k s)\<rparr>) s1"
    by (simp add: upd_buf_def b(2))
  show "returns (write_through k f s) (\<lambda>t. (cache_ok {} t \<and> (\<exists>i<NBUF. \<not> b_dirty (bufs t ! i))) \<and>
      content k t = f (content k s) \<and> (\<forall>j. j \<noteq> k \<longrightarrow> content j t = content j s) \<and>
      (\<forall>j. (unat j < length (memdisk t)) = (unat j < length (memdisk s))))"
    using b(3) [of "f (content k s)"] unfolding write_through_def b(1) by (auto simp: e elim!: returns_mono)
qed

section \<open>Beginning and ending an operation\<close>

lemma log_field_upd [simp]:
  "cpu_ok (s\<lparr>log_outstanding := n\<rparr>) = cpu_ok s" "lock_free l (s\<lparr>log_outstanding := n\<rparr>) = lock_free l s"
  "cpu_ok (s\<lparr>log_committing := c\<rparr>) = cpu_ok s" "lock_free l (s\<lparr>log_committing := c\<rparr>) = lock_free l s"
  "(acquired l s)\<lparr>log_outstanding := n\<rparr> = acquired l (s\<lparr>log_outstanding := n\<rparr>)"
  "(acquired l s)\<lparr>log_committing := c\<rparr> = acquired l (s\<lparr>log_committing := c\<rparr>)"
  "log_outstanding (acquired l s) = log_outstanding s" "log_committing (acquired l s) = log_committing s"
  "log_busy (acquired l s) = log_busy s"
proof -
  show "cpu_ok (s\<lparr>log_outstanding := n\<rparr>) = cpu_ok s" "cpu_ok (s\<lparr>log_committing := c\<rparr>) = cpu_ok s" by (rule cpu_ok_cong; simp)+
qed (simp_all add: lock_free_def acquired_def pushed_def me_def log_busy_def)

lemma begin_op_eq:
  assumes "kthread s" and "\<not> log_busy s"
  shows "begin_op ws s = Ret (s\<lparr>log_outstanding := log_outstanding s + 1\<rparr>)"
proof -
  have k: "cpu_ok s" "lock_free LogLock s" using assms(1) by (simp_all add: kthread_def)
  have "begin_op_wait ws (acquired LogLock s) = Ret (acquired LogLock s)" using assms(2) by (cases ws) simp_all
  then show ?thesis using k by (simp add: begin_op_def acquire_free release_acquired_self)
qed

text \<open>The state in which the last \<^verbatim>\<open>end_op\<close> calls \<^verbatim>\<open>commit\<close>, and the one in which it returns.\<close>

lemma end_op_eq:
  assumes "kthread s" and "log_outstanding s = 1" and "\<not> log_committing s"
  shows "end_op s = bindO (commit (s\<lparr>log_outstanding := 0, log_committing := True\<rparr>)) (\<lambda>s.
    bindO (locked LogLock (\<lambda>s.
           bindO (wakeup ChanLog (s\<lparr>log_committing := False\<rparr>)) (\<lambda>s. Ret ((), s))) s) (\<lambda>(_, s). Ret s))"
proof -
  let ?t = "s\<lparr>log_outstanding := 0, log_committing := True\<rparr>"
  have k: "cpu_ok s" "lock_free LogLock s" using assms(1) by (simp_all add: kthread_def)
  have "locked LogLock (\<lambda>s.
         let s = s\<lparr>log_outstanding := log_outstanding s - 1\<rparr> in
         if log_committing s then Panic ''log.committing''
         else if log_outstanding s = 0 then Ret (True, s\<lparr>log_committing := True\<rparr>)
         else bindO (wakeup ChanLog s) (\<lambda>s. Ret (False, s))) s = Ret (True, ?t)"
    by (rule locked_update) (use k assms(2,3) in \<open>simp_all add: Let_def\<close>)
  then show ?thesis by (simp add: end_op_def)
qed

lemma end_commit_eq:
  assumes "kthread s"
  shows "bindO (locked LogLock (\<lambda>s.
           bindO (wakeup ChanLog (s\<lparr>log_committing := False\<rparr>)) (\<lambda>s. Ret ((), s))) s) (\<lambda>(_, s). Ret s)
         = Ret (wakeup1 ChanLog (s\<lparr>log_committing := False\<rparr>))"
proof -
  have k: "cpu_ok s" "lock_free LogLock s" "lock_free PtableLock s" using assms(1) by (simp_all add: kthread_def)
  have "locked LogLock (\<lambda>s. bindO (wakeup ChanLog (s\<lparr>log_committing := False\<rparr>)) (\<lambda>s. Ret ((), s))) s
      = Ret ((), wakeup1 ChanLog (s\<lparr>log_committing := False\<rparr>))"
  proof (rule locked_update)
    have "lock_free PtableLock (acquired LogLock (s\<lparr>log_committing := False\<rparr>))"
      using k(3) by (simp add: lock_free_def acquired_def pushed_def)
    then show "bindO (wakeup ChanLog ((acquired LogLock s)\<lparr>log_committing := False\<rparr>)) (\<lambda>s. Ret ((), s))
        = Ret ((), acquired LogLock (wakeup1 ChanLog (s\<lparr>log_committing := False\<rparr>)))"
      using k(1) by (simp add: wakeup_eq acquired_ok wakeup1_acquired)
  qed (use k in simp_all)
  then show ?thesis by simp
qed

text \<open>An operation that is not the last one leaves the disk and the log alone.\<close>

lemma end_op_not_last:
  assumes "kthread s" and "1 < log_outstanding s" and "\<not> log_committing s"
  shows "end_op s = Ret (wakeup1 ChanLog (s\<lparr>log_outstanding := log_outstanding s - 1\<rparr>))"
proof -
  let ?t = "s\<lparr>log_outstanding := log_outstanding s - 1\<rparr>"
  have k: "cpu_ok s" "lock_free LogLock s" "lock_free PtableLock s" using assms(1) by (simp_all add: kthread_def)
  have "locked LogLock (\<lambda>s.
         let s = s\<lparr>log_outstanding := log_outstanding s - 1\<rparr> in
         if log_committing s then Panic ''log.committing''
         else if log_outstanding s = 0 then Ret (True, s\<lparr>log_committing := True\<rparr>)
         else bindO (wakeup ChanLog s) (\<lambda>s. Ret (False, s))) s = Ret (False, wakeup1 ChanLog ?t)"
  proof (rule locked_update)
    have "lock_free PtableLock (acquired LogLock ?t)" using k(3) by (simp add: lock_free_def acquired_def pushed_def)
    then show "(let s = (acquired LogLock s)\<lparr>log_outstanding := log_outstanding (acquired LogLock s) - 1\<rparr> in
         if log_committing s then Panic ''log.committing''
         else if log_outstanding s = 0 then Ret (True, s\<lparr>log_committing := True\<rparr>)
         else bindO (wakeup ChanLog s) (\<lambda>s. Ret (False, s))) = Ret (False, acquired LogLock (wakeup1 ChanLog ?t))"
      using k(1) assms(2,3) by (simp add: Let_def wakeup_eq acquired_ok wakeup1_acquired)
  qed (use k in simp_all)
  then show ?thesis by (simp add: end_op_def)
qed

lemma txn_ok_transfer:
  assumes "txn_ok H s" and "same_thread t s" and "bufs t = bufs s" and "memdisk t = memdisk s"
    and "\<And>i. sleeplocks t (BufLk i) = sleeplocks s (BufLk i)" and "log_start t = log_start s" and "log_dev t = log_dev s" and "lh_n t = lh_n s" and "lh_block t = lh_block s" and "log_size t = log_size s"
  shows "txn_ok H t" and "content j t = content j s" and "pinned j t = pinned j s"
proof -
  have "cache_ok H t" by (rule cache_ok_transfer [OF _ assms(2-5)]) (rule txn_okD(2) [OF assms(1)])
  moreover have "pinned j t = pinned j s" for j by (simp add: pinned_def assms(3))
  moreover have "home_blk t = home_blk s" by (simp add: home_blk_def fun_eq_iff assms(9))
  moreover have "log_layout t" using txn_okD(1) [OF assms(1)] by (simp add: log_layout_def assms(4-10))
  ultimately show "txn_ok H t" using txn_okD(4,6) [OF assms(1)] by (simp add: txn_ok_def assms(4-9))
  show "content j t = content j s" by (simp add: content_def assms(3,4) split: option.split)
  show "pinned j t = pinned j s" by (simp add: pinned_def assms(3))
qed

text \<open>A commit, also of an empty transaction, and the operation that performs it.\<close>

definition on_disk :: "'a log_state_scheme \<Rightarrow> 'a log_state_scheme \<Rightarrow> bool" where
  "on_disk s t \<longleftrightarrow> txn_ok {} t \<and> lh_n t = 0 \<and> log_start t = log_start s \<and> log_size t = log_size s \<and>
     log_outstanding t = log_outstanding s \<and> length (memdisk t) = length (memdisk s) \<and>
     (\<forall>j. data_blk j s \<longrightarrow> memdisk t ! unat j = content j s \<and> content j t = content j s)"

lemma not_pinned_empty:
  assumes "txn_ok {} s" and "lh_n s = 0"
  shows "content j s = memdisk s ! unat j"
  using txn_okD(4) [OF assms(1)] assms(2) by (intro content_clean [OF txn_okD(2) [OF assms(1)]]) simp_all

lemma commit_on_disk:
  assumes "txn_ok {} s" and "lh_n s < int NBUF"
  shows "returns (commit s) (on_disk s)"
proof (cases "lh_n s = 0")
  case True
  then show ?thesis using assms(1) not_pinned_empty [OF assms(1) True] by (simp add: commit_def on_disk_def)
next
  case False
  then have n: "0 < lh_n s" using txn_okD(1) [OF assms(1)] by (simp add: log_layout_def)
  have "nat (lh_n s) + card ({} :: nat set) < NBUF" using assms(2) by simp
  then have "\<exists>i<NBUF. \<not> b_dirty (bufs s ! i)" using free_buffer [OF assms(1)] by blast
  then have ready: "commit_ready s" using assms(1) n unfolding txn_ok_def commit_ready_def by simp
  show ?thesis
  proof (rule returns_mono [OF commit_done [OF ready]], elim conjE)
    fix t
    assume fin: "log_done s t" and sd: "same_data s (memdisk t) (contents s)"
    have ok: "txn_ok {} t" and n: "lh_n t = 0" using fin by (simp_all add: txn_ok_def log_done_def)
    have len: "length (memdisk t) = length (memdisk s)" using sd by (simp add: same_data_def contents_def)
    have "memdisk t ! unat j = content j s" if "data_blk j s" for j
      using same_data_nth [OF sd, of "unat j"] that by (simp add: contents_def data_blk_def)
    then show "on_disk s t" using fin ok len not_pinned_empty [OF ok n] by (simp add: on_disk_def log_done_def)
  qed
qed

lemma end_op_commits:
  assumes "txn_ok {} s" and "log_outstanding s = 1" and "\<not> log_committing s" and "lh_n s < int NBUF"
  shows "returns (end_op s) (\<lambda>t. on_disk (s\<lparr>log_outstanding := 0\<rparr>) t \<and> \<not> log_committing t)"
proof -
  let ?s = "s\<lparr>log_outstanding := 0, log_committing := True\<rparr>"
  have e: "txn_ok {} ?s" "\<And>j. content j ?s = content j s"
    by (rule txn_ok_transfer [OF assms(1)]; simp add: same_thread_def same_machine_def)+
  have c: "content j (s\<lparr>log_outstanding := 0\<rparr>) = content j s" for j
    by (rule txn_ok_transfer [OF assms(1)]) (simp_all add: same_thread_def same_machine_def)
  have fin: "returns (Ret (wakeup1 ChanLog (t\<lparr>log_committing := False\<rparr>))) (\<lambda>t. on_disk (s\<lparr>log_outstanding := 0\<rparr>) t \<and> \<not> log_committing t)"
    if t: "on_disk ?s t" for t
  proof -
    let ?t = "wakeup1 ChanLog (t\<lparr>log_committing := False\<rparr>)"
    have ok: "txn_ok {} t" using t by (simp add: on_disk_def)
    have "same_thread ?t t" by (rule same_thread_trans [OF wakeup1_thread]) (simp add: same_thread_def same_machine_def)
    then have "txn_ok {} ?t" "\<And>j. content j ?t = content j t" by (rule txn_ok_transfer [OF ok]; simp add: wakeup1_def)+
    moreover have "lh_n ?t = lh_n t" "log_outstanding ?t = log_outstanding t" "\<not> log_committing ?t" "log_start ?t = log_start t"
      "log_size ?t = log_size t" "memdisk ?t = memdisk t" by (simp_all add: wakeup1_def)
    ultimately show ?thesis using t unfolding returns_Ret on_disk_def e(2) c by (simp add: data_blk_def)
  qed
  have "returns (commit ?s) (on_disk ?s)" using assms(4) by (intro commit_on_disk [OF e(1)]) simp
  then have "returns (commit ?s) (\<lambda>t. kthread t \<and>
      returns (Ret (wakeup1 ChanLog (t\<lparr>log_committing := False\<rparr>))) (\<lambda>t. on_disk (s\<lparr>log_outstanding := 0\<rparr>) t \<and> \<not> log_committing t))"
    by (rule returns_mono) (use fin txn_okD(5) in \<open>auto simp only: on_disk_def\<close>)
  then show ?thesis
    unfolding end_op_eq [OF txn_okD(5) [OF assms(1)] assms(2,3)]
    by (subst returns_bindO, elim returns_mono) (simp only: end_commit_eq simp_thms)
qed

text \<open>
  C4: Transactions. An operation that begins while the log is quiet, changes up to MAXOPBLOCKS blocks with the
  read, modify, \<^verbatim>\<open>log_write\<close>, release idiom, in any order and with repetitions, and ends, runs to completion; then
  every block of the disk outside the log holds the result of the updates made to it, in order, and the log is
  empty and quiet again.
\<close>

theorem transaction_durable:
  assumes "txn_ok {} s" and "lh_n s = 0" and "log_outstanding s = 0" and "\<not> log_committing s"
    and "int MAXOPBLOCKS < log_size s" and "length us \<le> MAXOPBLOCKS" and "\<And>u. u \<in> set us \<Longrightarrow> data_blk (fst u) s"
  shows "returns (bindO (begin_op ws s) (\<lambda>s. bindO (updates upd_block us s) end_op)) (\<lambda>t.
    txn_ok {} t \<and> lh_n t = 0 \<and> log_outstanding t = 0 \<and> \<not> log_committing t \<and>
    (\<forall>j. data_blk j s \<longrightarrow> memdisk t ! unat j = after_updates us j (memdisk s ! unat j) \<and>
       content j t = memdisk t ! unat j))"
proof -
  let ?s = "s\<lparr>log_outstanding := 1\<rparr>"
  have e: "txn_ok {} ?s" "\<And>j. content j ?s = content j s"
    by (rule txn_ok_transfer [OF assms(1)]; simp add: same_thread_def same_machine_def)+
  have op: "begin_op ws s = Ret ?s" using begin_op_eq [OF txn_okD(5) [OF assms(1)]] assms(2-4) by (simp add: log_busy_def)
  have db: "data_blk j ?s = data_blk j s" for j by (simp add: data_blk_def)
  have rdy: "log_ready ?s (length us + 0) ?s" using e(1) assms(2,5,6) by (simp add: log_ready_def)
  have "returns (updates upd_block us ?s) (\<lambda>t. log_ready ?s 0 t \<and> (\<forall>j. content j t = after_updates us j (content j ?s)) \<and>
      (\<forall>j. data_blk j t = data_blk j ?s))"
    by (rule logged_blocks.updates_ok [OF rdy]) (use assms(7) db in simp)
  then have "returns (updates upd_block us ?s) (\<lambda>t. returns (end_op t) (\<lambda>t. txn_ok {} t \<and> lh_n t = 0 \<and>
      log_outstanding t = 0 \<and> \<not> log_committing t \<and>
      (\<forall>j. data_blk j s \<longrightarrow> memdisk t ! unat j = after_updates us j (memdisk s ! unat j) \<and> content j t = memdisk t ! unat j)))"
  proof (rule returns_mono, elim conjE)
    fix u
    assume u: "log_ready ?s 0 u" "\<forall>j. content j u = after_updates us j (content j ?s)" "\<forall>j. data_blk j u = data_blk j ?s"
    have uok: "txn_ok {} u" "log_outstanding u = 1" "\<not> log_committing u" "lh_n u < int NBUF"
      using u(1) assms(4) by (simp_all add: log_ready_def same_log_def)
    have d: "data_blk j (u\<lparr>log_outstanding := 0\<rparr>) = data_blk j s" "content j (u\<lparr>log_outstanding := 0\<rparr>) = after_updates us j (memdisk s ! unat j)" for j
      using u(2,3) db e(2) not_pinned_empty [OF assms(1,2)] txn_ok_transfer(2) [OF uok(1), of "u\<lparr>log_outstanding := 0\<rparr>"]
      by (simp_all add: data_blk_def same_thread_def same_machine_def)
    show "returns (end_op u) (\<lambda>t. txn_ok {} t \<and> lh_n t = 0 \<and> log_outstanding t = 0 \<and> \<not> log_committing t \<and>
      (\<forall>j. data_blk j s \<longrightarrow> memdisk t ! unat j = after_updates us j (memdisk s ! unat j) \<and> content j t = memdisk t ! unat j))"
      by (rule returns_mono [OF end_op_commits [OF uok]]) (auto simp: on_disk_def d)
  qed
  then show ?thesis by (simp add: op)
qed

text \<open>The cache at boot with an empty log.\<close>

definition quiet_log :: log_state where
  "quiet_log = bio_state.extend boot_cache \<lparr>log_start = 2, log_size = 30, log_outstanding = 0,
     log_committing = False, log_dev = 1, lh_n = 0, lh_block = replicate LOGSIZE 0\<rparr>"

lemma quiet_sel:
  "memdisk quiet_log = replicate FSSIZE (replicate BSIZE 0)" "log_start quiet_log = 2" "log_size quiet_log = 30"
  "log_outstanding quiet_log = 0" "\<not> log_committing quiet_log" "lh_n quiet_log = 0" "log_dev quiet_log = 1"
  using boot_cache_ok(2) by (simp_all add: quiet_log_def bio_state.defs)

lemma quiet_log_ok: "txn_ok {} quiet_log"
proof -
  have "cache_ok {} quiet_log"
    by (rule cache_ok_transfer [OF boot_cache_ok(1)]) (simp_all add: quiet_log_def bio_state.defs same_thread_def same_machine_def)
  moreover have "\<not> pinned j quiet_log" for j
    using boot_cache_ok(3) by (intro not_pinned_clean) (simp add: quiet_log_def bio_state.defs)
  moreover have "log_layout quiet_log" by (simp add: log_layout_def quiet_sel) (simp add: quiet_log_def bio_state.defs)
  moreover have "memdisk quiet_log ! 2 = replicate BSIZE 0" by (simp add: quiet_sel)
  ultimately show ?thesis by (simp add: txn_ok_def quiet_sel(2,6) get32_def)
qed

theorem transaction_durable_witness:
  "returns (bindO (begin_op [] quiet_log)
      (\<lambda>s. bindO (updates upd_block [(40, \<lambda>_. [1]), (41, \<lambda>d. 5 # d), (40, \<lambda>d. 2 # d)] s) end_op)) (\<lambda>t.
    memdisk t ! 40 = [2, 1] \<and> memdisk t ! 41 = 5 # replicate BSIZE 0 \<and> lh_n t = 0)"
proof -
  let ?us = "[(40 :: u32, \<lambda>_. [1]), (41, \<lambda>d. 5 # d), (40, \<lambda>d. 2 # d)] :: (u32 \<times> (u8 list \<Rightarrow> u8 list)) list"
  have blk: "data_blk 40 quiet_log" "data_blk 41 quiet_log" by (simp_all add: data_blk_def quiet_sel)
  have aft: "after_updates ?us 40 (memdisk quiet_log ! unat (40 :: u32)) = [2, 1]"
    "after_updates ?us 41 (memdisk quiet_log ! unat (41 :: u32)) = 5 # replicate BSIZE 0"
    by (simp_all add: after_updates_def quiet_sel)
  have "data_blk (fst u) quiet_log" if "u \<in> set ?us" for u using that blk by auto
  then have "returns (bindO (begin_op [] quiet_log) (\<lambda>s. bindO (updates upd_block ?us s) end_op)) (\<lambda>t.
    txn_ok {} t \<and> lh_n t = 0 \<and> log_outstanding t = 0 \<and> \<not> log_committing t \<and>
    (\<forall>j. data_blk j quiet_log \<longrightarrow> memdisk t ! unat j = after_updates ?us j (memdisk quiet_log ! unat j) \<and>
       content j t = memdisk t ! unat j))"
    by (intro transaction_durable [OF quiet_log_ok]) (simp_all add: quiet_sel)
  then show ?thesis
  proof (rule returns_mono, elim conjE)
    fix t
    assume t: "lh_n t = 0" "\<forall>j. data_blk j quiet_log \<longrightarrow>
      memdisk t ! unat j = after_updates ?us j (memdisk quiet_log ! unat j) \<and> content j t = memdisk t ! unat j"
    have "memdisk t ! unat (40 :: u32) = [2, 1]" "memdisk t ! unat (41 :: u32) = 5 # replicate BSIZE 0"
      using t(2) blk aft by metis+
    then show "memdisk t ! 40 = [2, 1] \<and> memdisk t ! 41 = 5 # replicate BSIZE 0 \<and> lh_n t = 0" using t(1) by simp
  qed
qed

end
