(* ===== verification/Fsblocks.thy ===== *)
theory Fsblocks
  imports Txn Fs
begin

text \<open>
  The block allocator of the file system: the bitmap on the disk as a set of blocks in use, and what
  \<^verbatim>\<open>balloc\<close>, \<^verbatim>\<open>bfree\<close> and \<^verbatim>\<open>bzero\<close> do to it and to the contents of the blocks.
\<close>

section \<open>Bits\<close>

lemma and_bit_mask: "(x AND bit_mask i \<noteq> 0) = bit x (i mod 8)"
proof
  assume "bit x (i mod 8)"
  then have "bit (x AND bit_mask i) (i mod 8)" by (simp add: bit_mask_def bit_simps)
  then show "x AND bit_mask i \<noteq> 0" by auto
next
  assume "x AND bit_mask i \<noteq> 0"
  then obtain n where "bit (x AND bit_mask i) n" using bit_eqI [of "x AND bit_mask i" 0] by auto
  then show "bit x (i mod 8)" by (auto simp: bit_mask_def bit_simps split: if_splits)
qed

lemma bit_set_mask: "bit (x OR bit_mask i) n \<longleftrightarrow> bit x n \<or> n = i mod 8"
  by (auto simp: bit_mask_def bit_simps)

lemma bit_clear_mask: "n < 8 \<Longrightarrow> bit (x AND NOT (bit_mask i)) n \<longleftrightarrow> bit x n \<and> n \<noteq> i mod 8"
  by (auto simp: bit_mask_def bit_simps)

text \<open>The bitmap of one block, a list of bytes.\<close>

definition map_bit :: "u8 list \<Rightarrow> nat \<Rightarrow> bool" where
  "map_bit d bi = bit (d ! (bi div 8)) (bi mod 8)"

lemma map_bit_set:
  assumes "bi div 8 < length d"
  shows "map_bit (d[bi div 8 := d ! (bi div 8) OR bit_mask bi]) ci \<longleftrightarrow> ci = bi \<or> map_bit d ci"
proof (cases "ci div 8 = bi div 8")
  case True
  then have "ci = bi \<longleftrightarrow> ci mod 8 = bi mod 8" by (metis div_mult_mod_eq)
  then show ?thesis using True assms by (auto simp: map_bit_def bit_set_mask)
qed (auto simp: map_bit_def)

lemma map_bit_clear:
  assumes "bi div 8 < length d"
  shows "map_bit (d[bi div 8 := d ! (bi div 8) AND NOT (bit_mask bi)]) ci \<longleftrightarrow> ci \<noteq> bi \<and> map_bit d ci"
proof (cases "ci div 8 = bi div 8")
  case True
  then have "ci = bi \<longleftrightarrow> ci mod 8 = bi mod 8" by (metis div_mult_mod_eq)
  then show ?thesis using True assms by (auto simp: map_bit_def bit_clear_mask)
qed (auto simp: map_bit_def)

section \<open>Blocks in use\<close>

definition in_use :: "'a fs_state_scheme \<Rightarrow> u32 \<Rightarrow> bool" where
  "in_use s b = map_bit (content (BBLOCK b (sb s)) s) (unat b mod BPB)"

text \<open>
  A disk on which blocks can be allocated: the bitmap blocks are data blocks of full length, and a block that is
  not in use is a data block that holds no part of the bitmap.
\<close>

definition bitmap_ok :: "'a fs_state_scheme \<Rightarrow> bool" where
  "bitmap_ok s \<longleftrightarrow> (\<forall>b. unat b < unat (sb_size (sb s)) \<longrightarrow>
      data_blk (BBLOCK b (sb s)) s \<and> length (content (BBLOCK b (sb s)) s) = BSIZE \<and> in_use s (BBLOCK b (sb s)) \<and>
      unat (BBLOCK b (sb s)) < unat (sb_size (sb s)) \<and> (\<not> in_use s b \<longrightarrow> data_blk b s))"

lemma BBLOCK_eq: "BBLOCK b x = BBLOCK c x \<longleftrightarrow> unat b div BPB = unat c div BPB"
proof -
  have "BBLOCK b x = BBLOCK c x \<longleftrightarrow> b div 4096 = c div 4096" by (simp add: BBLOCK_def)
  also have "\<dots> \<longleftrightarrow> unat (b div 4096) = unat (c div 4096)" by (simp add: word_unat_eq_iff)
  finally show ?thesis by (simp add: unat_div)
qed

lemma same_bit:
  assumes "BBLOCK b x = BBLOCK c x" and "unat b mod BPB = unat c mod BPB"
  shows "b = c"
proof -
  have "unat b div BPB = unat c div BPB" using assms(1) by (simp add: BBLOCK_eq)
  then have "unat b = unat c" using assms(2) by (metis div_mult_mod_eq)
  then show ?thesis by (simp add: word_unat_eq_iff)
qed

text \<open>The effect on the set of blocks in use of changing one bit.\<close>

lemma in_use_change:
  assumes "blk_updated (BBLOCK b (sb s)) d s t"
    and "\<And>ci. map_bit d ci \<longleftrightarrow> (if ci = unat b mod BPB then v else map_bit (content (BBLOCK b (sb s)) s) ci)"
  shows "in_use t c \<longleftrightarrow> (if c = b then v else in_use s c)"
proof -
  have sb: "sb t = sb s" using blk_updated_room(7) [OF assms(1)] by (cases s; cases t) simp
  have c: "content j t = (if j = BBLOCK b (sb s) then d else content j s)" for j using assms(1) by (simp add: blk_updated_def)
  show ?thesis
  proof (cases "BBLOCK c (sb s) = BBLOCK b (sb s)")
    case True
    then show ?thesis using same_bit [OF True] by (auto simp: in_use_def sb c assms(2))
  next
    case False
    then show ?thesis by (auto simp: in_use_def sb c)
  qed
qed

lemma fs_more: "log_state.more t = log_state.more s \<Longrightarrow> sb t = sb s" "log_state.more t = log_state.more s \<Longrightarrow> inodes t = inodes s"
  by (cases s; cases t; simp)+

text \<open>Room for \<open>n\<close> more log entries while the buffers \<open>H\<close> are held, one more of which may be needed for reading.\<close>

definition fs_ready :: "nat set \<Rightarrow> nat \<Rightarrow> 'a fs_state_scheme \<Rightarrow> bool" where
  "fs_ready H n s \<longleftrightarrow> txn_ok H s \<and> 1 \<le> log_outstanding s \<and> lh_n s + int n \<le> int LOGSIZE \<and> lh_n s + int n < log_size s \<and>
     lh_n s + int n + int (card H) \<le> int NBUF"

lemma fs_readyD:
  assumes "fs_ready H (Suc n) s"
  shows "txn_ok H s" "log_room s" "nat (lh_n s) + card H < NBUF"
proof -
  have "0 \<le> lh_n s" using assms by (simp add: fs_ready_def txn_ok_def log_layout_def)
  then show "txn_ok H s" "log_room s" "nat (lh_n s) + card H < NBUF" using assms by (auto simp: fs_ready_def log_room_def)
qed

lemma fs_ready_updated:
  assumes "fs_ready H (Suc n) s" and "txn_ok H t" and "blk_updated k d s t"
  shows "fs_ready H n t"
  using assms blk_updated_room [OF assms(3)] by (simp add: fs_ready_def)

lemma log_room_eq: "same_log t s \<Longrightarrow> lh_n t = lh_n s \<Longrightarrow> log_room t = log_room s"
  by (simp add: same_log_def log_room_def)

text \<open>Reading, changing and logging a block when the change depends on what is read.\<close>

lemma data_blk_len: "data_blk k s \<Longrightarrow> unat k < length (memdisk s)"
  by (simp add: data_blk_def)

lemma upd_data_eq: "b_data (bufs s ! b) = d \<Longrightarrow> upd_data b f s = upd_buf b (\<lambda>x. x\<lparr>b_data := f d\<rparr>) s"
  by (simp add: upd_data_def upd_buf_def)

lemma logged_release:
  assumes "txn_ok (insert b H) u" and "b \<notin> H" and "caches k (bufs u ! b)" and "b_valid (bufs u ! b)"
    and "b_data (bufs u ! b) = content k u" and "data_blk k u" and "log_room u"
  shows "returns (bindO (log_write b (upd_data b f u)) (brelse b)) (\<lambda>t. txn_ok H t \<and> blk_updated k (f (content k u)) u t \<and>
    (\<forall>i\<in>H. core (bufs t ! i) = core (bufs u ! i)))"
proof -
  obtain v where v: "log_write b (upd_buf b (\<lambda>x. x\<lparr>b_data := f (content k u)\<rparr>) u) = Ret v" "txn_ok (insert b H) v"
    "blk_updated k (f (content k u)) u v" "caches k (bufs v ! b)" "\<And>i. i \<noteq> b \<Longrightarrow> bufs v ! i = bufs u ! i"
    by (rule log_held_ok [OF assms(1) insertI1 assms(3,4,6,7)]) blast+
  have pv: "pinned k v" using v(3) by (simp add: blk_updated_def)
  obtain t where t: "brelse b v = Ret t" "txn_ok (insert b H - {b}) t" "\<And>j. content j t = content j v" "same_log t v" "lh_n t = lh_n v"
    "\<And>i. i \<noteq> b \<Longrightarrow> core (bufs t ! i) = core (bufs v ! i)" "\<And>j. pinned j t = pinned j v"
    by (rule txn_brelse [OF v(2) insertI1 v(4)]) (use pv in blast)+
  have "blk_updated k (f (content k u)) u t"
    using v(3) t(3,5,7) same_log_trans [OF t(4)] by (simp add: blk_updated_def)
  moreover have "\<forall>i\<in>H. core (bufs t ! i) = core (bufs u ! i)" using t(6) v(5) assms(2) by metis
  moreover have "insert b H - {b} = H" using assms(2) by blast
  ultimately show ?thesis using v(1) t(1,2) by (simp add: upd_data_eq [OF assms(5)])
qed

text \<open>Equality of everything that matters to a reader, as after a read and release.\<close>

definition read_only :: "nat set \<Rightarrow> 'a log_state_scheme \<Rightarrow> 'a log_state_scheme \<Rightarrow> bool" where
  "read_only H s t \<longleftrightarrow> txn_ok H t \<and> same_log t s \<and> lh_n t = lh_n s \<and> (\<forall>j. content j t = content j s) \<and>
     (\<forall>j. pinned j t = pinned j s) \<and> (\<forall>i\<in>H. core (bufs t ! i) = core (bufs s ! i))"

lemma updated_after_read:
  assumes "read_only H s u" and "blk_updated k d u t"
  shows "blk_updated k d s t"
  using assms by (auto simp: read_only_def blk_updated_def intro: same_log_trans)

lemma fs_bread:
  assumes "txn_ok H s" and "unat k < length (memdisk s)" and "nat (lh_n s) + card H < NBUF"
    and "\<And>i. i \<in> H \<Longrightarrow> \<not> caches k (bufs s ! i)"
  obtains b u where "bread 1 k s = Ret (b, u)" "b \<notin> H" "caches k (bufs u ! b)" "b_valid (bufs u ! b)"
    "b_data (bufs u ! b) = content k s" "txn_ok (insert b H) u" "same_log u s" "lh_n u = lh_n s" "\<And>j. content j u = content j s"
    "\<And>j. pinned j u = pinned j s" "\<And>i. i \<noteq> b \<Longrightarrow> bufs u ! i = bufs s ! i" "returns (brelse b u) (read_only H s)"
proof -
  obtain b u where r: "bread 1 k s = Ret (b, u)" "b \<notin> H" "caches k (bufs u ! b)" "b_valid (bufs u ! b)"
    "b_data (bufs u ! b) = content k s" "txn_ok (insert b H) u" "\<And>j. content j u = content j s" "same_log u s" "lh_n u = lh_n s"
    "\<And>i. i \<noteq> b \<Longrightarrow> bufs u ! i = bufs s ! i" "\<And>j. pinned j u = pinned j s"
    by (rule txn_bread [OF assms]) blast+
  have "pinned k u \<or> b_data (bufs u ! b) = memdisk u ! unat k"
  proof (cases "pinned k s")
    case False
    have "content k s = memdisk s ! unat k" by (rule content_clean [OF txn_okD(2) [OF assms(1)] False]) (use assms(4) in blast)
    then show ?thesis using r(5,8) by (simp add: same_log_def)
  qed (use r(11) in simp)
  then obtain t where t: "brelse b u = Ret t" "txn_ok (insert b H - {b}) t" "\<And>j. content j t = content j u" "same_log t u" "lh_n t = lh_n u"
    "\<And>i. i \<noteq> b \<Longrightarrow> core (bufs t ! i) = core (bufs u ! i)" "\<And>j. pinned j t = pinned j u"
    by (rule txn_brelse [OF r(6) insertI1 r(3)]) blast+
  have "insert b H - {b} = H" using r(2) by blast
  moreover have "\<forall>i\<in>H. core (bufs t ! i) = core (bufs s ! i)" using t(6) r(2,10) by metis
  ultimately have "returns (brelse b u) (read_only H s)"
    using t r(7,9,11) same_log_trans [OF t(4) r(8)] by (simp add: read_only_def)
  then show thesis using that [OF r(1-6,8,9,7,11,10)] by blast
qed

section \<open>Freeing a block\<close>

lemma bfree_ok:
  assumes "fs_ready H (Suc n) s" and "bitmap_ok s" and "unat b < unat (sb_size (sb s))" and "in_use s b"
    and "\<And>i. i \<in> H \<Longrightarrow> \<not> caches (BBLOCK b (sb s)) (bufs s ! i)"
  shows "returns (bfree 1 b s) (\<lambda>t. fs_ready H n t \<and> (\<forall>c. in_use t c \<longleftrightarrow> c \<noteq> b \<and> in_use s c) \<and>
    (\<forall>j. j \<noteq> BBLOCK b (sb s) \<longrightarrow> content j t = content j s) \<and> same_log t s \<and>
    length (content (BBLOCK b (sb s)) t) = BSIZE \<and> (\<forall>i\<in>H. core (bufs t ! i) = core (bufs s ! i)))"
proof -
  let ?k = "BBLOCK b (sb s)" and ?bi = "unat b mod BPB"
  note f = fs_readyD [OF assms(1)]
  have k: "data_blk ?k s" "length (content ?k s) = BSIZE" using assms(2,3) by (simp_all add: bitmap_ok_def)
  have bi: "?bi div 8 < length (content ?k s)" using k(2) by (simp add: less_mult_imp_div_less)
  obtain p u where r: "bread 1 ?k s = Ret (p, u)" "p \<notin> H" "caches ?k (bufs u ! p)" "b_valid (bufs u ! p)"
    "b_data (bufs u ! p) = content ?k s" "txn_ok (insert p H) u" "same_log u s" "lh_n u = lh_n s" "\<And>j. content j u = content j s"
    "\<And>j. pinned j u = pinned j s" "\<And>i. i \<noteq> p \<Longrightarrow> bufs u ! i = bufs s ! i"
    by (rule fs_bread [OF f(1) data_blk_len [OF k(1)] f(3) assms(5)]) blast+
  let ?f = "\<lambda>d. d[?bi div 8 := d ! (?bi div 8) AND NOT (bit_mask ?bi)]"
  have use: "content ?k s ! (?bi div 8) AND bit_mask ?bi \<noteq> 0"
    using assms(4) by (simp add: in_use_def map_bit_def and_bit_mask)
  have e: "bfree 1 b s = bindO (log_write p (upd_data p ?f u)) (brelse p)"
    using use by (simp add: bfree_def r(1,5) Let_def)
  have w: "returns (bindO (log_write p (upd_data p ?f u)) (brelse p)) (\<lambda>t. txn_ok H t \<and>
      blk_updated ?k (?f (content ?k u)) u t \<and> (\<forall>i\<in>H. core (bufs t ! i) = core (bufs u ! i)))"
    using same_log_blk [OF r(7)] k(1) r(5,9) log_room_eq [OF r(7,8)] f(2)
    by (intro logged_release [OF r(6,2,3,4)]) simp_all
  have "fs_ready H n t \<and> (\<forall>c. in_use t c \<longleftrightarrow> c \<noteq> b \<and> in_use s c) \<and>
    (\<forall>j. j \<noteq> ?k \<longrightarrow> content j t = content j s) \<and> same_log t s \<and> length (content ?k t) = BSIZE \<and>
    (\<forall>i\<in>H. core (bufs t ! i) = core (bufs s ! i))"
    if t: "txn_ok H t" "blk_updated ?k (?f (content ?k u)) u t" "\<forall>i\<in>H. core (bufs t ! i) = core (bufs u ! i)" for t
  proof -
    have up: "blk_updated ?k (?f (content ?k s)) s t"
      using t(2) r(8-10) same_log_trans [OF _ r(7)] by (simp add: blk_updated_def)
    have "in_use t c \<longleftrightarrow> (if c = b then False else in_use s c)" for c
      by (rule in_use_change [OF up]) (simp add: map_bit_clear [OF bi])
    moreover have "\<forall>i\<in>H. core (bufs t ! i) = core (bufs s ! i)" using t(3) r(2,11) by metis
    ultimately show ?thesis
      using fs_ready_updated [OF assms(1) t(1) up] up k(2) by (simp add: blk_updated_def)
  qed
  then show ?thesis unfolding e by (intro returns_mono [OF w]) blast
qed

lemma bfree_panics:
  assumes "fs_ready {} (Suc n) s" and "bitmap_ok s" and "unat b < unat (sb_size (sb s))" and "\<not> in_use s b"
  shows "bfree 1 b s = Panic ''freeing free block''"
proof -
  let ?k = "BBLOCK b (sb s)"
  note f = fs_readyD [OF assms(1)]
  have k: "data_blk ?k s" using assms(2,3) by (simp add: bitmap_ok_def)
  obtain p u where r: "bread 1 ?k s = Ret (p, u)" "b_data (bufs u ! p) = content ?k s"
    by (rule fs_bread [OF f(1) data_blk_len [OF k] f(3)]) blast+
  have "content ?k s ! ((unat b mod BPB) div 8) AND bit_mask (unat b mod BPB) = 0"
    using assms(4) by (simp add: in_use_def map_bit_def) (metis and_bit_mask)
  then show ?thesis by (simp add: bfree_def r Let_def)
qed

section \<open>Allocating a block\<close>

text \<open>What a successful \<^verbatim>\<open>balloc\<close> does: \<open>a\<close> was free, is now in use and zero, and nothing else has changed.\<close>

definition allocated :: "nat set \<Rightarrow> u32 \<Rightarrow> 'a fs_state_scheme \<Rightarrow> 'a fs_state_scheme \<Rightarrow> bool" where
  "allocated H a s t \<longleftrightarrow> \<not> in_use s a \<and> unat a < unat (sb_size (sb s)) \<and> (\<forall>c. unat c < unat (sb_size (sb s)) \<longrightarrow> in_use t c = (c = a \<or> in_use s c)) \<and>
     content a t = replicate BSIZE 0 \<and> (\<forall>j. j \<noteq> a \<and> j \<noteq> BBLOCK a (sb s) \<longrightarrow> content j t = content j s) \<and>
     same_log t s \<and> length (content (BBLOCK a (sb s)) t) = BSIZE \<and> (\<forall>i\<in>H. core (bufs t ! i) = core (bufs s ! i))"

lemma bzero_ok:
  assumes "fs_ready H (Suc n) s" and "data_blk a s" and "\<And>i. i \<in> H \<Longrightarrow> \<not> caches a (bufs s ! i)"
  shows "returns (bzero 1 a s) (\<lambda>t. fs_ready H n t \<and> blk_updated a (replicate BSIZE 0) s t \<and>
    (\<forall>i\<in>H. core (bufs t ! i) = core (bufs s ! i)))"
proof -
  note f = fs_readyD [OF assms(1)]
  have "bzero 1 a s = upd_block a (\<lambda>_. replicate BSIZE 0) s" by (simp add: bzero_def upd_block_def upd_data_def)
  then show ?thesis
    using upd_block_ok [OF f(1) assms(2) f(2,3) assms(3), where f = "\<lambda>_. replicate BSIZE 0"] fs_ready_updated [OF assms(1)]
    by (auto elim!: returns_mono)
qed

lemma take_block:
  assumes "fs_ready H (Suc (Suc n)) s" and "bitmap_ok s" and "unat a < unat (sb_size (sb s))" and "\<not> in_use s a"
    and "\<And>i j. i \<in> H \<Longrightarrow> \<not> caches (BBLOCK a (sb s)) (bufs s ! i) \<and> \<not> caches a (bufs s ! i)"
    and "bread 1 (BBLOCK a (sb s)) s = Ret (p, u)"
  shows "returns (bindO (log_write p (upd_data p (\<lambda>d. d[unat a mod BPB div 8 := d ! (unat a mod BPB div 8) OR bit_mask (unat a mod BPB)]) u))
      (\<lambda>s. bindO (brelse p s) (bzero 1 a))) (\<lambda>t. fs_ready H n t \<and> allocated H a s t)"
proof -
  let ?k = "BBLOCK a (sb s)" and ?bi = "unat a mod BPB"
  let ?f = "\<lambda>d. d[?bi div 8 := d ! (?bi div 8) OR bit_mask ?bi]"
  note f = fs_readyD [OF assms(1)]
  have k: "data_blk ?k s" "length (content ?k s) = BSIZE" "in_use s ?k" "data_blk a s" using assms(2-4) by (simp_all add: bitmap_ok_def)
  have ka: "?k \<noteq> a" using k(3) assms(4) by metis
  have bi: "?bi div 8 < length (content ?k s)" using k(2) by (simp add: less_mult_imp_div_less)
  obtain r: "p \<notin> H" "caches ?k (bufs u ! p)" "b_valid (bufs u ! p)" "b_data (bufs u ! p) = content ?k s"
    "txn_ok (insert p H) u" "same_log u s" "lh_n u = lh_n s" "\<And>j. content j u = content j s"
    "\<And>j. pinned j u = pinned j s" "\<And>i. i \<noteq> p \<Longrightarrow> bufs u ! i = bufs s ! i"
    by (rule fs_bread [OF f(1) data_blk_len [OF k(1)] f(3)]) (use assms(5,6) in auto)
  have w: "returns (bindO (log_write p (upd_data p ?f u)) (brelse p)) (\<lambda>t. txn_ok H t \<and>
      blk_updated ?k (?f (content ?k u)) u t \<and> (\<forall>i\<in>H. core (bufs t ! i) = core (bufs u ! i)))"
    using same_log_blk [OF r(6)] k(1) r(4,8) log_room_eq [OF r(6,7)] f(2)
    by (intro logged_release [OF r(5,1,2,3)]) simp_all
  have "returns (bzero 1 a t) (\<lambda>v. fs_ready H n v \<and> allocated H a s v)"
    if t: "txn_ok H t" "blk_updated ?k (?f (content ?k u)) u t" "\<forall>i\<in>H. core (bufs t ! i) = core (bufs u ! i)" for t
  proof -
    have up: "blk_updated ?k (?f (content ?k s)) s t"
      using t(2) r(7-9) same_log_trans [OF _ r(6)] by (simp add: blk_updated_def)
    have core: "\<forall>i\<in>H. core (bufs t ! i) = core (bufs s ! i)" using t(3) r(1,10) by metis
    have use: "in_use t c \<longleftrightarrow> (if c = a then True else in_use s c)" for c
      by (rule in_use_change [OF up]) (simp add: map_bit_set [OF bi])
    have z: "returns (bzero 1 a t) (\<lambda>v. fs_ready H n v \<and> blk_updated a (replicate BSIZE 0) t v \<and>
        (\<forall>i\<in>H. core (bufs v ! i) = core (bufs t ! i)))"
    proof (rule bzero_ok)
      show "fs_ready H (Suc n) t" by (rule fs_ready_updated [OF assms(1) t(1) up])
      show "data_blk a t" using k(4) blk_updated_room(3) [OF up] by simp
      show "\<not> caches a (bufs t ! i)" if "i \<in> H" for i using assms(5) [OF that] core that core_eq(7) by metis
    qed
    show ?thesis
    proof (rule returns_mono [OF z], elim conjE)
      fix v
      assume v: "fs_ready H n v" "blk_updated a (replicate BSIZE 0) t v" "\<forall>i\<in>H. core (bufs v ! i) = core (bufs t ! i)"
      have c: "content j v = (if j = a then replicate BSIZE 0 else if j = ?k then ?f (content ?k s) else content j s)" for j
        using v(2) up by (simp add: blk_updated_def)
      have na: "BBLOCK c (sb s) \<noteq> a" if "unat c < unat (sb_size (sb s))" for c using assms(2,4) that by (auto simp: bitmap_ok_def)
      have sb: "sb v = sb t" "sb t = sb s"
        using fs_more(1) [OF blk_updated_room(7) [OF v(2)]] fs_more(1) [OF blk_updated_room(7) [OF up]] by simp_all
      have "in_use v c = (c = a \<or> in_use s c)" if "unat c < unat (sb_size (sb s))" for c
        using use [of c] na [OF that] v(2) by (auto simp: in_use_def sb blk_updated_def)
      moreover have "same_log v s" using v(2) up by (auto simp: blk_updated_def intro: same_log_trans)
      moreover have "\<forall>i\<in>H. core (bufs v ! i) = core (bufs s ! i)" using v(3) core by simp
      ultimately show "fs_ready H n v \<and> allocated H a s v"
        using v(1) assms(3,4) c ka k(2) by (simp add: allocated_def)
    qed
  qed
  then have "returns (bindO (log_write p (upd_data p ?f u)) (brelse p)) (\<lambda>t. returns (bzero 1 a t) (\<lambda>v. fs_ready H n v \<and> allocated H a s v))"
    by (intro returns_mono [OF w]) blast
  then show ?thesis by simp
qed

lemma find_index_upt:
  "find_index P [0..<m] = Some i \<Longrightarrow> i < m \<and> P i \<and> (\<forall>j<i. \<not> P j)"
  "find_index P [0..<m] = None \<Longrightarrow> j < m \<Longrightarrow> \<not> P j"
  using find_index_Some [of P "[0..<m]" i] by (auto simp: find_index_None)

text \<open>The bitmap block of a multiple of \<^verbatim>\<open>BPB\<close> and the blocks it describes.\<close>

lemma bitmap_range:
  assumes "b mod BPB = 0" and "bi < BPB" and "b + bi < unat (z :: u32)"
  shows "unat (of_nat (b + bi) :: u32) = b + bi" "BBLOCK (of_nat (b + bi)) x = BBLOCK (of_nat b) x" "(b + bi) mod BPB = bi"
proof -
  have lt: "b + bi < 4294967296" using assms(3) unsigned_less [of z, where ?'a = nat] by simp
  then show u: "unat (of_nat (b + bi) :: u32) = b + bi" by (simp add: unat_of_nat del: of_nat_add)
  have "unat (of_nat b :: u32) = b" using lt by (simp add: unat_of_nat)
  then show "BBLOCK (of_nat (b + bi)) x = BBLOCK (of_nat b) x"
    unfolding BBLOCK_eq u using assms(1,2) by (auto elim!: dvdE simp: mod_eq_0_iff_dvd)
  show "(b + bi) mod BPB = bi" using assms(1,2) by (auto elim!: dvdE simp: mod_eq_0_iff_dvd)
qed

text \<open>The buffers held during an allocation are neither bitmap blocks nor free blocks.\<close>

definition held_apart :: "nat set \<Rightarrow> 'a fs_state_scheme \<Rightarrow> bool" where
  "held_apart H s \<longleftrightarrow> (\<forall>i\<in>H. \<forall>c. unat c < unat (sb_size (sb s)) \<longrightarrow>
     \<not> caches (BBLOCK c (sb s)) (bufs s ! i) \<and> (\<not> in_use s c \<longrightarrow> \<not> caches c (bufs s ! i)))"

lemma read_only_fs:
  assumes "read_only H s u"
  shows "sb u = sb s" "inodes u = inodes s" "in_use u = in_use s"
    "fs_ready H n s \<Longrightarrow> fs_ready H n u" "bitmap_ok u = bitmap_ok s" "held_apart H u = held_apart H s"
    "allocated H a u t \<Longrightarrow> allocated H a s t"
proof -
  have m: "log_state.more u = log_state.more s" and c: "content j u = content j s" and l: "same_log u s" for j
    using assms by (simp_all add: read_only_def same_log_def)
  show sb: "sb u = sb s" and "inodes u = inodes s" using fs_more [OF m] .
  show use: "in_use u = in_use s" by (simp add: in_use_def fun_eq_iff sb c)
  show "fs_ready H n s \<Longrightarrow> fs_ready H n u" using assms by (simp add: fs_ready_def read_only_def same_log_def)
  show "bitmap_ok u = bitmap_ok s" by (simp add: bitmap_ok_def sb use c same_log_blk [OF l])
  have "caches k (bufs u ! i) = caches k (bufs s ! i)" if "i \<in> H" for i k
    using assms that core_eq(7) unfolding read_only_def by blast
  then show "held_apart H u = held_apart H s" by (simp add: held_apart_def sb use)
  show "allocated H a u t \<Longrightarrow> allocated H a s t"
    using assms l by (auto simp: allocated_def sb use c read_only_def intro: same_log_trans)
qed

lemma balloc_loop_ok:
  assumes "fs_ready H (Suc (Suc n)) s" and "bitmap_ok s" and "held_apart H s" and "b mod BPB = 0"
    and "\<And>c. unat c < b \<Longrightarrow> in_use s c" and "\<exists>c. unat c < unat (sb_size (sb s)) \<and> \<not> in_use s c"
    and "unat (sb_size (sb s)) \<le> b + BPB * fuel"
  shows "returns (balloc_loop fuel 1 b s) (\<lambda>(a, t). fs_ready H n t \<and> allocated H a s t \<and> (\<forall>c. unat c < unat a \<longrightarrow> in_use s c))"
  using assms
proof (induction fuel arbitrary: b s)
  case 0
  then show ?case by auto
next
  case (Suc fuel)
  note f = fs_readyD [OF Suc.prems(1)]
  have b: "b < unat (sb_size (sb s))" using Suc.prems(5,6) by (meson le_less_linear less_le_trans)
  let ?k = "BBLOCK (of_nat b) (sb s)" and ?m = "min BPB (unat (sb_size (sb s)) - b)"
  have ub: "unat (of_nat b :: u32) = b" using bitmap_range(1) [OF Suc.prems(4), of 0 "sb_size (sb s)"] b by simp
  have k: "data_blk ?k s" using Suc.prems(2) b ub by (simp add: bitmap_ok_def)
  have ka: "\<not> caches ?k (bufs s ! i)" if "i \<in> H" for i using Suc.prems(3) that b ub by (simp add: held_apart_def)
  obtain p u where r: "bread 1 ?k s = Ret (p, u)" "b_data (bufs u ! p) = content ?k s" "same_log u s" "returns (brelse p u) (read_only H s)"
    by (rule fs_bread [OF f(1) data_blk_len [OF k] f(3) ka]) blast+
  have sbu: "sb u = sb s" using r(3) fs_more(1) [of u s] by (simp add: same_log_def)
  let ?P = "\<lambda>bi. content ?k s ! (bi div 8) AND bit_mask bi = 0"
  have P: "?P bi \<longleftrightarrow> \<not> in_use s (of_nat (b + bi))" if "bi < ?m" for bi
    using bitmap_range [OF Suc.prems(4), of bi "sb_size (sb s)"] that and_bit_mask [of "content ?k s ! (bi div 8)" bi]
    by (auto simp: in_use_def map_bit_def simp del: of_nat_add)
  have free: "in_use s c" if "unat c < b + i" "\<And>j. j < i \<Longrightarrow> \<not> ?P j" "i \<le> ?m" for c i
  proof (cases "unat c < b")
    case False
    then have "unat c - b < i" "of_nat (b + (unat c - b)) = c" using that(1) by simp_all
    then show ?thesis using P [of "unat c - b"] that(2) [of "unat c - b"] that(3) by (simp del: of_nat_add)
  qed (use Suc.prems(5) in blast)
  show ?case
  proof (cases "find_index ?P [0..<?m]")
    case None
    have used: "in_use s c" if "unat c < b + ?m" for c using free [OF that] find_index_upt(2) [OF None] by blast
    have "returns (balloc_loop fuel 1 (b + BPB) t) (\<lambda>(a, v). fs_ready H n v \<and> allocated H a s v \<and> (\<forall>c. unat c < unat a \<longrightarrow> in_use s c))"
      if t: "read_only H s t" for t
    proof -
      note ro = read_only_fs [OF t]
      obtain c where c: "unat c < unat (sb_size (sb s))" "\<not> in_use s c" using Suc.prems(6) by blast
      then have "\<not> unat c < b + ?m" using used by blast
      then have m: "?m = BPB" using c(1) by linarith
      have "returns (balloc_loop fuel 1 (b + BPB) t) (\<lambda>(a, v). fs_ready H n v \<and> allocated H a t v \<and> (\<forall>c. unat c < unat a \<longrightarrow> in_use t c))"
        by (rule Suc.IH) (use Suc.prems ro(4) used m in \<open>simp_all add: ro(1,3,5,6)\<close>)
      then show ?thesis by (rule returns_mono) (auto simp: ro(3) intro: ro(7))
    qed
    then have "returns (brelse p u) (\<lambda>t. returns (balloc_loop fuel 1 (b + BPB) t)
        (\<lambda>(a, v). fs_ready H n v \<and> allocated H a s v \<and> (\<forall>c. unat c < unat a \<longrightarrow> in_use s c)))"
      by (intro returns_mono [OF r(4)]) blast
    then show ?thesis using None b by (simp add: r(1,2) sbu)
  next
    case (Some bi)
    let ?a = "of_nat (b + bi) :: u32"
    have bi: "bi < ?m" "?P bi" "\<And>j. j < bi \<Longrightarrow> \<not> ?P j" using find_index_upt(1) [OF Some] by auto
    have lt: "bi < BPB" "b + bi < unat (sb_size (sb s))" using bi(1) by auto
    note br = bitmap_range [OF Suc.prems(4) lt]
    have rg: "unat ?a = b + bi" "BBLOCK ?a (sb s) = ?k" "unat ?a mod BPB = bi" unfolding br by simp_all
    have a: "unat ?a < unat (sb_size (sb s))" "\<not> in_use s ?a" using lt(2) P [OF bi(1)] bi(2) unfolding rg(1) by simp_all
    have low: "\<forall>c. unat c < unat ?a \<longrightarrow> in_use s c" using free [of _ bi] bi(1,3) rg(1) by simp
    have "returns (bindO (log_write p (upd_data p (\<lambda>d. d[bi div 8 := d ! (bi div 8) OR bit_mask bi]) u))
        (\<lambda>s. bindO (brelse p s) (bzero 1 ?a))) (\<lambda>t. fs_ready H n t \<and> allocated H ?a s t)"
      using take_block [OF Suc.prems(1,2) a _ r(1) [folded rg(2)], unfolded rg(3)] Suc.prems(3) a by (simp add: held_apart_def del: of_nat_add)
    then have "returns (bindO (log_write p (upd_data p (\<lambda>d. d[bi div 8 := d ! (bi div 8) OR bit_mask bi]) u))
        (\<lambda>s. bindO (brelse p s) (bzero 1 ?a))) (\<lambda>t. fs_ready H n t \<and> allocated H ?a s t \<and> (\<forall>c. unat c < unat ?a \<longrightarrow> in_use s c))"
      using low by (auto elim!: returns_mono)
    then show ?thesis using Some b by (simp add: r(1,2) sbu del: of_nat_add)
  qed
qed

lemma allocated_bitmap:
  assumes "bitmap_ok s" and "allocated H a s t"
  shows "bitmap_ok t" "sb t = sb s" "inodes t = inodes s"
proof -
  have m: "log_state.more t = log_state.more s" and l: "same_log t s" using assms(2) by (simp_all add: allocated_def same_log_def)
  show sb: "sb t = sb s" and "inodes t = inodes s" using fs_more [OF m] .
  have use: "in_use t c = (c = a \<or> in_use s c)" if "unat c < unat (sb_size (sb s))" for c using assms(2) that by (simp add: allocated_def)
  have nf: "\<not> in_use s a" "content j t = content j s" if "j \<noteq> a" "j \<noteq> BBLOCK a (sb s)" for j using assms(2) that by (simp_all add: allocated_def)
  show "bitmap_ok t"
    unfolding bitmap_ok_def sb same_log_blk [OF l]
  proof (intro allI impI)
    fix b :: u32
    assume b: "unat b < unat (sb_size (sb s))"
    let ?k = "BBLOCK b (sb s)"
    have s: "data_blk ?k s" "length (content ?k s) = BSIZE" "in_use s ?k" "unat ?k < unat (sb_size (sb s))" "\<not> in_use s b \<longrightarrow> data_blk b s"
      using assms(1) b unfolding bitmap_ok_def by blast+
    have "length (content ?k t) = BSIZE"
      using assms(2) s(2,3) nf(2) [of ?k] by (cases "?k = BBLOCK a (sb s)") (auto simp: allocated_def)
    then show "data_blk ?k s \<and> length (content ?k t) = BSIZE \<and> in_use t ?k \<and> unat ?k < unat (sb_size (sb s)) \<and> (\<not> in_use t b \<longrightarrow> data_blk b s)"
      using s use [OF b] use [OF s(4)] by blast
  qed
qed

lemma balloc_loop_panics:
  assumes "fs_ready {} (Suc n) s" and "bitmap_ok s" and "b mod BPB = 0" and "\<And>c. unat c < unat (sb_size (sb s)) \<Longrightarrow> in_use s c"
  shows "balloc_loop fuel 1 b s = Panic ''balloc: out of blocks''"
  using assms
proof (induction fuel arbitrary: b s)
  case (Suc fuel)
  note f = fs_readyD [OF Suc.prems(1)]
  let ?k = "BBLOCK (of_nat b) (sb s)" and ?m = "min BPB (unat (sb_size (sb s)) - b)"
  show ?case
  proof (cases "b < unat (sb_size (sb s))")
    case True
    have ub: "unat (of_nat b :: u32) = b" using bitmap_range(1) [OF Suc.prems(3), of 0 "sb_size (sb s)"] True by simp
    have k: "data_blk ?k s" using Suc.prems(2) True ub by (simp add: bitmap_ok_def)
    obtain p u where r: "bread 1 ?k s = Ret (p, u)" "b_data (bufs u ! p) = content ?k s" "same_log u s" "returns (brelse p u) (read_only {} s)"
      by (rule fs_bread [OF f(1) data_blk_len [OF k] f(3)]) blast+
    have sbu: "sb u = sb s" using r(3) fs_more(1) [of u s] by (simp add: same_log_def)
    have "\<not> content ?k s ! (bi div 8) AND bit_mask bi = 0" if "bi < ?m" for bi
    proof -
      have lt: "bi < BPB" "b + bi < unat (sb_size (sb s))" using that by auto
      note br = bitmap_range [OF Suc.prems(3) lt]
      have "in_use s (of_nat (b + bi))" using Suc.prems(4) lt(2) by (simp add: br(1) del: of_nat_add)
      then show ?thesis using and_bit_mask [of "content ?k s ! (bi div 8)" bi] by (simp add: in_use_def map_bit_def br del: of_nat_add)
    qed
    then have none: "find_index (\<lambda>bi. content ?k s ! (bi div 8) AND bit_mask bi = 0) [0..<?m] = None"
      by (simp add: find_index_None)
    obtain t where t: "brelse p u = Ret t" "read_only {} s t" using r(4) by (rule returnsE)
    note ro = read_only_fs [OF t(2)]
    have "balloc_loop fuel 1 (b + BPB) t = Panic ''balloc: out of blocks''"
      by (rule Suc.IH [OF ro(4) [OF Suc.prems(1)]]) (use Suc.prems in \<open>simp_all add: ro(1,3,5)\<close>)
    then show ?thesis using True none t(1) by (simp add: r(1,2) sbu)
  qed simp
qed simp

text \<open>
  C26: \<^verbatim>\<open>balloc\<close> takes the lowest free block. With a free block in the bitmap it returns one that was not in use,
  the first such, marks it as used, hands it out zeroed, changes no other block but the bitmap, and leaves a
  well-formed bitmap; the scan over the bitmap blocks always ends.
\<close>

theorem balloc_takes_lowest_free:
  assumes "fs_ready H (Suc (Suc n)) s" and "bitmap_ok s" and "held_apart H s"
    and "unat c < unat (sb_size (sb s))" and "\<not> in_use s c"
  shows "returns (balloc 1 s) (\<lambda>(a, t). \<not> in_use s a \<and> unat a \<le> unat c \<and> (\<forall>d. unat d < unat a \<longrightarrow> in_use s d) \<and>
    content a t = replicate BSIZE 0 \<and> (\<forall>d. unat d < unat (sb_size (sb s)) \<longrightarrow> in_use t d = (d = a \<or> in_use s d)) \<and>
    (\<forall>j. j \<noteq> a \<and> j \<noteq> BBLOCK a (sb s) \<longrightarrow> content j t = content j s) \<and> fs_ready H n t \<and> bitmap_ok t)"
proof -
  have fuel: "unat (sb_size (sb s)) \<le> 0 + BPB * (unat (sb_size (sb s)) div BPB + 1)"
    by (metis add_0 add.right_neutral div_mult_mod_eq add_mult_distrib2 nat_mult_1_right mult.commute add_left_mono less_imp_le_nat mod_less_divisor zero_less_numeral)
  have "returns (balloc_loop (unat (sb_size (sb s)) div BPB + 1) 1 0 s)
      (\<lambda>(a, t). fs_ready H n t \<and> allocated H a s t \<and> (\<forall>c. unat c < unat a \<longrightarrow> in_use s c))"
    by (rule balloc_loop_ok [OF assms(1-3) _ _ _ fuel]) (use assms(4,5) in auto)
  then show ?thesis
    unfolding balloc_def
  proof (rule returns_mono, clarify)
    fix a t
    assume t: "fs_ready H n t" "allocated H a s t" "\<forall>c. unat c < unat a \<longrightarrow> in_use s c"
    have "unat a \<le> unat c" using t(3) assms(5) by (meson not_le)
    then show "\<not> in_use s a \<and> unat a \<le> unat c \<and> (\<forall>d. unat d < unat a \<longrightarrow> in_use s d) \<and> content a t = replicate BSIZE 0 \<and>
      (\<forall>d. unat d < unat (sb_size (sb s)) \<longrightarrow> in_use t d = (d = a \<or> in_use s d)) \<and>
      (\<forall>j. j \<noteq> a \<and> j \<noteq> BBLOCK a (sb s) \<longrightarrow> content j t = content j s) \<and> fs_ready H n t \<and> bitmap_ok t"
      using t allocated_bitmap(1) [OF assms(2) t(2)] by (simp add: allocated_def)
  qed
qed

text \<open>
  C35: The failures of the block allocator. When every block is in use \<^verbatim>\<open>balloc\<close> panics, and \<^verbatim>\<open>bfree\<close> of a block
  that is not in use panics; freeing a block in use succeeds and makes exactly that block free again.
\<close>

theorem block_allocator_errors:
  assumes "fs_ready {} (Suc n) s" and "bitmap_ok s" and "unat b < unat (sb_size (sb s))"
  shows "((\<forall>c. unat c < unat (sb_size (sb s)) \<longrightarrow> in_use s c) \<longrightarrow> balloc 1 s = Panic ''balloc: out of blocks'') \<and>
    (\<not> in_use s b \<longrightarrow> bfree 1 b s = Panic ''freeing free block'') \<and>
    (in_use s b \<longrightarrow> returns (bfree 1 b s) (\<lambda>t. \<forall>c. in_use t c = (c \<noteq> b \<and> in_use s c)))"
proof -
  have "balloc 1 s = Panic ''balloc: out of blocks''" if "\<forall>c. unat c < unat (sb_size (sb s)) \<longrightarrow> in_use s c"
    unfolding balloc_def by (rule balloc_loop_panics [OF assms(1,2)]) (use that in simp_all)
  moreover have "returns (bfree 1 b s) (\<lambda>t. \<forall>c. in_use t c = (c \<noteq> b \<and> in_use s c))" if "in_use s b"
    by (rule returns_mono [OF bfree_ok [OF assms that]]) simp_all
  ultimately show ?thesis using bfree_panics [OF assms] by blast
qed

section \<open>A disk with 64 blocks in use and a file of two blocks\<close>

definition example_disk :: "u8 list list" where
  "example_disk = (replicate FSSIZE (replicate BSIZE 0))[58 := replicate 8 255 @ replicate 504 0, 60 := replicate BSIZE 65,
     61 := replicate BSIZE 66]"

definition example_fs :: fs_state where
  "example_fs = log_state.extend (bio_state.extend (boot_cache\<lparr>memdisk := example_disk\<rparr>)
      \<lparr>log_start = 2, log_size = 30, log_outstanding = 1, log_committing = False, log_dev = 1, lh_n = 0, lh_block = replicate LOGSIZE 0\<rparr>)
    \<lparr>sb = \<lparr>sb_size = 1000, sb_nblocks = 941, sb_ninodes = 200, sb_nlog = 30, sb_logstart = 2, sb_inodestart = 32, sb_bmapstart = 58\<rparr>,
     inodes = inodes boot_fs\<rparr>"

lemma example_sel:
  "memdisk example_fs = example_disk" "log_start example_fs = 2" "log_size example_fs = 30" "log_outstanding example_fs = 1"
  "lh_n example_fs = 0" "log_dev example_fs = 1" "sb_size (sb example_fs) = 1000" "sb_bmapstart (sb example_fs) = 58"
  "lh_block example_fs = replicate LOGSIZE 0" "bufs example_fs = bufs boot_cache"
  by (simp_all add: example_fs_def bio_state.defs log_state.defs)

lemma example_disk_nth: "length example_disk = FSSIZE" "example_disk ! 58 = replicate 8 255 @ replicate 504 0"
  "example_disk ! 2 = replicate BSIZE 0" "example_disk ! 60 = replicate BSIZE 65" "example_disk ! 61 = replicate BSIZE 66"
  by (simp_all add: example_disk_def)

lemma example_txn: "txn_ok {} example_fs"
proof -
  have "cache_ok {} example_fs"
    by (rule cache_ok_transfer [OF boot_cache_disk [of example_disk]])
      (simp_all add: example_fs_def bio_state.defs log_state.defs same_thread_def same_machine_def)
  moreover have "\<not> pinned j example_fs" for j
    using boot_cache_ok(3) by (intro not_pinned_clean) (simp add: example_sel)
  moreover have "log_layout example_fs" by (simp add: log_layout_def example_sel example_disk_nth)
  ultimately show ?thesis by (simp add: txn_ok_def example_sel example_disk_nth get32_def)
qed

lemma example_ready: "fs_ready {} 10 example_fs"
  using example_txn by (simp add: fs_ready_def example_sel)

lemma example_bitmap:
  assumes "unat b < 1000"
  shows "BBLOCK b (sb example_fs) = 58" and "in_use example_fs b \<longleftrightarrow> unat b < 64"
proof -
  have "BBLOCK b (sb example_fs) = BBLOCK 0 (sb example_fs)" using assms by (simp add: BBLOCK_eq)
  then show k: "BBLOCK b (sb example_fs) = 58" by (simp add: BBLOCK_def example_sel)
  have "content 58 example_fs = replicate 8 255 @ replicate 504 0"
    using not_pinned_empty [OF example_txn, of 58] by (simp add: example_sel example_disk_nth)
  moreover have "bit (255 :: u8) n" if "n < 8" for n
  proof -
    have "bit (mask 8 :: u8) n" unfolding bit_mask_iff using that by simp
    then show ?thesis by (simp add: mask_eq_exp_minus_1)
  qed
  ultimately show "in_use example_fs b \<longleftrightarrow> unat b < 64"
    using assms unfolding in_use_def k map_bit_def by (auto simp: nth_append nth_replicate)
qed

lemma example_bitmap_ok: "bitmap_ok example_fs"
proof -
  have c: "content 58 example_fs = replicate 8 255 @ replicate 504 0"
    using not_pinned_empty [OF example_txn, of 58] by (simp add: example_sel example_disk_nth)
  have d: "data_blk 58 example_fs" by (simp add: data_blk_def example_sel example_disk_nth)
  have "data_blk b example_fs" if "unat b < 1000" "\<not> unat b < 64" for b
  proof -
    have "32 < int (unat b)" using that(2) by linarith
    then show ?thesis using that by (simp add: data_blk_def example_sel example_disk_nth)
  qed
  then show ?thesis
    unfolding bitmap_ok_def example_sel using d c example_bitmap(2) [of 58] by (auto simp: example_bitmap)
qed

theorem balloc_takes_lowest_free_witness:
  "returns (balloc 1 example_fs) (\<lambda>(a, t). unat a = 64 \<and> content a t = replicate BSIZE 0 \<and> in_use t a)"
proof -
  have c: "unat (64 :: u32) < unat (sb_size (sb example_fs))" "\<not> in_use example_fs 64"
    using example_bitmap(2) [of 64] by (simp_all add: example_sel)
  have r: "fs_ready {} (Suc (Suc 8)) example_fs" using example_ready by simp
  have "held_apart {} example_fs" by (simp add: held_apart_def)
  from balloc_takes_lowest_free [OF r example_bitmap_ok this c] show ?thesis
  proof (rule returns_mono, clarify)
    fix a t
    assume a: "\<not> in_use example_fs a" "unat a \<le> unat (64 :: u32)" "content a t = replicate BSIZE 0"
      "\<forall>d. unat d < unat (sb_size (sb example_fs)) \<longrightarrow> in_use t d = (d = a \<or> in_use example_fs d)"
    then have lt: "unat a < 1000" by simp
    then have "unat a = 64" using example_bitmap(2) [OF lt] a(1,2) by simp
    then show "unat a = 64 \<and> content a t = replicate BSIZE 0 \<and> in_use t a" using a(3,4) lt by (simp add: example_sel)
  qed
qed

theorem block_allocator_errors_witness:
  "bfree 1 70 example_fs = Panic ''freeing free block'' \<and> returns (bfree 1 5 example_fs) (\<lambda>t. \<not> in_use t 5 \<and> in_use t 6)"
proof -
  have r: "fs_ready {} (Suc 9) example_fs" using example_ready by simp
  have b: "unat (70 :: u32) < unat (sb_size (sb example_fs))" "unat (5 :: u32) < unat (sb_size (sb example_fs))" by (simp_all add: example_sel)
  have u: "\<not> in_use example_fs 70" "in_use example_fs 5" "in_use example_fs 6"
    using example_bitmap(2) [of 70] example_bitmap(2) [of 5] example_bitmap(2) [of 6] by simp_all
  have "bfree 1 70 example_fs = Panic ''freeing free block''"
    using block_allocator_errors [OF r example_bitmap_ok b(1)] u(1) by blast
  moreover have "returns (bfree 1 5 example_fs) (\<lambda>t. \<forall>c. in_use t c = (c \<noteq> 5 \<and> in_use example_fs c))"
    using block_allocator_errors [OF r example_bitmap_ok b(2)] u(2) by blast
  then have "returns (bfree 1 5 example_fs) (\<lambda>t. \<not> in_use t 5 \<and> in_use t 6)" by (rule returns_mono) (use u(3) in simp)
  ultimately show ?thesis by blast
qed

end
