(* ===== verification/Inode.thy ===== *)
theory Inode
  imports Fsblocks
begin

text \<open>
  Inodes: the format of an inode on the disk, the transfer between the disk and the inode cache, reference
  counts, and the contents of a file as \<^verbatim>\<open>readi\<close> finds them through the direct and indirect block addresses.
\<close>

section \<open>The format on the disk\<close>

lemma put32s_other:
  assumes "\<And>i. i < m \<Longrightarrow> p + 4 \<le> b + 4 * i \<or> b + 4 * i + 4 \<le> p"
  shows "get32 (fold (\<lambda>i d. put32 d (b + 4 * i) (f i)) [0..<m] d) p = get32 d p"
  using assms by (induction m) simp_all

lemma put32s_other16:
  assumes "\<And>i. i < m \<Longrightarrow> p + 2 \<le> b + 4 * i \<or> b + 4 * i + 4 \<le> p"
  shows "get16 (fold (\<lambda>i d. put32 d (b + 4 * i) (f i)) [0..<m] d) p = get16 d p"
  using assms by (induction m) simp_all

lemma put32s_length [simp]: "length (fold (\<lambda>i d. put32 d (b + 4 * i) (f i)) xs d) = length d"
  by (induction xs arbitrary: d) simp_all

lemma put32s_same:
  assumes "b + 4 * m \<le> length d" and "i < m"
  shows "get32 (fold (\<lambda>i d. put32 d (b + 4 * i) (f i)) [0..<m] d) (b + 4 * i) = f i"
  using assms
proof (induction m)
  case (Suc m)
  then show ?case by (cases "i = m") auto
qed simp

lemma put_dinode_length [simp]: "length (put_dinode d k x) = length d"
  by (simp add: put_dinode_def Let_def del: upt_rec_numeral)

lemma get_put_dinode:
  assumes "64 * k + 64 \<le> length d" and "length (d_addrs x) = NDIRECT + 1"
  shows "get_dinode (put_dinode d k x) j = (if j = k then x else get_dinode d j)"
proof (cases "j = k")
  case True
  let ?e = "put32 (put16 (put16 (put16 (put16 d (64 * k) (d_type x)) (64 * k + 2) (d_major x)) (64 * k + 4) (d_minor x))
      (64 * k + 6) (d_nlink x)) (64 * k + 8) (d_size x)"
  have e: "put_dinode d k x = fold (\<lambda>i d. put32 d (64 * k + 12 + 4 * i) (d_addrs x ! i)) [0..<NDIRECT + 1] ?e"
    by (simp add: put_dinode_def Let_def del: upt_rec_numeral)
  have a: "map (\<lambda>i. get32 (put_dinode d k x) (64 * k + 12 + 4 * i)) [0..<NDIRECT + 1] = d_addrs x"
  proof (rule nth_equalityI)
    fix i
    assume "i < length (map (\<lambda>i. get32 (put_dinode d k x) (64 * k + 12 + 4 * i)) [0..<NDIRECT + 1])"
    then have i: "i < NDIRECT + 1" by (simp del: upt_rec_numeral)
    have "get32 (put_dinode d k x) (64 * k + 12 + 4 * i) = d_addrs x ! i"
      unfolding e by (rule put32s_same) (use assms(1) i in simp_all)
    then show "map (\<lambda>i. get32 (put_dinode d k x) (64 * k + 12 + 4 * i)) [0..<NDIRECT + 1] ! i = d_addrs x ! i"
      using i by (simp del: upt_rec_numeral)
  qed (simp add: assms(2) del: upt_rec_numeral)
  have h: "get16 (put_dinode d k x) (64 * k) = d_type x" "get16 (put_dinode d k x) (64 * k + 2) = d_major x"
    "get16 (put_dinode d k x) (64 * k + 4) = d_minor x" "get16 (put_dinode d k x) (64 * k + 6) = d_nlink x"
    "get32 (put_dinode d k x) (64 * k + 8) = d_size x"
    unfolding e using assms(1) by (simp_all add: put32s_other put32s_other16 del: upt_rec_numeral)
  show ?thesis using True by (simp only: get_dinode_def h a) simp
next
  case False
  have s16: "get16 (put_dinode d k x) p = get16 d p" if "p + 2 \<le> 64 * k \<or> 64 * k + 64 \<le> p" for p
    using that by (auto simp: put_dinode_def Let_def put32s_other16 simp del: upt_rec_numeral)
  have s32: "get32 (put_dinode d k x) p = get32 d p" if "p + 4 \<le> 64 * k \<or> 64 * k + 64 \<le> p" for p
    using that by (auto simp: put_dinode_def Let_def put32s_other simp del: upt_rec_numeral)
  have o: "64 * j + 64 \<le> 64 * k \<or> 64 * k + 64 \<le> 64 * j" using False by linarith
  have a: "map (\<lambda>i. get32 (put_dinode d k x) (64 * j + 12 + 4 * i)) [0..<NDIRECT + 1] = map (\<lambda>i. get32 d (64 * j + 12 + 4 * i)) [0..<NDIRECT + 1]"
    using o by (intro map_cong refl s32) auto
  have h: "get16 (put_dinode d k x) (64 * j) = get16 d (64 * j)" "get16 (put_dinode d k x) (64 * j + 2) = get16 d (64 * j + 2)"
    "get16 (put_dinode d k x) (64 * j + 4) = get16 d (64 * j + 4)" "get16 (put_dinode d k x) (64 * j + 6) = get16 d (64 * j + 6)"
    by (rule s16; use o in linarith)+
  have "get32 (put_dinode d k x) (64 * j + 8) = get32 d (64 * j + 8)" by (rule s32) (use o in linarith)
  then show ?thesis using False by (simp only: get_dinode_def h a if_False)
qed

section \<open>Between the disk and the cache\<close>

text \<open>The inode on the disk, and the part of a cached inode that is on the disk.\<close>

definition disk_inode :: "'a fs_state_scheme \<Rightarrow> u32 \<Rightarrow> dinode" where
  "disk_inode s inum = get_dinode (content (IBLOCK inum (sb s)) s) (unat inum mod IPB)"

definition dinode_of :: "inode \<Rightarrow> dinode" where
  "dinode_of x = \<lparr>d_type = i_type x, d_major = i_major x, d_minor = i_minor x, d_nlink = i_nlink x,
     d_size = i_size x, d_addrs = i_addrs x\<rparr>"

lemma IBLOCK_eq: "IBLOCK b x = IBLOCK c x \<longleftrightarrow> unat b div IPB = unat c div IPB"
proof -
  have "IBLOCK b x = IBLOCK c x \<longleftrightarrow> b div 8 = c div 8" by (simp add: IBLOCK_def)
  also have "\<dots> \<longleftrightarrow> unat (b div 8) = unat (c div 8)" by (simp add: word_unat_eq_iff)
  finally show ?thesis by (simp add: unat_div)
qed

lemma same_inode:
  assumes "IBLOCK b x = IBLOCK c x" and "unat b mod IPB = unat c mod IPB"
  shows "b = c"
proof -
  have "unat b div IPB = unat c div IPB" using assms(1) by (simp add: IBLOCK_eq)
  then have "unat b = unat c" using assms(2) by (metis div_mult_mod_eq)
  then show ?thesis by (simp add: word_unat_eq_iff)
qed

text \<open>An inode whose block can be written.\<close>

definition inode_blk :: "u32 \<Rightarrow> 'a fs_state_scheme \<Rightarrow> bool" where
  "inode_blk inum s \<longleftrightarrow> data_blk (IBLOCK inum (sb s)) s \<and> length (content (IBLOCK inum (sb s)) s) = BSIZE"

lemma put_inode_block:
  assumes "blk_updated (IBLOCK inum (sb s)) (put_dinode (content (IBLOCK inum (sb s)) s) (unat inum mod IPB) x) s t"
    and "length (content (IBLOCK inum (sb s)) s) = BSIZE" and "length (d_addrs x) = NDIRECT + 1"
  shows "disk_inode t j = (if j = inum then x else disk_inode s j)"
proof -
  have sb: "sb t = sb s" using fs_more(1) [OF blk_updated_room(7) [OF assms(1)]] .
  have c: "content j t = (if j = IBLOCK inum (sb s) then put_dinode (content (IBLOCK inum (sb s)) s) (unat inum mod IPB) x else content j s)" for j
    using assms(1) by (simp add: blk_updated_def)
  have k: "64 * (unat inum mod IPB) + 64 \<le> length (content (IBLOCK inum (sb s)) s)"
  proof -
    have "unat inum mod IPB < 8" by simp
    then show ?thesis unfolding assms(2) by linarith
  qed
  show ?thesis
  proof (cases "IBLOCK j (sb s) = IBLOCK inum (sb s)")
    case True
    then show ?thesis using same_inode [OF True] by (auto simp: disk_inode_def sb c get_put_dinode [OF k assms(3)])
  qed (auto simp: disk_inode_def sb c)
qed

lemma iupdate_ok:
  fixes s :: "'a fs_state_scheme"
  defines "x ip \<equiv> inodes s ! ip"
  assumes "fs_ready {} (Suc n) s" and "inode_blk (i_inum (x ip)) s" and "i_dev (x ip) = 1" and "length (i_addrs (x ip)) = NDIRECT + 1"
  shows "returns (iupdate ip s) (\<lambda>t. fs_ready {} n t \<and> inodes t = inodes s \<and> sb t = sb s \<and> same_log t s \<and>
    (\<forall>j. disk_inode t j = (if j = i_inum (x ip) then dinode_of (x ip) else disk_inode s j)) \<and>
    (\<forall>j. j \<noteq> IBLOCK (i_inum (x ip)) (sb s) \<longrightarrow> content j t = content j s))"
proof -
  let ?k = "IBLOCK (i_inum (x ip)) (sb s)" and ?f = "\<lambda>d. put_dinode d (unat (i_inum (x ip)) mod IPB) (dinode_of (x ip))"
  note f = fs_readyD [OF assms(2)]
  have k: "data_blk ?k s" "length (content ?k s) = BSIZE" using assms(3) by (simp_all add: inode_blk_def)
  have e: "iupdate ip s = upd_block ?k ?f s"
    using assms(4) by (simp add: iupdate_def upd_block_def upd_data_def Let_def x_def dinode_of_def)
  show ?thesis
    unfolding e
  proof (rule returns_mono [OF upd_block_ok [OF f(1) k(1) f(2,3)]], simp, elim conjE)
    fix t
    assume t: "txn_ok {} t" "blk_updated ?k (?f (content ?k s)) s t"
    have "disk_inode t j = (if j = i_inum (x ip) then dinode_of (x ip) else disk_inode s j)" for j
      by (rule put_inode_block [OF t(2) k(2)]) (simp add: dinode_of_def assms(5))
    then show "fs_ready {} n t \<and> inodes t = inodes s \<and> sb t = sb s \<and> same_log t s \<and>
        (\<forall>j. disk_inode t j = (if j = i_inum (x ip) then dinode_of (x ip) else disk_inode s j)) \<and>
        (\<forall>j. j \<noteq> ?k \<longrightarrow> content j t = content j s)"
      using fs_ready_updated [OF assms(2) t(1,2)] fs_more [OF blk_updated_room(7) [OF t(2)]] t(2)
      by (simp add: blk_updated_def)
  qed
qed

lemma inode_field_txn:
  assumes "txn_ok H s"
  shows "txn_ok H (upd_inode ip f s)" "content j (upd_inode ip f s) = content j s" "pinned j (upd_inode ip f s) = pinned j s"
  by (rule txn_ok_transfer [OF assms]; simp add: upd_inode_def same_thread_def same_machine_def)+

lemma upd_inode_sel [simp]:
  "sb (upd_inode ip f s) = sb s" "memdisk (upd_inode ip f s) = memdisk s" "lh_n (upd_inode ip f s) = lh_n s"
  "bufs (upd_inode ip f s) = bufs s" "sleeplocks (upd_inode ip f s) = sleeplocks s" "length (inodes (upd_inode ip f s)) = length (inodes s)"
  "log_start (upd_inode ip f s) = log_start s" "log_size (upd_inode ip f s) = log_size s"
  "log_outstanding (upd_inode ip f s) = log_outstanding s"
  "ip < length (inodes s) \<Longrightarrow> inodes (upd_inode ip f s) ! j = (if j = ip then f (inodes s ! ip) else inodes s ! j)"
  by (simp_all add: upd_inode_def nth_list_update)

lemma disk_inode_upd [simp]: "txn_ok H s \<Longrightarrow> disk_inode (upd_inode ip f s) j = disk_inode s j"
  by (simp add: disk_inode_def inode_field_txn(2) [of H s])

lemma inode_lock_txn:
  assumes "txn_ok H s"
  shows "txn_ok H (sl_taken (InodeLk ip) s)" "content j (sl_taken (InodeLk ip) s) = content j s"
    "lh_n (sl_taken (InodeLk ip) s) = lh_n s" "sb (sl_taken (InodeLk ip) s) = sb s" "inodes (sl_taken (InodeLk ip) s) = inodes s"
proof -
  show "txn_ok H (sl_taken (InodeLk ip) s)" "content j (sl_taken (InodeLk ip) s) = content j s"
    by (rule txn_ok_transfer [OF assms sl_thread(1)]; simp add: sl_taken_def)+
qed (simp_all add: sl_taken_def)

text \<open>The cached inode after it has been read.\<close>

definition loaded :: "dinode \<Rightarrow> inode \<Rightarrow> inode" where
  "loaded d x = x\<lparr>i_type := d_type d, i_major := d_major d, i_minor := d_minor d, i_nlink := d_nlink d,
     i_size := d_size d, i_addrs := d_addrs d, i_valid := True\<rparr>"

lemma loaded_sel [simp]:
  "dinode_of (loaded d x) = d" "i_valid (loaded d x)" "i_inum (loaded d x) = i_inum x" "i_ref (loaded d x) = i_ref x"
  by (simp_all add: loaded_def dinode_of_def)

lemma ilock_reads:
  assumes "txn_ok {} s" and "nat (lh_n s) < NBUF" and "ip < length (inodes s)" and "1 \<le> i_ref (inodes s ! ip)"
    and "\<not> sl_locked (sleeplocks s (InodeLk ip))" and "\<not> i_valid (inodes s ! ip)" and "i_dev (inodes s ! ip) = 1"
    and "unat (IBLOCK (i_inum (inodes s ! ip)) (sb s)) < length (memdisk s)"
  shows "if d_type (disk_inode s (i_inum (inodes s ! ip))) = 0 then ilock (Some ip) s = Panic ''ilock: no type''
    else returns (ilock (Some ip) s) (\<lambda>t. txn_ok {} t \<and> sb t = sb s \<and> (\<forall>j. content j t = content j s) \<and>
      inodes t = (inodes s)[ip := loaded (disk_inode s (i_inum (inodes s ! ip))) (inodes s ! ip)])"
proof -
  let ?x = "inodes s ! ip" and ?s = "sl_taken (InodeLk ip) s"
  let ?k = "IBLOCK (i_inum ?x) (sb s)" and ?d = "disk_inode s (i_inum (inodes s ! ip))"
  note lk = inode_lock_txn [OF assms(1), where ip = ip]
  have acq: "acquiresleep [] (InodeLk ip) s = Ret ?s" by (rule acquiresleep_eq [OF txn_okD(5) [OF assms(1)] assms(5)])
  have len: "unat ?k < length (memdisk ?s)" "nat (lh_n ?s) + card ({} :: nat set) < NBUF" using assms(2,8) lk(3) by simp_all
  obtain b u where r: "bread 1 ?k ?s = Ret (b, u)" "caches ?k (bufs u ! b)" "b_data (bufs u ! b) = content ?k s" "txn_ok {b} u" "same_log u ?s"
    "\<And>j. content j u = content j s"  "\<And>j. pinned j u = pinned j ?s"
    by (rule fs_bread [OF lk(1) len]) (use lk(2) in auto)
  have more: "inodes u = inodes s" "sb u = sb s" using fs_more [of u ?s] r(5) lk(4,5) by (simp_all add: same_log_def)
  let ?f = "\<lambda>x. x\<lparr>i_type := d_type ?d, i_major := d_major ?d, i_minor := d_minor ?d, i_nlink := d_nlink ?d,
     i_size := d_size ?d, i_addrs := d_addrs ?d\<rparr>"
  note up = inode_field_txn [OF r(4), where ip = ip and f = ?f]
  have "content ?k s = memdisk u ! unat ?k" if "\<not> pinned ?k u"
    using content_clean [OF txn_okD(2) [OF lk(1)], of ?k] that r(5,7) lk(2) by (simp add: same_log_def)
  then have pv: "pinned ?k (upd_inode ip ?f u) \<or> b_data (bufs (upd_inode ip ?f u) ! b) = memdisk (upd_inode ip ?f u) ! unat ?k"
    using r(3) up(3) by auto
  have cv: "caches ?k (bufs (upd_inode ip ?f u) ! b)" using r(2) by simp
  obtain t where t: "brelse b (upd_inode ip ?f u) = Ret t" "txn_ok ({b} - {b}) t"
    "\<And>j. content j t = content j (upd_inode ip ?f u)" "same_log t (upd_inode ip ?f u)"
    by (rule txn_brelse [OF up(1) singletonI cv pv]) blast
  have it: "inodes t = (inodes s)[ip := ?f ?x]" "sb t = sb s"
    using fs_more [of t "upd_inode ip ?f u"] t(4) more by (simp_all add: same_log_def upd_inode_def)
  let ?t = "upd_inode ip (\<lambda>x. x\<lparr>i_valid := True\<rparr>) t"
  have ok: "txn_ok {} t" using t(2) by simp
  have fin: "inodes ?t = (inodes s)[ip := loaded ?d ?x]" "i_type (inodes ?t ! ip) = d_type ?d"
    using it(1) assms(3) by (simp_all add: upd_inode_def loaded_def)
  have d: "get_dinode (b_data (bufs u ! b)) (unat (i_inum ?x) mod IPB) = ?d" by (simp add: disk_inode_def r(3))
  have body: "ilock (Some ip) s = (if d_type ?d = 0 then Panic ''ilock: no type'' else Ret ?t)"
    using assms(4,6,7) fin(2) by (simp add: ilock_def acq lk(4,5) r(1) Let_def d t(1))
  have "txn_ok {} ?t \<and> sb ?t = sb s \<and> (\<forall>j. content j ?t = content j s)"
    using inode_field_txn [OF ok] t(3) up(2) r(6) it(2) by simp
  then show ?thesis unfolding body using fin(1) by simp
qed

text \<open>A state in which the inode \<open>inum\<close> can be loaded into slot \<open>ip\<close> of the cache.\<close>

definition loadable :: "nat \<Rightarrow> u32 \<Rightarrow> 'a fs_state_scheme \<Rightarrow> bool" where
  "loadable ip inum s \<longleftrightarrow> txn_ok {} s \<and> nat (lh_n s) < NBUF \<and> ip < length (inodes s) \<and> 1 \<le> i_ref (inodes s ! ip) \<and>
     \<not> sl_locked (sleeplocks s (InodeLk ip)) \<and> \<not> i_valid (inodes s ! ip) \<and> i_dev (inodes s ! ip) = 1 \<and>
     i_inum (inodes s ! ip) = inum \<and> unat (IBLOCK inum (sb s)) < length (memdisk s)"

text \<open>
  C25: An inode written to the disk is read back. \<^verbatim>\<open>iupdate\<close> returns and changes no inode on the disk but its own;
  whenever \<^verbatim>\<open>ilock\<close> later loads that inode, into whatever slot of the inode cache, with the disk contents as
  \<^verbatim>\<open>iupdate\<close> left them, the type, device numbers, link count, size and block addresses are the ones that were
  written.
\<close>

theorem inode_survives_reload:
  fixes s :: "'a fs_state_scheme"
  assumes "fs_ready {} (Suc n) s" and "inode_blk (i_inum (inodes s ! ip)) s" and "i_dev (inodes s ! ip) = 1"
    and "length (i_addrs (inodes s ! ip)) = NDIRECT + 1" and "i_type (inodes s ! ip) \<noteq> 0"
  shows "returns (iupdate ip s) (\<lambda>t. (\<forall>j. j \<noteq> i_inum (inodes s ! ip) \<longrightarrow> disk_inode t j = disk_inode s j) \<and>
    (\<forall>jp (u :: 'a fs_state_scheme). loadable jp (i_inum (inodes s ! ip)) u \<and> sb u = sb t \<and> (\<forall>j. content j u = content j t) \<longrightarrow>
      returns (ilock (Some jp) u) (\<lambda>v. i_valid (inodes v ! jp) \<and> dinode_of (inodes v ! jp) = dinode_of (inodes s ! ip) \<and>
        (\<forall>k. k \<noteq> jp \<longrightarrow> inodes v ! k = inodes u ! k))))"
proof (rule returns_mono [OF iupdate_ok [OF assms(1-4)]], elim conjE, intro conjI allI impI)
  fix t j
  assume "\<forall>j. disk_inode t j = (if j = i_inum (inodes s ! ip) then dinode_of (inodes s ! ip) else disk_inode s j)" "j \<noteq> i_inum (inodes s ! ip)"
  then show "disk_inode t j = disk_inode s j" by simp
next
  fix t jp u
  let ?i = "i_inum (inodes s ! ip)"
  assume t: "\<forall>j. disk_inode t j = (if j = ?i then dinode_of (inodes s ! ip) else disk_inode s j)"
    and u: "loadable jp ?i u \<and> sb u = sb t \<and> (\<forall>j. content j u = content j t)"
  have l: "txn_ok {} u" "nat (lh_n u) < NBUF" "jp < length (inodes u)" "1 \<le> i_ref (inodes u ! jp)" "\<not> sl_locked (sleeplocks u (InodeLk jp))"
    "\<not> i_valid (inodes u ! jp)" "i_dev (inodes u ! jp) = 1" "i_inum (inodes u ! jp) = ?i"
    "unat (IBLOCK ?i (sb u)) < length (memdisk u)" using u unfolding loadable_def by blast+
  have d: "disk_inode u ?i = dinode_of (inodes s ! ip)" using t u by (simp add: disk_inode_def)
  then have "d_type (disk_inode u (i_inum (inodes u ! jp))) \<noteq> 0" using assms(5) l(8) by (simp add: dinode_of_def)
  then have "returns (ilock (Some jp) u) (\<lambda>v. txn_ok {} v \<and> sb v = sb u \<and> (\<forall>j. content j v = content j u) \<and>
      inodes v = (inodes u)[jp := loaded (disk_inode u (i_inum (inodes u ! jp))) (inodes u ! jp)])"
    using ilock_reads [OF l(1-7) l(9) [folded l(8)]] by simp
  then show "returns (ilock (Some jp) u) (\<lambda>v. i_valid (inodes v ! jp) \<and> dinode_of (inodes v ! jp) = dinode_of (inodes s ! ip) \<and>
      (\<forall>k. k \<noteq> jp \<longrightarrow> inodes v ! k = inodes u ! k))"
    by (rule returns_mono) (use l(3,8) d in auto)
qed

text \<open>Slot 0 of the inode cache holds a file with inode number 5.\<close>

definition example_inode :: inode where
  "example_inode = \<lparr>i_dev = 1, i_inum = 5, i_ref = 1, i_valid = True, i_type = 2, i_major = 0, i_minor = 0, i_nlink = 1,
     i_size = 700, i_addrs = 60 # 61 # replicate 11 0\<rparr>"

definition example_ino :: fs_state where
  "example_ino = upd_inode 0 (\<lambda>_. example_inode) example_fs"

lemma example_ino_ok:
  "fs_ready {} 10 example_ino" "inode_blk 5 example_ino" "inodes example_ino ! 0 = example_inode" "length (inodes example_ino) = NINODE"
proof -
  have l: "length (inodes example_fs) = NINODE" by (simp add: example_fs_def bio_state.defs log_state.defs boot_fs_def)
  show "fs_ready {} 10 example_ino"
    using example_ready inode_field_txn(1) [OF example_txn] by (simp add: fs_ready_def example_ino_def)
  have k: "IBLOCK 5 (sb example_ino) = 32" by (simp add: IBLOCK_def example_ino_def example_fs_def log_state.defs)
  have c: "content 32 example_ino = replicate BSIZE 0"
    unfolding example_ino_def inode_field_txn(2) [OF example_txn] using not_pinned_empty [OF example_txn, of 32]
    by (simp add: example_sel example_disk_def)
  show "inode_blk 5 example_ino" unfolding inode_blk_def k c
    by (simp add: data_blk_def example_ino_def example_sel example_disk_nth)
  show "inodes example_ino ! 0 = example_inode" "length (inodes example_ino) = NINODE" using l by (simp_all add: example_ino_def)
qed

theorem inode_survives_reload_witness:
  "returns (iupdate 0 example_ino) (\<lambda>t. returns
     (ilock (Some 3) ((upd_inode 3 (\<lambda>x. x\<lparr>i_dev := 1, i_inum := 5, i_ref := 1, i_valid := False\<rparr>) t)
        \<lparr>sleeplocks := (sleeplocks t)(InodeLk 3 := \<lparr>sl_locked = False, sl_name = [], sl_pid = 0\<rparr>)\<rparr>))
     (\<lambda>v. i_size (inodes v ! 3) = 700 \<and> i_addrs (inodes v ! 3) ! 1 = 61))"
proof -
  note ok = example_ino_ok
  have i: "i_inum example_inode = 5" "i_dev example_inode = 1" "length (i_addrs example_inode) = NDIRECT + 1" "i_type example_inode \<noteq> 0"
    by (simp_all add: example_inode_def)
  have r: "fs_ready {} (Suc 9) example_ino" using ok(1) by simp
  have blk: "inode_blk (i_inum (inodes example_ino ! 0)) example_ino" "i_dev (inodes example_ino ! 0) = 1"
    "length (i_addrs (inodes example_ino ! 0)) = NDIRECT + 1" "i_type (inodes example_ino ! 0) \<noteq> 0" using ok(2,3) i by simp_all
  have p: "returns (iupdate 0 example_ino) (\<lambda>t. fs_ready {} 9 t \<and> inodes t = inodes example_ino \<and> sb t = sb example_ino \<and> same_log t example_ino)"
    by (rule returns_mono [OF iupdate_ok [OF r blk(1-3)]]) simp
  let ?u = "\<lambda>t. (upd_inode 3 (\<lambda>x. x\<lparr>i_dev := 1, i_inum := 5, i_ref := 1, i_valid := False\<rparr>) t)
        \<lparr>sleeplocks := (sleeplocks t)(InodeLk 3 := \<lparr>sl_locked = False, sl_name = [], sl_pid = 0\<rparr>)\<rparr>"
  have l: "loadable 3 5 (?u t) \<and> sb (?u t) = sb t \<and> (\<forall>j. content j (?u t) = content j t)"
    if t: "fs_ready {} 9 t" "inodes t = inodes example_ino" "sb t = sb example_ino" "same_log t example_ino" for t
  proof -
    have tx: "txn_ok {} t" "lh_n t < 30" using t(1) by (simp_all add: fs_ready_def)
    have tr: "txn_ok {} (?u t)" "\<And>j. content j (?u t) = content j t"
      by (rule txn_ok_transfer [OF tx(1)]; simp add: upd_inode_def same_thread_def same_machine_def)+
    have len: "length (inodes t) = NINODE" "length (memdisk t) = FSSIZE"
      using t(2,4) ok(4) by (simp_all add: same_log_def example_ino_def example_sel example_disk_nth)
    have "unat (IBLOCK 5 (sb (?u t))) < length (memdisk (?u t))"
      using len(2) by (simp add: t(3) IBLOCK_def example_ino_def example_fs_def log_state.defs)
    then show ?thesis using tr tx(2) len(1) by (simp add: loadable_def)
  qed
  from returns_conj [OF inode_survives_reload [OF r blk] p] show ?thesis
  proof (rule returns_mono, elim conjE)
    fix t
    assume t: "fs_ready {} 9 t" "inodes t = inodes example_ino" "sb t = sb example_ino" "same_log t example_ino"
      and rel: "\<forall>jp (u :: fs_state). loadable jp (i_inum (inodes example_ino ! 0)) u \<and> sb u = sb t \<and> (\<forall>j. content j u = content j t) \<longrightarrow>
        returns (ilock (Some jp) u) (\<lambda>v. i_valid (inodes v ! jp) \<and> dinode_of (inodes v ! jp) = dinode_of (inodes example_ino ! 0) \<and>
        (\<forall>k. k \<noteq> jp \<longrightarrow> inodes v ! k = inodes u ! k))"
    have "returns (ilock (Some 3) (?u t)) (\<lambda>v. i_valid (inodes v ! 3) \<and> dinode_of (inodes v ! 3) = dinode_of (inodes example_ino ! 0) \<and>
        (\<forall>k. k \<noteq> 3 \<longrightarrow> inodes v ! k = inodes (?u t) ! k))"
      by (rule rel [THEN spec, THEN spec, THEN mp]) (use l [OF t] in \<open>simp only: ok(3) i(1) simp_thms\<close>)
    then show "returns (ilock (Some 3) (?u t)) (\<lambda>v. i_size (inodes v ! 3) = 700 \<and> i_addrs (inodes v ! 3) ! 1 = 61)"
      by (rule returns_mono) (simp add: ok(3) dinode_of_def example_inode_def)
  qed
qed

section \<open>The contents of a file\<close>

text \<open>The block that holds part \<open>bn\<close> of a file, and the byte at position \<open>p\<close>.\<close>

definition file_blk :: "'a fs_state_scheme \<Rightarrow> inode \<Rightarrow> nat \<Rightarrow> u32" where
  "file_blk s x bn = (if bn < NDIRECT then i_addrs x ! bn else get32 (content (i_addrs x ! NDIRECT) s) (4 * (bn - NDIRECT)))"

definition file_byte :: "'a fs_state_scheme \<Rightarrow> inode \<Rightarrow> nat \<Rightarrow> u8" where
  "file_byte s x p = content (file_blk s x (p div BSIZE)) s ! (p mod BSIZE)"

text \<open>Part \<open>bn\<close> of the file has a block, reachable through blocks of the disk.\<close>

definition file_mapped :: "'a fs_state_scheme \<Rightarrow> inode \<Rightarrow> nat \<Rightarrow> bool" where
  "file_mapped s x bn \<longleftrightarrow> bn < MAXFILE \<and> file_blk s x bn \<noteq> 0 \<and> unat (file_blk s x bn) < length (memdisk s) \<and>
     length (content (file_blk s x bn) s) = BSIZE \<and>
     (NDIRECT \<le> bn \<longrightarrow> i_addrs x ! NDIRECT \<noteq> 0 \<and> unat (i_addrs x ! NDIRECT) < length (memdisk s))"

lemma read_only_refl: "txn_ok H s \<Longrightarrow> read_only H s s"
  by (simp add: read_only_def)

lemma read_only_trans: "read_only H s t \<Longrightarrow> read_only H t u \<Longrightarrow> read_only H s u"
  unfolding read_only_def by (auto intro: same_log_trans)

lemma read_only_file:
  assumes "read_only H s t"
  shows "file_blk t x bn = file_blk s x bn" "file_byte t x p = file_byte s x p" "file_mapped t x bn = file_mapped s x bn"
    "txn_ok H t" "lh_n t = lh_n s" "memdisk t = memdisk s"
  using assms by (auto simp: file_blk_def file_byte_def file_mapped_def read_only_def same_log_def)

lemma bmap_mapped:
  assumes "txn_ok {} s" and "nat (lh_n s) < NBUF" and "i_dev (inodes s ! ip) = 1" and "file_mapped s (inodes s ! ip) bn"
  shows "returns (bmap ip bn s) (\<lambda>(a, t). a = file_blk s (inodes s ! ip) bn \<and> read_only {} s t)"
proof (cases "bn < NDIRECT")
  case True
  then show ?thesis
    using assms(4) read_only_refl [OF assms(1)] by (simp add: bmap_def file_mapped_def file_blk_def Let_def)
next
  case False
  let ?a = "i_addrs (inodes s ! ip) ! NDIRECT"
  have a: "?a \<noteq> 0" "unat ?a < length (memdisk s)" "get32 (content ?a s) (4 * (bn - NDIRECT)) \<noteq> 0" "bn - NDIRECT < NINDIRECT"
    using assms(4) False by (auto simp: file_mapped_def file_blk_def)
  have len: "nat (lh_n s) + card ({} :: nat set) < NBUF" using assms(2) by simp
  obtain b u where r: "bread 1 ?a s = Ret (b, u)" "b_data (bufs u ! b) = content ?a s" "returns (brelse b u) (read_only {} s)"
    by (rule fs_bread [OF assms(1) a(2) len]) blast+
  have "bmap ip bn s = bindO (brelse b u) (\<lambda>t. Ret (get32 (content ?a s) (4 * (bn - NDIRECT)), t))"
    using False a assms(3) r(1,2) by (simp add: bmap_def Let_def)
  then show ?thesis using r(3) False by (auto simp: file_blk_def elim!: returns_mono)
qed

lemma file_piece:
  assumes "length (content (file_blk s x (off div BSIZE)) s) = BSIZE" and "off mod BSIZE + m \<le> BSIZE"
  shows "get_bytes (content (file_blk s x (off div BSIZE)) s) (off mod BSIZE) m = map (file_byte s x) [off..<off + m]"
proof (rule nth_equalityI)
  show "length (get_bytes (content (file_blk s x (off div BSIZE)) s) (off mod BSIZE) m) = length (map (file_byte s x) [off..<off + m])"
    using assms by simp
  fix i
  assume "i < length (get_bytes (content (file_blk s x (off div BSIZE)) s) (off mod BSIZE) m)"
  then have i: "i < m" using assms by simp
  then have lt: "off mod BSIZE + i < BSIZE" using assms(2) by linarith
  have "(off + i) div BSIZE = off div BSIZE" "(off + i) mod BSIZE = off mod BSIZE + i"
  proof -
    have e: "off + i = off mod BSIZE + i + off div BSIZE * BSIZE" using div_mult_mod_eq [of off BSIZE] by linarith
    show "(off + i) div BSIZE = off div BSIZE" unfolding e using lt by (subst div_mult_self1) simp_all
    show "(off + i) mod BSIZE = off mod BSIZE + i" unfolding e using lt by (subst mod_mult_self1) simp
  qed
  then show "get_bytes (content (file_blk s x (off div BSIZE)) s) (off mod BSIZE) m ! i = map (file_byte s x) [off..<off + m] ! i"
    using i assms by (simp add: get_bytes_def file_byte_def add.commute)
qed

lemma readi_loop_ok:
  assumes "txn_ok {} s" and "nat (lh_n s) < NBUF" and "i_dev (inodes s ! ip) = 1"
    and "\<And>p. off \<le> p \<Longrightarrow> p < off + (n - tot) \<Longrightarrow> file_mapped s (inodes s ! ip) (p div BSIZE)"
  shows "returns (readi_loop kput ip tot off n s) (\<lambda>(bs, t). bs = map (file_byte s (inodes s ! ip)) [off..<off + (n - tot)] \<and> read_only {} s t)"
  using assms
proof (induction "n - tot" arbitrary: tot off s rule: less_induct)
  case less
  show ?case
  proof (cases "tot < n")
    case False
    then show ?thesis using read_only_refl [OF less.prems(1)] by simp
  next
    case True
    let ?x = "inodes s ! ip"
    define m where "m = min (n - tot) (BSIZE - off mod BSIZE)"
    have mp: "file_mapped s ?x (off div BSIZE)" using less.prems(4) [of off] True by simp
    have m: "0 < m" "off mod BSIZE + m \<le> BSIZE" "m \<le> n - tot" using True by (auto simp: m_def min_def)
    obtain t where b: "bmap ip (off div BSIZE) s = Ret (file_blk s ?x (off div BSIZE), t)" "read_only {} s t"
      using bmap_mapped [OF less.prems(1-3) mp] by (auto elim: returnsE)
    note ro = read_only_fs(2) [OF b(2)] and rf = read_only_file [OF b(2)]
    let ?k = "file_blk s ?x (off div BSIZE)"
    have k: "unat ?k < length (memdisk t)" "nat (lh_n t) + card ({} :: nat set) < NBUF" "length (content ?k s) = BSIZE"
      using mp less.prems(2) rf(5,6) by (simp_all add: file_mapped_def)
    obtain q u where r: "bread 1 ?k t = Ret (q, u)" "b_data (bufs u ! q) = content ?k t" "returns (brelse q u) (read_only {} t)"
      by (rule fs_bread [OF rf(4) k(1,2)]) blast+
    obtain v where v: "brelse q u = Ret v" "read_only {} t v" using r(3) by (rule returnsE)
    have sv: "read_only {} s v" by (rule read_only_trans [OF b(2) v(2)])
    note ro2 = read_only_fs(2) [OF sv] and rf2 = read_only_file [OF sv]
    have ct: "content ?k t = content ?k s" using b(2) by (simp add: read_only_def)
    let ?bs = "map (file_byte s ?x) [off..<off + m]"
    have piece: "get_bytes (content ?k t) (off mod BSIZE) m = ?bs"
      unfolding ct by (rule file_piece [OF k(3) m(2)])
    have whole: "off + m + (n - (tot + m)) = off + (n - tot)" using m(3) by linarith
    have "returns (readi_loop kput ip (tot + m) (off + m) n v)
        (\<lambda>(bs, w). bs = map (file_byte v (inodes v ! ip)) [off + m..<off + m + (n - (tot + m))] \<and> read_only {} v w)"
    proof (rule less.hyps)
      show "n - (tot + m) < n - tot" using True m(1) by linarith
      show "file_mapped v (inodes v ! ip) (p div BSIZE)" if "off + m \<le> p" "p < off + m + (n - (tot + m))" for p
        using less.prems(4) [of p] that(1) that(2) [unfolded whole] by (simp add: rf2(3) ro2)
    qed (use less.prems(2,3) rf2(4,5) ro2 in simp_all)
    then have rest: "returns (readi_loop kput ip (tot + m) (off + m) n v)
        (\<lambda>(bs, w). ?bs @ bs = map (file_byte s ?x) [off..<off + (n - tot)] \<and> read_only {} s w)"
      unfolding whole
    proof (elim returns_mono, clarify)
      fix w
      assume "read_only {} v w"
      moreover have "[off..<off + (n - tot)] = [off..<off + m] @ [off + m..<off + (n - tot)]"
        using upt_add_eq_append [of off "off + m" "n - (tot + m)"] unfolding whole by simp
      ultimately show "?bs @ map (file_byte v (inodes v ! ip)) [off + m..<off + (n - tot)] = map (file_byte s ?x) [off..<off + (n - tot)] \<and>
          read_only {} s w"
        using read_only_trans [OF sv] by (simp add: rf2(2) ro2)
    qed
    then show ?thesis
      using True b(1) r(1,2) v(1) piece less.prems(3)
      by (subst readi_loop.simps) (simp add: ro kput_def Let_def case_prod_unfold m_def [symmetric] del: readi_loop.simps)
  qed
qed

lemma readi_ok:
  assumes "txn_ok {} s" and "nat (lh_n s) < NBUF" and "i_dev (inodes s ! ip) = 1" and "i_type (inodes s ! ip) \<noteq> T_DEV"
    and "\<And>bn. bn * BSIZE < unat (i_size (inodes s ! ip)) \<Longrightarrow> file_mapped s (inodes s ! ip) bn"
  shows "if unat off \<le> unat (i_size (inodes s ! ip)) \<and> unat off + unat n < 4294967296
    then returns (readi dev kput ip off n s) (\<lambda>((r, bs), t). read_only {} s t \<and> r = int (length bs) \<and>
      bs = map (file_byte s (inodes s ! ip)) [unat off..<min (unat off + unat n) (unat (i_size (inodes s ! ip)))])
    else readi dev kput ip off n s = Ret ((- 1, []), s)"
proof (cases "unat off \<le> unat (i_size (inodes s ! ip)) \<and> unat off + unat n < 4294967296")
  case False
  have "off + n < off \<longleftrightarrow> \<not> unat off + unat n < 4294967296"
    using u32_bound [of off] u32_bound [of n] by (auto simp: word_less_nat_alt unat_word_ariths(1) mod_if)
  then have "off > i_size (inodes s ! ip) \<or> off + n < off" using False by (auto simp: word_less_nat_alt)
  then show ?thesis using False assms(4) by (auto simp: readi_def Let_def)
next
  case True
  let ?x = "inodes s ! ip"
  define N where "N = (if off + n > i_size ?x then i_size ?x - off else n)"
  have sum: "unat (off + n) = unat off + unat n" using True by (simp add: unat_word_ariths(1))
  have le: "off \<le> i_size ?x" using True by (simp add: word_le_nat_alt)
  have un: "unat N = min (unat off + unat n) (unat (i_size ?x)) - unat off"
    using True sum le by (auto simp: N_def word_less_nat_alt unat_sub min_def)
  have size: "unat (i_size ?x) \<le> MAXFILE * BSIZE"
  proof (rule ccontr)
    assume "\<not> unat (i_size ?x) \<le> MAXFILE * BSIZE"
    then have "file_mapped s ?x MAXFILE" by (intro assms(5)) simp
    then show False by (simp add: file_mapped_def)
  qed
  have loop: "returns (readi_loop kput ip 0 (unat off) (unat N) s) (\<lambda>(bs, t).
      bs = map (file_byte s ?x) [unat off..<unat off + (unat N - 0)] \<and> read_only {} s t)"
  proof (rule readi_loop_ok [OF assms(1-3)])
    fix p
    assume "p < unat off + (unat N - 0)"
    then have "p < unat (i_size ?x)" using un True by linarith
    moreover have "p div BSIZE * BSIZE \<le> p" by (rule div_times_less_eq_dividend)
    ultimately show "file_mapped s ?x (p div BSIZE)" by (intro assms(5)) linarith
  qed
  have up: "unat off + (unat N - 0) = min (unat off + unat n) (unat (i_size ?x))" using un True by linarith
  have sn: "sint N = int (unat N)"
  proof -
    have "int (unat N) < 2147483648" using un size by linarith
    then have "sint (of_int (int (unat N)) :: u32) = int (unat N)" by (rule sint_block [OF of_nat_0_le_iff])
    then show ?thesis by simp
  qed
  have rd: "readi dev kput ip off n s = bindO (readi_loop kput ip 0 (unat off) (unat N) s) (\<lambda>(bs, s). Ret ((sint N, bs), s))"
    using True assms(4) sum by (simp add: readi_def Let_def N_def word_less_nat_alt del: readi_loop.simps)
  have "returns (readi dev kput ip off n s) (\<lambda>((r, bs), t). read_only {} s t \<and> r = int (length bs) \<and>
      bs = map (file_byte s ?x) [unat off..<min (unat off + unat n) (unat (i_size ?x))])"
    unfolding rd returns_bindO by (rule returns_mono [OF loop [unfolded up]]) (auto simp: sn un)
  then show ?thesis using True by simp
qed

text \<open>
  C20: \<^verbatim>\<open>readi\<close> returns the contents of the file. For an offset inside the file it stores exactly the bytes from
  the offset up to the requested length or the end of the file, whether their blocks are direct or indirect,
  returns their number and changes nothing; an offset beyond the end, or one whose sum with the length wraps
  around, is refused with \<open>- 1\<close>.
\<close>

theorem readi_reads_file:
  assumes "txn_ok {} s" and "nat (lh_n s) < NBUF" and "i_dev (inodes s ! ip) = 1" and "i_type (inodes s ! ip) \<noteq> T_DEV"
    and "\<And>bn. bn * BSIZE < unat (i_size (inodes s ! ip)) \<Longrightarrow> file_mapped s (inodes s ! ip) bn"
  shows "if unat off \<le> unat (i_size (inodes s ! ip)) \<and> unat off + unat n < 4294967296
    then returns (readi dev kput ip off n s) (\<lambda>((r, bs), t). read_only {} s t \<and> r = int (length bs) \<and>
      bs = map (file_byte s (inodes s ! ip)) [unat off..<min (unat off + unat n) (unat (i_size (inodes s ! ip)))])
    else readi dev kput ip off n s = Ret ((- 1, []), s)"
  by (rule readi_ok [OF assms])

theorem readi_reads_file_witness:
  "returns (readi no_dev kput 0 510 4 example_ino) (\<lambda>((r, bs), t). r = 4 \<and> bs = [65, 65, 66, 66]) \<and>
   readi no_dev kput 0 701 4 example_ino = Ret ((- 1, []), example_ino)"
proof -
  let ?x = "inodes example_ino ! 0"
  have x: "?x = example_inode" by (rule example_ino_ok(3))
  have tx: "txn_ok {} example_ino" "lh_n example_ino = 0" using example_ino_ok(1) by (simp_all add: fs_ready_def example_ino_def example_sel)
  have c: "content k example_ino = example_disk ! unat k" for k
    using not_pinned_empty [OF tx] by (simp add: example_ino_def example_sel)
  have b: "file_blk example_ino ?x 0 = 60" "file_blk example_ino ?x 1 = 61" by (simp_all add: file_blk_def x example_inode_def)
  have mp: "file_mapped example_ino ?x bn" if "bn * BSIZE < unat (i_size ?x)" for bn
  proof -
    have "bn = 0 \<or> bn = 1" using that by (auto simp: x example_inode_def)
    moreover have "length (memdisk example_ino) = FSSIZE" by (simp add: example_ino_def example_sel example_disk_nth)
    ultimately show ?thesis using b by (auto simp: file_mapped_def c example_disk_nth)
  qed
  have f: "file_byte example_ino ?x 510 = 65" "file_byte example_ino ?x 511 = 65" "file_byte example_ino ?x 512 = 66" "file_byte example_ino ?x 513 = 66"
    using b by (simp_all add: file_byte_def c example_disk_nth)
  have up: "[510..<514] = [510, 511, 512, 513 :: nat]" by (simp add: upt_rec_numeral)
  note th = readi_reads_file [where s = example_ino and ip = 0 and dev = no_dev, OF tx(1) _ _ _ mp]
  have "returns (readi no_dev kput 0 510 4 example_ino) (\<lambda>((r, bs), t). r = 4 \<and> bs = [65, 65, 66, 66])"
    using th [of 510 4] f up by (auto simp: tx(2) x example_inode_def elim!: returns_mono)
  moreover have "readi no_dev kput 0 701 4 example_ino = Ret ((- 1, []), example_ino)"
    using th [of 701 4] by (simp add: tx(2) x example_inode_def)
  ultimately show ?thesis by blast
qed

end
