(* ===== verification/Fwrite.thy ===== *)
theory Fwrite
  imports Inode
begin

text \<open>
  Writing into a file, \<^verbatim>\<open>writei\<close> of \<^verbatim>\<open>fs.c\<close>: overwriting part of a file inside a transaction changes exactly those
  bytes of it, and a later \<^verbatim>\<open>readi\<close> returns them.
\<close>

section \<open>The blocks of a file\<close>

text \<open>The first \<open>N\<close> blocks of the file are different data blocks, and none is its indirect block.\<close>

definition file_apart :: "'a fs_state_scheme \<Rightarrow> inode \<Rightarrow> nat \<Rightarrow> bool" where
  "file_apart s x N \<longleftrightarrow> inj_on (file_blk s x) {..<N} \<and>
     (\<forall>bn<N. data_blk (file_blk s x bn) s \<and> file_blk s x bn \<noteq> i_addrs x ! NDIRECT)"

lemma read_only_apart:
  assumes "read_only H s t"
  shows "file_apart t x N = file_apart s x N"
proof -
  have "file_blk t x = file_blk s x" by (rule ext) (rule read_only_file(1) [OF assms])
  moreover have "data_blk k t = data_blk k s" for k using assms by (simp add: read_only_def same_log_blk)
  ultimately show ?thesis by (simp add: file_apart_def)
qed

lemma fs_ready_read_only: "read_only H s t \<Longrightarrow> fs_ready H n s \<Longrightarrow> fs_ready H n t"
  by (simp add: fs_ready_def read_only_def same_log_def)

text \<open>Updating one block of the file.\<close>

lemma file_blk_updated:
  assumes "blk_updated (file_blk s x bn) d s t" and "file_apart s x N" and "bn < N"
  shows "file_blk t x j = file_blk s x j"
  using assms by (auto simp: file_blk_def blk_updated_def file_apart_def)

lemma file_updated:
  assumes u: "blk_updated (file_blk s x bn) d s t" and a: "file_apart s x N" and bn: "bn < N"
  shows "file_apart t x N" and "p div BSIZE < N \<Longrightarrow> file_byte t x p = (if p div BSIZE = bn then d ! (p mod BSIZE) else file_byte s x p)"
    and "length d = BSIZE \<Longrightarrow> j < N \<Longrightarrow> file_mapped s x j \<Longrightarrow> file_mapped t x j"
proof -
  note b = file_blk_updated [OF u a bn] and r = blk_updated_room [OF u]
  show "file_apart t x N" using a by (simp add: file_apart_def b r(3) inj_on_def)
  have c: "content (file_blk s x j) t = (if j = bn then d else content (file_blk s x j) s)" if "j < N" for j
    using u a bn that inj_onD [of "file_blk s x" "{..<N}" j bn] by (auto simp: blk_updated_def file_apart_def)
  show "p div BSIZE < N \<Longrightarrow> file_byte t x p = (if p div BSIZE = bn then d ! (p mod BSIZE) else file_byte s x p)"
    using c [of "p div BSIZE"] by (simp add: file_byte_def b)
  show "length d = BSIZE \<Longrightarrow> j < N \<Longrightarrow> file_mapped s x j \<Longrightarrow> file_mapped t x j"
    using c [of j] r(8) by (simp add: file_mapped_def b)
qed

section \<open>Writing\<close>

text \<open>One round of the loop is an update of one block.\<close>

lemma writei_round:
  assumes "tot < n" and "bmap ip (off div BSIZE) s = Ret (k, t)" and "i_dev (inodes t ! ip) = 1"
  defines "m \<equiv> min (n - tot) (BSIZE - off mod BSIZE)"
  shows "writei_loop (kget data) ip tot off n s =
    bindO (upd_block k (\<lambda>d. put_bytes d (off mod BSIZE) (get_bytes data tot m)) t) (\<lambda>s. writei_loop (kget data) ip (tot + m) (off + m) n s)"
  using assms(1-3) unfolding m_def
  by (subst writei_loop.simps) (simp add: upd_block_def upd_data_def kget_def Let_def outcome_simps case_prod_unfold del: writei_loop.simps)

lemma put_bytes_nth:
  "o1 + length xs \<le> length d \<Longrightarrow> i < length d \<Longrightarrow>
     put_bytes d o1 xs ! i = (if o1 \<le> i \<and> i < o1 + length xs then xs ! (i - o1) else d ! i)"
  by (auto simp: put_bytes_def nth_append min_def)

text \<open>The bytes that a round writes are those of the file from \<open>off\<close> on.\<close>

lemma round_byte:
  assumes "off mod BSIZE + m \<le> BSIZE" and "length d = BSIZE" and "tot + m \<le> length data"
  shows "(if p div BSIZE = off div BSIZE then put_bytes d (off mod BSIZE) (get_bytes data tot m) ! (p mod BSIZE) else c) =
    (if off \<le> p \<and> p < off + m then data ! (tot + (p - off)) else if p div BSIZE = off div BSIZE then d ! (p mod BSIZE) else c)"
proof -
  have l: "length (get_bytes data tot m) = m" using assms(3) by simp
  have p: "p = p div BSIZE * BSIZE + p mod BSIZE" "off = off div BSIZE * BSIZE + off mod BSIZE" by simp_all
  have "off \<le> p \<and> p < off + m \<longleftrightarrow> p div BSIZE = off div BSIZE \<and> off mod BSIZE \<le> p mod BSIZE \<and> p mod BSIZE < off mod BSIZE + m"
  proof (cases "p div BSIZE = off div BSIZE")
    case True
    define A where "A = off div BSIZE * BSIZE"
    have "p = A + p mod BSIZE" "off = A + off mod BSIZE" using p True by (simp_all add: A_def)
    then have "off \<le> p \<longleftrightarrow> off mod BSIZE \<le> p mod BSIZE" "p < off + m \<longleftrightarrow> p mod BSIZE < off mod BSIZE + m" by linarith+
    then show ?thesis using True by blast
  next
    case False
    have "\<not> (off \<le> p \<and> p < off + m)"
    proof
      assume a: "off \<le> p \<and> p < off + m"
      then have "off div BSIZE \<le> p div BSIZE" by (intro div_le_mono) simp
      moreover have "p < off div BSIZE * BSIZE + BSIZE" using a assms(1) p(2) by linarith
      then have "p < (off div BSIZE + 1) * BSIZE" by simp
      then have "p div BSIZE < off div BSIZE + 1" by (rule less_mult_imp_div_less)
      ultimately show False using False by simp
    qed
    then show ?thesis using False by simp
  qed
  moreover have "get_bytes data tot m ! (p mod BSIZE - off mod BSIZE) = data ! (tot + (p - off))"
    if "p div BSIZE = off div BSIZE" "off mod BSIZE \<le> p mod BSIZE" "p mod BSIZE < off mod BSIZE + m"
  proof -
    define A where "A = off div BSIZE * BSIZE"
    have "p = A + p mod BSIZE" "off = A + off mod BSIZE" using p that(1) by (simp_all add: A_def)
    then have "p mod BSIZE - off mod BSIZE = p - off" "p - off < m" using that(2,3) by linarith+
    then show ?thesis using assms(3) by (simp add: get_bytes_def)
  qed
  ultimately show ?thesis using put_bytes_nth [of "off mod BSIZE" "get_bytes data tot m" d "p mod BSIZE"] assms(1,2) l by auto
qed

lemma fs_ready_later: "fs_ready H n s \<Longrightarrow> k \<le> n \<Longrightarrow> fs_ready H k s"
  by (simp add: fs_ready_def)

text \<open>\<open>written s x off data t\<close>: the file has become what it was, with \<open>data\<close> at \<open>off\<close>; other blocks are unchanged.\<close>

definition written :: "'a fs_state_scheme \<Rightarrow> inode \<Rightarrow> nat \<Rightarrow> nat \<Rightarrow> u8 list \<Rightarrow> 'a fs_state_scheme \<Rightarrow> bool" where
  "written s x N off data t \<longleftrightarrow> fs_ready {} 1 t \<and> inodes t = inodes s \<and> sb t = sb s \<and>
     (\<forall>bn<N. file_mapped t x bn) \<and> file_apart t x N \<and> file_blk t x = file_blk s x \<and>
     (\<forall>p<N * BSIZE. file_byte t x p = (if off \<le> p \<and> p < off + length data then data ! (p - off) else file_byte s x p)) \<and>
     (\<forall>j. j \<notin> file_blk s x ` {..<N} \<longrightarrow> content j t = content j s)"

lemma written_trans:
  assumes "written s x N off d1 t" and "written t x N (off + length d1) d2 u"
  shows "written s x N off (d1 @ d2) u"
proof -
  have "file_byte u x p = (if off \<le> p \<and> p < off + length (d1 @ d2) then (d1 @ d2) ! (p - off) else file_byte s x p)" if "p < N * BSIZE" for p
    using assms that by (auto simp: written_def nth_append)
  then show ?thesis using assms by (simp add: written_def)
qed

lemma write_round_ok:
  assumes rdy: "fs_ready {} (Suc (Suc K)) s" and dev: "i_dev (inodes s ! ip) = 1" and map: "\<forall>bn<N. file_mapped s (inodes s ! ip) bn"
    and ap: "file_apart s (inodes s ! ip) N" and tot: "tot < n" and N: "off div BSIZE < N" and len: "n \<le> length data"
  defines "m \<equiv> min (n - tot) (BSIZE - off mod BSIZE)"
  obtains t where "writei_loop (kget data) ip tot off n s = writei_loop (kget data) ip (tot + m) (off + m) n t"
    and "fs_ready {} (Suc K) t" and "written s (inodes s ! ip) N off (get_bytes data tot m) t"
proof -
  let ?x = "inodes s ! ip"
  let ?k = "file_blk s ?x (off div BSIZE)" and ?f = "\<lambda>d. put_bytes d (off mod BSIZE) (get_bytes data tot m)"
  note r = fs_readyD [OF rdy]
  have m: "off mod BSIZE + m \<le> BSIZE" "tot + m \<le> length data" using tot len by (auto simp: m_def min_def)
  have mp: "file_mapped s ?x (off div BSIZE)" using map N by blast
  obtain t where b: "bmap ip (off div BSIZE) s = Ret (?k, t)" "read_only {} s t"
    using bmap_mapped [OF r(1) _ dev mp] r(3) by (auto elim: returnsE)
  note ro = read_only_fs(1,2) [OF b(2)]
  have rt: "fs_ready {} (Suc (Suc K)) t" by (rule fs_ready_read_only [OF b(2) rdy])
  have at: "file_apart t ?x N" using read_only_apart [OF b(2)] ap by simp
  have k: "data_blk ?k t" using at N read_only_file(1) [OF b(2)] by (simp add: file_apart_def)
  obtain u where u: "upd_block ?k ?f t = Ret u" "txn_ok {} u" "blk_updated ?k (?f (content ?k t)) t u"
    using upd_block_ok [OF fs_readyD(1) [OF rt] k fs_readyD(2,3) [OF rt], of ?f] by (auto elim: returnsE)
  have len: "length (content ?k t) = BSIZE" using map N b(2) by (auto simp: file_mapped_def read_only_def)
  have us: "blk_updated ?k (?f (content ?k t)) s u" by (rule updated_after_read [OF b(2) u(3)])
  note fu = file_updated [OF us ap N] and fb = file_blk_updated [OF us ap N]
  have d: "length (?f (content ?k t)) = BSIZE" using m len by simp
  have ct: "content ?k t = content ?k s" using b(2) by (simp add: read_only_def)
  have bytes: "file_byte u ?x p = (if off \<le> p \<and> p < off + length (get_bytes data tot m) then get_bytes data tot m ! (p - off) else file_byte s ?x p)"
    if "p < N * BSIZE" for p
  proof -
    have "file_byte u ?x p = (if p div BSIZE = off div BSIZE then ?f (content ?k t) ! (p mod BSIZE) else file_byte s ?x p)"
      using that by (intro fu(2) less_mult_imp_div_less)
    also have "\<dots> = (if off \<le> p \<and> p < off + m then data ! (tot + (p - off)) else if p div BSIZE = off div BSIZE then content ?k t ! (p mod BSIZE) else file_byte s ?x p)"
      by (rule round_byte [OF m(1) len m(2)])
    finally show ?thesis using m(2) by (auto simp: get_bytes_def file_byte_def ct)
  qed
  have ru: "fs_ready {} (Suc K) u" by (rule fs_ready_updated [OF rt u(2,3)])
  have "written s ?x N off (get_bytes data tot m) u"
    unfolding written_def using bytes ru fs_ready_later [OF ru, of 1] fu(1,3) d map fb fs_more [OF blk_updated_room(7) [OF u(3)]] ro us N
    by (auto simp: blk_updated_def)
  moreover have "writei_loop (kget data) ip tot off n s = writei_loop (kget data) ip (tot + m) (off + m) n u"
    using writei_round [OF tot b(1), of data] dev ro u(1) by (simp add: m_def del: writei_loop.simps)
  ultimately show thesis using ru by (intro that)
qed

lemma next_round:
  assumes "m = min r (BSIZE - off mod BSIZE)" and "m < r" and "off mod BSIZE + r \<le> Suc K * BSIZE"
  shows "(off + m) mod BSIZE + (r - m) \<le> K * BSIZE"
proof -
  have m: "m = BSIZE - off mod BSIZE" using assms(1,2) by (simp add: min_def split: if_splits)
  have "off mod BSIZE < BSIZE" by simp
  then have "off + m = (off div BSIZE + 1) * BSIZE" using m div_mult_mod_eq [of off BSIZE] unfolding add_mult_distrib by linarith
  then have "(off + m) mod BSIZE = 0" by simp
  then show ?thesis using assms(3) m by simp
qed

lemma writei_loop_ok:
  assumes "fs_ready {} (Suc K) s" and "i_dev (inodes s ! ip) = 1" and "\<forall>bn<N. file_mapped s (inodes s ! ip) bn" and "file_apart s (inodes s ! ip) N"
    and "tot \<le> n" and "off + (n - tot) \<le> N * BSIZE" and "tot < n \<Longrightarrow> off mod BSIZE + (n - tot) \<le> K * BSIZE" and "n \<le> length data"
  shows "returns (writei_loop (kget data) ip tot off n s) (written s (inodes s ! ip) N off (get_bytes data tot (n - tot)))"
  using assms
proof (induction "n - tot" arbitrary: tot off s K rule: less_induct)
  case less
  let ?x = "inodes s ! ip"
  show ?case
  proof (cases "tot < n")
    case False
    then have "written s ?x N off (get_bytes data tot (n - tot)) s"
      using less.prems(1,3,4) fs_ready_later [OF less.prems(1), of 1] by (auto simp: written_def)
    then show ?thesis using False by (subst writei_loop.simps) simp
  next
    case True
    define m where "m = min (n - tot) (BSIZE - off mod BSIZE)"
    have m: "0 < m" "m \<le> n - tot" using True by (auto simp: m_def min_def)
    have "0 < K" using less.prems(7) [OF True] True by (cases K) auto
    then obtain K' where K: "K = Suc K'" by (cases K) auto
    have "off < N * BSIZE" using less.prems(6) True by linarith
    then have o: "off div BSIZE < N" by (rule less_mult_imp_div_less)
    obtain t where t: "writei_loop (kget data) ip tot off n s = writei_loop (kget data) ip (tot + m) (off + m) n t"
        "fs_ready {} (Suc K') t" "written s ?x N off (get_bytes data tot m) t"
      by (rule write_round_ok [OF less.prems(1) [unfolded K] less.prems(2-4) True o less.prems(8), folded m_def])
    have x: "inodes t ! ip = ?x" using t(3) by (simp add: written_def)
    have w: "off + m + (n - (tot + m)) = off + (n - tot)" using m(2) by linarith
    have "returns (writei_loop (kget data) ip (tot + m) (off + m) n t) (written t (inodes t ! ip) N (off + m) (get_bytes data (tot + m) (n - (tot + m))))"
    proof (rule less.hyps [OF _ t(2)])
      show "n - (tot + m) < n - tot" using True m(1) by linarith
      show "(off + m) mod BSIZE + (n - (tot + m)) \<le> K' * BSIZE" if "tot + m < n"
      proof -
        have "m < n - tot" using that by linarith
        from next_round [OF m_def this less.prems(7) [OF True, unfolded K]] show ?thesis by (simp only: diff_diff_left)
      qed
    qed (use t(3) less.prems(2,5,6,8) m w x in \<open>simp_all add: written_def\<close>)
    then obtain u where u: "writei_loop (kget data) ip (tot + m) (off + m) n t = Ret u"
        "written t ?x N (off + m) (get_bytes data (tot + m) (n - (tot + m))) u"
      unfolding x by (rule returnsE)
    have l: "length (get_bytes data tot m) = m" using m less.prems(5,8) by simp
    have "get_bytes data tot (n - tot) = get_bytes data tot m @ get_bytes data (tot + m) (n - (tot + m))"
      using take_add [of m "n - tot - m" "drop tot data"] m by (simp add: get_bytes_def add.commute)
    then have "written s ?x N off (get_bytes data tot (n - tot)) u" using written_trans [OF t(3), unfolded l, OF u(2)] by simp
    then show ?thesis using t(1) u(1) by (simp del: writei_loop.simps)
  qed
qed

lemma sint_small:
  assumes "unat (n :: u32) \<le> MAXFILE * BSIZE"
  shows "sint n = int (unat n)"
proof -
  have "int (unat n) < 2147483648" using assms by linarith
  then have "sint (of_int (int (unat n)) :: u32) = int (unat n)" by (rule sint_block [OF of_nat_0_le_iff])
  then show ?thesis by simp
qed

text \<open>
  C6: Writing into a file inside a transaction. A \<^verbatim>\<open>writei\<close> within the size of the file reports all its
  bytes written; each byte of the file in the written range is now the one given, every other byte of the file
  and every block outside it is as before, the inode is untouched, and reading the same range back with
  \<^verbatim>\<open>readi\<close> returns the bytes that were given.
\<close>

theorem writei_then_readi:
  assumes rdy: "fs_ready {} (Suc K) s" and dev: "i_dev (inodes s ! ip) = 1" "i_type (inodes s ! ip) \<noteq> T_DEV"
    and map: "\<forall>bn<N. file_mapped s (inodes s ! ip) bn" and ap: "file_apart s (inodes s ! ip) N"
    and size: "unat off + unat n \<le> unat (i_size (inodes s ! ip))" "unat (i_size (inodes s ! ip)) \<le> N * BSIZE" "N \<le> MAXFILE"
    and room: "unat off mod BSIZE + unat n \<le> K * BSIZE" and len: "unat n \<le> length data"
  shows "returns (writei dw (kget data) ip off n s) (\<lambda>(r, t). r = int (unat n) \<and>
    written s (inodes s ! ip) N (unat off) (take (unat n) data) t \<and>
    returns (readi dr kput ip off n t) (\<lambda>((q, bs), u). q = int (unat n) \<and> bs = take (unat n) data \<and> read_only {} t u))"
proof -
  let ?x = "inodes s ! ip"
  let ?W = "written s ?x N (unat off) (take (unat n) data)"
  have mx: "unat off + unat n \<le> MAXFILE * BSIZE" using size mult_le_mono1 [OF size(3), of BSIZE] by linarith
  then have sum: "unat (off + n) = unat off + unat n" "unat off + unat n < 4294967296" by (simp_all add: unat_word_ariths(1))
  have loop: "returns (writei_loop (kget data) ip 0 (unat off) (unat n) s) ?W"
    using writei_loop_ok [OF rdy dev(1) map ap, of 0 "unat n" "unat off" data] size room len by (simp add: get_bytes_def del: writei_loop.simps)
  have rdback: "returns (readi dr kput ip off n t) (\<lambda>((q, bs), u). q = int (unat n) \<and> bs = take (unat n) data \<and> read_only {} t u)"
    if w: "?W t" for t
  proof -
    have x: "inodes t ! ip = ?x" and r: "fs_ready {} 1 t" using w by (simp_all add: written_def)
    have bn: "bn < N" if "bn * BSIZE < unat (i_size ?x)" for bn using less_le_trans [OF that size(2)] by simp
    have "map (file_byte t ?x) [unat off..<min (unat off + unat n) (unat (i_size ?x))] = take (unat n) data"
      using size len w by (intro nth_equalityI) (auto simp: written_def)
    then have "returns (readi dr kput ip off n t) (\<lambda>((r, bs), u). read_only {} t u \<and> r = int (length bs) \<and> bs = take (unat n) data)"
      using readi_ok [where s = t and ip = ip and dev = dr and off = off and n = n] r dev w bn size sum(2)
      by (auto simp: x fs_ready_def written_def)
    then show ?thesis by (rule returns_mono) (use len in auto)
  qed
  have "writei dw (kget data) ip off n s = bindO (writei_loop (kget data) ip 0 (unat off) (unat n) s) (\<lambda>t.
      bindO (if n > 0 \<and> off + n > i_size (inodes t ! ip) then iupdate ip (upd_inode ip (\<lambda>x. x\<lparr>i_size := off + n\<rparr>) t) else Ret t) (\<lambda>t. Ret (sint n, t)))"
    using dev(2) mx sum size by (simp add: writei_def Let_def word_less_nat_alt del: writei_loop.simps)
  moreover have "\<not> (n > 0 \<and> off + n > i_size (inodes t ! ip))" if "?W t" for t
    using that size(1) sum(1) by (simp add: written_def word_less_nat_alt)
  moreover have "sint n = int (unat n)" using mx by (intro sint_small) linarith
  ultimately show ?thesis
    using rdback by (auto simp: returns_bindO simp del: writei_loop.simps intro!: returns_mono [OF loop])
qed

theorem writei_then_readi_witness:
  "returns (writei (\<lambda>_. None) (kget [1, 2, 3, 4, 5]) 0 510 5 example_ino) (\<lambda>(r, t). r = 5 \<and>
     returns (readi no_dev kput 0 510 5 t) (\<lambda>((q, bs), u). q = 5 \<and> bs = [1, 2, 3, 4, 5]))"
proof -
  let ?x = "inodes example_ino ! 0"
  have x: "?x = example_inode" by (rule example_ino_ok(3))
  have tx: "txn_ok {} example_ino" using example_ino_ok(1) by (simp add: fs_ready_def)
  have c: "content k example_ino = example_disk ! unat k" for k
    using not_pinned_empty [OF tx] by (simp add: example_ino_def example_sel)
  have b: "file_blk example_ino ?x 0 = 60" "file_blk example_ino ?x 1 = 61" by (simp_all add: file_blk_def x example_inode_def)
  have l: "length (memdisk example_ino) = FSSIZE" by (simp add: example_ino_def example_sel example_disk_nth)
  have two: "bn = 0 \<or> bn = 1" if "bn < 2" for bn :: nat using that by linarith
  have map: "\<forall>bn<2. file_mapped example_ino ?x bn" using b l by (auto simp: file_mapped_def c example_disk_nth dest!: two)
  have dat: "data_blk 60 example_ino" "data_blk 61 example_ino" by (simp_all add: data_blk_def example_ino_def example_sel example_disk_nth)
  have ap: "file_apart example_ino ?x 2"
    unfolding file_apart_def inj_on_def using b dat by (auto simp: x example_inode_def dest!: two)
  have r: "fs_ready {} (Suc 9) example_ino" using example_ino_ok(1) by simp
  show ?thesis
    using writei_then_readi [OF r _ _ map ap, of 510 5 "[1, 2, 3, 4, 5]" "\<lambda>_. None" no_dev]
    by (auto simp: x example_inode_def elim!: returns_mono)
qed

end
