(* ===== verification/Mkfs.thy ===== *)
theory Mkfs
  imports Fwrite
begin

text \<open>
  The host program \<^verbatim>\<open>mkfs.c\<close>, which builds the initial disk image. The image file is the list of its sectors: the
  program moves whole sectors at multiples of their size only. A call of \<^verbatim>\<open>exit(1)\<close> after an error, a failed
  \<^verbatim>\<open>assert\<close> included, is the outcome \<open>Panic\<close>. The files of the host are an argument, a map from names to contents.
  The theory shows that the kernel finds the files in the image.
\<close>

section \<open>The program\<close>

abbreviation (input) NINODES :: nat where "NINODES \<equiv> 200"

definition nbitmap :: nat where "nbitmap = FSSIZE div (BSIZE * 8) + 1"
definition ninodeblocks :: nat where "ninodeblocks = NINODES div IPB + 1"
definition nlog :: nat where "nlog = LOGSIZE"
definition nmeta :: nat where "nmeta = 2 + nlog + ninodeblocks + nbitmap"
definition nblocks :: nat where "nblocks = FSSIZE - nmeta"

record mkfs_state =
  image :: "u8 list list"
  msb :: superblock
  freeinode :: u32
  freeblock :: u32

text \<open>Storing the bytes of an integer in Intel order and reading them back as an integer of the host.\<close>

definition xshort :: "u16 \<Rightarrow> u16" where
  "xshort x = get16 [ucast x, ucast (drop_bit 8 x)] 0"

definition xint :: "u32 \<Rightarrow> u32" where
  "xint x = get32 [ucast x, ucast (drop_bit 8 x), ucast (drop_bit 16 x), ucast (drop_bit 24 x)] 0"

text \<open>The sector at the offset \<^verbatim>\<open>sec * BSIZE\<close>, computed in 32 bits. Writing behind the end extends the file with zeroes.\<close>

definition sect :: "u32 \<Rightarrow> nat" where "sect sec = unat (sec * 512) div BSIZE"

definition wsect :: "u32 \<Rightarrow> u8 list \<Rightarrow> mkfs_state \<Rightarrow> mkfs_state" where
  "wsect sec buf s =
     s\<lparr>image := (image s @ replicate (sect sec + 1 - length (image s)) (replicate BSIZE 0))[sect sec := buf]\<rparr>"

definition rsect :: "u32 \<Rightarrow> mkfs_state \<Rightarrow> u8 list outcome" where
  "rsect sec s = (if sect sec < length (image s) then Ret (image s ! sect sec) else Panic ''read'')"

definition winode :: "u32 \<Rightarrow> dinode \<Rightarrow> mkfs_state \<Rightarrow> mkfs_state outcome" where
  "winode inum ip s =
     (let bn = IBLOCK inum (msb s) in
      bindO (rsect bn s) (\<lambda>buf. Ret (wsect bn (put_dinode buf (unat inum mod IPB) ip) s)))"

definition rinode :: "u32 \<Rightarrow> mkfs_state \<Rightarrow> dinode outcome" where
  "rinode inum s =
     (let bn = IBLOCK inum (msb s) in
      bindO (rsect bn s) (\<lambda>buf. Ret (get_dinode buf (unat inum mod IPB))))"

definition mkfs_ialloc :: "u16 \<Rightarrow> mkfs_state \<Rightarrow> (u32 \<times> mkfs_state) outcome" where
  "mkfs_ialloc t s =
     (let inum = freeinode s; s = s\<lparr>freeinode := freeinode s + 1\<rparr>;
          din = \<lparr>d_type = xshort t, d_major = 0, d_minor = 0, d_nlink = xshort 1, d_size = xint 0,
                 d_addrs = replicate (NDIRECT + 1) 0\<rparr>
      in bindO (winode inum din s) (\<lambda>s. Ret (inum, s)))"

definition bitmap_upto :: "nat \<Rightarrow> u8 list" where
  "bitmap_upto n = fold (\<lambda>i buf. buf[i div 8 := buf ! (i div 8) OR push_bit (i mod 8) 1]) [0..<n] (replicate BSIZE 0)"

definition mkfs_balloc :: "int \<Rightarrow> mkfs_state \<Rightarrow> mkfs_state outcome" where
  "mkfs_balloc used s =
     (if \<not> used < int (BSIZE * 8) then Panic ''assert''
      else Ret (wsect (sb_bmapstart (msb s)) (bitmap_upto (nat used)) s))"

text \<open>The block of the file that holds part \<^verbatim>\<open>fbn\<close>, allocated where it is missing.\<close>

definition iappend_block :: "nat \<Rightarrow> dinode \<Rightarrow> mkfs_state \<Rightarrow> (u32 \<times> dinode \<times> mkfs_state) outcome" where
  "iappend_block fbn din s =
     (if fbn < NDIRECT then
        let (din, s) = (if xint (d_addrs din ! fbn) = 0
              then (din\<lparr>d_addrs := (d_addrs din)[fbn := xint (freeblock s)]\<rparr>, s\<lparr>freeblock := freeblock s + 1\<rparr>) else (din, s))
        in Ret (xint (d_addrs din ! fbn), din, s)
      else
        let (din, s) = (if xint (d_addrs din ! NDIRECT) = 0
              then (din\<lparr>d_addrs := (d_addrs din)[NDIRECT := xint (freeblock s)]\<rparr>, s\<lparr>freeblock := freeblock s + 1\<rparr>) else (din, s))
        in bindO (rsect (xint (d_addrs din ! NDIRECT)) s) (\<lambda>indirect.
          let (indirect, s) = (if get32 indirect (4 * (fbn - NDIRECT)) = 0
                then let indirect = put32 indirect (4 * (fbn - NDIRECT)) (xint (freeblock s));
                         s = s\<lparr>freeblock := freeblock s + 1\<rparr>
                     in (indirect, wsect (xint (d_addrs din ! NDIRECT)) indirect s)
                else (indirect, s))
          in Ret (xint (get32 indirect (4 * (fbn - NDIRECT))), din, s)))"

lemma block_rest: "off < (off div BSIZE + 1) * BSIZE"
  using dividend_less_div_times [of BSIZE off] by simp

function iappend_loop :: "u8 list \<Rightarrow> nat \<Rightarrow> dinode \<Rightarrow> mkfs_state \<Rightarrow> (nat \<times> dinode \<times> mkfs_state) outcome" where
  "iappend_loop p off din s =
     (if p = [] then Ret (off, din, s)
      else let fbn = off div BSIZE in
        if \<not> fbn < MAXFILE then Panic ''assert''
        else bindO (iappend_block fbn din s) (\<lambda>(x, din, s).
          let n1 = min (length p) ((fbn + 1) * BSIZE - off) in
          bindO (rsect x s) (\<lambda>buf.
          iappend_loop (drop n1 p) (off + n1) din (wsect x (put_bytes buf (off - fbn * BSIZE) (take n1 p)) s))))"
  by pat_completeness auto

termination
  by (relation "measure (\<lambda>(p, off, din, s). length p)") (use block_rest in \<open>auto simp: min_def\<close>)

declare iappend_loop.simps [simp del]

definition iappend :: "u32 \<Rightarrow> u8 list \<Rightarrow> mkfs_state \<Rightarrow> mkfs_state outcome" where
  "iappend inum p s =
     bindO (rinode inum s) (\<lambda>din.
     bindO (iappend_loop p (unat (xint (d_size din))) din s) (\<lambda>(off, din, s).
     winode inum (din\<lparr>d_size := xint (of_nat off)\<rparr>) s))"

text \<open>\<^verbatim>\<open>main\<close>: the loop over the bytes of one file of the host, the loop over the files, and the whole program.\<close>

function append_file :: "u32 \<Rightarrow> u8 list \<Rightarrow> mkfs_state \<Rightarrow> mkfs_state outcome" where
  "append_file inum bytes s =
     (if bytes = [] then Ret s
      else bindO (iappend inum (take BSIZE bytes) s) (\<lambda>s. append_file inum (drop BSIZE bytes) s))"
  by pat_completeness auto

termination
  by (relation "measure (\<lambda>(inum, bytes, s). length bytes)") auto

declare append_file.simps [simp del]

definition mkdirent :: "u32 \<Rightarrow> u8 list \<Rightarrow> u8 list" where
  "mkdirent inum name = bytes_of_dirent \<lparr>de_inum = xshort (ucast inum), de_name = dir_name name\<rparr>"

definition skip_underscore :: "u8 list \<Rightarrow> u8 list" where
  "skip_underscore name = (case name of [] \<Rightarrow> [] | c # cs \<Rightarrow> if c = 95 then cs else name)"

primrec add_files :: "(u8 list \<Rightarrow> u8 list option) \<Rightarrow> u32 \<Rightarrow> u8 list list \<Rightarrow> mkfs_state \<Rightarrow> mkfs_state outcome" where
  "add_files host rootino [] s = Ret s"
| "add_files host rootino (name # names) s =
     (if 47 \<in> set name then Panic ''assert''
      else case host name of
        None \<Rightarrow> Panic ''open''
      | Some bytes \<Rightarrow>
          bindO (mkfs_ialloc T_FILE s) (\<lambda>(inum, s).
          bindO (iappend rootino (mkdirent inum (skip_underscore name)) s) (\<lambda>s.
          bindO (append_file inum bytes s) (\<lambda>s.
          add_files host rootino names s))))"

definition mkfs_sb :: superblock where
  "mkfs_sb = \<lparr>sb_size = xint (of_nat FSSIZE), sb_nblocks = xint (of_nat nblocks), sb_ninodes = xint (of_nat NINODES),
     sb_nlog = xint (of_nat nlog), sb_logstart = xint 2, sb_inodestart = xint (of_nat (2 + nlog)),
     sb_bmapstart = xint (of_nat (2 + nlog + ninodeblocks))\<rparr>"

definition bytes_of_sb :: "superblock \<Rightarrow> u8 list" where
  "bytes_of_sb x = fold (\<lambda>(i, w) b. put32 b (4 * i) w) (enumerate 0 [sb_size x, sb_nblocks x, sb_ninodes x, sb_nlog x,
     sb_logstart x, sb_inodestart x, sb_bmapstart x]) (replicate BSIZE 0)"

definition mkfs_fixroot :: "u32 \<Rightarrow> mkfs_state \<Rightarrow> mkfs_state outcome" where
  "mkfs_fixroot rootino s =
     bindO (rinode rootino s) (\<lambda>din.
       let off = xint (d_size din); off = (off div 512 + 1) * 512 in
       winode rootino (din\<lparr>d_size := xint off\<rparr>) s)"

definition mkfs_main :: "(u8 list \<Rightarrow> u8 list option) \<Rightarrow> (u8 list \<Rightarrow> bool) \<Rightarrow> u8 list list \<Rightarrow> mkfs_state outcome" where
  "mkfs_main host creates argv =
     (if length argv < 2 then Panic ''Usage: mkfs fs.img files...''
      else if \<not> creates (argv ! 1) then Panic ''open''
      else
        let s = \<lparr>image = [], msb = mkfs_sb, freeinode = 1, freeblock = of_nat nmeta\<rparr>;
            s = fold (\<lambda>i. wsect (of_nat i) (replicate BSIZE 0)) [0..<FSSIZE] s;
            s = wsect 1 (bytes_of_sb (msb s)) s in
        bindO (mkfs_ialloc T_DIR s) (\<lambda>(rootino, s).
        if rootino \<noteq> ROOTINO then Panic ''assert''
        else
          bindO (iappend rootino (mkdirent rootino [46]) s) (\<lambda>s.
          bindO (iappend rootino (mkdirent rootino [46, 46]) s) (\<lambda>s.
          bindO (add_files host rootino (drop 2 argv) s) (\<lambda>s.
          bindO (mkfs_fixroot rootino s) (\<lambda>s.
          mkfs_balloc (sint (freeblock s)) s))))))"

section \<open>Arithmetic of the image\<close>

lemma xint_id [simp]: "xint x = x"
  using get32_put32_same [of 0 "[0, 0, 0, 0]" x] by (simp add: xint_def put32_def numeral_nat)

lemma xshort_id [simp]: "xshort x = x"
  using get16_put16_same [of 0 "[0, 0]" x] by (simp add: xshort_def put16_def)

lemma nmeta_eq: "nmeta = 59" "nlog = 30" "ninodeblocks = 26" "nbitmap = 1" "nblocks = 941"
  by (simp_all add: nblocks_def nmeta_def nlog_def ninodeblocks_def nbitmap_def)

lemma sb_fields [simp]:
  "sb_size mkfs_sb = 1000" "sb_inodestart mkfs_sb = 32" "sb_bmapstart mkfs_sb = 58" "sb_ninodes mkfs_sb = 200"
  "sb_nblocks mkfs_sb = 941" "sb_nlog mkfs_sb = 30" "sb_logstart mkfs_sb = 2"
  by (simp_all add: mkfs_sb_def nmeta_eq)

lemma sect_small: "unat b < FSSIZE \<Longrightarrow> sect b = unat b"
  by (simp add: sect_def unat_word_ariths)

section \<open>Files in the image\<close>

text \<open>
  The parts of a file are its blocks, numbered from 0, and its indirect block, for which the number MAXFILE stands. \<open>m\<close>
  is the number of blocks and \<open>b\<close> tells whether there is an indirect block.
\<close>

definition img_blk :: "u8 list list \<Rightarrow> dinode \<Rightarrow> nat \<Rightarrow> nat" where
  "img_blk img d j = unat (if j = MAXFILE then d_addrs d ! NDIRECT else if j < NDIRECT then d_addrs d ! j
     else get32 (img ! unat (d_addrs d ! NDIRECT)) (4 * (j - NDIRECT)))"

definition parts :: "nat \<Rightarrow> bool \<Rightarrow> nat set" where
  "parts m b = {..<m} \<union> (if b then {MAXFILE} else {})"

definition owned :: "u8 list list \<Rightarrow> dinode \<Rightarrow> nat \<Rightarrow> bool \<Rightarrow> nat set" where
  "owned img d m b = img_blk img d ` parts m b"

definition wf_file :: "u8 list list \<Rightarrow> nat \<Rightarrow> dinode \<Rightarrow> nat \<Rightarrow> bool \<Rightarrow> bool" where
  "wf_file img f d m b \<longleftrightarrow> m \<le> MAXFILE \<and> length (d_addrs d) = NDIRECT + 1 \<and> (NDIRECT < m \<longrightarrow> b) \<and>
     (\<forall>j\<in>parts m b. nmeta \<le> img_blk img d j \<and> img_blk img d j < f) \<and> inj_on (img_blk img d) (parts m b) \<and>
     (\<forall>j. m \<le> j \<and> j < MAXFILE \<and> (j < NDIRECT \<or> b) \<longrightarrow> img_blk img d j = 0) \<and> (\<not> b \<longrightarrow> d_addrs d ! NDIRECT = 0)"

text \<open>The image has its size, and the blocks not given out yet are zero.\<close>

definition img_ok :: "mkfs_state \<Rightarrow> bool" where
  "img_ok s \<longleftrightarrow> length (image s) = FSSIZE \<and> (\<forall>b\<in>set (image s). length b = BSIZE) \<and>
     nmeta \<le> unat (freeblock s) \<and> unat (freeblock s) \<le> FSSIZE \<and>
     (\<forall>k. unat (freeblock s) \<le> k \<and> k < FSSIZE \<longrightarrow> image s ! k = replicate BSIZE 0)"

text \<open>
  \<open>grown s d m b t d' m' b'\<close>: the file has been given more blocks, taken from the free ones, and nothing but its
  indirect block has been written.
\<close>

definition grown :: "mkfs_state \<Rightarrow> dinode \<Rightarrow> nat \<Rightarrow> bool \<Rightarrow> mkfs_state \<Rightarrow> dinode \<Rightarrow> nat \<Rightarrow> bool \<Rightarrow> bool" where
  "grown s d m b t d' m' b' \<longleftrightarrow> img_ok t \<and> wf_file (image t) (unat (freeblock t)) d' m' b' \<and> m \<le> m' \<and> (b \<longrightarrow> b') \<and>
     unat (freeblock t) + m + of_bool b = unat (freeblock s) + m' + of_bool b' \<and>
     msb t = msb s \<and> freeinode t = freeinode s \<and> d'\<lparr>d_addrs := []\<rparr> = d\<lparr>d_addrs := []\<rparr> \<and>
     (\<forall>j\<in>parts m b. img_blk (image t) d' j = img_blk (image s) d j) \<and>
     (\<forall>j\<in>parts m' b' - parts m b. unat (freeblock s) \<le> img_blk (image t) d' j) \<and>
     (\<forall>k. image t ! k \<noteq> image s ! k \<longrightarrow> b' \<and> k = img_blk (image t) d' MAXFILE)"

lemma grown_refl: "img_ok s \<Longrightarrow> wf_file (image s) (unat (freeblock s)) d m b \<Longrightarrow> grown s d m b s d m b"
  by (simp add: grown_def)

lemma grown_trans:
  assumes "grown s d m b t d' m' b'" and "grown t d' m' b' u d'' m'' b''"
  shows "grown s d m b u d'' m'' b''"
proof -
  have p: "parts m b \<subseteq> parts m' b'" using assms(1) by (auto simp: grown_def parts_def)
  have f: "unat (freeblock s) \<le> unat (freeblock t)" using assms(1) by (cases b; cases b') (auto simp: grown_def)
  have i: "image u ! k \<noteq> image s ! k \<Longrightarrow> b'' \<and> k = img_blk (image u) d'' MAXFILE" for k
    using assms by (cases "image u ! k = image t ! k") (auto simp: grown_def parts_def)
  have n: "unat (freeblock s) \<le> img_blk (image u) d'' j" if "j \<in> parts m'' b'' - parts m b" for j
  proof (cases "j \<in> parts m' b'")
    case True
    then show ?thesis using assms that by (simp add: grown_def)
  next
    case False
    then have "unat (freeblock t) \<le> img_blk (image u) d'' j" using assms(2) that by (simp add: grown_def)
    then show ?thesis using f by simp
  qed
  show ?thesis using assms p i n by (auto simp: grown_def)
qed

lemma wf_grow:
  assumes "\<forall>j\<in>P. n0 \<le> g j \<and> g j < f" and "inj_on g P" and "\<And>j. j \<in> P \<Longrightarrow> h j = g j" and "h n = f" and "n0 \<le> f"
  shows "\<forall>j\<in>insert n P. n0 \<le> h j \<and> h j < Suc f" and "n \<notin> P \<Longrightarrow> inj_on h (insert n P)"
proof -
  show "\<forall>j\<in>insert n P. n0 \<le> h j \<and> h j < Suc f" using assms(1,3,4,5) by force
  have "inj_on h P" using assms(2,3) by (simp cong: inj_on_cong)
  then show "n \<notin> P \<Longrightarrow> inj_on h (insert n P)" using assms(1,3,4) by force
qed

lemma parts_grow: "parts (Suc m) b = insert m (parts m b)" "parts m True = insert MAXFILE (parts m False)"
  by (auto simp: parts_def)

lemma all_update: "\<forall>x\<in>set xs. P x \<Longrightarrow> P v \<Longrightarrow> \<forall>x\<in>set (xs[i := v]). P x"
  using set_update_subset_insert [of xs i v] by blast

lemma next_free:
  assumes "img_ok s" and "unat (freeblock s) < FSSIZE"
  shows "unat (freeblock s + 1) = Suc (unat (freeblock s))"
  using assms(2) by (simp add: unat_word_ariths)

text \<open>A direct block is added.\<close>

lemma grow_direct:
  assumes wf: "wf_file (image s) (unat (freeblock s)) d m b" and ok: "img_ok s" and room: "unat (freeblock s) < FSSIZE" and m: "m < NDIRECT"
  shows "grown s d m b (s\<lparr>freeblock := freeblock s + 1\<rparr>) (d\<lparr>d_addrs := (d_addrs d)[m := freeblock s]\<rparr>) (Suc m) b"
proof -
  let ?d = "d\<lparr>d_addrs := (d_addrs d)[m := freeblock s]\<rparr>" and ?f = "unat (freeblock s)"
  have l: "length (d_addrs d) = NDIRECT + 1" using wf by (simp add: wf_file_def)
  have b: "img_blk (image s) ?d j = (if j = m then ?f else img_blk (image s) d j)" for j
    using m l by (auto simp: img_blk_def nth_list_update)
  have n: "m \<notin> parts m b" using m by (auto simp: parts_def)
  have P: "\<forall>j\<in>parts m b. nmeta \<le> img_blk (image s) d j \<and> img_blk (image s) d j < ?f" "inj_on (img_blk (image s) d) (parts m b)"
    and f: "nmeta \<le> ?f" using wf ok by (simp_all add: wf_file_def img_ok_def)
  have o: "img_blk (image s) ?d j = img_blk (image s) d j" if "j \<in> parts m b" for j using b [of j] n that by auto
  note g = wf_grow [OF P o _ f, of m, folded parts_grow]
  have bf: "img_blk (image s) ?d = (\<lambda>j. if j = m then ?f else img_blk (image s) d j)" by (rule ext) (rule b)
  have "wf_file (image s) (Suc ?f) ?d (Suc m) b"
    using wf g n m unfolding wf_file_def bf by (auto simp: Suc_le_eq)
  then show ?thesis
    using ok room n b next_free [OF ok room] by (auto simp: grown_def img_ok_def parts_grow(1))
qed

text \<open>The indirect block is added: the block was zero, so that none of its entries is in use.\<close>

lemma get32_zero: "get32 (replicate BSIZE 0) (4 * i) = 0" if "i < NINDIRECT"
  using that by (simp add: get32_def)

lemma grow_indirect:
  assumes wf: "wf_file (image s) (unat (freeblock s)) d m False" and ok: "img_ok s" and room: "unat (freeblock s) < FSSIZE"
  shows "grown s d m False (s\<lparr>freeblock := freeblock s + 1\<rparr>) (d\<lparr>d_addrs := (d_addrs d)[NDIRECT := freeblock s]\<rparr>) m True"
proof -
  let ?d = "d\<lparr>d_addrs := (d_addrs d)[NDIRECT := freeblock s]\<rparr>" and ?f = "unat (freeblock s)"
  have l: "length (d_addrs d) = NDIRECT + 1" and m: "m \<le> NDIRECT" using wf by (auto simp: wf_file_def)
  have z: "image s ! ?f = replicate BSIZE 0" using ok room by (simp add: img_ok_def)
  have b: "img_blk (image s) ?d j = (if j = MAXFILE then ?f else if j < NDIRECT then img_blk (image s) d j else 0)" if "j \<le> MAXFILE" for j
    using l that get32_zero [of "j - NDIRECT"] by (auto simp: img_blk_def nth_list_update z)
  have n: "MAXFILE \<notin> parts m False" and le: "j \<in> parts m False \<Longrightarrow> j < NDIRECT" for j using m by (auto simp: parts_def)
  have P: "\<forall>j\<in>parts m False. nmeta \<le> img_blk (image s) d j \<and> img_blk (image s) d j < ?f" "inj_on (img_blk (image s) d) (parts m False)"
    and f: "nmeta \<le> ?f" using wf ok by (simp_all add: wf_file_def img_ok_def)
  have o: "img_blk (image s) ?d j = img_blk (image s) d j" if "j \<in> parts m False" for j using b [of j] le [OF that] by simp
  note g = wf_grow [OF P o _ f, of MAXFILE, folded parts_grow]
  have "wf_file (image s) (Suc ?f) ?d m True"
    using wf g n m b unfolding wf_file_def by auto
  then show ?thesis
    using ok room n b o next_free [OF ok room] by (auto simp: grown_def img_ok_def parts_grow(2))
qed

text \<open>An entry of the indirect block is filled.\<close>

lemma grow_entry:
  assumes wf: "wf_file (image s) (unat (freeblock s)) d m True" and ok: "img_ok s" and room: "unat (freeblock s) < FSSIZE"
    and m: "NDIRECT \<le> m" "m < MAXFILE"
  defines "I \<equiv> unat (d_addrs d ! NDIRECT)"
  shows "grown s d m True
    (s\<lparr>freeblock := freeblock s + 1, image := (image s)[I := put32 (image s ! I) (4 * (m - NDIRECT)) (freeblock s)]\<rparr>) d (Suc m) True"
proof -
  let ?f = "unat (freeblock s)" and ?img = "(image s)[I := put32 (image s ! I) (4 * (m - NDIRECT)) (freeblock s)]"
  have I: "img_blk img d MAXFILE = I" for img by (simp add: img_blk_def I_def)
  have "MAXFILE \<in> parts m True" by (simp add: parts_def)
  then have If: "I < ?f" using wf I by (auto simp: wf_file_def)
  then have len: "I < length (image s)" "length (image s ! I) = BSIZE" using ok room by (auto simp: img_ok_def)
  have b: "img_blk ?img d j = (if j = m then ?f else img_blk (image s) d j)" if "j \<le> MAXFILE" for j
  proof (cases "j < NDIRECT \<or> j = MAXFILE")
    case True
    then show ?thesis using m by (auto simp: img_blk_def)
  next
    case False
    have "4 * (j - NDIRECT) + 4 \<le> 4 * (m - NDIRECT) \<or> 4 * (m - NDIRECT) + 4 \<le> 4 * (j - NDIRECT)" if "j \<noteq> m"
      using that False m by (cases "j < m") auto
    with False have "get32 (?img ! I) (4 * (j - NDIRECT)) = (if j = m then freeblock s else get32 (image s ! I) (4 * (j - NDIRECT)))"
      using len m that by auto
    then show ?thesis using False that m by (simp add: img_blk_def flip: I_def)
  qed
  have n: "m \<notin> parts m True" and le: "j \<in> parts m True \<Longrightarrow> j \<le> MAXFILE" for j using m by (auto simp: parts_def)
  have P: "\<forall>j\<in>parts m True. nmeta \<le> img_blk (image s) d j \<and> img_blk (image s) d j < ?f" "inj_on (img_blk (image s) d) (parts m True)"
    and f: "nmeta \<le> ?f" using wf ok by (simp_all add: wf_file_def img_ok_def)
  have o: "img_blk ?img d j = img_blk (image s) d j" if "j \<in> parts m True" for j using b [OF le [OF that]] n that by auto
  note g = wf_grow [OF P o _ f, of m, folded parts_grow]
  have "wf_file ?img (Suc ?f) d (Suc m) True"
    using wf g n m b unfolding wf_file_def by (auto simp: Suc_le_eq)
  moreover have "\<forall>x\<in>set ?img. length x = BSIZE" using ok len(2) by (intro all_update) (simp_all add: img_ok_def)
  moreover have "?img ! k \<noteq> image s ! k \<Longrightarrow> k = I" for k by (cases "k = I") auto
  ultimately show ?thesis
    using ok room n m o b [of m] I If next_free [OF ok room] by (auto simp: grown_def img_ok_def parts_grow(1))
qed

lemma sect_access:
  assumes "img_ok s" and "unat b < FSSIZE"
  shows "rsect b s = Ret (image s ! unat b)" and "wsect b buf s = s\<lparr>image := (image s)[unat b := buf]\<rparr>"
  using assms by (simp_all add: rsect_def wsect_def sect_small img_ok_def)

lemma img_ok_free: "img_ok s \<Longrightarrow> unat (freeblock s) < FSSIZE \<Longrightarrow> img_ok (s\<lparr>freeblock := freeblock s + 1\<rparr>)"
  using next_free [of s] by (simp add: img_ok_def)

text \<open>The block for part \<open>fbn\<close>: present, or added behind the last one.\<close>

lemma iappend_block_ok:
  assumes wf: "wf_file (image s) (unat (freeblock s)) d m (NDIRECT < m)" and ok: "img_ok s" and fbn: "fbn \<le> m" "fbn < MAXFILE"
    and room: "unat (freeblock s) + max m (Suc fbn) + of_bool (NDIRECT < max m (Suc fbn)) \<le> FSSIZE + m + of_bool (NDIRECT < m)"
  obtains x d' t where "iappend_block fbn d s = Ret (x, d', t)"
    and "grown s d m (NDIRECT < m) t d' (max m (Suc fbn)) (NDIRECT < max m (Suc fbn))"
    and "unat x = img_blk (image t) d' fbn"
proof -
  have len: "length (d_addrs d) = NDIRECT + 1" using wf by (simp add: wf_file_def)
  consider "fbn < m" | "fbn = m" "m < NDIRECT" | "fbn = m" "m = NDIRECT" | "fbn = m" "NDIRECT < m" using fbn by linarith
  then show thesis
  proof cases
    case 1
    then have "fbn \<in> parts m (NDIRECT < m)" by (simp add: parts_def)
    then have x: "nmeta \<le> img_blk (image s) d fbn" "img_blk (image s) d fbn < unat (freeblock s)"
      and i: "NDIRECT < m \<Longrightarrow> nmeta \<le> unat (d_addrs d ! NDIRECT) \<and> unat (d_addrs d ! NDIRECT) < FSSIZE"
      using wf ok by (auto simp: wf_file_def img_ok_def img_blk_def parts_def)
    show thesis
    proof (rule that)
      show "iappend_block fbn d s = Ret (of_nat (img_blk (image s) d fbn), d, s)"
        using 1 x i fbn(2) by (auto simp: iappend_block_def img_blk_def nmeta_eq sect_access [OF ok] split: if_splits)
      show "grown s d m (NDIRECT < m) s d (max m (Suc fbn)) (NDIRECT < max m (Suc fbn))"
        using grown_refl [OF ok wf] max_absorb1 [of "Suc fbn" m] 1 by simp
      show "unat (of_nat (img_blk (image s) d fbn) :: u32) = img_blk (image s) d fbn" by (simp add: img_blk_def)
    qed
  next
    case 2
    then have r: "unat (freeblock s) < FSSIZE" using room by simp
    have "img_blk (image s) d m = 0" using wf 2(2) by (simp add: wf_file_def)
    then have z: "d_addrs d ! m = 0" using 2(2) by (simp add: img_blk_def word_unat_eq_iff)
    show thesis
    proof (rule that)
      show "iappend_block fbn d s = Ret (freeblock s, d\<lparr>d_addrs := (d_addrs d)[m := freeblock s]\<rparr>, s\<lparr>freeblock := freeblock s + 1\<rparr>)"
        using 2 z len by (simp add: iappend_block_def)
    qed (use grow_direct [OF wf ok r 2(2)] 2 len in \<open>simp_all add: img_blk_def\<close>)
  next
    case 3
    then have r: "unat (freeblock s) < FSSIZE" "unat (freeblock s) + 1 < FSSIZE" using room by simp_all
    have wf': "wf_file (image s) (unat (freeblock s)) d NDIRECT False" using wf 3 by simp
    let ?d = "d\<lparr>d_addrs := (d_addrs d)[NDIRECT := freeblock s]\<rparr>" and ?t = "s\<lparr>freeblock := freeblock s + 1\<rparr>"
    have g: "grown s d m False ?t ?d m True" using grow_indirect [OF wf' ok r(1)] 3 by simp
    then have t: "wf_file (image ?t) (unat (freeblock ?t)) ?d m True" "img_ok ?t" unfolding grown_def by blast+
    have a: "d_addrs ?d ! NDIRECT = freeblock s" using len by simp
    have rt: "unat (freeblock ?t) < FSSIZE" using r next_free [OF ok r(1)] by simp
    let ?v = "?t\<lparr>freeblock := freeblock ?t + 1, image := (image ?t)[unat (freeblock s) := put32 (image ?t ! unat (freeblock s)) (4 * (m - NDIRECT)) (freeblock ?t)]\<rparr>"
    have g2: "grown ?t ?d m True ?v ?d (Suc m) True" using grow_entry [OF t rt] 3 a by simp
    have zz: "image s ! unat (freeblock s) = replicate BSIZE 0" using ok r by (simp add: img_ok_def)
    have zb: "get32 (replicate BSIZE 0) 0 = 0" using get32_zero [of 0] by simp
    show thesis
    proof (rule that)
      show "iappend_block fbn d s = Ret (freeblock s + 1, ?d, ?v)"
        using 3 wf' len r zz zb sect_access [OF t(2)] sect_access [OF img_ok_free [OF t(2) rt]]
        by (simp add: iappend_block_def wf_file_def Let_def)
      show "grown s d m (NDIRECT < m) ?v ?d (max m (Suc fbn)) (NDIRECT < max m (Suc fbn))"
        using grown_trans [OF g g2] 3 by simp
      show "unat (freeblock s + 1) = img_blk (image ?v) ?d fbn" using 3 len r ok zz by (simp add: img_blk_def img_ok_def)
    qed
  next
    case 4
    then have r: "unat (freeblock s) < FSSIZE" using room by simp
    have wf': "wf_file (image s) (unat (freeblock s)) d m True" using wf 4 by simp
    let ?I = "unat (d_addrs d ! NDIRECT)"
    let ?v = "s\<lparr>freeblock := freeblock s + 1, image := (image s)[?I := put32 (image s ! ?I) (4 * (m - NDIRECT)) (freeblock s)]\<rparr>"
    have I: "nmeta \<le> ?I" "?I < FSSIZE" using wf' ok by (auto simp: wf_file_def img_ok_def img_blk_def parts_def)
    have "img_blk (image s) d m = 0" using wf' 4 fbn(2) by (simp add: wf_file_def)
    then have e: "get32 (image s ! ?I) (4 * (m - NDIRECT)) = 0" using 4 fbn(2) by (simp add: img_blk_def word_unat_eq_iff)
    have l: "length (image s ! ?I) = BSIZE" "?I < length (image s)" using ok I by (auto simp: img_ok_def)
    show thesis
    proof (rule that)
      show "iappend_block fbn d s = Ret (freeblock s, d, ?v)"
        using 4 I e l sect_access [OF ok] sect_access [OF img_ok_free [OF ok r]] fbn(2)
        by (auto simp: iappend_block_def nmeta_eq Let_def)
      show "grown s d m (NDIRECT < m) ?v d (max m (Suc fbn)) (NDIRECT < max m (Suc fbn))"
        using grow_entry [OF wf' ok r] 4 fbn(2) by simp
      show "unat (freeblock s) = img_blk (image ?v) d fbn" using 4 fbn(2) l by (simp add: img_blk_def)
    qed
  qed
qed

section \<open>Appending to a file\<close>

definition img_byte :: "u8 list list \<Rightarrow> dinode \<Rightarrow> nat \<Rightarrow> u8" where
  "img_byte img d p = img ! img_blk img d (p div BSIZE) ! (p mod BSIZE)"

definition img_bytes :: "u8 list list \<Rightarrow> dinode \<Rightarrow> nat \<Rightarrow> u8 list" where
  "img_bytes img d n = map (img_byte img d) [0..<n]"

text \<open>The number of blocks of a file of \<open>n\<close> bytes, and their number with the indirect block.\<close>

definition nblks :: "nat \<Rightarrow> nat" where "nblks n = (n + BSIZE - 1) div BSIZE"

definition nall :: "nat \<Rightarrow> nat" where "nall n = nblks n + of_bool (NDIRECT < nblks n)"

definition file_in :: "mkfs_state \<Rightarrow> dinode \<Rightarrow> nat \<Rightarrow> bool" where
  "file_in s d n \<longleftrightarrow> wf_file (image s) (unat (freeblock s)) d (nblks n) (NDIRECT < nblks n)"

definition blocks_of :: "mkfs_state \<Rightarrow> dinode \<Rightarrow> nat \<Rightarrow> nat set" where
  "blocks_of s d n = owned (image s) d (nblks n) (NDIRECT < nblks n)"

lemma nblks_eq: "k * BSIZE < n \<Longrightarrow> n \<le> Suc k * BSIZE \<Longrightarrow> nblks n = Suc k"
  unfolding nblks_def by (rule div_nat_eqI) simp_all

lemma nblks_less: "p < n \<Longrightarrow> p div BSIZE < nblks n"
  using div_le_mono [of "p + BSIZE" "n + BSIZE - 1" BSIZE] by (simp add: nblks_def)

text \<open>\<open>appended s d n t d' p\<close>: the file \<open>d\<close> of length \<open>n\<close> has become \<open>d'\<close>, with the bytes \<open>p\<close> at its end.\<close>

definition appended :: "mkfs_state \<Rightarrow> dinode \<Rightarrow> nat \<Rightarrow> mkfs_state \<Rightarrow> dinode \<Rightarrow> u8 list \<Rightarrow> bool" where
  "appended s d n t d' p \<longleftrightarrow> img_ok t \<and> file_in t d' (n + length p) \<and>
     unat (freeblock t) + nall n = unat (freeblock s) + nall (n + length p) \<and> unat (freeblock s) \<le> unat (freeblock t) \<and>
     msb t = msb s \<and> freeinode t = freeinode s \<and> d'\<lparr>d_addrs := []\<rparr> = d\<lparr>d_addrs := []\<rparr> \<and>
     img_bytes (image t) d' (n + length p) = img_bytes (image s) d n @ p \<and>
     (\<forall>k. image t ! k \<noteq> image s ! k \<longrightarrow> k \<in> blocks_of t d' (n + length p)) \<and>
     blocks_of s d n \<subseteq> blocks_of t d' (n + length p) \<and>
     blocks_of t d' (n + length p) \<subseteq> blocks_of s d n \<union> {unat (freeblock s)..<unat (freeblock t)}"

lemma appended_trans:
  assumes "appended s d n t d' p" and "appended t d' (n + length p) u d'' q"
  shows "appended s d n u d'' (p @ q)"
proof -
  have "image u ! k \<noteq> image s ! k \<Longrightarrow> k \<in> blocks_of u d'' (n + length p + length q)" for k
    using assms by (cases "image u ! k = image t ! k") (auto simp: appended_def)
  moreover have "blocks_of u d'' (n + length p + length q) \<subseteq> blocks_of s d n \<union> {unat (freeblock s)..<unat (freeblock u)}"
    using assms unfolding appended_def by (auto dest!: subsetD)
  ultimately show ?thesis using assms unfolding appended_def by (simp add: add.assoc) (blast intro: order_trans)
qed

text \<open>Writing into a block that holds data changes no address.\<close>

lemma img_blk_data:
  assumes "wf_file img f d m b" and "n < m"
  shows "img_blk (img[img_blk img d n := v]) d = img_blk img d"
proof
  fix j
  show "img_blk (img[img_blk img d n := v]) d j = img_blk img d j"
  proof (cases "j < NDIRECT \<or> j = MAXFILE")
    case False
    have "img_blk img d n \<noteq> unat (d_addrs d ! NDIRECT)"
    proof (cases b)
      case True
      then have "img_blk img d n = img_blk img d MAXFILE \<longleftrightarrow> n = MAXFILE"
        using assms by (intro inj_on_eq_iff [of _ "parts m b"]) (auto simp: wf_file_def parts_def)
      then show ?thesis using assms by (auto simp: img_blk_def wf_file_def)
    next
      case False
      have "n \<in> parts m b" using assms(2) by (simp add: parts_def)
      then have "nmeta \<le> img_blk img d n" using assms(1) by (simp add: wf_file_def)
      then show ?thesis using False assms(1) by (auto simp: wf_file_def nmeta_eq)
    qed
    then show ?thesis using False by (simp add: img_blk_def)
  qed (auto simp: img_blk_def)
qed

lemma wf_file_data:
  assumes "wf_file img f d m b" and "n < m"
  shows "wf_file (img[img_blk img d n := v]) f d m b" and "owned (img[img_blk img d n := v]) d m b = owned img d m b"
  using assms(1) by (simp_all add: wf_file_def owned_def img_blk_data [OF assms])

lemma img_ok_data:
  assumes "img_ok s" and "k < unat (freeblock s)" and "length v = BSIZE"
  shows "img_ok (s\<lparr>image := (image s)[k := v]\<rparr>)"
  using assms all_update [of "image s" "\<lambda>x. length x = BSIZE" v k] by (auto simp: img_ok_def)

lemma grown_owned:
  assumes "grown s d m b t d' m' b'" and "unat (freeblock s) \<le> unat (freeblock t)"
  shows "owned (image s) d m b \<subseteq> owned (image t) d' m' b'"
    and "owned (image t) d' m' b' \<subseteq> owned (image s) d m b \<union> {unat (freeblock s)..<unat (freeblock t)}"
proof -
  have p: "parts m b \<subseteq> parts m' b'" using assms(1) by (auto simp: grown_def parts_def)
  show "owned (image s) d m b \<subseteq> owned (image t) d' m' b'"
    using assms(1) p unfolding owned_def grown_def by (metis (no_types, lifting) image_cong image_mono)
  show "owned (image t) d' m' b' \<subseteq> owned (image s) d m b \<union> {unat (freeblock s)..<unat (freeblock t)}"
  proof
    fix k
    assume "k \<in> owned (image t) d' m' b'"
    then obtain j where j: "j \<in> parts m' b'" "k = img_blk (image t) d' j" by (auto simp: owned_def)
    have "k < unat (freeblock t)" using assms(1) j by (simp add: grown_def wf_file_def)
    then show "k \<in> owned (image s) d m b \<union> {unat (freeblock s)..<unat (freeblock t)}"
      using assms(1) j by (cases "j \<in> parts m b") (auto simp: grown_def owned_def)
  qed
qed

lemma nblks_round:
  assumes "0 < n1" and "n1 \<le> (off div BSIZE + 1) * BSIZE - off"
  shows "nblks (off + n1) = Suc (off div BSIZE)" and "off div BSIZE \<le> nblks off" and "max (nblks off) (Suc (off div BSIZE)) = nblks (off + n1)"
proof -
  have "off div BSIZE * BSIZE \<le> off" by simp
  then show a: "nblks (off + n1) = Suc (off div BSIZE)" using assms by (intro nblks_eq) auto
  show "off div BSIZE \<le> nblks off" unfolding nblks_def by (intro div_le_mono) simp
  have "nblks off \<le> nblks (off + n1)" unfolding nblks_def by (intro div_le_mono) simp
  then show "max (nblks off) (Suc (off div BSIZE)) = nblks (off + n1)" using a by simp
qed

lemma iappend_round:
  assumes ok: "img_ok s" and fi: "file_in s d off" and p: "p \<noteq> []" and size: "off + length p \<le> MAXFILE * BSIZE"
  defines "n1 \<equiv> min (length p) ((off div BSIZE + 1) * BSIZE - off)"
  assumes room: "unat (freeblock s) + nall (off + n1) \<le> FSSIZE + nall off"
  obtains d' t where "iappend_loop p off d s = iappend_loop (drop n1 p) (off + n1) d' t" and "appended s d off t d' (take n1 p)"
proof -
  let ?fbn = "off div BSIZE" and ?m = "nblks off" and ?n = "nblks (off + n1)"
  have n1: "0 < n1" "n1 \<le> (?fbn + 1) * BSIZE - off" "n1 \<le> length p" using p block_rest [of off] by (auto simp: n1_def)
  note r = nblks_round [OF n1(1,2)]
  have om: "off = ?fbn * BSIZE + off mod BSIZE" "off mod BSIZE < BSIZE" by simp_all
  have "off < MAXFILE * BSIZE" using size p by (cases p) auto
  then have f: "?fbn < MAXFILE" by (rule less_mult_imp_div_less)
  have q: "off mod BSIZE + n1 \<le> BSIZE" using n1(2) om unfolding add_mult_distrib by linarith
  have room': "unat (freeblock s) + max ?m (Suc ?fbn) + of_bool (NDIRECT < max ?m (Suc ?fbn)) \<le> FSSIZE + ?m + of_bool (NDIRECT < ?m)"
    using room unfolding r(3) nall_def by simp
  obtain x d' t where b: "iappend_block ?fbn d s = Ret (x, d', t)" and g: "grown s d ?m (NDIRECT < ?m) t d' ?n (NDIRECT < ?n)"
    and x: "unat x = img_blk (image t) d' ?fbn"
    by (rule iappend_block_ok [OF fi [unfolded file_in_def] ok r(2) f room']) (use r(3) in auto)
  have ft: "img_ok t" "wf_file (image t) (unat (freeblock t)) d' ?n (NDIRECT < ?n)" using g by (simp_all add: grown_def)
  have fbn: "?fbn < ?n" "?fbn \<in> parts ?n (NDIRECT < ?n)" using r(1) by (simp_all add: parts_def)
  then have xf: "unat x < unat (freeblock t)" "unat x < FSSIZE" using ft x by (auto simp: wf_file_def img_ok_def)
  define v where "v = put_bytes (image t ! unat x) (off mod BSIZE) (take n1 p)"
  have lx: "length (image t ! unat x) = BSIZE" "unat x < length (image t)" using ft(1) xf by (auto simp: img_ok_def)
  have lv: "length v = BSIZE" using lx q n1(3) by (simp add: v_def)
  let ?u = "t\<lparr>image := (image t)[unat x := v]\<rparr>"
  have "off - ?fbn * BSIZE = off mod BSIZE" using om(1) by linarith
  then have loop: "iappend_loop p off d s = iappend_loop (drop n1 p) (off + n1) d' ?u"
    using p f b by (subst iappend_loop.simps) (simp add: sect_access [OF ft(1) xf(2)] v_def n1_def Let_def)
  have blk: "img_blk ((image t)[unat x := v]) d' = img_blk (image t) d'" using img_blk_data [OF ft(2) fbn(1), of v] by (simp add: x)
  have wf: "wf_file (image ?u) (unat (freeblock t)) d' ?n (NDIRECT < ?n)" "owned (image ?u) d' ?n (NDIRECT < ?n) = owned (image t) d' ?n (NDIRECT < ?n)"
    using wf_file_data [OF ft(2) fbn(1), of v] by (simp_all add: x)
  have fs: "unat (freeblock s) \<le> unat (freeblock t)" using g by (cases "NDIRECT < ?m"; cases "NDIRECT < ?n") (auto simp: grown_def)
  have inj: "img_blk (image t) d' j = unat x \<longleftrightarrow> j = ?fbn" if "j < ?n" for j
    unfolding x using ft(2) fbn(2) that by (intro inj_on_eq_iff [of _ "parts ?n (NDIRECT < ?n)"]) (auto simp: wf_file_def parts_def)
  have old: "image t ! img_blk (image t) d' j = image s ! img_blk (image s) d j \<and> img_blk (image t) d' j = img_blk (image s) d j" if "j < ?m" for j
  proof -
    have j: "j \<in> parts ?m (NDIRECT < ?m)" "j < ?n" using that r(3) by (auto simp: parts_def)
    have "img_blk (image t) d' j \<noteq> img_blk (image t) d' MAXFILE" if "NDIRECT < ?n"
      using ft(2) j(2) that inj_on_eq_iff [of "img_blk (image t) d'" "parts ?n (NDIRECT < ?n)" j MAXFILE] by (auto simp: wf_file_def parts_def)
    then show ?thesis using g j(1) unfolding grown_def by metis
  qed
  have bytes: "img_byte (image ?u) d' i = (if i < off then img_byte (image s) d i else p ! (i - off))" if i: "i < off + n1" for i
  proof -
    have j: "i div BSIZE < ?n" using i by (rule nblks_less)
    have "img_byte (image ?u) d' i = (if i div BSIZE = ?fbn then v ! (i mod BSIZE) else image t ! img_blk (image t) d' (i div BSIZE) ! (i mod BSIZE))"
      using inj [OF j] lx(2) by (cases "i div BSIZE = ?fbn") (simp_all add: img_byte_def blk nth_list_update)
    also have "\<dots> = (if off \<le> i \<and> i < off + n1 then p ! (i - off)
        else if i div BSIZE = ?fbn then image t ! unat x ! (i mod BSIZE) else image t ! img_blk (image t) d' (i div BSIZE) ! (i mod BSIZE))"
      using round_byte [OF q lx(1), of 0 p i "image t ! img_blk (image t) d' (i div BSIZE) ! (i mod BSIZE)"] n1(3)
      unfolding v_def by (simp only: get_bytes_def drop_0 add_0)
    also have "\<dots> = (if i < off then img_byte (image s) d i else p ! (i - off))"
      using i old [OF nblks_less [of i off]] x by (auto simp: img_byte_def)
    finally show ?thesis .
  qed
  have ib: "img_bytes (image ?u) d' (off + n1) = img_bytes (image s) d off @ take n1 p"
    using bytes n1(3) by (intro nth_equalityI) (auto simp: img_bytes_def nth_append)
  have fr: "k \<in> owned (image t) d' ?n (NDIRECT < ?n)" if "image ?u ! k \<noteq> image s ! k" for k
  proof (cases "k = unat x")
    case True
    then show ?thesis using x fbn(2) by (simp add: owned_def)
  next
    case False
    then have "NDIRECT < ?n \<and> k = img_blk (image t) d' MAXFILE" using g that unfolding grown_def by simp
    then show ?thesis by (auto simp: owned_def parts_def)
  qed
  have "appended s d off ?u d' (take n1 p)"
    unfolding appended_def file_in_def blocks_of_def
    using img_ok_data [OF ft(1) xf(1) lv] wf fs g ib fr grown_owned [OF g fs] n1(3) by (simp add: grown_def nall_def)
  then show thesis using loop by (intro that)
qed

lemma nall_mono: "n \<le> n' \<Longrightarrow> nall n \<le> nall n'"
proof -
  assume "n \<le> n'"
  then have "nblks n \<le> nblks n'" unfolding nblks_def by (intro div_le_mono) simp
  then show "nall n \<le> nall n'" by (auto simp: nall_def)
qed

lemma appended_nil: "img_ok s \<Longrightarrow> file_in s d n \<Longrightarrow> appended s d n s d []"
  by (simp add: appended_def)

lemma iappend_loop_ok:
  assumes "img_ok s" and "file_in s d off" and "off + length p \<le> MAXFILE * BSIZE"
    and "unat (freeblock s) + nall (off + length p) \<le> FSSIZE + nall off"
  shows "returns (iappend_loop p off d s) (\<lambda>(n, d', t). n = off + length p \<and> appended s d off t d' p)"
  using assms
proof (induction "length p" arbitrary: p off d s rule: less_induct)
  case less
  show ?case
  proof (cases "p = []")
    case True
    then show ?thesis using appended_nil [OF less.prems(1,2)] by (subst iappend_loop.simps) simp
  next
    case False
    define n1 where "n1 = min (length p) ((off div BSIZE + 1) * BSIZE - off)"
    have n1: "0 < n1" "n1 \<le> length p" using False block_rest [of off] by (auto simp: n1_def)
    have room: "unat (freeblock s) + nall (off + n1) \<le> FSSIZE + nall off"
      using less.prems(4) nall_mono [of "off + n1" "off + length p"] n1(2) by linarith
    obtain d' t where t: "iappend_loop p off d s = iappend_loop (drop n1 p) (off + n1) d' t" "appended s d off t d' (take n1 p)"
      by (rule iappend_round [OF less.prems(1,2) False less.prems(3) room [unfolded n1_def], folded n1_def])
    have o: "off + length (take n1 p) = off + n1" "off + n1 + length (drop n1 p) = off + length p" using n1(2) by simp_all
    note a = t(2) [unfolded appended_def o(1)]
    have "returns (iappend_loop (drop n1 p) (off + n1) d' t) (\<lambda>(n, d'', u). n = off + n1 + length (drop n1 p) \<and> appended t d' (off + n1) u d'' (drop n1 p))"
    proof (rule less.hyps)
      show "length (drop n1 p) < length p" using n1 False by simp
      show "unat (freeblock t) + nall (off + n1 + length (drop n1 p)) \<le> FSSIZE + nall (off + n1)"
        using a less.prems(4) unfolding o(2) by linarith
    qed (use a less.prems(3) o(2) in simp_all)
    then show ?thesis
      unfolding t(1) by (rule returns_mono) (use appended_trans [OF t(2), of _ _ "drop n1 p"] o in auto)
  qed
qed

section \<open>Inodes of the image\<close>

definition dino :: "mkfs_state \<Rightarrow> nat \<Rightarrow> dinode" where
  "dino s i = get_dinode (image s ! (i div IPB + 32)) (i mod IPB)"

definition dsize :: "mkfs_state \<Rightarrow> nat \<Rightarrow> nat" where "dsize s i = unat (d_size (dino s i))"

lemma inode_sector:
  assumes "i < NINODES" and "msb s = mkfs_sb"
  shows "unat (IBLOCK (of_nat i) (msb s)) = i div IPB + 32" and "unat (of_nat i :: u32) = i" and "i div IPB + 32 < nmeta"
proof -
  have i: "unat (of_nat i :: u32) = i" using assms(1) by (simp add: unat_of_nat)
  have "i div 8 < 26" using assms(1) by simp
  then show "unat (IBLOCK (of_nat i) (msb s)) = i div IPB + 32"
    using i assms(2) by (simp add: IBLOCK_def unat_word_ariths unat_div)
  show "unat (of_nat i :: u32) = i" "i div IPB + 32 < nmeta" using i assms(1) by (simp_all add: nmeta_eq)
qed

lemma rinode_ok:
  assumes "img_ok s" and "i < NINODES" and "msb s = mkfs_sb"
  shows "rinode (of_nat i) s = Ret (dino s i)"
  using inode_sector [OF assms(2,3)] sect_access(1) [OF assms(1), of "IBLOCK (of_nat i) (msb s)"]
  by (simp add: rinode_def dino_def nmeta_eq)

lemma winode_ok:
  assumes ok: "img_ok s" and i: "i < NINODES" and sb: "msb s = mkfs_sb" and d: "length (d_addrs d) = NDIRECT + 1"
  obtains t where "winode (of_nat i) d s = Ret t" and "img_ok t" and "freeblock t = freeblock s" and "freeinode t = freeinode s"
    and "msb t = msb s" and "\<forall>j. dino t j = (if j = i then d else dino s j)" and "\<forall>k\<ge>nmeta. image t ! k = image s ! k"
    and "image t ! 1 = image s ! 1"
proof -
  let ?k = "i div IPB + 32" and ?b = "IBLOCK (of_nat i) (msb s)"
  note k = inode_sector [OF i sb]
  define v where "v = put_dinode (image s ! ?k) (i mod IPB) d"
  have kf: "?k < unat (freeblock s)" using k(3) ok unfolding img_ok_def by linarith
  then have l: "?k < length (image s)" "length (image s ! ?k) = BSIZE" using ok by (auto simp: img_ok_def)
  have m: "64 * (i mod IPB) + 64 \<le> length (image s ! ?k)"
  proof -
    have "i mod IPB < 8" by simp
    then show ?thesis unfolding l(2) by linarith
  qed
  let ?t = "s\<lparr>image := (image s)[?k := v]\<rparr>"
  have "unat ?b < FSSIZE" using k(1,3) by (simp add: nmeta_eq)
  note a = sect_access [OF ok this]
  have w: "winode (of_nat i) d s = Ret ?t" using k(1,2) a by (simp add: winode_def v_def Let_def)
  have t: "img_ok ?t" by (rule img_ok_data [OF ok kf]) (simp add: v_def l)
  have e: "dino ?t j = (if j = i then d else dino s j)" for j
  proof (cases "j div IPB = i div IPB")
    case True
    then have "j = i \<longleftrightarrow> j mod IPB = i mod IPB" by (metis div_mult_mod_eq)
    then show ?thesis using True l(1) get_put_dinode [OF m d] by (simp add: dino_def v_def)
  next
    case False
    then have "j \<noteq> i" by auto
    then show ?thesis using False by (simp add: dino_def)
  qed
  show thesis
    using k(3) e by (intro that [OF w t]) (simp_all add: nmeta_eq)
qed

text \<open>A file depends on its own blocks only.\<close>

lemma wf_frame:
  assumes wf: "wf_file img f d m b" and same: "\<And>k. k \<in> owned img d m b \<Longrightarrow> img' ! k = img ! k" and f: "f \<le> f'"
  shows "wf_file img' f' d m b" and "owned img' d m b = owned img d m b" and "j < m \<Longrightarrow> img_blk img' d j = img_blk img d j"
proof -
  have e: "img_blk img' d j = img_blk img d j" if "j < NDIRECT \<or> b \<or> j = MAXFILE" for j
  proof (cases "j < NDIRECT \<or> j = MAXFILE")
    case False
    then have "MAXFILE \<in> parts m b" using that by (auto simp: parts_def)
    then have "img' ! img_blk img d MAXFILE = img ! img_blk img d MAXFILE" by (intro same) (simp add: owned_def)
    then show ?thesis using False by (simp add: img_blk_def)
  qed (auto simp: img_blk_def)
  have p: "j \<in> parts m b \<Longrightarrow> j < NDIRECT \<or> b \<or> j = MAXFILE" for j using wf by (auto simp: wf_file_def parts_def split: if_splits)
  then show "owned img' d m b = owned img d m b" unfolding owned_def by (intro image_cong refl e)
  have "inj_on (img_blk img' d) (parts m b) = inj_on (img_blk img d) (parts m b)" by (intro inj_on_cong e p)
  then show "wf_file img' f' d m b" using wf f e p unfolding wf_file_def by (auto intro: less_le_trans)
  show "j < m \<Longrightarrow> img_blk img' d j = img_blk img d j" by (intro e p) (simp add: parts_def)
qed

lemma file_frame:
  assumes "file_in s d n" and "\<And>k. k \<in> blocks_of s d n \<Longrightarrow> image t ! k = image s ! k" and "unat (freeblock s) \<le> unat (freeblock t)"
  shows "file_in t d n" and "blocks_of t d n = blocks_of s d n" and "img_bytes (image t) d n = img_bytes (image s) d n"
proof -
  have same: "image t ! k = image s ! k" if "k \<in> owned (image s) d (nblks n) (NDIRECT < nblks n)" for k
    using that assms(2) by (simp add: blocks_of_def)
  note f = wf_frame [OF assms(1) [unfolded file_in_def] _ assms(3), of "image t"]
  have w: "wf_file (image t) (unat (freeblock t)) d (nblks n) (NDIRECT < nblks n)"
    "owned (image t) d (nblks n) (NDIRECT < nblks n) = owned (image s) d (nblks n) (NDIRECT < nblks n)"
    "j < nblks n \<Longrightarrow> img_blk (image t) d j = img_blk (image s) d j" for j
    by (rule f, erule same, assumption?)+
  show "file_in t d n" "blocks_of t d n = blocks_of s d n" using w(1,2) by (simp_all add: file_in_def blocks_of_def)
  have "img_byte (image t) d p = img_byte (image s) d p" if "p < n" for p
  proof -
    have j: "p div BSIZE < nblks n" using that by (rule nblks_less)
    then have "img_blk (image s) d (p div BSIZE) \<in> blocks_of s d n" by (simp add: blocks_of_def owned_def parts_def)
    then show ?thesis using w(3) [OF j] assms(2) by (simp add: img_byte_def)
  qed
  then show "img_bytes (image t) d n = img_bytes (image s) d n" by (simp add: img_bytes_def)
qed

section \<open>The image as a table of files\<close>

text \<open>What an inode number stands for: a type, a number of links and the bytes of the file.\<close>

type_synonym files = "nat \<Rightarrow> u16 \<times> u16 \<times> u8 list"

definition content_of :: "mkfs_state \<Rightarrow> nat \<Rightarrow> u8 list" where
  "content_of s i = img_bytes (image s) (dino s i) (dsize s i)"

definition view :: "mkfs_state \<Rightarrow> files" where
  "view s i = (if i < NINODES then (d_type (dino s i), d_nlink (dino s i), content_of s i) else (0, 0, []))"

definition space :: "files \<Rightarrow> nat" where
  "space v = nmeta + (\<Sum>i<NINODES. nall (length (snd (snd (v i)))))"

definition fblocks :: "mkfs_state \<Rightarrow> nat \<Rightarrow> nat set" where
  "fblocks s i = blocks_of s (dino s i) (dsize s i)"

definition mk_ok :: "mkfs_state \<Rightarrow> bool" where
  "mk_ok s \<longleftrightarrow> img_ok s \<and> msb s = mkfs_sb \<and> superblock_of (image s ! 1) = mkfs_sb \<and> unat (freeinode s) \<le> NINODES \<and>
     (\<forall>i<NINODES. dsize s i \<le> MAXFILE * BSIZE \<and> file_in s (dino s i) (dsize s i)) \<and>
     (\<forall>i<NINODES. unat (freeinode s) \<le> i \<longrightarrow> dsize s i = 0) \<and>
     (\<forall>i<NINODES. \<forall>j<NINODES. i \<noteq> j \<longrightarrow> fblocks s i \<inter> fblocks s j = {}) \<and> unat (freeblock s) = space (view s)"

lemma length_content [simp]: "length (content_of s i) = dsize s i"
  by (simp add: content_of_def img_bytes_def)

lemma space_view: "space (view s) = nmeta + (\<Sum>i<NINODES. nall (dsize s i))"
  by (simp add: space_def view_def)

lemma space_upd:
  assumes "i < NINODES"
  shows "space (v(i := x)) + nall (length (snd (snd (v i)))) = space v + nall (length (snd (snd x)))"
proof -
  have "(\<Sum>j<NINODES. nall (length (snd (snd (w j))))) = nall (length (snd (snd (w i)))) + (\<Sum>j\<in>{..<NINODES} - {i}. nall (length (snd (snd (w j)))))" for w :: files
    using assms by (intro sum.remove) auto
  moreover have "(\<Sum>j\<in>{..<NINODES} - {i}. nall (length (snd (snd ((v(i := x)) j))))) = (\<Sum>j\<in>{..<NINODES} - {i}. nall (length (snd (snd (v j)))))"
    by (intro sum.cong) auto
  ultimately show ?thesis by (simp add: space_def)
qed

text \<open>The inode \<open>i\<close> is replaced by \<open>d\<close>, a file of \<open>n\<close> bytes, whose blocks no other file has.\<close>

lemma mk_ok_replace:
  assumes s: "mk_ok s" and i: "i < NINODES" and t: "img_ok t" "msb t = msb s" "superblock_of (image t ! 1) = mkfs_sb" "unat (freeinode t) \<le> NINODES"
      "\<And>j. j < NINODES \<Longrightarrow> unat (freeinode t) \<le> j \<Longrightarrow> dsize t j = 0"
    and d: "\<And>j. j < NINODES \<Longrightarrow> j \<noteq> i \<Longrightarrow> dino t j = dino s j" and n: "dsize t i \<le> MAXFILE * BSIZE" "file_in t (dino t i) (dsize t i)"
    and free: "unat (freeblock s) \<le> unat (freeblock t)" "unat (freeblock t) + nall (dsize s i) = unat (freeblock s) + nall (dsize t i)"
    and fr: "\<And>k. nmeta \<le> k \<Longrightarrow> image t ! k \<noteq> image s ! k \<Longrightarrow> k \<in> fblocks t i"
    and own: "fblocks t i \<subseteq> fblocks s i \<union> {unat (freeblock s)..<unat (freeblock t)}"
  shows "mk_ok t" and "view t = (view s)(i := (d_type (dino t i), d_nlink (dino t i), content_of t i))"
proof -
  have o: "file_in t (dino s j) (dsize s j) \<and> blocks_of t (dino s j) (dsize s j) = fblocks s j \<and> content_of t j = content_of s j \<and> dsize t j = dsize s j
      \<and> fblocks t i \<inter> fblocks s j = {}"
    if j: "j < NINODES" "j \<noteq> i" for j
  proof -
    have f: "file_in s (dino s j) (dsize s j)" and dis: "fblocks s i \<inter> fblocks s j = {}" using s i j by (auto simp: mk_ok_def)
    have lim: "nmeta \<le> k \<and> k < unat (freeblock s)" if "k \<in> fblocks s j" for k
      using f that by (auto simp: file_in_def wf_file_def fblocks_def blocks_of_def owned_def)
    then have disj: "fblocks t i \<inter> fblocks s j = {}" using own dis by fastforce
    have same: "image t ! k = image s ! k" if "k \<in> blocks_of s (dino s j) (dsize s j)" for k
      using that fr lim disj by (auto simp: fblocks_def)
    note ff = file_frame [OF f same free(1)]
    show ?thesis using ff d [OF j] disj by (simp add: fblocks_def content_of_def dsize_def)
  qed
  have v: "view t = (view s)(i := (d_type (dino t i), d_nlink (dino t i), content_of t i))"
    using o d i by (auto simp: view_def fun_eq_iff)
  then show "view t = (view s)(i := (d_type (dino t i), d_nlink (dino t i), content_of t i))" .
  have "space (view t) + nall (dsize s i) = space (view s) + nall (dsize t i)"
    unfolding v using space_upd [OF i, of "view s" "(d_type (dino t i), d_nlink (dino t i), content_of t i)"] i by (simp add: view_def)
  then have sp: "unat (freeblock t) = space (view t)" using free(2) s by (simp add: mk_ok_def)
  have fb: "fblocks t j = fblocks s j" if "j < NINODES" "j \<noteq> i" for j using o [OF that] d [OF that] by (simp add: fblocks_def dsize_def)
  have dj: "fblocks t j \<inter> fblocks t l = {}" if "j < NINODES" "l < NINODES" "j \<noteq> l" for j l
  proof -
    consider "j = i" | "l = i" | "j \<noteq> i" "l \<noteq> i" by blast
    then show ?thesis
      using o [of j] o [of l] fb [of j] fb [of l] s that by cases (auto simp: mk_ok_def)
  qed
  have "dsize t j \<le> MAXFILE * BSIZE \<and> file_in t (dino t j) (dsize t j)" if "j < NINODES" for j
    using n o [OF that] d s that by (cases "j = i") (auto simp: mk_ok_def dsize_def)
  then show "mk_ok t" using s t sp dj by (simp add: mk_ok_def)
qed

lemma addrs_only [simp]:
  "file_in s (d\<lparr>d_size := x\<rparr>) n = file_in s d n" "blocks_of s (d\<lparr>d_size := x\<rparr>) n = blocks_of s d n"
  "img_bytes img (d\<lparr>d_size := x\<rparr>) n = img_bytes img d n"
proof -
  have b: "img_blk img (d\<lparr>d_size := x\<rparr>) = img_blk img d" for img by (rule ext) (simp add: img_blk_def)
  then show "file_in s (d\<lparr>d_size := x\<rparr>) n = file_in s d n" "blocks_of s (d\<lparr>d_size := x\<rparr>) n = blocks_of s d n"
    "img_bytes img (d\<lparr>d_size := x\<rparr>) n = img_bytes img d n"
    by (simp_all add: file_in_def wf_file_def blocks_of_def owned_def img_bytes_def img_byte_def)
qed

definition append_at :: "nat \<Rightarrow> u8 list \<Rightarrow> files \<Rightarrow> files" where
  "append_at i p v = v(i := (fst (v i), fst (snd (v i)), snd (snd (v i)) @ p))"

lemma blocks_limits:
  assumes "file_in s d n" and "k \<in> blocks_of s d n"
  shows "nmeta \<le> k" and "k < unat (freeblock s)"
  using assms by (auto simp: file_in_def wf_file_def blocks_of_def owned_def)

lemma iappend_ok:
  assumes s: "mk_ok s" and i: "i < unat (freeinode s)" and size: "dsize s i + length p \<le> MAXFILE * BSIZE"
    and room: "space (append_at i p (view s)) \<le> FSSIZE"
  shows "returns (iappend (of_nat i) p s) (\<lambda>t. mk_ok t \<and> freeinode t = freeinode s \<and> view t = append_at i p (view s))"
proof -
  let ?d = "dino s i" and ?n = "dsize s i"
  have ok: "img_ok s" and sb: "msb s = mkfs_sb" and iN: "i < NINODES" and fi: "file_in s ?d ?n" using s i by (auto simp: mk_ok_def)
  have rm: "unat (freeblock s) + nall (?n + length p) \<le> FSSIZE + nall ?n"
    using space_upd [OF iN, of "view s" "(d_type ?d, d_nlink ?d, content_of s i @ p)"] room s iN
    by (simp add: append_at_def view_def mk_ok_def)
  have "returns (iappend_loop p ?n ?d s) (\<lambda>(n, d', u). n = ?n + length p \<and> appended s ?d ?n u d' p)"
    by (rule iappend_loop_ok [OF ok fi size rm])
  then obtain d' u where l: "iappend_loop p ?n ?d s = Ret (?n + length p, d', u)" and a: "appended s ?d ?n u d' p"
    by (auto elim: returnsE)
  note a' = a [unfolded appended_def]
  let ?m = "?n + length p" and ?e = "d'\<lparr>d_size := of_nat (?n + length p)\<rparr>"
  have lm: "unat (of_nat ?m :: u32) = ?m" by (subst unat_of_nat) (use size in simp)
  have fu: "img_ok u" "file_in u d' ?m" "msb u = mkfs_sb" using a' sb by simp_all
  have da: "length (d_addrs ?e) = NDIRECT + 1" using fu(2) by (simp add: file_in_def wf_file_def)
  have low: "image u ! k = image s ! k" if "k < nmeta" for k using a' blocks_limits(1) [OF fu(2), of k] that by fastforce
  have "dino u j = dino s j" if "j < NINODES" for j using inode_sector(3) [OF that sb] low by (simp add: dino_def)
  moreover obtain t where t: "winode (of_nat i) ?e u = Ret t" "img_ok t" "freeblock t = freeblock u" "freeinode t = freeinode u"
      "msb t = msb u" "\<forall>j. dino t j = (if j = i then ?e else dino u j)" "\<forall>k\<ge>nmeta. image t ! k = image u ! k" "image t ! 1 = image u ! 1"
    by (rule winode_ok [OF fu(1) iN fu(3) da])
  ultimately have dt: "dino t j = (if j = i then ?e else dino s j)" if "j < NINODES" for j using that by simp
  have di: "dino t i = ?e" "dsize t i = ?m" using dt [OF iN] lm by (simp_all add: dsize_def)
  have ff: "file_in t d' ?m" "blocks_of t d' ?m = blocks_of u d' ?m" "img_bytes (image t) d' ?m = img_bytes (image u) d' ?m"
    by (rule file_frame [OF fu(2)], use t(3,7) blocks_limits(1) [OF fu(2)] in simp_all)+
  have fb: "fblocks t i = blocks_of u d' ?m" using ff(2) di by (simp add: fblocks_def)
  have fr: "k \<in> fblocks t i" if "nmeta \<le> k" "image t ! k \<noteq> image s ! k" for k using that a' t(7) by (auto simp: fb)
  have fresh: "dsize t j = 0" if "j < NINODES" "unat (freeinode t) \<le> j" for j
    using that s i a' dt [OF that(1)] t(4) by (auto simp: mk_ok_def dsize_def)
  note r = mk_ok_replace [OF s iN t(2) _ _ _ fresh]
  have "mk_ok t" "view t = (view s)(i := (d_type (dino t i), d_nlink (dino t i), content_of t i))"
    by (rule r; use s size a' t(3-5,8) di ff fr fb dt low [of 1] in \<open>auto simp: mk_ok_def nmeta_eq fblocks_def\<close>)+
  moreover have "d_type d' = d_type ?d" "d_nlink d' = d_nlink ?d" using a' by (cases d'; cases ?d; simp)+
  ultimately have "mk_ok t \<and> freeinode t = freeinode s \<and> view t = append_at i p (view s)"
    using a' t(4) ff(3) di iN by (simp add: append_at_def view_def content_of_def fun_eq_iff)
  then show ?thesis
    using rinode_ok [OF ok iN sb] l t(1) by (simp add: iappend_def dsize_def)
qed

lemma mk_ok_sizes:
  assumes "mk_ok s"
  shows "i < NINODES \<Longrightarrow> length (snd (snd (view s i))) = dsize s i" and "unat (freeinode s) \<le> i \<Longrightarrow> snd (snd (view s i)) = []"
  using assms by (auto simp: view_def mk_ok_def content_of_def img_bytes_def)

lemma ialloc_ok:
  assumes s: "mk_ok s" and i: "unat (freeinode s) < NINODES"
  shows "returns (mkfs_ialloc ty s) (\<lambda>(j, t). j = freeinode s \<and> unat (freeinode t) = Suc (unat (freeinode s)) \<and> mk_ok t \<and>
    view t = (view s)(unat (freeinode s) := (ty, 1, [])))"
proof -
  let ?i = "unat (freeinode s)" and ?u = "s\<lparr>freeinode := freeinode s + 1\<rparr>"
  let ?d = "\<lparr>d_type = ty, d_major = 0, d_minor = 0, d_nlink = 1, d_size = 0, d_addrs = replicate (NDIRECT + 1) (0 :: u32)\<rparr>"
  have n: "unat (freeinode s + 1) = Suc ?i" using i by (simp add: unat_word_ariths)
  have u: "img_ok ?u" "msb ?u = mkfs_sb" "length (d_addrs ?d) = NDIRECT + 1" using s by (simp_all add: mk_ok_def img_ok_def)
  have du: "dino ?u j = dino s j" for j by (simp add: dino_def)
  obtain t where t: "winode (of_nat ?i) ?d ?u = Ret t" "img_ok t" "freeblock t = freeblock ?u" "freeinode t = freeinode ?u"
      "msb t = msb ?u" "\<forall>j. dino t j = (if j = ?i then ?d else dino ?u j)" "\<forall>k\<ge>nmeta. image t ! k = image ?u ! k" "image t ! 1 = image ?u ! 1"
    by (rule winode_ok [OF u(1) i u(2,3)])
  have d0: "dsize s ?i = 0" "dsize t ?i = 0" using s i t(6) by (simp_all add: mk_ok_def dsize_def)
  have e: "file_in t ?d 0" "blocks_of t ?d 0 = {}" using t(2)
    by (auto simp: file_in_def wf_file_def blocks_of_def owned_def parts_def nblks_def img_blk_def)
  have c: "content_of t ?i = []" using d0(2) by (simp add: content_of_def img_bytes_def)
  have "mk_ok t" "view t = (view s)(?i := (d_type (dino t ?i), d_nlink (dino t ?i), content_of t ?i))"
    by (rule mk_ok_replace [OF s i t(2)]; use s i n t(3-8) d0 e du in \<open>auto simp: mk_ok_def fblocks_def dsize_def\<close>)+
  then have "mk_ok t \<and> view t = (view s)(?i := (ty, 1, []))" using t(6) c by simp
  then show ?thesis using t(1,4) n by (simp add: mkfs_ialloc_def Let_def)
qed

lemma append_at_append: "append_at i q (append_at i p v) = append_at i (p @ q) v"
  by (simp add: append_at_def)

lemma append_at_sel: "length (snd (snd (append_at i p v j))) = (if j = i then length (snd (snd (v i))) + length p else length (snd (snd (v j))))"
  by (simp add: append_at_def)

lemma space_mono: "(\<And>j. length (snd (snd (v j))) \<le> length (snd (snd (w j)))) \<Longrightarrow> space v \<le> space w"
  unfolding space_def by (intro add_left_mono sum_mono nall_mono)

lemma append_file_ok:
  assumes "mk_ok s" and "i < unat (freeinode s)" and "dsize s i + length bytes \<le> MAXFILE * BSIZE"
    and "space (append_at i bytes (view s)) \<le> FSSIZE"
  shows "returns (append_file (of_nat i) bytes s) (\<lambda>t. mk_ok t \<and> freeinode t = freeinode s \<and> view t = append_at i bytes (view s))"
  using assms
proof (induction "length bytes" arbitrary: bytes s rule: less_induct)
  case less
  show ?case
  proof (cases "bytes = []")
    case True
    then show ?thesis using less.prems(1) by (subst append_file.simps) (simp add: append_at_def)
  next
    case False
    let ?p = "take BSIZE bytes" and ?q = "drop BSIZE bytes"
    have iN: "i < NINODES" using less.prems(1,2) by (simp add: mk_ok_def)
    have "space (append_at i ?p (view s)) \<le> space (append_at i bytes (view s))" by (rule space_mono) (simp add: append_at_sel)
    then have "returns (iappend (of_nat i) ?p s) (\<lambda>t. mk_ok t \<and> freeinode t = freeinode s \<and> view t = append_at i ?p (view s))"
      using less.prems by (intro iappend_ok) auto
    then obtain t where t: "iappend (of_nat i) ?p s = Ret t" "mk_ok t" "freeinode t = freeinode s" "view t = append_at i ?p (view s)"
      by (auto elim: returnsE)
    have all: "append_at i ?q (view t) = append_at i bytes (view s)" by (simp add: t(4) append_at_append)
    have sz: "dsize t i = dsize s i + length ?p"
      using mk_ok_sizes(1) [OF t(2) iN] mk_ok_sizes(1) [OF less.prems(1) iN] by (simp add: t(4) append_at_sel)
    have "length ?p + length ?q = length bytes" by simp
    then have "returns (append_file (of_nat i) ?q t) (\<lambda>u. mk_ok u \<and> freeinode u = freeinode t \<and> view u = append_at i ?q (view t))"
      using False less.prems t all sz by (intro less.hyps) simp_all
    then show ?thesis using False t(1,3) by (subst append_file.simps) (simp add: all)
  qed
qed

primrec files_added :: "(u8 list \<times> u8 list) list \<Rightarrow> nat \<Rightarrow> files \<Rightarrow> files" where
  "files_added [] n v = v"
| "files_added (f # fs) n v = files_added fs (Suc n)
     (append_at n (snd f) (append_at 1 (mkdirent (of_nat n) (skip_underscore (fst f))) (v(n := (T_FILE, 1, [])))))"

lemma length_mkdirent [simp]: "length (mkdirent i name) = 16"
  by (simp add: mkdirent_def bytes_of_dirent_def dir_name_def)

lemma files_added_grows:
  assumes "\<forall>j\<ge>n. snd (snd (v j)) = []" and "1 < n"
  shows "length (snd (snd (v j))) \<le> length (snd (snd (files_added fs n v j)))"
  using assms
proof (induction fs arbitrary: n v)
  case (Cons f fs)
  let ?w = "append_at n (snd f) (append_at 1 (mkdirent (of_nat n) (skip_underscore (fst f))) (v(n := (T_FILE, 1, []))))"
  have "length (snd (snd (v j))) \<le> length (snd (snd (?w j)))" using Cons.prems by (simp add: append_at_sel)
  also have "\<dots> \<le> length (snd (snd (files_added fs (Suc n) ?w j)))" using Cons.prems by (intro Cons.IH) (auto simp: append_at_def)
  finally show ?case by simp
qed simp

text \<open>The files of the host that the program is given.\<close>

definition host_files :: "(u8 list \<Rightarrow> u8 list option) \<Rightarrow> u8 list list \<Rightarrow> (u8 list \<times> u8 list) list" where
  "host_files host names = map (\<lambda>x. (x, the (host x))) names"

definition acceptable :: "(u8 list \<Rightarrow> u8 list option) \<Rightarrow> u8 list list \<Rightarrow> bool" where
  "acceptable host names \<longleftrightarrow> (\<forall>x\<in>set names. 47 \<notin> set x \<and> (\<exists>c. host x = Some c \<and> length c \<le> MAXFILE * BSIZE))"

lemma add_files_ok:
  assumes "mk_ok s" and "1 < unat (freeinode s)" and "unat (freeinode s) + length names \<le> NINODES" and "acceptable host names"
    and "dsize s 1 + 16 * length names \<le> MAXFILE * BSIZE"
    and "space (files_added (host_files host names) (unat (freeinode s)) (view s)) \<le> FSSIZE"
  shows "returns (add_files host 1 names s) (\<lambda>t. mk_ok t \<and> view t = files_added (host_files host names) (unat (freeinode s)) (view s))"
  using assms
proof (induction names arbitrary: s)
  case (Cons x names)
  let ?n = "unat (freeinode s)"
  obtain c where x: "47 \<notin> set x" "host x = Some c" "length c \<le> MAXFILE * BSIZE" using Cons.prems(4) by (auto simp: acceptable_def)
  have acc: "acceptable host names" using Cons.prems(4) by (simp add: acceptable_def)
  have nN: "?n < NINODES" using Cons.prems(3) by simp
  define v where "v = (view s)(?n := (T_FILE, 1, []))"
  define v1 where "v1 = append_at 1 (mkdirent (of_nat ?n) (skip_underscore x)) v"
  define v2 where "v2 = append_at ?n c v1"
  have fin: "files_added (host_files host (x # names)) ?n (view s) = files_added (host_files host names) (Suc ?n) v2"
    by (simp add: host_files_def v2_def v1_def v_def x)
  have emp: "\<forall>j\<ge>Suc ?n. snd (snd (v2 j)) = []"
    using mk_ok_sizes(2) [OF Cons.prems(1)] Cons.prems(2) by (auto simp: v2_def v1_def v_def append_at_def)
  have "space v2 \<le> space (files_added (host_files host names) (Suc ?n) v2)"
    by (rule space_mono, rule files_added_grows [OF emp]) (use Cons.prems(2) in simp)
  then have sp2: "space v2 \<le> FSSIZE" using Cons.prems(6) fin by simp
  have "space v1 \<le> space v2" by (rule space_mono) (simp add: v2_def append_at_sel)
  then have sp1: "space v1 \<le> FSSIZE" using sp2 by linarith
  obtain t where t: "mkfs_ialloc T_FILE s = Ret (freeinode s, t)" "unat (freeinode t) = Suc ?n" "mk_ok t" "view t = v"
    using ialloc_ok [OF Cons.prems(1) nN, of T_FILE] by (auto simp: v_def elim!: returnsE)
  have sz: "dsize t 1 = dsize s 1" "dsize t ?n = 0"
    using mk_ok_sizes(1) [OF t(3), of 1] mk_ok_sizes(1) [OF t(3) nN] mk_ok_sizes(1) [OF Cons.prems(1), of 1] Cons.prems(2)
    by (simp_all add: t(4) v_def)
  have "returns (iappend (of_nat 1) (mkdirent (of_nat ?n) (skip_underscore x)) t) (\<lambda>u. mk_ok u \<and> freeinode u = freeinode t \<and> view u = v1)"
    unfolding v1_def t(4) [symmetric] using t Cons.prems(2,5) sz sp1 by (intro iappend_ok) (simp_all add: v1_def)
  then obtain u where u: "iappend 1 (mkdirent (freeinode s) (skip_underscore x)) t = Ret u" "mk_ok u" "freeinode u = freeinode t" "view u = v1"
    by (auto elim!: returnsE)
  have s1: "dsize u ?n = 0" "dsize u 1 = dsize s 1 + 16"
    using mk_ok_sizes(1) [OF u(2) nN] mk_ok_sizes(1) [OF u(2), of 1] mk_ok_sizes(1) [OF Cons.prems(1), of 1] Cons.prems(2)
    by (simp_all add: u(4) v1_def v_def append_at_sel)
  have "returns (append_file (of_nat ?n) c u) (\<lambda>w. mk_ok w \<and> freeinode w = freeinode u \<and> view w = v2)"
    unfolding v2_def u(4) [symmetric] using u t(2) x(3) sp2 s1(1) by (intro append_file_ok) (simp_all add: v2_def)
  then obtain w where w: "append_file (freeinode s) c u = Ret w" "mk_ok w" "freeinode w = freeinode u" "view w = v2"
    by (auto elim!: returnsE)
  have "dsize w 1 = dsize s 1 + 16"
    using mk_ok_sizes(1) [OF w(2), of 1] mk_ok_sizes(1) [OF u(2), of 1] Cons.prems(2) s1 by (simp add: w(4) u(4) v2_def append_at_sel)
  then have "returns (add_files host 1 names w) (\<lambda>z. mk_ok z \<and> view z = files_added (host_files host names) (unat (freeinode w)) (view w))"
    using Cons.prems(2,3,5,6) w u t acc fin by (intro Cons.IH) simp_all
  then show ?case using x t(1,2) u(1,3) w(1,3,4) fin by simp
qed (simp add: host_files_def)

text \<open>The empty image.\<close>

definition zero_image :: mkfs_state where
  "zero_image = \<lparr>image = replicate FSSIZE (replicate BSIZE 0), msb = mkfs_sb, freeinode = 1, freeblock = of_nat nmeta\<rparr>"

definition start_image :: mkfs_state where
  "start_image = wsect 1 (bytes_of_sb mkfs_sb) zero_image"

lemma wsect_zero:
  assumes "length (image s) = i" and "i < FSSIZE"
  shows "wsect (of_nat i) b s = s\<lparr>image := image s @ [b]\<rparr>"
proof -
  have "unat (of_nat i :: u32) = i" using assms(2) by (simp add: unat_of_nat)
  then show ?thesis using assms sect_small [of "of_nat i"] by (simp add: wsect_def list_update_append)
qed

lemma zero_loop:
  "n \<le> FSSIZE \<Longrightarrow> fold (\<lambda>i. wsect (of_nat i) (replicate BSIZE 0)) [0..<n] (s\<lparr>image := []\<rparr>) = s\<lparr>image := replicate n (replicate BSIZE 0)\<rparr>"
proof (induction n)
  case (Suc n)
  then show ?case using wsect_zero [of "s\<lparr>image := replicate n (replicate BSIZE 0)\<rparr>" n] by (simp add: replicate_append_same)
qed simp

lemma sb_bytes: "length (bytes_of_sb x) = BSIZE" "superblock_of (bytes_of_sb x) = x"
  by (simp_all add: bytes_of_sb_def superblock_of_def)

lemma get_zero: "o1 + 1 < n \<Longrightarrow> get16 (replicate n 0) o1 = 0" "o1 + 3 < n \<Longrightarrow> get32 (replicate n 0) o1 = 0"
  by (simp_all add: get16_def get32_def)

lemma zero_dinode:
  assumes "k < IPB"
  shows "get_dinode (replicate BSIZE 0) k = \<lparr>d_type = 0, d_major = 0, d_minor = 0, d_nlink = 0, d_size = 0, d_addrs = replicate (NDIRECT + 1) 0\<rparr>"
proof -
  have "map (\<lambda>i. get32 (replicate BSIZE 0) (64 * k + 12 + 4 * i)) [0..<NDIRECT + 1] = replicate (NDIRECT + 1) 0"
    using assms by (intro nth_equalityI) (simp_all add: get_zero)
  then show ?thesis using assms by (simp add: get_dinode_def get_zero del: upt_rec_numeral)
qed

lemma start_image_sel:
  "image start_image = (replicate FSSIZE (replicate BSIZE 0))[1 := bytes_of_sb mkfs_sb]" "msb start_image = mkfs_sb"
  "freeinode start_image = 1" "freeblock start_image = 59"
  by (simp_all add: start_image_def zero_image_def wsect_def sect_def nmeta_eq)

lemma start_dino:
  assumes "i < NINODES"
  shows "dino start_image i = \<lparr>d_type = 0, d_major = 0, d_minor = 0, d_nlink = 0, d_size = 0, d_addrs = replicate (NDIRECT + 1) 0\<rparr>"
proof -
  have "i div 8 + 32 < FSSIZE" "i div 8 + 32 \<noteq> 1" using assms by simp_all
  then show ?thesis using zero_dinode [of "i mod 8"] by (simp add: dino_def start_image_sel)
qed

lemma start_ok: "mk_ok start_image" and start_view: "view start_image = (\<lambda>_. (0, 0, []))"
proof -
  have z: "dsize start_image i = 0" if "i < NINODES" for i using start_dino [OF that] by (simp add: dsize_def)
  have v: "view start_image = (\<lambda>_. (0, 0, []))"
    using start_dino z by (auto simp: view_def content_of_def img_bytes_def fun_eq_iff)
  then show "view start_image = (\<lambda>_. (0, 0, []))" .
  have sp: "space (view start_image) = 59" unfolding v by (simp add: space_def nmeta_eq nall_def nblks_def)
  have "file_in start_image (dino start_image i) 0 \<and> fblocks start_image i = {}" if "i < NINODES" for i
    using start_dino [OF that] z [OF that]
    by (auto simp: fblocks_def file_in_def wf_file_def blocks_of_def owned_def parts_def nblks_def img_blk_def)
  moreover have "\<forall>b\<in>set (image start_image). length b = BSIZE"
    unfolding start_image_sel by (rule all_update) (simp_all add: sb_bytes)
  ultimately show "mk_ok start_image"
    using z sp by (auto simp: mk_ok_def img_ok_def start_image_sel sb_bytes nmeta_eq)
qed

section \<open>The finished image\<close>

lemma files_added_sel:
  assumes "1 < n"
  shows "k < length fs \<Longrightarrow> files_added fs n v (n + k) = (T_FILE, 1, snd (fs ! k))"
    and "j < n \<Longrightarrow> j \<noteq> 1 \<Longrightarrow> files_added fs n v j = v j"
    and "files_added fs n v 1 = (fst (v 1), fst (snd (v 1)), snd (snd (v 1)) @
      concat (map (\<lambda>k. mkdirent (of_nat (n + k)) (skip_underscore (fst (fs ! k)))) [0..<length fs]))"
proof -
  have low: "j < n \<Longrightarrow> j \<noteq> 1 \<Longrightarrow> files_added fs n v j = v j" for j fs n v
    by (induction fs arbitrary: n v) (auto simp: append_at_def)
  then show "j < n \<Longrightarrow> j \<noteq> 1 \<Longrightarrow> files_added fs n v j = v j" .
  show "k < length fs \<Longrightarrow> files_added fs n v (n + k) = (T_FILE, 1, snd (fs ! k))"
    using assms
  proof (induction fs arbitrary: n v k)
    case (Cons f fs)
    show ?case
    proof (cases k)
      case 0
      then show ?thesis using Cons.prems by (simp add: low append_at_def)
    next
      case (Suc l)
      then show ?thesis using Cons.IH [of l "Suc n"] Cons.prems by simp
    qed
  qed simp
  show "files_added fs n v 1 = (fst (v 1), fst (snd (v 1)), snd (snd (v 1)) @
      concat (map (\<lambda>k. mkdirent (of_nat (n + k)) (skip_underscore (fst (fs ! k)))) [0..<length fs]))"
    using assms
  proof (induction fs arbitrary: n v)
    case (Cons f fs)
    have "[0..<length (f # fs)] = 0 # map Suc [0..<length fs]" by (simp add: map_Suc_upt upt_conv_Cons del: upt_Suc)
    then show ?case using Cons.prems Cons.IH [of "Suc n"] by (simp add: append_at_def comp_def ac_simps del: upt_Suc)
  qed simp
qed

text \<open>The bitmap that the program writes.\<close>

lemma bitmap_bits:
  "n \<le> BPB \<Longrightarrow> length (bitmap_upto n) = BSIZE \<and> (\<forall>c<BPB. map_bit (bitmap_upto n) c = (c < n))"
proof (induction n)
  case 0
  then show ?case by (simp add: map_bit_def bitmap_upto_def)
next
  case (Suc n)
  let ?d = "bitmap_upto n"
  have d: "length ?d = BSIZE" "\<forall>c<BPB. map_bit ?d c = (c < n)" using Suc by simp_all
  have "n div 8 < length ?d" using Suc.prems unfolding d(1) by simp
  note m = map_bit_set [OF this, unfolded bit_mask_def]
  have "map_bit (?d[n div 8 := ?d ! (n div 8) OR push_bit (n mod 8) 1]) c = (c < Suc n)" if "c < BPB" for c
    unfolding m using d(2) that by (auto simp: less_Suc_eq)
  moreover have "bitmap_upto (Suc n) = ?d[n div 8 := ?d ! (n div 8) OR push_bit (n mod 8) 1]" by (simp add: bitmap_upto_def)
  ultimately show ?case using d(1) by simp
qed

text \<open>After the files: the size of the root directory and the bitmap are written.\<close>

lemma finish_ok:
  assumes s: "mk_ok s"
  obtains t where "bindO (mkfs_fixroot 1 s) (\<lambda>s. mkfs_balloc (sint (freeblock s)) s) = Ret t" and "img_ok t" and "freeblock t = freeblock s"
    and "\<forall>j<NINODES. dino t j = (if j = 1 then (dino s 1)\<lparr>d_size := (d_size (dino s 1) div 512 + 1) * 512\<rparr> else dino s j)"
    and "\<forall>k\<ge>nmeta. image t ! k = image s ! k" and "superblock_of (image t ! 1) = mkfs_sb"
    and "\<forall>c<BPB. map_bit (image t ! 58) c = (c < unat (freeblock s))" and "msb t = mkfs_sb"
proof -
  have ok: "img_ok s" "msb s = mkfs_sb" and f: "file_in s (dino s 1) (dsize s 1)" and sb: "superblock_of (image s ! 1) = mkfs_sb"
    using s by (auto simp: mk_ok_def)
  let ?d = "(dino s 1)\<lparr>d_size := (d_size (dino s 1) div 512 + 1) * 512\<rparr>"
  have l: "length (d_addrs ?d) = NDIRECT + 1" using f by (simp add: file_in_def wf_file_def)
  obtain u where u: "winode (of_nat 1) ?d s = Ret u" "img_ok u" "freeblock u = freeblock s" "freeinode u = freeinode s"
      "msb u = msb s" "\<forall>j. dino u j = (if j = 1 then ?d else dino s j)" "\<forall>k\<ge>nmeta. image u ! k = image s ! k" "image u ! 1 = image s ! 1"
    by (rule winode_ok [OF ok(1) _ ok(2) l, of 1]) simp
  have fr: "mkfs_fixroot 1 s = Ret u" using rinode_ok [OF ok(1) _ ok(2), of 1] u(1) by (simp add: mkfs_fixroot_def Let_def)
  have fb: "nmeta \<le> unat (freeblock s)" "unat (freeblock s) \<le> FSSIZE" using ok(1) by (simp_all add: img_ok_def)
  have si: "sint (freeblock s) = int (unat (freeblock s))" using fb(2) by (intro sint_small) simp
  have ui: "uint (freeblock s) = int (unat (freeblock s))" by simp
  then have ub: "uint (freeblock s) < 4096" using fb(2) by linarith
  let ?v = "bitmap_upto (unat (freeblock s))"
  note b = bitmap_bits [of "unat (freeblock s)"]
  let ?t = "u\<lparr>image := (image u)[58 := ?v]\<rparr>"
  have wb: "mkfs_balloc (sint (freeblock u)) u = Ret ?t"
    using fb(2) u(3,5) ok(2) sect_access(2) [OF u(2), of 58] ub by (simp add: mkfs_balloc_def si)
  have lt: "58 < length (image u)" "58 < unat (freeblock u)" using u(2,3) fb(1) by (simp_all add: img_ok_def nmeta_eq)
  have t: "img_ok ?t" using b fb(2) by (intro img_ok_data [OF u(2) lt(2)]) simp
  have "j div 8 + 32 \<noteq> 58" if "j < NINODES" for j using inode_sector(3) [OF that ok(2)] that by auto
  then have "dino ?t j = dino u j" if "j < NINODES" for j using that by (simp add: dino_def)
  then show thesis
    using fr wb u sb b fb lt ok(2) by (intro that [OF _ t]) (simp_all add: nmeta_eq)
qed

section \<open>The image seen by the kernel\<close>

text \<open>A kernel that runs on the image: the contents of its blocks are the sectors, and it has read the super block.\<close>

definition runs_on :: "u8 list list \<Rightarrow> 'a fs_state_scheme \<Rightarrow> bool" where
  "runs_on img k \<longleftrightarrow> length (memdisk k) = FSSIZE \<and> (\<forall>b. unat b < FSSIZE \<longrightarrow> content b k = img ! unat b) \<and> sb k = superblock_of (img ! 1)"

lemma kernel_inode:
  assumes "runs_on (image t) k" and "superblock_of (image t ! 1) = mkfs_sb" and "i < NINODES"
  shows "disk_inode k (of_nat i) = dino t i"
proof -
  have sb: "sb k = mkfs_sb" using assms(1,2) by (simp add: runs_on_def)
  note s = inode_sector [OF assms(3), of "undefined\<lparr>msb := mkfs_sb\<rparr>"]
  have "content (IBLOCK (of_nat i) (sb k)) k = image t ! (i div IPB + 32)"
    using assms(1) s sb by (simp add: runs_on_def nmeta_eq)
  then show ?thesis using s(2) by (simp add: disk_inode_def dino_def)
qed

lemma kernel_file:
  assumes k: "runs_on (image t) k" and ok: "img_ok t" and d: "file_in t d n" and p: "p < n"
  shows "file_mapped k (loaded d x) (p div BSIZE)" and "file_byte k (loaded d x) p = img_bytes (image t) d n ! p"
proof -
  let ?j = "p div BSIZE"
  have j: "?j < nblks n" using p by (rule nblks_less)
  have jM: "?j < MAXFILE" using j d by (simp add: file_in_def wf_file_def)
  have lim: "nmeta \<le> img_blk (image t) d i \<and> img_blk (image t) d i < FSSIZE" if "i \<in> parts (nblks n) (NDIRECT < nblks n)" for i
    using d ok that by (auto simp: file_in_def wf_file_def img_ok_def)
  have I: "nmeta \<le> unat (d_addrs d ! NDIRECT) \<and> unat (d_addrs d ! NDIRECT) < FSSIZE" if "NDIRECT \<le> ?j"
    using lim [of MAXFILE] that j by (simp add: parts_def img_blk_def)
  have b: "unat (file_blk k (loaded d x) ?j) = img_blk (image t) d ?j"
    using k I jM by (simp add: file_blk_def img_blk_def loaded_def runs_on_def)
  have r: "nmeta \<le> img_blk (image t) d ?j \<and> img_blk (image t) d ?j < FSSIZE" by (rule lim) (use j in \<open>simp add: parts_def\<close>)
  have c: "content (file_blk k (loaded d x) ?j) k = image t ! img_blk (image t) d ?j" using k b r by (simp add: runs_on_def)
  have l: "length (image t ! img_blk (image t) d ?j) = BSIZE" using ok r by (simp add: img_ok_def)
  have "file_blk k (loaded d x) ?j \<noteq> 0" using b r by (auto simp: nmeta_eq)
  then show "file_mapped k (loaded d x) ?j"
    using jM b r c l I k by (auto simp: file_mapped_def runs_on_def loaded_def nmeta_eq)
  show "file_byte k (loaded d x) p = img_bytes (image t) d n ! p"
    using c p by (simp add: file_byte_def img_bytes_def img_byte_def)
qed

lemma kernel_bitmap:
  assumes "runs_on (image t) k" and "superblock_of (image t ! 1) = mkfs_sb" and "\<forall>c<BPB. map_bit (image t ! 58) c = (c < f)" and "unat b < FSSIZE"
  shows "in_use k b = (unat b < f)"
proof -
  have sb: "sb k = mkfs_sb" using assms(1,2) by (simp add: runs_on_def)
  have "unat (BBLOCK b (sb k)) = 58" using assms(4) sb by (simp add: BBLOCK_def unat_word_ariths unat_div)
  then show ?thesis using assms by (simp add: in_use_def runs_on_def)
qed

section \<open>The whole program\<close>

lemma space_files:
  assumes "1 < n" and "n + length fs \<le> NINODES" and "\<forall>j\<ge>n. snd (snd (v j)) = []"
  shows "space (files_added fs n v) + nall (length (snd (snd (v 1)))) =
    space v + nall (length (snd (snd (v 1))) + 16 * length fs) + (\<Sum>f\<leftarrow>fs. nall (length (snd f)))"
  using assms
proof (induction fs arbitrary: n v)
  case (Cons f fs)
  define v0 where "v0 = v(n := (T_FILE, 1, []))"
  define v1 where "v1 = append_at 1 (mkdirent (of_nat n) (skip_underscore (fst f))) v0"
  define v2 where "v2 = append_at n (snd f) v1"
  have n: "n < NINODES" "1 < NINODES" using Cons.prems by simp_all
  have z: "nall 0 = 0" by (simp add: nall_def nblks_def)
  have "space v0 = space v" using space_upd [OF n(1), of v "(T_FILE, 1, [])"] Cons.prems(3) by (simp add: v0_def z)
  moreover have "space v1 + nall (length (snd (snd (v 1)))) = space v0 + nall (length (snd (snd (v 1))) + 16)"
    using space_upd [OF n(2), of v0 "(fst (v0 1), fst (snd (v0 1)), snd (snd (v0 1)) @ mkdirent (of_nat n) (skip_underscore (fst f)))"] Cons.prems(1)
    by (simp add: v1_def append_at_def v0_def)
  moreover have "space v2 = space v1 + nall (length (snd f))"
    using space_upd [OF n(1), of v1 "(fst (v1 n), fst (snd (v1 n)), snd (snd (v1 n)) @ snd f)"] Cons.prems(1)
    by (simp add: v2_def append_at_def v1_def v0_def z)
  moreover have "space (files_added fs (Suc n) v2) + nall (length (snd (snd (v2 1)))) =
      space v2 + nall (length (snd (snd (v2 1))) + 16 * length fs) + (\<Sum>f\<leftarrow>fs. nall (length (snd f)))"
    using Cons.prems by (intro Cons.IH) (auto simp: v2_def v1_def v0_def append_at_def)
  moreover have "length (snd (snd (v2 1))) = length (snd (snd (v 1))) + 16"
    using Cons.prems(1) by (simp add: v2_def v1_def v0_def append_at_def)
  moreover have "files_added (f # fs) n v = files_added fs (Suc n) v2" by (simp add: v2_def v1_def v0_def)
  ultimately show ?case by (simp add: ac_simps)
qed simp

definition root_files :: files where
  "root_files = (\<lambda>_. (0, 0, []))(1 := (T_DIR, 1, mkdirent 1 [46] @ mkdirent 1 [46, 46]))"

lemma nall_0: "nall 0 = 0"
  by (simp add: nall_def nblks_def)

lemma space_root: "space root_files = nmeta + nall 32"
proof -
  have "space (\<lambda>_. (0, 0, [])) = nmeta" by (simp add: space_def nall_0)
  then show ?thesis
    using space_upd [of 1 "\<lambda>_. (0, 0, [])" "(T_DIR, 1, mkdirent 1 [46] @ mkdirent 1 [46, 46])"] by (simp add: root_files_def nall_0)
qed

lemma mkfs_files:
  assumes argv: "2 \<le> length argv" "creates (argv ! 1)" and acc: "acceptable host (drop 2 argv)" and num: "length argv \<le> NINODES"
    and room: "nmeta + nall (16 * length argv) + (\<Sum>x\<leftarrow>drop 2 argv. nall (length (the (host x)))) \<le> FSSIZE"
  obtains s where "mkfs_main host creates argv = bindO (mkfs_fixroot 1 s) (\<lambda>s. mkfs_balloc (sint (freeblock s)) s)"
    and "mk_ok s" and "view s = files_added (host_files host (drop 2 argv)) 2 root_files"
    and "unat (freeblock s) = nmeta + nall (16 * length argv) + (\<Sum>x\<leftarrow>drop 2 argv. nall (length (the (host x))))"
proof -
  let ?names = "drop 2 argv"
  let ?a = "nall (16 * length argv) + (\<Sum>x\<leftarrow>?names. nall (length (the (host x))))"
  let ?i = "\<lparr>image = [], msb = mkfs_sb, freeinode = 1, freeblock = of_nat nmeta\<rparr>"
  define n where "n = length ?names"
  have l: "length argv = 2 + n" "length (host_files host ?names) = n" using argv(1) by (simp_all add: n_def host_files_def)
  have start: "fold (\<lambda>i. wsect (of_nat i) (replicate BSIZE 0)) [0..<FSSIZE] ?i = zero_image"
    using zero_loop [OF order_refl, of ?i] unfolding mkfs_state.update_convs zero_image_def by (simp only:)
  have image0: "wsect 1 (bytes_of_sb (msb zero_image)) zero_image = start_image" by (simp add: start_image_def zero_image_def)
  have "space root_files = nmeta + nall 32" by (rule space_root)
  then have sp: "space (files_added (host_files host ?names) 2 root_files) = nmeta + ?a"
    using space_files [of 2 "host_files host ?names" root_files] num unfolding l
    by (simp add: root_files_def host_files_def comp_def)
  let ?e = "\<lambda>_. (0 :: u16, 0 :: u16, [] :: u8 list)"
  let ?v1 = "?e(1 := (T_DIR, 1, []))" and ?v2 = "?e(1 := (T_DIR, 1, mkdirent 1 [46]))"
  have emp: "\<forall>j\<ge>2. snd (snd (root_files j)) = []" by (simp add: root_files_def)
  have "space root_files \<le> space (files_added (host_files host ?names) 2 root_files)"
    by (rule space_mono, rule files_added_grows [OF emp]) simp
  then have spr: "space root_files \<le> FSSIZE" using sp room by linarith
  have "space ?v2 \<le> space root_files" by (rule space_mono) (simp add: root_files_def)
  then have spv: "space ?v2 \<le> FSSIZE" using spr by linarith
  obtain t where t: "mkfs_ialloc T_DIR start_image = Ret (1, t)" "unat (freeinode t) = 2" "mk_ok t" "view t = ?v1"
    using ialloc_ok [OF start_ok, of T_DIR] by (auto simp: start_image_sel start_view elim!: returnsE)
  have s1: "dsize t 1 = 0" using mk_ok_sizes(1) [OF t(3), of 1] by (simp add: t(4))
  have a: "append_at 1 (mkdirent 1 [46]) ?v1 = ?v2" "append_at 1 (mkdirent 1 [46, 46]) ?v2 = root_files"
    by (simp_all add: append_at_def root_files_def)
  have "returns (iappend (of_nat 1) (mkdirent 1 [46]) t) (\<lambda>u. mk_ok u \<and> freeinode u = freeinode t \<and> view u = append_at 1 (mkdirent 1 [46]) (view t))"
    by (rule iappend_ok [OF t(3)]) (use t(2) s1 spv in \<open>simp_all only: t(4) a, simp_all\<close>)
  then obtain u where u: "iappend 1 (mkdirent 1 [46]) t = Ret u" "mk_ok u" "freeinode u = freeinode t" "view u = ?v2"
    unfolding t(4) a by (auto elim!: returnsE)
  have s2: "dsize u 1 = 16" using mk_ok_sizes(1) [OF u(2), of 1] by (simp add: u(4))
  have "returns (iappend (of_nat 1) (mkdirent 1 [46, 46]) u) (\<lambda>w. mk_ok w \<and> freeinode w = freeinode u \<and> view w = append_at 1 (mkdirent 1 [46, 46]) (view u))"
    by (rule iappend_ok [OF u(2)]) (use t(2) u(3) s2 spr in \<open>simp_all only: u(4) a, simp_all\<close>)
  then obtain w where w: "iappend 1 (mkdirent 1 [46, 46]) u = Ret w" "mk_ok w" "freeinode w = freeinode u" "view w = root_files"
    unfolding u(4) a by (auto elim!: returnsE)
  have s3: "dsize w 1 = 32" "unat (freeinode w) = 2" using mk_ok_sizes(1) [OF w(2), of 1] w(3) u(3) t(2) by (simp_all add: w(4) root_files_def)
  have "returns (add_files host 1 ?names w) (\<lambda>z. mk_ok z \<and> view z = files_added (host_files host ?names) 2 root_files)"
    using add_files_ok [OF w(2) _ _ acc] num s3 sp room l(1) by (simp add: w(4))
  then obtain z where z: "add_files host 1 ?names w = Ret z" "mk_ok z" "view z = files_added (host_files host ?names) 2 root_files"
    by (auto elim!: returnsE)
  show thesis
  proof (rule that [OF _ z(2,3)])
    show "mkfs_main host creates argv = bindO (mkfs_fixroot 1 z) (\<lambda>s. mkfs_balloc (sint (freeblock s)) s)"
      using argv start t(1) u(1) w(1) z(1) unfolding mkfs_main_def Let_def start image0 by (simp add: not_less)
    show "unat (freeblock z) = nmeta + nall (16 * length argv) + (\<Sum>x\<leftarrow>?names. nall (length (the (host x))))"
      using z(2) sp by (simp add: mk_ok_def z(3))
  qed
qed

lemma concat_part:
  assumes "\<And>k. k < n \<Longrightarrow> length (g k) = m" and "k < n"
  shows "take m (drop (m * k) (concat (map g [0..<n]))) = g k"
  using assms
proof (induction n arbitrary: g k)
  case (Suc n)
  have u: "[0..<Suc n] = 0 # map Suc [0..<n]" by (simp add: map_Suc_upt upt_conv_Cons del: upt_Suc)
  show ?case
  proof (cases k)
    case 0
    then show ?thesis using Suc.prems(1) [of 0] by (simp add: u del: upt_Suc)
  next
    case (Suc l)
    then have "take m (drop (m * l) (concat (map (\<lambda>k. g (Suc k)) [0..<n]))) = g (Suc l)"
      using Suc.prems by (intro Suc.IH) auto
    then show ?thesis using Suc Suc.prems(1) [of 0] by (simp add: u comp_def del: upt_Suc)
  qed
qed simp

lemma view_file:
  assumes argv: "2 \<le> i" "i < length argv" "length argv \<le> NINODES" and v: "view s = files_added (host_files host (drop 2 argv)) 2 root_files"
  shows "d_type (dino s i) = T_FILE" and "content_of s i = the (host (argv ! i))" and "dsize s i = length (the (host (argv ! i)))"
    and "fst (host_files host (drop 2 argv) ! (i - 2)) = argv ! i"
proof -
  let ?fs = "host_files host (drop 2 argv)"
  have e: "2 + (i - 2) = i" and l: "2 \<le> length argv" using argv by simp_all
  have dn: "drop 2 argv ! (i - 2) = argv ! i" by (subst nth_drop [OF l]) (simp only: e)
  have fe: "?fs ! (i - 2) = (argv ! i, the (host (argv ! i)))" unfolding host_files_def dn [symmetric] using argv by (intro nth_map) simp
  have "files_added ?fs 2 root_files (2 + (i - 2)) = (T_FILE, 1, snd (?fs ! (i - 2)))"
    by (rule files_added_sel(1)) (use argv in \<open>simp_all add: host_files_def\<close>)
  then have "view s i = (T_FILE, 1, the (host (argv ! i)))" unfolding e fe v by simp
  then show "d_type (dino s i) = T_FILE" "content_of s i = the (host (argv ! i))" "dsize s i = length (the (host (argv ! i)))"
    "fst (?fs ! (i - 2)) = argv ! i" using argv length_content [of s i] fe by (auto simp: view_def)
qed

lemma view_root:
  assumes v: "view s = files_added (host_files host (drop 2 argv)) 2 root_files" and argv: "2 \<le> length argv" "length argv \<le> NINODES"
  shows "d_type (dino s 1) = T_DIR" and "dsize s 1 = 16 * length argv"
    and "2 \<le> i \<Longrightarrow> i < length argv \<Longrightarrow> take 16 (drop (16 * i) (content_of s 1)) = mkdirent (of_nat i) (skip_underscore (argv ! i))"
proof -
  let ?fs = "host_files host (drop 2 argv)"
  define ents where "ents = concat (map (\<lambda>k. mkdirent (of_nat (2 + k)) (skip_underscore (fst (?fs ! k)))) [0..<length argv - 2])"
  have "view s 1 = (T_DIR, 1, (mkdirent 1 [46] @ mkdirent 1 [46, 46]) @ ents)"
    unfolding v using files_added_sel(3) [of 2 ?fs root_files] by (simp add: root_files_def ents_def host_files_def)
  then have root: "d_type (dino s 1) = T_DIR" "content_of s 1 = (mkdirent 1 [46] @ mkdirent 1 [46, 46]) @ ents" by (simp_all add: view_def)
  have "length ents = 16 * (length argv - 2)" by (simp add: ents_def length_concat comp_def sum_list_triv)
  then show "d_type (dino s 1) = T_DIR" "dsize s 1 = 16 * length argv"
    using root(1) argv(1) length_content [of s 1, unfolded root(2)] by simp_all
  assume i: "2 \<le> i" "i < length argv"
  have "take 16 (drop (16 * (i - 2)) ents) = mkdirent (of_nat (2 + (i - 2))) (skip_underscore (fst (?fs ! (i - 2))))"
    unfolding ents_def by (rule concat_part) (use i in simp_all)
  moreover have "16 * i - 32 = 16 * (i - 2)" by simp
  ultimately show "take 16 (drop (16 * i) (content_of s 1)) = mkdirent (of_nat i) (skip_underscore (argv ! i))"
    unfolding root(2) using i view_file(4) [OF i argv(2) v] by simp
qed

text \<open>The last writes touch no block of a file.\<close>

lemma finished_file:
  assumes s: "mk_ok s" and i: "i < NINODES" and t: "\<forall>k\<ge>nmeta. image t ! k = image s ! k" "freeblock t = freeblock s"
  shows "file_in t (dino s i) (dsize s i)" and "img_bytes (image t) (dino s i) (dsize s i) = content_of s i"
proof -
  have f: "file_in s (dino s i) (dsize s i)" using s i by (simp add: mk_ok_def)
  have "image t ! k = image s ! k" if "k \<in> blocks_of s (dino s i) (dsize s i)" for k using t(1) blocks_limits(1) [OF f that] by blast
  from file_frame [OF f this] t(2)
  show "file_in t (dino s i) (dsize s i)" "img_bytes (image t) (dino s i) (dsize s i) = content_of s i" by (simp_all add: content_of_def)
qed

text \<open>The file system of a kernel has the file with inode number \<open>i\<close>, these bytes and, as entry \<open>i\<close> of the root directory, this name.\<close>

definition sees_file :: "nat \<Rightarrow> u8 list \<Rightarrow> u8 list \<Rightarrow> inode \<Rightarrow> 'a fs_state_scheme \<Rightarrow> bool" where
  "sees_file i name bytes x k \<longleftrightarrow>
     (let d = disk_inode k (of_nat i) in
      d_type d = T_FILE \<and> unat (d_size d) = length bytes \<and>
      (\<forall>p<length bytes. file_mapped k (loaded d x) (p div BSIZE) \<and> file_byte k (loaded d x) p = bytes ! p) \<and>
      map (file_byte k (loaded (disk_inode k 1) x)) [16 * i..<16 * i + 16] = mkdirent (of_nat i) (skip_underscore name))"

text \<open>
  C7: The disk image that \<^verbatim>\<open>mkfs\<close> builds is a file system for the kernel. Given host files with acceptable names and
  sizes, few enough for the inodes and the blocks, the program returns; in any kernel that runs on the image, the
  super block is the one intended, the blocks in use are exactly those given out, whose number is the space that the
  files need, each file has an inode through which the kernel reads exactly the bytes of the host file, and the root
  directory has an entry with the name and the inode number of each file.
\<close>

theorem mkfs_image_for_kernel:
  assumes argv: "2 \<le> length argv" "creates (argv ! 1)" and acc: "acceptable host (drop 2 argv)" and num: "length argv \<le> NINODES"
    and room: "nmeta + nall (16 * length argv) + (\<Sum>x\<leftarrow>drop 2 argv. nall (length (the (host x)))) \<le> FSSIZE"
  shows "returns (mkfs_main host creates argv) (\<lambda>t. img_ok t \<and> (\<forall>(k :: fs_state) x. runs_on (image t) k \<longrightarrow>
    sb k = mkfs_sb \<and>
    (\<forall>b. unat b < FSSIZE \<longrightarrow> in_use k b =
       (unat b < nmeta + nall (16 * length argv) + (\<Sum>x\<leftarrow>drop 2 argv. nall (length (the (host x)))))) \<and>
    (\<forall>i. 2 \<le> i \<and> i < length argv \<longrightarrow> sees_file i (argv ! i) (the (host (argv ! i))) x k) \<and>
    d_type (disk_inode k 1) = T_DIR))"
proof -
  obtain s where s: "mkfs_main host creates argv = bindO (mkfs_fixroot 1 s) (\<lambda>s. mkfs_balloc (sint (freeblock s)) s)"
    "mk_ok s" "view s = files_added (host_files host (drop 2 argv)) 2 root_files"
    "unat (freeblock s) = nmeta + nall (16 * length argv) + (\<Sum>x\<leftarrow>drop 2 argv. nall (length (the (host x))))"
    by (rule mkfs_files [where host = host and creates = creates and argv = argv, OF assms])
  obtain t where t: "bindO (mkfs_fixroot 1 s) (\<lambda>s. mkfs_balloc (sint (freeblock s)) s) = Ret t" "img_ok t" "freeblock t = freeblock s"
      "\<forall>j<NINODES. dino t j = (if j = 1 then (dino s 1)\<lparr>d_size := (d_size (dino s 1) div 512 + 1) * 512\<rparr> else dino s j)"
      "\<forall>k\<ge>nmeta. image t ! k = image s ! k" "superblock_of (image t ! 1) = mkfs_sb"
      "\<forall>c<BPB. map_bit (image t ! 58) c = (c < unat (freeblock s))" "msb t = mkfs_sb"
    by (rule finish_ok [OF s(2)])
  let ?sum = "nmeta + nall (16 * length argv) + (\<Sum>x\<leftarrow>drop 2 argv. nall (length (the (host x))))"
  note root = view_root [OF s(3) argv(1) num] and keep = finished_file [OF s(2) _ t(5,3)]
  have kern: "sb k = mkfs_sb \<and> (\<forall>b. unat b < FSSIZE \<longrightarrow> in_use k b = (unat b < ?sum)) \<and>
    (\<forall>i. 2 \<le> i \<and> i < length argv \<longrightarrow> sees_file i (argv ! i) (the (host (argv ! i))) x k) \<and>
    d_type (disk_inode k 1) = T_DIR" if k: "runs_on (image t) k" for k :: fs_state and x
  proof (intro conjI allI impI)
    have d1: "disk_inode k 1 = (dino s 1)\<lparr>d_size := (d_size (dino s 1) div 512 + 1) * 512\<rparr>"
      using kernel_inode [OF k t(6), of 1] t(4) by simp
    show "sb k = mkfs_sb" "d_type (disk_inode k 1) = T_DIR" using k t(6) d1 root(1) by (simp_all add: runs_on_def)
    show "in_use k b = (unat b < ?sum)" if "unat b < FSSIZE" for b
      using kernel_bitmap [OF k t(6,7) that] by (simp add: s(4))
    fix i
    assume i: "2 \<le> i \<and> i < length argv"
    then have iN: "i < NINODES" "i \<noteq> 1" using num by simp_all
    have di: "disk_inode k (of_nat i) = dino s i" using kernel_inode [OF k t(6) iN(1)] t(4) iN by simp
    note f = view_file [OF conjunct1 [OF i] conjunct2 [OF i] num s(3)]
    have "d_type (disk_inode k (of_nat i)) = T_FILE" "unat (d_size (disk_inode k (of_nat i))) = length (the (host (argv ! i)))"
      using f di by (simp_all add: dsize_def)
    moreover have "file_mapped k (loaded (disk_inode k (of_nat i)) x) (p div BSIZE)"
      "file_byte k (loaded (disk_inode k (of_nat i)) x) p = the (host (argv ! i)) ! p" if "p < length (the (host (argv ! i)))" for p
      using kernel_file [OF k t(2) keep(1) [OF iN(1)], of p x] keep(2) [OF iN(1)] f di that by simp_all
    moreover have fb: "file_byte k (loaded (disk_inode k 1) x) p = content_of s 1 ! p" if "p < dsize s 1" for p
      using kernel_file(2) [OF k t(2), of "disk_inode k 1" "dsize s 1" p x] keep [of 1] d1 that by simp
    have le: "16 * i + 16 \<le> dsize s 1" using i root(2) by linarith
    have "map (file_byte k (loaded (disk_inode k 1) x)) [16 * i..<16 * i + 16] = take 16 (drop (16 * i) (content_of s 1))"
      using fb le by (intro nth_equalityI) simp_all
    then have "map (file_byte k (loaded (disk_inode k 1) x)) [16 * i..<16 * i + 16] = mkdirent (of_nat i) (skip_underscore (argv ! i))"
      using root(3) i by simp
    ultimately show "sees_file i (argv ! i) (the (host (argv ! i))) x k" by (simp add: sees_file_def)
  qed
  show ?thesis unfolding s(1) t(1) using t(2) kern by simp
qed

text \<open>An image with one file: it occupies two blocks behind the meta data, one for the root directory and one for the file.\<close>

theorem mkfs_image_for_kernel_witness:
  "returns (mkfs_main (\<lambda>_. Some [1, 2, 3]) (\<lambda>_. True) [[109], [105], [95, 97]]) (\<lambda>t. \<forall>(k :: fs_state) x. runs_on (image t) k \<longrightarrow>
     in_use k 60 \<and> \<not> in_use k 61 \<and> d_size (disk_inode k 2) = 3 \<and> file_byte k (loaded (disk_inode k 2) x) 1 = 2)"
proof -
  let ?argv = "[[109], [105], [95, 97]] :: u8 list list" and ?host = "\<lambda>_ :: u8 list. Some [1, 2, 3 :: u8]"
  have acc: "acceptable ?host (drop 2 ?argv)" by (simp add: acceptable_def)
  have n: "nmeta + nall (16 * length ?argv) + (\<Sum>x\<leftarrow>drop 2 ?argv. nall (length (the (?host x)))) = 61"
    by (simp add: nmeta_eq nall_def nblks_def)
  have a: "2 \<le> length ?argv" "(\<lambda>_. True) (?argv ! 1)" "length ?argv \<le> NINODES" by simp_all
  have r: "nmeta + nall (16 * length ?argv) + (\<Sum>x\<leftarrow>drop 2 ?argv. nall (length (the (?host x)))) \<le> FSSIZE" unfolding n by simp
  have th: "returns (mkfs_main ?host (\<lambda>_. True) ?argv) (\<lambda>t. img_ok t \<and> (\<forall>(k :: fs_state) x. runs_on (image t) k \<longrightarrow>
    sb k = mkfs_sb \<and> (\<forall>b. unat b < FSSIZE \<longrightarrow> in_use k b = (unat b < 61)) \<and>
    (\<forall>i. 2 \<le> i \<and> i < length ?argv \<longrightarrow> sees_file i (?argv ! i) (the (?host (?argv ! i))) x k) \<and> d_type (disk_inode k 1) = T_DIR))"
    using mkfs_image_for_kernel [where creates = "\<lambda>_. True" and host = ?host and argv = ?argv, OF a(1,2) acc a(3) r] unfolding n .
  have core: "in_use k 60 \<and> \<not> in_use k 61 \<and> d_size (disk_inode k 2) = 3 \<and> file_byte k (loaded (disk_inode k 2) x) 1 = 2"
    if "\<forall>b. unat b < FSSIZE \<longrightarrow> in_use k b = (unat b < 61)"
      "\<forall>i. 2 \<le> i \<and> i < length ?argv \<longrightarrow> sees_file i (?argv ! i) (the (?host (?argv ! i))) x k" for k :: fs_state and x
    using that(1) [THEN spec, of 60] that(1) [THEN spec, of 61] that(2) [THEN spec, of 2]
    by (simp add: sees_file_def Let_def word_unat_eq_iff)
  show ?thesis by (rule returns_mono [OF th]) (use core in blast)
qed

end
