(* ===== verification/Paths.thy ===== *)
theory Paths
  imports Fs
begin

text \<open>
  Names: how \<^verbatim>\<open>skipelem\<close> splits a path and how names are stored in and compared with directory entries.
\<close>

section \<open>Path components\<close>

text \<open>The parts of a list between separators, empty ones included.\<close>

primrec split_at :: "'a \<Rightarrow> 'a list \<Rightarrow> 'a list list" where
  "split_at x [] = [[]]"
| "split_at x (y # ys) =
     (if y = x then [] # split_at x ys else (case split_at x ys of [] \<Rightarrow> [[y]] | w # ws \<Rightarrow> (y # w) # ws))"

definition components :: "u8 list \<Rightarrow> u8 list list" where
  "components path = map (take DIRSIZ) (filter (\<lambda>w. w \<noteq> []) (split_at slash path))"

text \<open>The names that the loop of \<^verbatim>\<open>namex\<close> sees.\<close>

function elements :: "u8 list \<Rightarrow> u8 list list" where
  "elements path = (case skipelem path of None \<Rightarrow> [] | Some (rest, name) \<Rightarrow> name # elements rest)"
  by pat_completeness auto
termination
  by (relation "measure length") (auto dest: skipelem_shorter)

lemma split_at_ne: "split_at x xs \<noteq> []"
  by (induction xs) (auto split: list.split)

lemma split_at_word:
  "split_at x xs = takeWhile (\<lambda>c. c \<noteq> x) xs # (case dropWhile (\<lambda>c. c \<noteq> x) xs of [] \<Rightarrow> [] | _ # r \<Rightarrow> split_at x r)"
proof (induction xs)
  case (Cons y ys)
  then show ?case by (cases "y = x") simp_all
qed simp

lemma components_slashes: "components (dropWhile (\<lambda>c. c = slash) path) = components path"
  by (induction path) (auto simp: components_def)

lemma components_cons:
  assumes "path \<noteq> []" and "hd path \<noteq> slash"
  shows "components path = take DIRSIZ (takeWhile (\<lambda>c. c \<noteq> slash) path) # components (dropWhile (\<lambda>c. c \<noteq> slash) path)"
proof -
  have w: "takeWhile (\<lambda>c. c \<noteq> slash) path \<noteq> []" using assms by (cases path) auto
  have flt: "map (take DIRSIZ) (filter (\<lambda>w. w \<noteq> []) (case D of [] \<Rightarrow> [] | _ # r \<Rightarrow> split_at slash r)) =
      (case D of [] \<Rightarrow> [] | _ # r \<Rightarrow> map (take DIRSIZ) (filter (\<lambda>w. w \<noteq> []) (split_at slash r)))" for D by (cases D) simp_all
  have "components path = take DIRSIZ (takeWhile (\<lambda>c. c \<noteq> slash) path) #
      (case dropWhile (\<lambda>c. c \<noteq> slash) path of [] \<Rightarrow> [] | _ # r \<Rightarrow> components r)"
    unfolding components_def split_at_word [of _ path] using w by (simp add: flt)
  moreover have "(case dropWhile (\<lambda>c. c \<noteq> slash) path of [] \<Rightarrow> [] | _ # r \<Rightarrow> components r) = components (dropWhile (\<lambda>c. c \<noteq> slash) path)"
  proof (cases "dropWhile (\<lambda>c. c \<noteq> slash) path")
    case (Cons y r)
    then have "y = slash" using hd_dropWhile [of "\<lambda>c. c \<noteq> slash" path] by simp
    then show ?thesis using Cons by (simp add: components_def)
  next
    case Nil
    show ?thesis unfolding Nil by (simp add: components_def)
  qed
  ultimately show ?thesis by simp
qed

text \<open>
  C37: Path names are split at slashes. Whatever the number and position of slashes, the names that \<^verbatim>\<open>skipelem\<close>
  delivers one after the other are the nonempty parts of the path between slashes, each cut to DIRSIZ bytes,
  and the iteration ends.
\<close>

theorem skipelem_yields_components: "elements path = components path"
proof (induction path rule: elements.induct)
  case (1 path)
  let ?p = "dropWhile (\<lambda>c. c = slash) path"
  show ?case
  proof (cases "?p = []")
    case True
    have "components path = components ?p" by (rule components_slashes [symmetric])
    also have "\<dots> = []" unfolding True by (simp add: components_def)
    finally show ?thesis using True by (simp add: skipelem_def)
  next
    case False
    let ?rest = "dropWhile (\<lambda>c. c = slash) (dropWhile (\<lambda>c. c \<noteq> slash) ?p)" and ?name = "take DIRSIZ (takeWhile (\<lambda>c. c \<noteq> slash) ?p)"
    have sk: "skipelem path = Some (?rest, ?name)" using False by (simp add: skipelem_def Let_def)
    have h: "hd ?p \<noteq> slash" using hd_dropWhile [OF False] by simp
    have "elements path = ?name # elements ?rest" by (subst elements.simps) (simp only: sk option.case prod.case)
    also have "elements ?rest = components ?rest" by (rule 1 [OF sk refl])
    also have "\<dots> = components (dropWhile (\<lambda>c. c \<noteq> slash) ?p)" by (rule components_slashes)
    also have "?name # \<dots> = components ?p" by (rule components_cons [OF False h, symmetric])
    also have "\<dots> = components path" by (rule components_slashes)
    finally show ?thesis .
  qed
qed

section \<open>Directory entries\<close>

lemma strncmp_bytes_zero:
  assumes "0 \<notin> set p" and "0 \<notin> set q"
  shows "strncmp_bytes n p (q @ replicate k 0) = 0 \<longleftrightarrow> take n p = take n q"
  using assms
proof (induction n arbitrary: p q)
  case (Suc n)
  have pad: "head0 (replicate k 0) = 0" by (cases k) (simp_all add: head0_def)
  show ?case
  proof (cases p)
    case Nil
    then show ?thesis using Suc.prems pad by (cases q) (auto simp: head0_def uint_0_iff split: list.splits)
  next
    case p: (Cons a as)
    show ?thesis
    proof (cases q)
      case Nil
      then show ?thesis using p Suc.prems pad by (auto simp: head0_def uint_0_iff)
    next
      case (Cons b bs)
      then show ?thesis using p Suc.prems Suc.IH [of as bs] by (auto simp: head0_def word_uint_eq_iff)
    qed
  qed
qed simp

lemma take_pad: "take n (xs @ replicate n 0) = take n xs @ replicate (n - length xs) 0"
  by (cases "n \<le> length xs") simp_all

text \<open>
  C38: A name stored in a directory entry is found again, and no other one. The entry that \<^verbatim>\<open>dirlink\<close> writes for a
  name, read back by \<^verbatim>\<open>dirlookup\<close>, carries the inode number cut to 16 bits and compares equal to exactly the
  names that agree with it on the first DIRSIZ bytes.
\<close>

theorem dirent_finds_name:
  assumes "0 \<notin> set name" and "0 \<notin> set other"
  shows "de_inum (dirent_of (bytes_of_dirent \<lparr>de_inum = i, de_name = dir_name name\<rparr>)) = i \<and>
    (namecmp other (de_name (dirent_of (bytes_of_dirent \<lparr>de_inum = i, de_name = dir_name name\<rparr>))) = 0 \<longleftrightarrow>
      take DIRSIZ other = take DIRSIZ name)"
proof -
  let ?d = "bytes_of_dirent \<lparr>de_inum = i, de_name = dir_name name\<rparr>"
  have d: "?d = put16 [0, 0] 0 i @ dir_name name" by (simp add: bytes_of_dirent_def)
  have l: "length (put16 [0, 0] 0 i) = 2" by simp
  have "get16 ?d 0 = get16 (put16 [0, 0] 0 i) 0" unfolding d get16_def by (simp add: nth_append)
  then have inum: "get16 ?d 0 = i" by simp
  have name: "get_bytes ?d 2 DIRSIZ = dir_name name" unfolding d get_bytes_def using l by (simp add: dir_name_def)
  have "strncmp_bytes DIRSIZ other (take DIRSIZ name @ replicate (DIRSIZ - length name) 0) = 0 \<longleftrightarrow>
      take DIRSIZ other = take DIRSIZ (take DIRSIZ name)"
    by (rule strncmp_bytes_zero) (use assms in \<open>auto dest: in_set_takeD\<close>)
  then show ?thesis using inum name by (simp add: dirent_of_def namecmp_def dir_name_def take_pad)
qed

theorem dirent_finds_name_witness:
  "namecmp [97, 98] (de_name (dirent_of (bytes_of_dirent \<lparr>de_inum = 7, de_name = dir_name [97, 98]\<rparr>))) = 0 \<and>
   namecmp [97] (de_name (dirent_of (bytes_of_dirent \<lparr>de_inum = 7, de_name = dir_name [97, 98]\<rparr>))) \<noteq> 0"
  using dirent_finds_name [of "[97, 98]" "[97, 98]" 7] dirent_finds_name [of "[97, 98]" "[97]" 7] by simp

end
