(* ===== verification/Kbd.thy ===== *)
theory Kbd
  imports Console
begin

text \<open>
  The keyboard driver, \<^verbatim>\<open>kbd.c\<close> with the tables of \<^verbatim>\<open>kbd.h\<close>: scan codes become characters under the state of the
  modifier keys. The bytes that the controller delivers are an argument: \<open>None\<close> stands for a status without data.
\<close>

section \<open>Tables\<close>

abbreviation (input) SHIFT :: u32 where "SHIFT \<equiv> 1"
abbreviation (input) CTL :: u32 where "CTL \<equiv> 2"
abbreviation (input) ALT :: u32 where "ALT \<equiv> 4"
abbreviation (input) CAPSLOCK :: u32 where "CAPSLOCK \<equiv> 8"
abbreviation (input) NUMLOCK :: u32 where "NUMLOCK \<equiv> 16"
abbreviation (input) SCROLLLOCK :: u32 where "SCROLLLOCK \<equiv> 32"
abbreviation (input) E0ESC :: u32 where "E0ESC \<equiv> 64"

definition shiftcode :: "nat \<Rightarrow> u32" where
  "shiftcode d = (if d = 0x1D \<or> d = 0x9D then CTL else if d = 0x2A \<or> d = 0x36 then SHIFT
     else if d = 0x38 \<or> d = 0xB8 then ALT else 0)"

definition togglecode :: "nat \<Rightarrow> u32" where
  "togglecode d = (if d = 0x3A then CAPSLOCK else if d = 0x45 then NUMLOCK else if d = 0x46 then SCROLLLOCK else 0)"

text \<open>The entries above 0x80, common to the three maps but for the keypad's Enter and division keys.\<close>

definition extended_key :: "int \<Rightarrow> int \<Rightarrow> nat \<Rightarrow> int" where
  "extended_key enter div_key d =
     (if d = 0x9C then enter else if d = 0xB5 then div_key
      else if d = 0xC8 then 0xE2 else if d = 0xD0 then 0xE3
      else if d = 0xC9 then 0xE6 else if d = 0xD1 then 0xE7
      else if d = 0xCB then 0xE4 else if d = 0xCD then 0xE5
      else if d = 0x97 then 0xE0 else if d = 0xCF then 0xE1
      else if d = 0xD2 then 0xE8 else if d = 0xD3 then 0xE9 else 0)"

definition normal_keys :: "int list" where
  "normal_keys =
     [0, 27, 49, 50, 51, 52, 53, 54, 55, 56, 57, 48, 45, 61, 8, 9, 113, 119, 101, 114, 116, 121,
      117, 105, 111, 112, 91, 93, 10, 0, 97, 115, 100, 102, 103, 104, 106, 107, 108, 59, 39, 96, 0,
      92, 122, 120, 99, 118, 98, 110, 109, 44, 46, 47, 0, 42, 0, 32, 0, 0, 0, 0, 0, 0, 0, 0, 0, 0,
      0, 0, 0, 55, 56, 57, 45, 52, 53, 54, 43, 49, 50, 51, 48, 46, 0, 0, 0, 0]"

definition shift_keys :: "int list" where
  "shift_keys =
     [0, 27, 33, 64, 35, 36, 37, 94, 38, 42, 40, 41, 95, 43, 8, 9, 81, 87, 69, 82, 84, 89, 85, 73,
      79, 80, 123, 125, 10, 0, 65, 83, 68, 70, 71, 72, 74, 75, 76, 58, 34, 126, 0, 124, 90, 88, 67,
      86, 66, 78, 77, 60, 62, 63, 0, 42, 0, 32, 0, 0, 0, 0, 0, 0, 0, 0, 0, 0, 0, 0, 0, 55, 56, 57,
      45, 52, 53, 54, 43, 49, 50, 51, 48, 46, 0, 0, 0, 0]"

definition ctl_keys :: "int list" where
  "ctl_keys =
     [0, 0, 0, 0, 0, 0, 0, 0, 0, 0, 0, 0, 0, 0, 0, 0, 17, 23, 5, 18, 20, 25, 21, 9, 15, 16, 0, 0,
      13, 0, 1, 19, 4, 6, 7, 8, 10, 11, 12, 0, 0, 0, 0, 28, 26, 24, 3, 22, 2, 14, 13, 0, 0, 239, 0,
      0]"

definition normalmap :: "nat \<Rightarrow> int" where
  "normalmap d = (if d < length normal_keys then normal_keys ! d else extended_key 10 47 d)"

definition shiftmap :: "nat \<Rightarrow> int" where
  "shiftmap d = (if d < length shift_keys then shift_keys ! d else extended_key 10 47 d)"

text \<open>\<^verbatim>\<open>C('/')\<close> is negative and wraps to 239 in the table of unsigned bytes.\<close>

definition ctlmap :: "nat \<Rightarrow> int" where
  "ctlmap d = (if d < length ctl_keys then ctl_keys ! d else extended_key 13 239 d)"

section \<open>Scan codes\<close>

definition charcode :: "u32 \<Rightarrow> nat \<Rightarrow> int" where
  "charcode m = (if m = 0 then normalmap else if m = 1 then shiftmap else ctlmap)"

definition kbdgetc :: "u8 option \<Rightarrow> u32 \<Rightarrow> int \<times> u32" where
  "kbdgetc port shift =
     (case port of None \<Rightarrow> (- 1, shift)
      | Some byte \<Rightarrow>
          let data = unat byte in
          if data = 0xE0 then (0, shift OR E0ESC)
          else if data \<ge> 0x80 then
            let data = (if shift AND E0ESC \<noteq> 0 then data else data - 0x80) in
            (0, shift AND NOT (shiftcode data OR E0ESC))
          else
            let (data, shift) = (if shift AND E0ESC \<noteq> 0 then (data + 0x80, shift AND NOT E0ESC) else (data, shift));
                shift = shift OR shiftcode data;
                shift = shift XOR togglecode data;
                c = charcode (shift AND (CTL OR SHIFT)) data;
                c = (if shift AND CAPSLOCK \<noteq> 0 then
                       if 97 \<le> c \<and> c \<le> 122 then c - 32 else if 65 \<le> c \<and> c \<le> 90 then c + 32 else c
                     else c)
            in (c, shift))"

text \<open>\<^verbatim>\<open>kbdintr\<close> hands \<^verbatim>\<open>kbdgetc\<close> to \<^verbatim>\<open>consoleintr\<close>, which calls it until the controller has no more data.\<close>

primrec kbd_read :: "u8 list \<Rightarrow> u32 \<Rightarrow> int list \<times> u32" where
  "kbd_read [] shift = ([fst (kbdgetc None shift)], shift)"
| "kbd_read (b # bs) shift =
     (let (c, shift) = kbdgetc (Some b) shift; (cs, shift) = kbd_read bs shift in (c # cs, shift))"

definition kbdintr :: "u8 list \<Rightarrow> u32 \<Rightarrow> 'a cons_state_scheme \<Rightarrow> (u32 \<times> 'a cons_state_scheme) outcome" where
  "kbdintr bytes shift s =
     (case kbd_read bytes shift of (cs, shift) \<Rightarrow> bindO (consoleintr cs s) (\<lambda>s. Ret (shift, s)))"

section \<open>Keys and editing\<close>

lemma extended_key_range: "enter \<in> {0..<256} \<Longrightarrow> div_key \<in> {0..<256} \<Longrightarrow> extended_key enter div_key d \<in> {0..<256}"
  by (simp add: extended_key_def)

lemma keys_range:
  "d < length normal_keys \<Longrightarrow> normal_keys ! d \<in> {0..<256}" "d < length shift_keys \<Longrightarrow> shift_keys ! d \<in> {0..<256}"
  "d < length ctl_keys \<Longrightarrow> ctl_keys ! d \<in> {0..<256}"
proof -
  have "\<forall>c\<in>set normal_keys. 0 \<le> c \<and> c < 256" "\<forall>c\<in>set shift_keys. 0 \<le> c \<and> c < 256" "\<forall>c\<in>set ctl_keys. 0 \<le> c \<and> c < 256"
    by (simp_all add: normal_keys_def shift_keys_def ctl_keys_def)
  then show "d < length normal_keys \<Longrightarrow> normal_keys ! d \<in> {0..<256}" "d < length shift_keys \<Longrightarrow> shift_keys ! d \<in> {0..<256}"
    "d < length ctl_keys \<Longrightarrow> ctl_keys ! d \<in> {0..<256}" by auto
qed

lemma charcode_range: "charcode m d \<in> {0..<256}"
  using keys_range [of d] extended_key_range [of 10 47 d] extended_key_range [of 13 239 d]
  by (auto simp: charcode_def normalmap_def shiftmap_def ctlmap_def)

lemma kbdgetc_range: "fst (kbdgetc (Some b) shift) \<in> {0..<256}"
  using charcode_range by (auto simp: kbdgetc_def Let_def split: prod.splits)

text \<open>The characters typed: the results of \<^verbatim>\<open>kbdgetc\<close> before the one that ends the loop.\<close>

primrec typed :: "u8 list \<Rightarrow> u32 \<Rightarrow> int list" where
  "typed [] shift = []"
| "typed (b # bs) shift = fst (kbdgetc (Some b) shift) # typed bs (snd (kbdgetc (Some b) shift))"

lemma kbd_read_typed: "fst (kbd_read bs shift) = typed bs shift @ [- 1]"
  by (induction bs arbitrary: shift) (simp_all add: kbdgetc_def [of None] case_prod_unfold Let_def)

lemma typed_range: "c \<in> set (typed bs shift) \<Longrightarrow> 0 \<le> c \<and> c < 256"
  using kbdgetc_range by (induction bs arbitrary: shift) fastforce+

lemma kbdintr_edits:
  assumes "cpu_ok s" and "lock_free ConsLock s" and "lock_free PtableLock s" and "screen_ok s" and "input_ok s"
    and "length (procs s) = NPROC" and "pids_ok s"
  shows "returns (kbdintr bs shift s) (\<lambda>(shift', t). shift' = snd (kbd_read bs shift) \<and> same_machine t s \<and> screen_ok t \<and> input_ok t \<and>
    (committed t, pending t) = fold edit_char (typed bs shift) (committed s, pending s))"
  using consoleintr_edits [OF assms, of "typed bs shift"] typed_range [of _ bs shift]
  by (auto simp: kbdintr_def kbd_read_typed [symmetric] case_prod_unfold elim!: returns_mono)

text \<open>A modifier holds between the press and the release of its key, whatever other plain keys come between.\<close>

lemma shift_held:
  assumes "shift AND E0ESC = 0"
  shows "snd (kbdgetc (Some 0x2A) shift) = shift OR SHIFT" and "snd (kbdgetc (Some 0xAA) shift) = shift AND NOT (SHIFT OR E0ESC)"
  using assms by (simp_all add: kbdgetc_def shiftcode_def togglecode_def Let_def)

text \<open>Shift, \<^verbatim>\<open>h\<close>, shift released, \<^verbatim>\<open>i\<close>, Enter.\<close>

lemma typed_example: "typed [0x2A, 0x23, 0xA3, 0xAA, 0x17, 0x97, 0x1C] 0 = [0, 72, 0, 0, 105, 0, 10]"
  by code_simp

end
