(* ===== verification/Grep.thy ===== *)
theory Grep
  imports Prelude
begin

text \<open>
  The user program \<^verbatim>\<open>grep.c\<close>: its regular-expression matcher and the loop that splits its input into lines. A C
  string is the list of its bytes before the terminating zero. The matcher is compared with the language of
  the pattern, and the loop with the lines of the input.
\<close>

section \<open>The matcher\<close>

abbreviation (input) caret :: u8 where "caret \<equiv> 94"
abbreviation (input) star :: u8 where "star \<equiv> 42"
abbreviation (input) dollar :: u8 where "dollar \<equiv> 36"
abbreviation (input) dot :: u8 where "dot \<equiv> 46"
abbreviation (input) newline :: u8 where "newline \<equiv> 10"

function matchhere :: "u8 list \<Rightarrow> u8 list \<Rightarrow> bool"
  and matchstar :: "u8 \<Rightarrow> u8 list \<Rightarrow> u8 list \<Rightarrow> bool" where
  "matchhere re text =
     (case re of [] \<Rightarrow> True
      | c # rest \<Rightarrow>
          if rest \<noteq> [] \<and> hd rest = star then matchstar c (tl rest) text
          else if c = dollar \<and> rest = [] then text = []
          else case text of t # ts \<Rightarrow> if c = dot \<or> c = t then matchhere rest ts else False | [] \<Rightarrow> False)"
| "matchstar c re text =
     (if matchhere re text then True
      else case text of [] \<Rightarrow> False | t # ts \<Rightarrow> if t = c \<or> c = dot then matchstar c re ts else False)"
  by pat_completeness auto
termination
  by (relation "measure (\<lambda>x. case x of Inl (re, text) \<Rightarrow> length re + length text | Inr (c, re, text) \<Rightarrow> length re + length text + 1)") auto

declare matchhere.simps [simp del] matchstar.simps [simp del]

primrec match_loop :: "u8 list \<Rightarrow> u8 list \<Rightarrow> bool" where
  "match_loop re [] = matchhere re []"
| "match_loop re (t # ts) = (if matchhere re (t # ts) then True else match_loop re ts)"

definition match :: "u8 list \<Rightarrow> u8 list \<Rightarrow> bool" where
  "match re text = (if re \<noteq> [] \<and> hd re = caret then matchhere (tl re) text else match_loop re text)"

section \<open>The language of a pattern\<close>

text \<open>A pattern is a sequence of single and starred characters, possibly bound to the end of the text.\<close>

datatype atom = One u8 | Many u8

fun parse_re :: "u8 list \<Rightarrow> atom list \<times> bool" where
  "parse_re [] = ([], False)"
| "parse_re [c] = (if c = dollar then ([], True) else ([One c], False))"
| "parse_re (c # d # re) =
     (if d = star then (let (as, e) = parse_re re in (Many c # as, e))
      else (let (as, e) = parse_re (d # re) in (One c # as, e)))"

definition fits :: "u8 \<Rightarrow> u8 \<Rightarrow> bool" where
  "fits c t \<longleftrightarrow> c = dot \<or> c = t"

fun lang :: "atom list \<Rightarrow> u8 list set" where
  "lang [] = {[]}"
| "lang (One c # as) = {t # w | t w. fits c t \<and> w \<in> lang as}"
| "lang (Many c # as) = {u @ w | u w. (\<forall>t\<in>set u. fits c t) \<and> w \<in> lang as}"

definition matches_prefix :: "atom list \<times> bool \<Rightarrow> u8 list \<Rightarrow> bool" where
  "matches_prefix p text \<longleftrightarrow> (\<exists>v w. text = v @ w \<and> v \<in> lang (fst p) \<and> (snd p \<longrightarrow> w = []))"

lemma matches_prefix_Nil [simp]: "matches_prefix ([], e) text \<longleftrightarrow> (e \<longrightarrow> text = [])"
  by (auto simp: matches_prefix_def)

lemma matches_prefix_One:
  "matches_prefix (One c # as, e) text \<longleftrightarrow> (case text of [] \<Rightarrow> False | t # ts \<Rightarrow> fits c t \<and> matches_prefix (as, e) ts)"
proof (cases "text")
  case (Cons t ts)
  have "matches_prefix (One c # as, e) (t # ts) \<longleftrightarrow> (\<exists>v w. ts = v @ w \<and> fits c t \<and> v \<in> lang as \<and> (e \<longrightarrow> w = []))"
    unfolding matches_prefix_def fst_conv snd_conv lang.simps mem_Collect_eq Cons_eq_append_conv by blast
  then show ?thesis using Cons by (auto simp: matches_prefix_def)
qed (simp add: matches_prefix_def)

lemma Many_unfold: "lang (Many c # as) = lang as \<union> lang (One c # Many c # as)"
proof (intro equalityI subsetI)
  fix x
  assume "x \<in> lang (Many c # as)"
  then obtain u w where x: "x = u @ w" "\<forall>t\<in>set u. fits c t" "w \<in> lang as" by auto
  show "x \<in> lang as \<union> lang (One c # Many c # as)" using x by (cases u) fastforce+
next
  fix x
  assume "x \<in> lang as \<union> lang (One c # Many c # as)"
  then consider "x \<in> lang as" | t u w where "x = t # u @ w" "fits c t" "\<forall>t\<in>set u. fits c t" "w \<in> lang as" by auto
  then show "x \<in> lang (Many c # as)"
  proof cases
    case 1
    then have "x = [] @ x \<and> (\<forall>t\<in>set []. fits c t) \<and> x \<in> lang as" by simp
    then show ?thesis by (simp only: lang.simps mem_Collect_eq) blast
  next
    case (2 t u w)
    then have "x = (t # u) @ w \<and> (\<forall>t\<in>set (t # u). fits c t) \<and> w \<in> lang as" by simp
    then show ?thesis by (simp only: lang.simps mem_Collect_eq) blast
  qed
qed

lemma matches_prefix_Many:
  "matches_prefix (Many c # as, e) text \<longleftrightarrow>
     matches_prefix (as, e) text \<or> (case text of [] \<Rightarrow> False | t # ts \<Rightarrow> fits c t \<and> matches_prefix (Many c # as, e) ts)"
proof -
  have "matches_prefix (Many c # as, e) text \<longleftrightarrow> matches_prefix (as, e) text \<or> matches_prefix (One c # Many c # as, e) text"
    unfolding matches_prefix_def fst_conv snd_conv Many_unfold [of c as] Un_iff by blast
  then show ?thesis by (simp add: matches_prefix_One)
qed

lemma match_here_star:
  "matchhere re text \<longleftrightarrow> matches_prefix (parse_re re) text"
  "matchstar c re text \<longleftrightarrow> matches_prefix (Many c # fst (parse_re re), snd (parse_re re)) text"
proof (induction re "text" and c re "text" rule: matchhere_matchstar.induct)
  case (1 re "text")
  show ?case
  proof (cases re rule: parse_re.cases)
    case 1
    then show ?thesis by (simp add: matchhere.simps)
  next
    case (2 c)
    then show ?thesis using "1.IH"(2) [of c "[]"]
      by (subst matchhere.simps) (auto simp: matches_prefix_One fits_def split: list.split)
  next
    case (3 c d r)
    then show ?thesis using "1.IH"(1) [of c "d # r"] "1.IH"(2) [of c "d # r"]
      by (subst matchhere.simps) (auto simp: case_prod_unfold Let_def matches_prefix_One fits_def split: list.split)
  qed
next
  case (2 c re "text")
  then show ?case
    by (subst matchstar.simps, subst matches_prefix_Many) (auto simp: fits_def split: list.split)
qed

lemma match_loop_iff: "match_loop re text \<longleftrightarrow> (\<exists>u v. text = u @ v \<and> matchhere re v)"
proof (induction "text")
  case (Cons t ts)
  have "(\<exists>u v. t # ts = u @ v \<and> matchhere re v) \<longleftrightarrow> matchhere re (t # ts) \<or> (\<exists>u v. ts = u @ v \<and> matchhere re v)"
    by (auto simp: Cons_eq_append_conv)
  then show ?case using Cons by simp
qed simp

text \<open>
  C19: The matcher decides the language of the pattern. \<^verbatim>\<open>match\<close> terminates on every pattern and text and succeeds
  exactly when the text has a part in the pattern's language that starts at its beginning if the pattern begins
  with a caret, and reaches to its end if the pattern ends in a dollar.
\<close>

theorem match_decides_language:
  "match re text \<longleftrightarrow>
     (let anchored = (re \<noteq> [] \<and> hd re = caret); p = parse_re (if anchored then tl re else re) in
      \<exists>u v w. text = u @ v @ w \<and> v \<in> lang (fst p) \<and> (u = [] \<or> \<not> anchored) \<and> (w = [] \<or> \<not> snd p))"
proof (cases "re \<noteq> [] \<and> hd re = caret")
  case True
  then show ?thesis by (simp add: match_def match_here_star matches_prefix_def Let_def) blast
next
  case False
  then have "match re text \<longleftrightarrow> (\<exists>u v. text = u @ v \<and> matches_prefix (parse_re re) v)"
    by (auto simp: match_def match_loop_iff match_here_star)
  then show ?thesis using False by (simp add: matches_prefix_def Let_def) metis
qed

text \<open>The pattern \<^verbatim>\<open>ab*$\<close> in the text \<^verbatim>\<open>xabb\<close>.\<close>

theorem match_decides_language_witness: "match [97, 98, 42, 36] [120, 97, 98, 98]"
proof -
  have p: "parse_re [97, 98, 42, 36] = ([One 97, Many 98], True)" by simp
  have "[97, 98, 98] = 97 # [98, 98] @ [] \<and> fits 97 97 \<and> (\<forall>t\<in>set [98, 98]. fits 98 t)" by (simp add: fits_def)
  then have "[97, 98, 98] \<in> lang [One 97, Many 98]" by auto
  moreover have "[120, 97, 98, 98] = [120] @ [97, 98, 98] @ []" by simp
  ultimately have "\<exists>u v w. [120, 97, 98, 98] = u @ v @ w \<and> v \<in> lang [One 97, Many 98] \<and> (w = [] \<or> \<not> True)" by blast
  then show ?thesis unfolding match_decides_language by (simp add: p Let_def)
qed

section \<open>The line loop\<close>

text \<open>
  The buffer holds \<open>m\<close> bytes, here the list \<open>p\<close>, and a zero after them. \<open>strchr_newline\<close> is \<^verbatim>\<open>strchr(p, '\n')\<close>: it
  does not look beyond the first zero byte.
\<close>

primrec strchr_newline :: "u8 list \<Rightarrow> nat option" where
  "strchr_newline [] = None"
| "strchr_newline (b # bs) = (if b = 0 then None else if b = newline then Some 0 else map_option Suc (strchr_newline bs))"

lemma strchr_newline_less: "strchr_newline p = Some q \<Longrightarrow> q < length p"
  by (induction p arbitrary: q) (auto split: if_splits)

text \<open>The inner loop: what it writes, and the rest of the buffer from \<open>p\<close> on.\<close>

function grep_lines :: "u8 list \<Rightarrow> u8 list \<Rightarrow> u8 list \<times> u8 list" where
  "grep_lines pattern p =
     (case strchr_newline p of
        None \<Rightarrow> ([], p)
      | Some q \<Rightarrow>
          let (out, rest) = grep_lines pattern (drop (q + 1) p) in
          (if match pattern (take q p) then (take (q + 1) p @ out, rest) else (out, rest)))"
  by pat_completeness auto
termination
  by (relation "measure (\<lambda>(_, p). length p)") (auto dest: strchr_newline_less)

declare grep_lines.simps [simp del]

text \<open>
  The outer loop, on the results of the successive calls of \<^verbatim>\<open>read\<close>: an empty one, or the end of the list, is
  the end of the file or an error. A read delivers at most the room left in the buffer.
\<close>

primrec grep :: "u8 list \<Rightarrow> u8 list \<Rightarrow> u8 list list \<Rightarrow> u8 list" where
  "grep pattern kept [] = []"
| "grep pattern kept (r # reads) =
     (if r = [] then []
      else
        let buf = kept @ take (1024 - length kept - 1) r;
            (out, p) = grep_lines pattern buf;
            kept = (if length p = length buf then [] else p)
        in out @ grep pattern kept reads)"

text \<open>The complete lines of a text and what follows the last newline.\<close>

primrec lines_of :: "u8 list \<Rightarrow> u8 list list \<times> u8 list" where
  "lines_of [] = ([], [])"
| "lines_of (b # bs) =
     (let (ls, rest) = lines_of bs in
      if b = newline then ([] # ls, rest)
      else case ls of [] \<Rightarrow> ([], b # rest) | l # ls' \<Rightarrow> ((b # l) # ls', rest))"

definition unlines :: "u8 list list \<Rightarrow> u8 list" where
  "unlines ls = concat (map (\<lambda>l. l @ [newline]) ls)"

lemma strchr_newline_None: "0 \<notin> set p \<Longrightarrow> strchr_newline p = None \<longleftrightarrow> newline \<notin> set p"
  by (induction p) auto

lemma lines_of_none: "newline \<notin> set p \<Longrightarrow> lines_of p = ([], p)"
  by (induction p) auto

lemma lines_of_line: "newline \<notin> set l \<Longrightarrow> lines_of (l @ newline # p) = (l # fst (lines_of p), snd (lines_of p))"
  by (induction l) (auto simp: case_prod_unfold Let_def)

lemma lines_of_rest: "newline \<notin> set (snd (lines_of p))"
  by (induction p) (auto simp: case_prod_unfold Let_def split: list.splits)

lemma lines_of_append:
  "lines_of (p @ q) = (fst (lines_of p) @ fst (lines_of (snd (lines_of p) @ q)), snd (lines_of (snd (lines_of p) @ q)))"
proof (induction p rule: measure_induct_rule [of length])
  case (less p)
  show ?case
  proof (cases "newline \<in> set p")
    case False
    then show ?thesis by (simp add: lines_of_none)
  next
    case True
    then obtain l r where p: "p = l @ newline # r" "newline \<notin> set l" by (meson split_list_first)
    then show ?thesis using less [of r] by (simp add: lines_of_line)
  qed
qed

lemma strchr_newline_line: "0 \<notin> set l \<Longrightarrow> newline \<notin> set l \<Longrightarrow> strchr_newline (l @ newline # p) = Some (length l)"
  by (induction l) auto

lemma grep_lines_eq:
  "0 \<notin> set p \<Longrightarrow> grep_lines pattern p = (unlines (filter (match pattern) (fst (lines_of p))), snd (lines_of p))"
proof (induction p rule: measure_induct_rule [of length])
  case (less p)
  show ?case
  proof (cases "newline \<in> set p")
    case False
    then show ?thesis using less.prems strchr_newline_None [of p]
      by (subst grep_lines.simps) (simp add: lines_of_none unlines_def)
  next
    case True
    then obtain l r where p: "p = l @ newline # r" "newline \<notin> set l" by (meson split_list_first)
    then have z: "0 \<notin> set r" "0 \<notin> set l" using less.prems by auto
    have "strchr_newline p = Some (length l)" using p z strchr_newline_line by simp
    moreover have "grep_lines pattern r = (unlines (filter (match pattern) (fst (lines_of r))), snd (lines_of r))"
      by (rule less.IH) (use p z in simp_all)
    ultimately show ?thesis using p by (subst grep_lines.simps) (simp add: lines_of_line unlines_def)
  qed
qed

lemma length_rest_le: "length (snd (lines_of p)) \<le> length p"
  by (induction p) (auto simp: case_prod_unfold Let_def split: list.splits)

lemma length_rest: "newline \<in> set p \<Longrightarrow> length (snd (lines_of p)) < length p"
  using length_rest_le by (induction p) (auto simp: case_prod_unfold Let_def less_Suc_eq_le split: list.splits)

lemma grep_Cons:
  "r \<noteq> [] \<Longrightarrow> grep pattern kept (r # reads) =
     (let (out, p) = grep_lines pattern (kept @ take (1023 - length kept) r) in
      out @ grep pattern (if length p = length (kept @ take (1023 - length kept) r) then [] else p) reads)"
  by (simp add: Let_def)

declare grep.simps(2) [simp del]

lemma rest_subset: "set (snd (lines_of p)) \<subseteq> set p"
  by (induction p) (auto simp: case_prod_unfold Let_def split: list.splits)

text \<open>What \<^verbatim>\<open>read\<close> promises: it returns no more than the room that was left, \<open>kept\<close> being the incomplete last line.\<close>

primrec reads_fit :: "u8 list \<Rightarrow> u8 list list \<Rightarrow> bool" where
  "reads_fit kept [] = True"
| "reads_fit kept (r # reads) \<longleftrightarrow> length kept + length r \<le> 1023 \<and> reads_fit (snd (lines_of (kept @ r))) reads"

lemma grep_step:
  assumes "length kept + length r \<le> 1023" and "r \<noteq> []" and "0 \<notin> set (kept @ r)"
  shows "grep pattern kept (r # reads) =
    (if newline \<in> set (kept @ r)
     then unlines (filter (match pattern) (fst (lines_of (kept @ r)))) @ grep pattern (snd (lines_of (kept @ r))) reads
     else grep pattern [] reads)"
proof -
  have "take (1023 - length kept) r = r" using assms(1) by simp
  then have "grep pattern kept (r # reads) = (let p = snd (lines_of (kept @ r)) in
      unlines (filter (match pattern) (fst (lines_of (kept @ r)))) @ grep pattern (if length p = length (kept @ r) then [] else p) reads)"
    using assms(2) grep_lines_eq [OF assms(3)] by (simp add: grep_Cons Let_def)
  then show ?thesis using length_rest [of "kept @ r"] by (auto simp: lines_of_none unlines_def Let_def)
qed

lemma grep_reads:
  assumes "\<forall>r\<in>set reads. newline \<in> set r \<and> 0 \<notin> set r" and "0 \<notin> set kept" and "newline \<notin> set kept" and "reads_fit kept reads"
  shows "grep pattern kept reads = unlines (filter (match pattern) (fst (lines_of (kept @ concat reads))))"
  using assms
proof (induction reads arbitrary: kept)
  case Nil
  then show ?case by (simp add: lines_of_none unlines_def)
next
  case (Cons r reads)
  have r: "r \<noteq> []" "0 \<notin> set (kept @ r)" "newline \<in> set (kept @ r)" using Cons.prems by auto
  have "grep pattern (snd (lines_of (kept @ r))) reads =
      unlines (filter (match pattern) (fst (lines_of (snd (lines_of (kept @ r)) @ concat reads))))"
    by (rule Cons.IH) (use Cons.prems lines_of_rest [of "kept @ r"] rest_subset [of "kept @ r"] in auto)
  then have "grep pattern kept (r # reads) = unlines (filter (match pattern)
      (fst (lines_of (kept @ r)) @ fst (lines_of (snd (lines_of (kept @ r)) @ concat reads))))"
    using grep_step [of kept r pattern reads] Cons.prems(4) r by (simp add: unlines_def)
  then show ?case using lines_of_append [of "kept @ r" "concat reads"] by simp
qed

text \<open>
  C27: \<^verbatim>\<open>grep\<close> prints the matching lines. When every read delivers at least one newline and no zero byte, however
  the lines are split between the reads, the output consists of exactly the complete lines of the input that
  match, in order. A read that leaves the buffer without a newline is lost together with what was kept: such a
  line is searched only from the next read on.
\<close>

theorem grep_prints_matching_lines:
  assumes "\<forall>r\<in>set reads. newline \<in> set r \<and> 0 \<notin> set r" and "reads_fit [] reads"
    and "r \<noteq> []" and "newline \<notin> set r" and "0 \<notin> set r" and "length r \<le> 1023"
  shows "grep pattern [] reads = unlines (filter (match pattern) (fst (lines_of (concat reads)))) \<and>
    grep pattern [] (r # reads) = grep pattern [] reads"
  using grep_reads [OF assms(1) _ _ assms(2), of pattern] grep_step [of "[]" r pattern reads] assms(3-6) by simp

text \<open>The lines \<^verbatim>\<open>ab\<close>, \<^verbatim>\<open>cb\<close> and \<^verbatim>\<open>cd\<close> in two reads, searched for \<^verbatim>\<open>b$\<close>; and with the first byte in a read of its own.\<close>

theorem grep_prints_matching_lines_witness:
  "grep [98, 36] [] [[97, 98, 10, 99], [98, 10, 99, 100, 10]] = [97, 98, 10, 99, 98, 10] \<and>
   grep [97] [] [[97], [98, 10, 99], [98, 10, 99, 100, 10]] = []"
proof -
  have w: "\<forall>r\<in>set [[97, 98, 10, 99], [98, 10, 99, 100, 10]]. newline \<in> set r \<and> 0 \<notin> set r" "reads_fit [] [[97, 98, 10, 99], [98, 10, 99, 100, 10]]"
    "\<forall>r\<in>set [[98, 10, 99], [98, 10, 99, 100, 10]]. newline \<in> set r \<and> 0 \<notin> set r" "reads_fit [] [[98, 10, 99], [98, 10, 99, 100, 10]]"
    by simp_all
  note m = match_def matchhere.simps matchstar.simps
  show ?thesis
    using grep_prints_matching_lines [OF w(1,2), of "[97]" "[98, 36]"] grep_prints_matching_lines [OF w(3,4), of "[97]" "[97]"]
    by (simp add: m unlines_def)
qed

end
