(* ===== verification/Sh.thy ===== *)
theory Sh
  imports Prelude
begin

text \<open>
  The shell, \<^verbatim>\<open>sh.c\<close>: the tokenizer, the recursive-descent parser and \<^verbatim>\<open>nulterminate\<close>. The line is the list of its
  bytes before the terminating zero, pointers into it are positions, and a token is the pair of its first
  position and the one behind its last. A call of \<^verbatim>\<open>panic\<close>, which ends the process, is the outcome \<open>Panic\<close>.
\<close>

section \<open>Commands\<close>

abbreviation (input) MAXARGS :: nat where "MAXARGS \<equiv> 10"

type_synonym token = "nat \<times> nat"

text \<open>\<open>argv\<close> and \<open>eargv\<close> of an \<^verbatim>\<open>execcmd\<close> are one list of tokens.\<close>

datatype cmd =
    ExecCmd "token list"
  | RedirCmd cmd token int int
  | PipeCmd cmd cmd
  | ListCmd cmd cmd
  | BackCmd cmd

abbreviation (input) O_RDONLY' :: int where "O_RDONLY' \<equiv> 0"
abbreviation (input) O_WRONLY_CREATE :: int where "O_WRONLY_CREATE \<equiv> 513"

section \<open>Tokens\<close>

text \<open>\<^verbatim>\<open>whitespace\<close> and \<^verbatim>\<open>symbols\<close>; the character at a position, zero at the end of the line.\<close>

definition whitespace :: "u8 list" where "whitespace = [32, 9, 13, 10, 11]"

definition symbols :: "u8 list" where "symbols = [60, 124, 62, 38, 59, 40, 41]"

definition ch :: "u8 list \<Rightarrow> nat \<Rightarrow> u8" where
  "ch buf s = (if s < length buf then buf ! s else 0)"

function skip :: "(u8 \<Rightarrow> bool) \<Rightarrow> u8 list \<Rightarrow> nat \<Rightarrow> nat" where
  "skip P buf s = (if s < length buf \<and> P (ch buf s) then skip P buf (s + 1) else s)"
  by pat_completeness auto
termination
  by (relation "measure (\<lambda>(_, buf, s). length buf - s)") auto

declare skip.simps [simp del]

text \<open>The returned token code, its extent, and the position behind it and the white space that follows.\<close>

definition gettoken :: "u8 list \<Rightarrow> nat \<Rightarrow> u8 \<times> token \<times> nat" where
  "gettoken buf s =
     (let q = skip (\<lambda>c. c \<in> set whitespace) buf s;
          c = ch buf q;
          (ret, e) =
            (if c = 0 then (0, q)
             else if c \<in> {124, 40, 41, 59, 38, 60} then (c, q + 1)
             else if c = 62 then (if ch buf (q + 1) = 62 then (43, q + 2) else (62, q + 1))
             else (97, skip (\<lambda>c. c \<notin> set whitespace \<and> c \<notin> set symbols) buf q))
      in (ret, (q, e), skip (\<lambda>c. c \<in> set whitespace) buf e))"

definition peek :: "u8 list \<Rightarrow> nat \<Rightarrow> u8 list \<Rightarrow> bool \<times> nat" where
  "peek buf s toks =
     (let s = skip (\<lambda>c. c \<in> set whitespace) buf s in (ch buf s \<noteq> 0 \<and> ch buf s \<in> set toks, s))"

lemma skip_mono: "s \<le> skip P buf s"
  by (induction P buf s rule: skip.induct) (subst skip.simps, auto dest: Suc_leD)

lemma skip_le: "s \<le> length buf \<Longrightarrow> skip P buf s \<le> length buf"
  by (induction P buf s rule: skip.induct) (subst skip.simps, simp)

lemma skip_stops: "skip P buf s < length buf \<Longrightarrow> \<not> P (ch buf (skip P buf s))"
  by (induction P buf s rule: skip.induct) (subst (asm) skip.simps, subst skip.simps, auto split: if_splits)

lemma skip_all: "s \<le> i \<Longrightarrow> i < skip P buf s \<Longrightarrow> P (ch buf i)"
proof (induction P buf s rule: skip.induct)
  case (1 P buf s)
  then show ?case by (subst (asm) (2) skip.simps) (cases "i = s"; auto split: if_splits)
qed

lemma skip_step: "s < length buf \<Longrightarrow> P (ch buf s) \<Longrightarrow> s < skip P buf s"
  using skip_mono [of "s + 1" P buf] by (subst skip.simps) simp

lemma ch_nonzero: "ch buf s \<noteq> 0 \<Longrightarrow> s < length buf"
  by (simp add: ch_def split: if_splits)

lemma peek_advances: "peek buf s toks = (b, t) \<Longrightarrow> s \<le> t \<and> (s \<le> length buf \<longrightarrow> t \<le> length buf) \<and> (b \<longrightarrow> ch buf t \<noteq> 0)"
  by (auto simp: peek_def Let_def skip_mono skip_le)

lemma gettoken_advances:
  assumes "gettoken buf s = (tok, (q, e), t)" and "s \<le> length buf"
  shows "s \<le> q" and "q \<le> e" and "e \<le> t" and "t \<le> length buf" and "tok \<noteq> 0 \<Longrightarrow> q < e"
    and "tok = 0 \<longleftrightarrow> ch buf q = 0"
proof -
  define ws wd where "ws = (\<lambda>c. c \<in> set whitespace)" and "wd = (\<lambda>c. c \<notin> set whitespace \<and> c \<notin> set symbols)"
  have q: "q = skip ws buf s" and t: "t = skip ws buf e" and e: "(tok, e) =
      (let c = ch buf q in if c = 0 then (0, q) else if c \<in> {124, 40, 41, 59, 38, 60} then (c, q + 1)
       else if c = 62 then (if ch buf (q + 1) = 62 then (43, q + 2) else (62, q + 1)) else (97, skip wd buf q))"
    using assms(1) unfolding gettoken_def ws_def [symmetric] wd_def [symmetric] by (auto simp: Let_def case_prod_unfold prod_eq_iff)
  show "s \<le> q" using q skip_mono by simp
  have ql: "q \<le> length buf" using q skip_le assms(2) by simp
  have word: "wd (ch buf q)" if "ch buf q \<noteq> 0" "ch buf q \<notin> {124, 40, 41, 59, 38, 60}" "ch buf q \<noteq> 62"
  proof -
    have "\<not> ws (ch buf q)" unfolding q by (rule skip_stops) (use that(1) ch_nonzero [of buf q] in \<open>simp add: q\<close>)
    then show ?thesis using that by (simp add: wd_def ws_def symbols_def)
  qed
  have *: "q \<le> e \<and> e \<le> length buf \<and> (tok = 0 \<longleftrightarrow> ch buf q = 0) \<and> (tok \<noteq> 0 \<longrightarrow> q < e)"
  proof (cases "ch buf q = 0 \<or> ch buf q \<in> {124, 40, 41, 59, 38, 60} \<or> ch buf q = 62")
    case True
    then show ?thesis using e ql ch_nonzero [of buf q] ch_nonzero [of buf "q + 1"] by (auto simp: Let_def split: if_splits)
  next
    case False
    then have "e = skip wd buf q" "tok = 97" "wd (ch buf q)" "q < length buf" using e word ch_nonzero [of buf q] by (simp_all add: Let_def)
    then show ?thesis using False skip_le [of q buf wd] skip_step [of q buf wd] by simp
  qed
  then show "q \<le> e" "tok \<noteq> 0 \<Longrightarrow> q < e" "tok = 0 \<longleftrightarrow> ch buf q = 0" by blast+
  show "e \<le> t" "t \<le> length buf" using t skip_mono skip_le * by simp_all
qed

lemma gettoken_at:
  assumes "ch buf s \<noteq> 0" and "gettoken buf s = (tok, (q, e), t)"
  shows "s < t" and "t \<le> length buf"
proof -
  have s: "s < length buf" using ch_nonzero assms(1) by simp
  note a = gettoken_advances [OF assms(2) less_imp_le [OF s]]
  show "t \<le> length buf" by (rule a)
  show "s < t"
  proof (cases "q = s")
    case True
    then show ?thesis using a(3,5,6) assms(1) by simp
  next
    case False
    then show ?thesis using a(1-3) by simp
  qed
qed

lemma peek_gettoken:
  assumes "peek buf s toks = (True, t)" and "gettoken buf t = (tok, w, u)"
  shows "s < u" and "u \<le> length buf"
proof -
  obtain q e where w: "w = (q, e)" by fastforce
  show "s < u" "u \<le> length buf"
    using peek_advances [OF assms(1)] gettoken_at [OF _ assms(2) [unfolded w]] by simp_all
qed

lemma gettoken_mono: "gettoken buf s = (tok, w, t) \<Longrightarrow> s \<le> length buf \<Longrightarrow> s \<le> t \<and> t \<le> length buf \<and> (tok \<noteq> 0 \<longrightarrow> s < t)"
  using gettoken_advances [of buf s tok "fst w" "snd w" t] by fastforce

lemma redirection_advances:
  assumes "peek buf s toks = (True, t)" and "gettoken buf t = (tok, w, u)" and "gettoken buf u = (tok2, w2, v)"
  shows "s < v" and "v \<le> length buf"
  using peek_gettoken [OF assms(1,2)] gettoken_mono [OF assms(3)] by simp_all

section \<open>The parser\<close>

text \<open>
  A redirection is the token of its file, the mode for \<^verbatim>\<open>open\<close> and the descriptor. \<^verbatim>\<open>parseredirs\<close> wraps a command
  in the redirections it reads, here as the list of them in order.
\<close>

type_synonym redir = "token \<times> int \<times> int"

definition redircmd :: "cmd \<Rightarrow> redir \<Rightarrow> cmd" where
  "redircmd subcmd r = (case r of (file, mode, fd) \<Rightarrow> RedirCmd subcmd file mode fd)"

function parseredirs :: "u8 list \<Rightarrow> redir list \<Rightarrow> nat \<Rightarrow> (redir list \<times> nat) outcome" where
  "parseredirs buf rs s =
     (case peek buf s [60, 62] of
        (False, s) \<Rightarrow> Ret (rs, s)
      | (True, s) \<Rightarrow>
          (case gettoken buf s of (tok, _, s) \<Rightarrow>
             (case gettoken buf s of (tok2, w, s) \<Rightarrow>
                if tok2 \<noteq> 97 then Panic ''missing file for redirection''
                else parseredirs buf (rs @ [(w, if tok = 60 then (0, 0) else (513, 1))]) s)))"
  by pat_completeness auto
termination
proof (relation "measure (\<lambda>(buf, _, s). length buf - s)", simp, clarsimp)
  fix buf s t tok q e u q2 e2 v
  assume a: "(True, t) = peek buf s [60, 62]" "(tok, (q, e), u) = gettoken buf t" "(97, (q2, e2), v) = gettoken buf u"
  show "length buf - v < length buf - s"
    using redirection_advances [OF a(1) [symmetric] a(2) [symmetric] a(3) [symmetric]] by simp
qed

declare parseredirs.simps [simp del]

text \<open>
  The argument loop of \<^verbatim>\<open>parseexec\<close>, on the arguments and the redirections read so far. The C code fills the
  \<^verbatim>\<open>execcmd\<close> after it has been wrapped in redirections; here it is wrapped at the end.
\<close>

function parseargs :: "u8 list \<Rightarrow> token list \<Rightarrow> redir list \<Rightarrow> nat \<Rightarrow> (cmd \<times> nat) outcome" where
  "parseargs buf args rs s =
     (case peek buf s [124, 41, 38, 59] of
        (True, s) \<Rightarrow> Ret (foldl redircmd (ExecCmd args) rs, s)
      | (False, s) \<Rightarrow>
          (case gettoken buf s of (tok, w, s) \<Rightarrow>
             if tok = 0 then Ret (foldl redircmd (ExecCmd args) rs, s)
             else if tok \<noteq> 97 then Panic ''syntax''
             else if length args + 1 \<ge> MAXARGS then Panic ''too many args''
             else bindO (parseredirs buf rs s) (\<lambda>(rs, s). parseargs buf (args @ [w]) rs s)))"
  by pat_completeness auto
termination
  by (relation "measure (\<lambda>(buf, args, _). MAXARGS - length args)") auto

declare parseargs.simps [simp del]

text \<open>The loop of \<^verbatim>\<open>parseline\<close> over trailing ampersands.\<close>

function parsebacks :: "u8 list \<Rightarrow> cmd \<Rightarrow> nat \<Rightarrow> cmd \<times> nat" where
  "parsebacks buf cmd s =
     (case peek buf s [38] of
        (False, s) \<Rightarrow> (cmd, s)
      | (True, s) \<Rightarrow> (case gettoken buf s of (_, _, s) \<Rightarrow> parsebacks buf (BackCmd cmd) s))"
  by pat_completeness auto
termination
proof (relation "measure (\<lambda>(buf, _, s). length buf - s)", simp, clarsimp)
  fix buf s t tok q e u
  assume a: "(True, t) = peek buf s [38]" "(tok, (q, e), u) = gettoken buf t"
  show "length buf - u < length buf - s" using peek_gettoken [OF a(1) [symmetric] a(2) [symmetric]] by simp
qed

declare parsebacks.simps [simp del]

text \<open>
  The four mutually recursive functions. \<open>fuel\<close> bounds the depth of the recursion; the outcome \<open>Blocked\<close>, when it
  runs out, does not occur in \<open>parsecmd\<close>.
\<close>

fun parseline :: "nat \<Rightarrow> u8 list \<Rightarrow> nat \<Rightarrow> (cmd \<times> nat) outcome"
  and parsepipe :: "nat \<Rightarrow> u8 list \<Rightarrow> nat \<Rightarrow> (cmd \<times> nat) outcome"
  and parseexec :: "nat \<Rightarrow> u8 list \<Rightarrow> nat \<Rightarrow> (cmd \<times> nat) outcome"
  and parseblock :: "nat \<Rightarrow> u8 list \<Rightarrow> nat \<Rightarrow> (cmd \<times> nat) outcome" where
  "parseline 0 buf s = Blocked"
| "parseline (Suc fuel) buf s =
     bindO (parsepipe fuel buf s) (\<lambda>(cmd, s).
       case parsebacks buf cmd s of (cmd, s) \<Rightarrow>
         (case peek buf s [59] of
            (False, s) \<Rightarrow> Ret (cmd, s)
          | (True, s) \<Rightarrow>
              (case gettoken buf s of (_, _, s) \<Rightarrow>
                 bindO (parseline fuel buf s) (\<lambda>(right, s). Ret (ListCmd cmd right, s)))))"
| "parsepipe 0 buf s = Blocked"
| "parsepipe (Suc fuel) buf s =
     bindO (parseexec fuel buf s) (\<lambda>(cmd, s).
       case peek buf s [124] of
         (False, s) \<Rightarrow> Ret (cmd, s)
       | (True, s) \<Rightarrow>
           (case gettoken buf s of (_, _, s) \<Rightarrow>
              bindO (parsepipe fuel buf s) (\<lambda>(right, s). Ret (PipeCmd cmd right, s))))"
| "parseexec 0 buf s = Blocked"
| "parseexec (Suc fuel) buf s =
     (case peek buf s [40] of
        (True, s) \<Rightarrow> parseblock fuel buf s
      | (False, s) \<Rightarrow> bindO (parseredirs buf [] s) (\<lambda>(rs, s). parseargs buf [] rs s))"
| "parseblock 0 buf s = Blocked"
| "parseblock (Suc fuel) buf s =
     (case peek buf s [40] of
        (False, s) \<Rightarrow> Panic ''parseblock''
      | (True, s) \<Rightarrow>
          (case gettoken buf s of (_, _, s) \<Rightarrow>
             bindO (parseline fuel buf s) (\<lambda>(cmd, s).
               case peek buf s [41] of
                 (False, s) \<Rightarrow> Panic ''syntax - missing )''
               | (True, s) \<Rightarrow>
                   (case gettoken buf s of (_, _, s) \<Rightarrow>
                      bindO (parseredirs buf [] s) (\<lambda>(rs, s). Ret (foldl redircmd cmd rs, s))))))"

text \<open>\<^verbatim>\<open>nulterminate\<close> writes a zero behind every token; the byte behind the line is its terminating zero already.\<close>

primrec nulterminate :: "cmd \<Rightarrow> u8 list \<Rightarrow> u8 list" where
  "nulterminate (ExecCmd args) buf = foldl (\<lambda>buf (q, eq). buf[eq := 0]) buf args"
| "nulterminate (RedirCmd c file mode fd) buf = (nulterminate c buf)[snd file := 0]"
| "nulterminate (PipeCmd l r) buf = nulterminate r (nulterminate l buf)"
| "nulterminate (ListCmd l r) buf = nulterminate r (nulterminate l buf)"
| "nulterminate (BackCmd c) buf = nulterminate c buf"

definition parsecmd :: "u8 list \<Rightarrow> (cmd \<times> u8 list) outcome" where
  "parsecmd buf =
     bindO (parseline (4 * length buf + 4) buf 0) (\<lambda>(cmd, s).
       case peek buf s [] of (_, s) \<Rightarrow>
         if s \<noteq> length buf then Panic ''syntax'' else Ret (cmd, nulterminate cmd buf))"

section \<open>Well-formed commands\<close>

definition wordchar :: "u8 \<Rightarrow> bool" where
  "wordchar c \<longleftrightarrow> c \<notin> set whitespace \<and> c \<notin> set symbols"

text \<open>A word: a nonempty run of word characters that cannot be extended to the right.\<close>

fun is_word :: "u8 list \<Rightarrow> token \<Rightarrow> bool" where
  "is_word buf (q, e) \<longleftrightarrow> q < e \<and> e \<le> length buf \<and> (\<forall>i\<in>{q..<e}. wordchar (buf ! i)) \<and> (e < length buf \<longrightarrow> \<not> wordchar (buf ! e))"

primrec wf_cmd :: "u8 list \<Rightarrow> cmd \<Rightarrow> bool" where
  "wf_cmd buf (ExecCmd args) \<longleftrightarrow> length args < MAXARGS \<and> (\<forall>w\<in>set args. is_word buf w)"
| "wf_cmd buf (RedirCmd c w mode fd) \<longleftrightarrow> wf_cmd buf c \<and> is_word buf w \<and> (mode, fd) \<in> {(0, 0), (513, 1)}"
| "wf_cmd buf (PipeCmd l r) \<longleftrightarrow> wf_cmd buf l \<and> wf_cmd buf r"
| "wf_cmd buf (ListCmd l r) \<longleftrightarrow> wf_cmd buf l \<and> wf_cmd buf r"
| "wf_cmd buf (BackCmd c) \<longleftrightarrow> wf_cmd buf c"

lemma gettoken_word:
  assumes "gettoken buf s = (97, w, t)" and "s \<le> length buf"
  shows "is_word buf w"
proof -
  define q where "q = skip (\<lambda>c. c \<in> set whitespace) buf s"
  obtain e where w: "w = (q, e)" using assms(1) by (auto simp: gettoken_def Let_def q_def split: if_splits)
  have c: "ch buf q \<noteq> 0" "ch buf q \<notin> set symbols" and e: "e = skip wordchar buf q"
    using assms(1) unfolding w gettoken_def wordchar_def [symmetric] q_def [symmetric]
    by (auto simp: Let_def symbols_def split: if_splits)
  have q: "q < length buf" by (rule ch_nonzero [OF c(1)])
  have "ch buf q \<notin> set whitespace" using skip_stops [of "\<lambda>c. c \<in> set whitespace" buf s] q by (simp add: q_def)
  then have qe: "q < e" unfolding e using c q by (intro skip_step) (simp_all add: wordchar_def)
  have el: "e \<le> length buf" unfolding e using q by (intro skip_le) simp
  have "wordchar (buf ! i)" if "q \<le> i" "i < e" for i
    using skip_all [of q i wordchar buf] that el by (simp add: e [symmetric] ch_def)
  moreover have "\<not> wordchar (buf ! e)" if "e < length buf"
    using skip_stops [of wordchar buf q] that by (simp add: e [symmetric] ch_def)
  ultimately show ?thesis using qe el by (simp add: w)
qed

definition wf_redir :: "u8 list \<Rightarrow> redir \<Rightarrow> bool" where
  "wf_redir buf r \<longleftrightarrow> is_word buf (fst r) \<and> snd r \<in> {(0, 0), (513, 1)}"

lemma wf_redircmds: "wf_cmd buf c \<Longrightarrow> \<forall>r\<in>set rs. wf_redir buf r \<Longrightarrow> wf_cmd buf (foldl redircmd c rs)"
  by (induction rs arbitrary: c) (auto simp: redircmd_def wf_redir_def split: prod.splits)

text \<open>What every parsing function guarantees when it returns: it has moved forward, and its result is well formed.\<close>

definition parsed :: "u8 list \<Rightarrow> nat \<Rightarrow> ('c \<Rightarrow> bool) \<Rightarrow> ('c \<times> nat) outcome \<Rightarrow> bool" where
  "parsed buf s P m \<longleftrightarrow> m \<noteq> Blocked \<and> whenever m (\<lambda>(c, t). s \<le> t \<and> t \<le> length buf \<and> P c)"

lemma parsed_simps [simp]:
  "parsed buf s P (Ret (c, t)) \<longleftrightarrow> s \<le> t \<and> t \<le> length buf \<and> P c" "parsed buf s P (Panic e)"
  by (simp_all add: parsed_def)

lemma parsed_later: "parsed buf t P m \<Longrightarrow> s \<le> t \<Longrightarrow> parsed buf s P m"
  by (auto simp: parsed_def intro: whenever_mono)

lemma parsed_bind:
  assumes "parsed buf s P m" and "\<And>c t. m = Ret (c, t) \<Longrightarrow> s \<le> t \<Longrightarrow> t \<le> length buf \<Longrightarrow> P c \<Longrightarrow> parsed buf t Q (f (c, t))"
  shows "parsed buf s Q (bindO m f)"
proof (cases m)
  case (Ret x)
  obtain c t where "x = (c, t)" by fastforce
  then show ?thesis using assms Ret parsed_later [OF assms(2) [where c = c and t = t], of s] by simp
qed (use assms(1) in \<open>simp_all add: parsed_def\<close>)

lemma parseredirs_ok:
  "s \<le> length buf \<Longrightarrow> \<forall>r\<in>set rs. wf_redir buf r \<Longrightarrow> parsed buf s (\<lambda>rs. \<forall>r\<in>set rs. wf_redir buf r) (parseredirs buf rs s)"
proof (induction buf rs s rule: parseredirs.induct)
  case (1 buf rs s)
  obtain b t where p: "peek buf s [60, 62] = (b, t)" by fastforce
  have t: "s \<le> t" "t \<le> length buf" using peek_advances [OF p] "1.prems"(1) by simp_all
  obtain tok w u where g: "gettoken buf t = (tok, w, u)" by (metis prod_cases3)
  obtain tok2 w2 v where g2: "gettoken buf u = (tok2, w2, v)" by (metis prod_cases3)
  show ?case
  proof (cases "b \<and> tok2 = 97")
    case True
    then have v: "s < v" "v \<le> length buf" "u \<le> length buf" "is_word buf w2"
      using redirection_advances [of buf s "[60, 62]" t] peek_gettoken [of buf s "[60, 62]" t] gettoken_word [of buf u w2 v] p g g2 by simp_all
    let ?rs = "rs @ [(w2, if tok = 60 then (0, 0) else (513, 1))]"
    have "parsed buf v (\<lambda>rs. \<forall>r\<in>set rs. wf_redir buf r) (parseredirs buf ?rs v)"
      by (rule "1.IH" [OF p [symmetric] _ g [symmetric] _ g2 [symmetric]])
        (use True v "1.prems" in \<open>auto simp: wf_redir_def\<close>)
    then have "parsed buf s (\<lambda>rs. \<forall>r\<in>set rs. wf_redir buf r) (parseredirs buf ?rs v)" by (rule parsed_later) (use v in simp)
    then show ?thesis using True p g g2 by (subst parseredirs.simps) (cases "tok = 60"; simp)
  next
    case False
    then show ?thesis using t "1.prems" p g g2 by (subst parseredirs.simps) (auto split: bool.split)
  qed
qed

lemma parseargs_ok:
  "s \<le> length buf \<Longrightarrow> wf_cmd buf (ExecCmd args) \<Longrightarrow> \<forall>r\<in>set rs. wf_redir buf r \<Longrightarrow>
     parsed buf s (wf_cmd buf) (parseargs buf args rs s)"
proof (induction buf args rs s rule: parseargs.induct)
  case (1 buf args rs s)
  obtain b t where p: "peek buf s [124, 41, 38, 59] = (b, t)" by fastforce
  have t: "s \<le> t" "t \<le> length buf" using peek_advances [OF p] "1.prems"(1) by simp_all
  obtain tok w u where g: "gettoken buf t = (tok, w, u)" by (metis prod_cases3)
  have u: "t \<le> u" "u \<le> length buf" using gettoken_mono [OF g t(2)] by simp_all
  have wf: "wf_cmd buf (foldl redircmd (ExecCmd args) rs)" using "1.prems" wf_redircmds by blast
  show ?case
  proof (cases "\<not> b \<and> tok = 97 \<and> length args + 1 < MAXARGS")
    case True
    have "parsed buf u (wf_cmd buf) (bindO (parseredirs buf rs u) (\<lambda>(rs, s). parseargs buf (args @ [w]) rs s))"
    proof (rule parsed_bind [OF parseredirs_ok], goal_cases)
      case (3 rs' v)
      have "is_word buf w" using gettoken_word [of buf t w u] g True t by simp
      then show ?case unfolding prod.case
        by (intro "1.IH" [OF p [symmetric] _ g [symmetric] refl _ _ _ 3(1) refl]) (use True 3 "1.prems" in auto)
    qed (use u "1.prems" in simp_all)
    then have "parsed buf s (wf_cmd buf) (bindO (parseredirs buf rs u) (\<lambda>(rs, s). parseargs buf (args @ [w]) rs s))"
      by (rule parsed_later) (use t u in simp)
    then show ?thesis using True p g by (subst parseargs.simps) simp
  next
    case False
    then show ?thesis using t u wf p g by (subst parseargs.simps) (auto split: bool.split)
  qed
qed

lemma parsebacks_ok:
  "s \<le> length buf \<Longrightarrow> wf_cmd buf c \<Longrightarrow> parsebacks buf c s = (d, t) \<Longrightarrow> s \<le> t \<and> t \<le> length buf \<and> wf_cmd buf d"
proof (induction buf c s rule: parsebacks.induct)
  case (1 buf c s)
  obtain b u where p: "peek buf s [38] = (b, u)" by fastforce
  obtain tok w v where g: "gettoken buf u = (tok, w, v)" by (metis prod_cases3)
  show ?case
  proof (cases b)
    case True
    have v: "s < v" "v \<le> length buf" using peek_gettoken [of buf s "[38]" u] p g True by simp_all
    have "parsebacks buf (BackCmd c) v = (d, t)" using "1.prems"(3) p g True by (subst (asm) parsebacks.simps) simp
    then have "v \<le> t \<and> t \<le> length buf \<and> wf_cmd buf d"
      by (intro "1.IH" [OF p [symmetric] _ g [symmetric] refl]) (use True v "1.prems" in auto)
    then show ?thesis using v by simp
  next
    case False
    then show ?thesis using "1.prems" p peek_advances [OF p] by (subst (asm) parsebacks.simps) simp
  qed
qed

text \<open>One level of each function, given the next level.\<close>

lemma parseline_level:
  assumes pipe: "parsed buf s (wf_cmd buf) (parsepipe fuel buf s)"
    and line: "\<And>t. s < t \<Longrightarrow> t \<le> length buf \<Longrightarrow> parsed buf t (wf_cmd buf) (parseline fuel buf t)"
  shows "parsed buf s (wf_cmd buf) (parseline (Suc fuel) buf s)"
  unfolding parseline.simps
proof (rule parsed_bind [OF pipe], goal_cases)
  case (1 c t)
  obtain d u where b: "parsebacks buf c t = (d, u)" by fastforce
  have u: "t \<le> u" "u \<le> length buf" "wf_cmd buf d" using parsebacks_ok [OF 1(3,4) b] by simp_all
  obtain q v where p: "peek buf u [59] = (q, v)" by fastforce
  have v: "u \<le> v" "v \<le> length buf" using peek_advances [OF p] u by simp_all
  obtain tok w x where g: "gettoken buf v = (tok, w, x)" by (metis prod_cases3)
  show ?case
  proof (cases q)
    case True
    then have x: "u < x" "x \<le> length buf" using peek_gettoken [of buf u "[59]" v] p g by simp_all
    have "parsed buf x (wf_cmd buf) (bindO (parseline fuel buf x) (\<lambda>(right, s). Ret (ListCmd d right, s)))"
      by (rule parsed_bind [OF line]) (use 1 u x in simp_all)
    from parsed_later [OF this, of t] show ?thesis using True b p g u x by simp
  qed (use u v b p in simp)
qed

lemma parsepipe_level:
  assumes exec: "parsed buf s (wf_cmd buf) (parseexec fuel buf s)"
    and pipe: "\<And>t. s < t \<Longrightarrow> t \<le> length buf \<Longrightarrow> parsed buf t (wf_cmd buf) (parsepipe fuel buf t)"
  shows "parsed buf s (wf_cmd buf) (parsepipe (Suc fuel) buf s)"
  unfolding parsepipe.simps
proof (rule parsed_bind [OF exec], goal_cases)
  case (1 c t)
  obtain q v where p: "peek buf t [124] = (q, v)" by fastforce
  have v: "t \<le> v" "v \<le> length buf" using peek_advances [OF p] 1 by simp_all
  obtain tok w x where g: "gettoken buf v = (tok, w, x)" by (metis prod_cases3)
  show ?case
  proof (cases q)
    case True
    then have x: "t < x" "x \<le> length buf" using peek_gettoken [of buf t "[124]" v] p g by simp_all
    have "parsed buf x (wf_cmd buf) (bindO (parsepipe fuel buf x) (\<lambda>(right, s). Ret (PipeCmd c right, s)))"
      by (rule parsed_bind [OF pipe]) (use 1 x in simp_all)
    from parsed_later [OF this, of t] show ?thesis using True p g x by simp
  qed (use 1 v p in simp)
qed

lemma parseexec_level:
  assumes block: "\<And>t. s \<le> t \<Longrightarrow> t \<le> length buf \<Longrightarrow> parsed buf t (wf_cmd buf) (parseblock fuel buf t)" and s: "s \<le> length buf"
  shows "parsed buf s (wf_cmd buf) (parseexec (Suc fuel) buf s)"
proof -
  obtain q t where p: "peek buf s [40] = (q, t)" by fastforce
  have t: "s \<le> t" "t \<le> length buf" using peek_advances [OF p] s by simp_all
  have "parsed buf t (wf_cmd buf) (bindO (parseredirs buf [] t) (\<lambda>(rs, s). parseargs buf [] rs s))"
    by (rule parsed_bind [OF parseredirs_ok]) (use t parseargs_ok in simp_all)
  from parsed_later [OF this t(1)] parsed_later [OF block [OF t] t(1)] show ?thesis using p by (simp split: bool.split)
qed

lemma parseblock_level:
  assumes line: "\<And>t. s < t \<Longrightarrow> t \<le> length buf \<Longrightarrow> parsed buf t (wf_cmd buf) (parseline fuel buf t)"
  shows "parsed buf s (wf_cmd buf) (parseblock (Suc fuel) buf s)"
proof -
  obtain q t where p: "peek buf s [40] = (q, t)" by fastforce
  obtain tok w x where g: "gettoken buf t = (tok, w, x)" by (metis prod_cases3)
  have "parsed buf x (wf_cmd buf) (bindO (parseline fuel buf x) (\<lambda>(cmd, s).
               case peek buf s [41] of
                 (False, s) \<Rightarrow> Panic ''syntax - missing )''
               | (True, s) \<Rightarrow>
                   (case gettoken buf s of (_, _, s) \<Rightarrow>
                      bindO (parseredirs buf [] s) (\<lambda>(rs, s). Ret (foldl redircmd cmd rs, s)))))"
    if "s < x" "x \<le> length buf"
  proof (rule parsed_bind [OF line [OF that]], goal_cases)
    case (1 c u)
    obtain b v where p: "peek buf u [41] = (b, v)" by fastforce
    obtain tok w y where g: "gettoken buf v = (tok, w, y)" by (metis prod_cases3)
    show ?case
    proof (cases b)
      case True
      then have y: "u < y" "y \<le> length buf" using peek_gettoken [of buf u "[41]" v] p g by simp_all
      have "parsed buf y (wf_cmd buf) (bindO (parseredirs buf [] y) (\<lambda>(rs, s). Ret (foldl redircmd c rs, s)))"
        by (rule parsed_bind [OF parseredirs_ok]) (use 1 y wf_redircmds in simp_all)
      from parsed_later [OF this, of u] show ?thesis using True p g y by simp
    qed (use p in simp)
  qed
  note rest = parsed_later [OF this, of s]
  show ?thesis using rest p g peek_gettoken [of buf s "[40]" t tok w x] by (simp split: bool.split)
qed

lemma parse_enough_fuel:
  "s \<le> length buf \<Longrightarrow> 4 * (length buf - s) + 4 \<le> fuel \<Longrightarrow> parsed buf s (wf_cmd buf) (parseline fuel buf s)"
  "s \<le> length buf \<Longrightarrow> 4 * (length buf - s) + 3 \<le> fuel \<Longrightarrow> parsed buf s (wf_cmd buf) (parsepipe fuel buf s)"
  "s \<le> length buf \<Longrightarrow> 4 * (length buf - s) + 2 \<le> fuel \<Longrightarrow> parsed buf s (wf_cmd buf) (parseexec fuel buf s)"
  "s \<le> length buf \<Longrightarrow> 4 * (length buf - s) + 1 \<le> fuel \<Longrightarrow> parsed buf s (wf_cmd buf) (parseblock fuel buf s)"
proof (induction fuel arbitrary: s)
  case (Suc fuel)
  { case 1 then show ?case by (intro parseline_level Suc.IH) simp_all }
  { case 2 then show ?case by (intro parsepipe_level Suc.IH) simp_all }
  { case 3 then show ?case by (intro parseexec_level Suc.IH) simp_all }
  { case 4 then show ?case by (intro parseblock_level Suc.IH) simp_all }
qed simp_all

section \<open>Commands of a line\<close>

primrec tokens :: "cmd \<Rightarrow> token list" where
  "tokens (ExecCmd args) = args"
| "tokens (RedirCmd c w mode fd) = tokens c @ [w]"
| "tokens (PipeCmd l r) = tokens l @ tokens r"
| "tokens (ListCmd l r) = tokens l @ tokens r"
| "tokens (BackCmd c) = tokens c"

lemma nulterminate_tokens: "nulterminate c buf = foldl (\<lambda>buf (q, e). buf[e := 0]) buf (tokens c)"
  by (induction c arbitrary: buf) (simp_all add: case_prod_unfold)

lemma wf_cmd_tokens: "wf_cmd buf c \<Longrightarrow> w \<in> set (tokens c) \<Longrightarrow> is_word buf w"
  by (induction c) auto

lemma nth_zeroed:
  "i < length buf \<Longrightarrow> foldl (\<lambda>buf (q, e). buf[e := 0]) buf ws ! i = (if i \<in> snd ` set ws then 0 else buf ! i)"
  "length (foldl (\<lambda>buf (q, e). buf[e := 0]) buf ws) = length buf"
  by (induction ws arbitrary: buf) (force simp: nth_list_update)+

text \<open>The C string at position \<open>q\<close>.\<close>

definition cstring_at :: "u8 list \<Rightarrow> nat \<Rightarrow> u8 list" where
  "cstring_at buf q = takeWhile (\<lambda>c. c \<noteq> 0) (drop q buf)"

lemma cstring_at_eq:
  assumes "q \<le> e" and "e \<le> length buf" and "\<And>i. q \<le> i \<Longrightarrow> i < e \<Longrightarrow> buf ! i \<noteq> 0" and "e < length buf \<Longrightarrow> buf ! e = 0"
  shows "cstring_at buf q = take (e - q) (drop q buf)"
proof -
  have d: "drop q buf = take (e - q) (drop q buf) @ drop e buf"
    using assms(1) by (metis append_take_drop_id drop_drop le_add_diff_inverse2)
  have "\<forall>c\<in>set (take (e - q) (drop q buf)). c \<noteq> 0" using assms(2,3) by (auto simp: in_set_conv_nth)
  moreover have "takeWhile (\<lambda>c. c \<noteq> 0) (drop e buf) = []"
    using assms(2,4) by (cases "e < length buf") (simp_all add: takeWhile_eq_Nil_iff hd_drop_conv_nth)
  ultimately show ?thesis unfolding cstring_at_def by (subst d) (simp add: takeWhile_append2)
qed

lemma nulterminate_word:
  assumes "0 \<notin> set buf" and "wf_cmd buf c" and "(q, e) \<in> set (tokens c)"
  shows "cstring_at (nulterminate c buf) q = take (e - q) (drop q buf)"
proof -
  let ?b = "nulterminate c buf"
  have w: "is_word buf (q, e)" using assms wf_cmd_tokens by blast
  have len: "length ?b = length buf" by (simp add: nulterminate_tokens nth_zeroed)
  have nth: "?b ! i = (if i \<in> snd ` set (tokens c) then 0 else buf ! i)" if "i < length buf" for i
    using that by (simp add: nulterminate_tokens nth_zeroed)
  have same: "?b ! i = buf ! i" if "q \<le> i" "i < e" for i
  proof -
    have "wordchar (buf ! i)" "i < length buf" using w that by auto
    moreover have "\<not> wordchar (buf ! j)" if "j \<in> snd ` set (tokens c)" "j < length buf" for j
      using that wf_cmd_tokens [OF assms(2)] by auto
    ultimately show ?thesis using nth [of i] by auto
  qed
  have "e \<in> snd ` set (tokens c)" using assms(3) by force
  then have "cstring_at ?b q = take (e - q) (drop q ?b)"
    using w same nth assms(1) by (intro cstring_at_eq) (auto simp: len in_set_conv_nth)
  also have "\<dots> = take (e - q) (drop q buf)" using w same len by (auto intro!: nth_equalityI)
  finally show ?thesis .
qed

text \<open>
  C29: Parsing a command line ends. For every line the recursion and the loops of the parser come to an end: the
  fuel given to \<open>parseline\<close>, four times the length of the line and four, is always enough, so \<^verbatim>\<open>parsecmd\<close> either
  delivers a command or panics.
\<close>

theorem parsecmd_terminates: "parsecmd buf \<noteq> Blocked"
proof (cases "parseline (4 * length buf + 4) buf 0")
  case Blocked
  then show ?thesis using parse_enough_fuel(1) [of 0 buf] by (simp add: parsed_def)
qed (auto simp: parsecmd_def split: prod.split)

lemma wf_parsecmd:
  assumes "parsecmd buf = Ret (c, buf')"
  shows "wf_cmd buf c" and "buf' = nulterminate c buf"
proof -
  obtain d s where d: "parseline (4 * length buf + 4) buf 0 = Ret (d, s)"
    using assms(1) by (auto simp: parsecmd_def outcome_simps)
  obtain x t where "peek buf s [] = (x, t)" by fastforce
  then have s: "parseline (4 * length buf + 4) buf 0 = Ret (c, s)" and b: "buf' = nulterminate c buf"
    using assms(1) d by (auto simp: parsecmd_def split: if_splits)
  show "wf_cmd buf c" using parse_enough_fuel(1) [of 0 buf "4 * length buf + 4"] s by (simp add: parsed_def)
  show "buf' = nulterminate c buf" by (rule b)
qed

text \<open>
  C28: The parser builds well-formed commands. Every simple command has fewer than MAXARGS arguments, every argument
  and file name is a maximal nonempty run of characters that are neither white space nor symbols, every
  redirection has one of the two modes; and after the zeros are written the C string at each token is exactly
  the token, although all tokens share the line.
\<close>

theorem parsed_command_wellformed:
  assumes "parsecmd buf = Ret (c, buf')" and "0 \<notin> set buf"
  shows "wf_cmd buf c \<and> (\<forall>(q, e)\<in>set (tokens c). cstring_at buf' q = take (e - q) (drop q buf))"
  using wf_parsecmd [OF assms(1)] nulterminate_word [OF assms(2)] by auto

text \<open>The line \<^verbatim>\<open>ab >c\<close> with its newline.\<close>

theorem parsed_command_wellformed_witness:
  "parsecmd [97, 98, 32, 62, 99, 10] = Ret (RedirCmd (ExecCmd [(0, 2)]) (4, 5) 513 1, [97, 98, 0, 62, 99, 0]) \<and>
   cstring_at [97, 98, 0, 62, 99, 0] 0 = [97, 98] \<and> cstring_at [97, 98, 0, 62, 99, 0] 4 = [99]"
proof -
  have p: "parsecmd [97, 98, 32, 62, 99, 10] = Ret (RedirCmd (ExecCmd [(0, 2)]) (4, 5) 513 1, [97, 98, 0, 62, 99, 0])"
    by code_simp
  show ?thesis using p parsed_command_wellformed [OF p] by simp
qed

section \<open>Running a command\<close>

text \<open>
  A user process between its system calls: it exits, or makes a call and continues with the reply, the result
  of the call followed by what it stored (the two descriptors of \<^verbatim>\<open>pipe\<close>). Printing is one call of its own.
\<close>

datatype sysreq =
    SysExec "u8 list" "u8 list list" | SysOpen "u8 list" int | SysClose int | SysDup int | SysPipe
  | SysFork | SysWait | SysPrint int "u8 list"

datatype uprog = UExit int | USys sysreq "int list \<Rightarrow> uprog"

definition u_panic :: "u8 list \<Rightarrow> uprog" where
  "u_panic msg = USys (SysPrint 2 (msg @ [10])) (\<lambda>_. UExit 1)"

definition fork1 :: "(int \<Rightarrow> uprog) \<Rightarrow> uprog" where
  "fork1 k = USys SysFork (\<lambda>r. if hd r = - 1 then u_panic [102, 111, 114, 107] else k (hd r))"

definition u_close :: "int \<Rightarrow> uprog \<Rightarrow> uprog" where
  "u_close fd k = USys (SysClose fd) (\<lambda>_. k)"

definition u_dup :: "int \<Rightarrow> uprog \<Rightarrow> uprog" where
  "u_dup fd k = USys (SysDup fd) (\<lambda>_. k)"

definition u_wait :: "uprog \<Rightarrow> uprog" where
  "u_wait k = USys SysWait (\<lambda>_. k)"

text \<open>\<^verbatim>\<open>exec\<close> returns only when it fails.\<close>

primrec runcmd :: "u8 list \<Rightarrow> cmd \<Rightarrow> uprog" where
  "runcmd buf (ExecCmd args) =
     (if args = [] then UExit 1
      else
        let argv = map (\<lambda>(q, e). cstring_at buf q) args in
        USys (SysExec (hd argv) argv) (\<lambda>_.
        USys (SysPrint 2 ([101, 120, 101, 99, 32] @ hd argv @ [32, 102, 97, 105, 108, 101, 100, 10])) (\<lambda>_. UExit 0)))"
| "runcmd buf (RedirCmd c file mode fd) =
     u_close fd (USys (SysOpen (cstring_at buf (fst file)) mode) (\<lambda>r.
       if hd r < 0
       then USys (SysPrint 2 ([111, 112, 101, 110, 32] @ cstring_at buf (fst file) @ [32, 102, 97, 105, 108, 101, 100, 10])) (\<lambda>_. UExit 1)
       else runcmd buf c))"
| "runcmd buf (ListCmd l r) =
     fork1 (\<lambda>pid. if pid = 0 then runcmd buf l else u_wait (runcmd buf r))"
| "runcmd buf (PipeCmd l r) =
     USys SysPipe (\<lambda>p.
       if hd p < 0 then u_panic [112, 105, 112, 101]
       else
         let p0 = p ! 1; p1 = p ! 2 in
         fork1 (\<lambda>pid.
           if pid = 0 then u_close 1 (u_dup p1 (u_close p0 (u_close p1 (runcmd buf l))))
           else fork1 (\<lambda>pid.
             if pid = 0 then u_close 0 (u_dup p0 (u_close p0 (u_close p1 (runcmd buf r))))
             else u_close p0 (u_close p1 (u_wait (u_wait (UExit 0)))))))"
| "runcmd buf (BackCmd c) =
     fork1 (\<lambda>pid. if pid = 0 then runcmd buf c else UExit 0)"

section \<open>Which processes run, and with which files\<close>

text \<open>
  The processes of a command when no call fails: \<^verbatim>\<open>open\<close>, \<^verbatim>\<open>dup\<close> and \<^verbatim>\<open>pipe\<close> take the lowest free descriptors, and \<^verbatim>\<open>fork\<close>
  copies the table. A process forks a child and goes on, waits for a child, executes a program or exits; for a process
  that waits, executes or exits the tree records the descriptors that are open in it. A pipe is known by the path in the tree of
  the process that made it.
\<close>

datatype endpoint = OnFile "u8 list" int | PipeRead "nat list" | PipeWrite "nat list" | Inherited nat

type_synonym fdtable = "endpoint option list"

datatype ptree = PExit int fdtable | PExec "u8 list list" fdtable | PFork ptree ptree | PWait fdtable ptree

definition lowest_free :: "fdtable \<Rightarrow> nat" where
  "lowest_free fds = length (takeWhile (\<lambda>f. f \<noteq> None) fds)"

primrec process_tree :: "uprog \<Rightarrow> nat list \<Rightarrow> fdtable \<Rightarrow> ptree" where
  "process_tree (UExit n) pth fds = PExit n fds"
| "process_tree (USys req k) pth fds =
     (case req of
        SysExec p argv \<Rightarrow> PExec argv fds
      | SysOpen p mode \<Rightarrow> process_tree (k [int (lowest_free fds)]) pth (fds[lowest_free fds := Some (OnFile p mode)])
      | SysClose fd \<Rightarrow> process_tree (k [0]) pth (fds[nat fd := None])
      | SysDup fd \<Rightarrow> process_tree (k [int (lowest_free fds)]) pth (fds[lowest_free fds := fds ! nat fd])
      | SysPipe \<Rightarrow>
          let a = lowest_free fds; fds = fds[a := Some (PipeRead pth)];
              b = lowest_free fds; fds = fds[b := Some (PipeWrite pth)] in
          process_tree (k [0, int a, int b]) pth fds
      | SysFork \<Rightarrow> PFork (process_tree (k [0]) (pth @ [0]) fds) (process_tree (k [1]) (pth @ [1]) fds)
      | SysWait \<Rightarrow> PWait fds (process_tree (k [1]) pth fds)
      | SysPrint fd msg \<Rightarrow> process_tree (k [0]) pth fds)"

text \<open>
  What a command means. Redirections and pipes replace descriptors. A list forks its left side and waits for it
  before it becomes the right side; a pipeline forks both sides and waits for both; a background command is not waited for. A process that
  waits has no descriptor open beyond those it was started with.
\<close>

primrec meaning :: "u8 list \<Rightarrow> cmd \<Rightarrow> nat list \<Rightarrow> fdtable \<Rightarrow> ptree" where
  "meaning buf (ExecCmd args) pth fds = (if args = [] then PExit 1 fds else PExec (map (\<lambda>(q, e). cstring_at buf q) args) fds)"
| "meaning buf (RedirCmd c file mode fd) pth fds =
     meaning buf c pth (fds[nat fd := Some (OnFile (cstring_at buf (fst file)) mode)])"
| "meaning buf (PipeCmd l r) pth fds =
     PFork (meaning buf l (pth @ [0]) (fds[1 := Some (PipeWrite pth)]))
       (PFork (meaning buf r (pth @ [1, 0]) (fds[0 := Some (PipeRead pth)])) (PWait fds (PWait fds (PExit 0 fds))))"
| "meaning buf (ListCmd l r) pth fds = PFork (meaning buf l (pth @ [0]) fds) (PWait fds (meaning buf r (pth @ [1]) fds))"
| "meaning buf (BackCmd c) pth fds = PFork (meaning buf c (pth @ [0]) fds) (PExit 0 fds)"

text \<open>The descriptor tables of all processes of a tree, and the programs executed.\<close>

primrec tables :: "ptree \<Rightarrow> fdtable list" where
  "tables (PExit n fds) = [fds]"
| "tables (PExec argv fds) = [fds]"
| "tables (PFork c p) = tables c @ tables p"
| "tables (PWait fds p) = fds # tables p"

primrec programs :: "ptree \<Rightarrow> u8 list list list" where
  "programs (PExit n fds) = []"
| "programs (PExec argv fds) = [argv]"
| "programs (PFork c p) = programs c @ programs p"
| "programs (PWait fds p) = programs p"

primrec named :: "u8 list \<Rightarrow> cmd \<Rightarrow> u8 list list list" where
  "named buf (ExecCmd args) = (if args = [] then [] else [map (\<lambda>(q, e). cstring_at buf q) args])"
| "named buf (RedirCmd c file mode fd) = named buf c"
| "named buf (PipeCmd l r) = named buf l @ named buf r"
| "named buf (ListCmd l r) = named buf l @ named buf r"
| "named buf (BackCmd c) = named buf c"

lemma lowest_free_simps [simp]: "lowest_free (None # fds) = 0" "lowest_free (Some f # fds) = Suc (lowest_free fds)"
  by (simp_all add: lowest_free_def)

lemma process_tree_calls [simp]:
  "process_tree (u_close fd k) pth fds = process_tree k pth (fds[nat fd := None])"
  "process_tree (u_dup fd k) pth fds = process_tree k pth (fds[lowest_free fds := fds ! nat fd])"
  "process_tree (u_wait k) pth fds = PWait fds (process_tree k pth fds)"
  "process_tree (fork1 g) pth fds = PFork (process_tree (g 0) (pth @ [0]) fds) (process_tree (g 1) (pth @ [1]) fds)"
  by (simp_all add: u_close_def u_dup_def u_wait_def fork1_def)

lemma runcmd_wires:
  assumes "wf_cmd line c"
  shows "process_tree (runcmd buf c) pth (Some f0 # Some f1 # Some f2 # None # None # fds) =
    meaning buf c pth (Some f0 # Some f1 # Some f2 # None # None # fds)"
  using assms
proof (induction c arbitrary: pth f0 f1)
  case (RedirCmd c w mode fd)
  then have "fd = 0 \<or> fd = 1" "wf_cmd line c" by auto
  then show ?case using RedirCmd.IH by (elim disjE) (simp_all add: case_prod_unfold)
qed (simp_all add: Let_def numeral_2_eq_2 numeral_3_eq_3)

lemma meaning_programs: "programs (meaning buf c pth fds) = named buf c"
  by (induction c arbitrary: pth fds) simp_all

lemma meaning_tables:
  assumes "wf_cmd line c" and "F \<in> set (tables (meaning buf c pth fds))"
  shows "drop 2 F = drop 2 fds"
  using assms
proof (induction c arbitrary: pth fds)
  case (RedirCmd c w mode fd)
  then have "fd = 0 \<or> fd = 1" "wf_cmd line c" by auto
  then show ?case using RedirCmd by (auto simp: case_prod_unfold)
qed (auto split: if_splits)



section \<open>The command loop\<close>

text \<open>
  One round of the loop of \<^verbatim>\<open>main\<close> on the line that \<^verbatim>\<open>getcmd\<close> read after its prompt; \<open>chdir\<close> is the continuation of the
  call for the directory change. The parser runs in the child.
\<close>

definition child_runs :: "u8 list \<Rightarrow> uprog" where
  "child_runs buf =
     (case parsecmd buf of Ret (c, buf) \<Rightarrow> runcmd buf c | Panic msg \<Rightarrow> u_panic (map of_char msg) | Blocked \<Rightarrow> UExit 1)"

definition sh_round :: "(u8 list \<Rightarrow> (int \<Rightarrow> uprog) \<Rightarrow> uprog) \<Rightarrow> u8 list \<Rightarrow> uprog \<Rightarrow> uprog" where
  "sh_round chdir buf k =
     (if take 3 buf = [99, 100, 32] then
        let dir = drop 3 (butlast buf) in
        chdir dir (\<lambda>r. if r < 0 then USys (SysPrint 2 ([99, 97, 110, 110, 111, 116, 32, 99, 100, 32] @ dir @ [10])) (\<lambda>_. k) else k)
      else fork1 (\<lambda>pid. if pid = 0 then child_runs buf else u_wait k))"

text \<open>The loop ends at the first empty line, the end of the input.\<close>

primrec sh_main :: "(u8 list \<Rightarrow> (int \<Rightarrow> uprog) \<Rightarrow> uprog) \<Rightarrow> u8 list list \<Rightarrow> uprog" where
  "sh_main chdir [] = UExit 0"
| "sh_main chdir (buf # lines) =
     USys (SysPrint 2 [36, 32]) (\<lambda>_. if buf = [] then UExit 0 else sh_round chdir buf (sh_main chdir lines))"

text \<open>The shell survives every line it reads: a line that does not parse ends only the child.\<close>

lemma sh_round_tree:
  "take 3 buf \<noteq> [99, 100, 32] \<Longrightarrow> process_tree (sh_round chdir buf k) pth fds =
     PFork (process_tree (child_runs buf) (pth @ [0]) fds) (PWait fds (process_tree k (pth @ [1]) fds))"
  by (simp add: sh_round_def)

lemma child_runs_tree:
  assumes "0 \<notin> set buf"
  shows "process_tree (child_runs buf) pth (Some f0 # Some f1 # Some f2 # None # None # fds) =
    (case parsecmd buf of Ret (c, buf') \<Rightarrow> meaning buf' c pth (Some f0 # Some f1 # Some f2 # None # None # fds)
     | _ \<Rightarrow> PExit 1 (Some f0 # Some f1 # Some f2 # None # None # fds))"
proof (cases "parsecmd buf")
  case (Ret x)
  obtain c b where x: "x = (c, b)" by fastforce
  have "wf_cmd buf c" by (rule wf_parsecmd(1) [OF Ret [unfolded x]])
  then show ?thesis using runcmd_wires [of buf c b pth f0 f1 f2 fds] Ret x by (simp add: child_runs_def)
qed (simp_all add: child_runs_def u_panic_def)

end
