(* ===== verification/Ulib.thy ===== *)
theory Ulib
  imports Cstring
begin

text \<open>
  The user library: the string functions of \<^verbatim>\<open>ulib.c\<close> on the byte memory of a process, and \<^verbatim>\<open>printf.c\<close>. A loop that
  runs to the end of a string is a partial function, undefined when there is no terminating zero. The bytes
  that \<^verbatim>\<open>printf\<close> writes, one call of \<^verbatim>\<open>write\<close> each, are its result.
\<close>

section \<open>Strings\<close>

partial_function (option) u_strcpy :: "u32 \<Rightarrow> u32 \<Rightarrow> mem \<Rightarrow> mem option" where
  "u_strcpy s t m = (if m t \<noteq> 0 then u_strcpy (s + 1) (t + 1) (m(s := m t)) else Some (m(s := 0)))"

partial_function (option) u_strcmp :: "u32 \<Rightarrow> u32 \<Rightarrow> mem \<Rightarrow> int option" where
  "u_strcmp p q m = (if m p \<noteq> 0 \<and> m p = m q then u_strcmp (p + 1) (q + 1) m else Some (uint (m p) - uint (m q)))"

definition u_strlen :: "u32 \<Rightarrow> mem \<Rightarrow> u32 option" where
  "u_strlen s m = strlen_loop s 0 m"

definition u_memset :: "u32 \<Rightarrow> u32 \<Rightarrow> u32 \<Rightarrow> mem \<Rightarrow> mem" where
  "u_memset dst c n m = stosb (unat n) dst (ucast c) m"

text \<open>The address of the character, 0 when it does not occur.\<close>

partial_function (option) u_strchr :: "u32 \<Rightarrow> u8 \<Rightarrow> mem \<Rightarrow> u32 option" where
  "u_strchr s c m = (if m s = 0 then Some 0 else if m s = c then Some s else u_strchr (s + 1) c m)"

text \<open>\<open>reads\<close> are the bytes that the calls \<^verbatim>\<open>read(0, &c, 1)\<close> deliver; at its end \<^verbatim>\<open>read\<close> returns 0.\<close>

fun gets_loop :: "nat \<Rightarrow> u32 \<Rightarrow> u8 list \<Rightarrow> mem \<Rightarrow> mem" where
  "gets_loop (Suc n) p (c # cs) m =
     (if c = 10 \<or> c = 13 then (m(p := c))(p + 1 := 0) else gets_loop n (p + 1) cs (m(p := c)))"
| "gets_loop _ p _ m = m(p := 0)"

definition gets :: "u32 \<Rightarrow> int \<Rightarrow> u8 list \<Rightarrow> mem \<Rightarrow> mem" where
  "gets buf nmax reads m = gets_loop (nat (nmax - 1)) buf reads m"

text \<open>\<^verbatim>\<open>int\<close> arithmetic wraps around.\<close>

partial_function (option) atoi_loop :: "u32 \<Rightarrow> u32 \<Rightarrow> mem \<Rightarrow> u32 option" where
  "atoi_loop s n m = (if 48 \<le> m s \<and> m s \<le> 57 then atoi_loop (s + 1) (n * 10 + ucast (m s) - 48) m else Some n)"

definition atoi :: "u32 \<Rightarrow> mem \<Rightarrow> int option" where
  "atoi s m = map_option sint (atoi_loop s 0 m)"

text \<open>The user library copies upwards only.\<close>

definition u_memmove :: "u32 \<Rightarrow> u32 \<Rightarrow> int \<Rightarrow> mem \<Rightarrow> mem" where
  "u_memmove vdst vsrc n m = copy_up (nat n) vdst vsrc m"

section \<open>Formatted output\<close>

definition u_digit :: "nat \<Rightarrow> u8" where
  "u_digit d = (if d < 10 then 48 + of_nat d else 55 + of_nat d)"

text \<open>The \<^verbatim>\<open>do\<close> loop: the digits, least significant first.\<close>

function u_digits :: "nat \<Rightarrow> nat \<Rightarrow> u8 list" where
  "u_digits base x = u_digit (x mod base) # (if base \<ge> 2 \<and> x div base \<noteq> 0 then u_digits base (x div base) else [])"
  by pat_completeness auto
termination
proof (relation "measure snd")
  fix base x :: nat
  assume "2 \<le> base \<and> x div base \<noteq> 0"
  then have "x div base < x" by (intro div_less_dividend) (auto intro: Nat.gr0I)
  then show "((base, x div base), (base, x)) \<in> measure snd" by simp
qed simp

declare u_digits.simps [simp del]

text \<open>The array \<^verbatim>\<open>buf\<close> has 16 characters, and \<^verbatim>\<open>-xx\<close> overflows for the most negative integer.\<close>

definition u_printint :: "u32 \<Rightarrow> nat \<Rightarrow> bool \<Rightarrow> u8 list outcome" where
  "u_printint xx base with_sign =
     (let neg = (with_sign \<and> sint xx < 0) in
      if neg \<and> sint xx = - 2147483648 then UB
      else
        let x = (if neg then - xx else xx); buf = u_digits base (unat x); buf = (if neg then buf @ [45] else buf)
        in if length buf > 16 then UB else Ret (rev buf))"

text \<open>An argument is a word, or the string its address points to (\<open>None\<close> for the null pointer).\<close>

datatype printf_arg = PWord u32 | PStr "u8 list option"

fun u_printf :: "u8 list \<Rightarrow> printf_arg list \<Rightarrow> u8 list outcome" where
  "u_printf [] args = Ret []"
| "u_printf (c # fmt) args =
     (if c \<noteq> 37 then bindO (u_printf fmt args) (\<lambda>out. Ret (c # out))
      else case fmt of [] \<Rightarrow> Ret []
      | d # fmt \<Rightarrow>
          if d = 100 then
            (case args of PWord w # args \<Rightarrow> 
                 bindO (u_printint w 10 True) (\<lambda>ds. bindO (u_printf fmt args) (\<lambda>out. Ret (ds @ out))) | _ \<Rightarrow> UB)
          else if d = 120 \<or> d = 112 then
            (case args of PWord w # args \<Rightarrow> 
                 bindO (u_printint w 16 False) (\<lambda>ds. bindO (u_printf fmt args) (\<lambda>out. Ret (ds @ out))) | _ \<Rightarrow> UB)
          else if d = 115 then
            (case args of PStr so # args \<Rightarrow>
                 bindO (u_printf fmt args) (\<lambda>out.
                   Ret ((case so of None \<Rightarrow> [40, 110, 117, 108, 108, 41] | Some str \<Rightarrow> str) @ out))
             | _ \<Rightarrow> UB)
          else if d = 99 then
            (case args of PWord w # args \<Rightarrow> bindO (u_printf fmt args) (\<lambda>out. Ret (ucast w # out)) | _ \<Rightarrow> UB)
          else if d = 37 then bindO (u_printf fmt args) (\<lambda>out. Ret (37 # out))
          else bindO (u_printf fmt args) (\<lambda>out. Ret (37 # d # out)))"

section \<open>What the functions do\<close>

lemma bytes_at_Suc [simp]: "bytes_at m a (Suc n) = m a # bytes_at m (a + 1) n"
  by (rule nth_equalityI) (auto simp: nth_Cons algebra_simps split: nat.split)

lemma bytes_at_0 [simp]: "bytes_at m a 0 = []"
  by (simp add: bytes_at_def)

lemma find_from_Suc: "find_from (Suc k) P xs = map_option Suc (find_from k P xs)"
  by (induction xs arbitrary: k) auto

lemma find_index_Cons: "find_index P (x # xs) = (if P x then Some 0 else map_option Suc (find_index P xs))"
  by (simp add: find_index_def find_from_Suc)

lemma u_strlen_cstr: "cstr m s k \<Longrightarrow> u_strlen s m = Some (of_nat k)"
  using strlen_loop_cstr [of m s 0 k] by (simp add: u_strlen_def)

lemma u_strchr_cstr:
  "cstr m s k \<Longrightarrow> u_strchr s c m = Some (case find_index (\<lambda>b. b = c) (bytes_at m s k) of None \<Rightarrow> 0 | Some i \<Rightarrow> s + of_nat i)"
proof (induction k arbitrary: s)
  case 0
  then show ?case by (subst u_strchr.simps) (simp add: find_index_def)
next
  case (Suc k)
  then show ?case
    by (subst u_strchr.simps) (auto simp: find_index_Cons algebra_simps split: option.splits)
qed

lemma u_strcmp_cstr:
  "cstr m p j \<Longrightarrow> cstr m q k \<Longrightarrow> \<exists>r. u_strcmp p q m = Some r \<and> (r = 0 \<longleftrightarrow> bytes_at m p j = bytes_at m q k)"
proof (induction j arbitrary: p q k)
  case 0
  then show ?case by (subst u_strcmp.simps) (cases k; auto simp: word_uint_eq_iff)
next
  case (Suc j)
  show ?case
  proof (cases "m p = m q")
    case True
    then obtain k' where k: "k = Suc k'" using Suc.prems by (cases k) auto
    obtain r where "u_strcmp (p + 1) (q + 1) m = Some r" "r = 0 \<longleftrightarrow> bytes_at m (p + 1) j = bytes_at m (q + 1) k'"
      using Suc.IH [of "p + 1" "q + 1" k'] Suc.prems k by auto
    then show ?thesis using True k Suc.prems by (subst u_strcmp.simps) simp
  next
    case False
    then show ?thesis by (subst u_strcmp.simps) (cases k; auto simp: word_uint_eq_iff)
  qed
qed

text \<open>Copying a string that the destination does not overlap.\<close>

lemma u_strcpy_copies:
  assumes "cstr m t k" and "k < 4294967295" and "\<And>i j. i \<le> k \<Longrightarrow> j \<le> k \<Longrightarrow> s + of_nat i \<noteq> t + of_nat j"
  shows "\<exists>m'. u_strcpy s t m = Some m' \<and> (\<forall>a. m' a = (if unat (a - s) \<le> k then m (t + (a - s)) else m a))"
  using assms
proof (induction k arbitrary: s t m)
  case 0
  then show ?case by (subst u_strcpy.simps) (auto simp: unat_eq_0)
next
  case (Suc k)
  let ?m = "m(s := m t)"
  have st: "s \<noteq> t + of_nat j" if "j \<le> Suc k" for j using Suc.prems(3) [of 0 j] that by simp
  have "cstr ?m (t + 1) k" using Suc.prems(1) st [of "Suc _"] by (auto simp: cstr_def algebra_simps)
  moreover have "s + 1 + of_nat i \<noteq> t + 1 + of_nat j" if "i \<le> k" "j \<le> k" for i j
    using Suc.prems(3) [of "Suc i" "Suc j"] that by (simp add: algebra_simps)
  ultimately obtain m' where m': "u_strcpy (s + 1) (t + 1) ?m = Some m'"
      "\<And>a. m' a = (if unat (a - (s + 1)) \<le> k then ?m (t + 1 + (a - (s + 1))) else ?m a)"
    using Suc.IH [of ?m "t + 1" "s + 1"] Suc.prems(2) by (auto simp del: fun_upd_apply)
  have "m' a = (if unat (a - s) \<le> Suc k then m (t + (a - s)) else m a)" for a
  proof (cases "a = s")
    case True
    have "unat (- 1 :: u32) = 4294967295" by simp
    then show ?thesis using True Suc.prems(2) m'(2) [of a] by simp
  next
    case False
    have "t + (a - s) \<noteq> s" if "unat (a - s) \<le> Suc k" using st [of "unat (a - s)"] that by simp
    then show ?thesis using False m'(2) [of a] unat_sub_Suc [OF False] by (auto simp: algebra_simps)
  qed
  then show ?case using m'(1) Suc.prems(1) by (subst u_strcpy.simps) simp
qed

text \<open>What \<^verbatim>\<open>printf\<close> prints with \<^verbatim>\<open>%d\<close> reads back with \<^verbatim>\<open>atoi\<close>.\<close>

definition digit_value :: "u32 \<Rightarrow> u8 \<Rightarrow> u32" where
  "digit_value n b = n * 10 + ucast b - 48"

lemma u_digit_value: "d < 10 \<Longrightarrow> ucast (u_digit d) - 48 = (of_nat d :: u32) \<and> 48 \<le> u_digit d \<and> u_digit d \<le> 57"
proof -
  assume "d < 10"
  then have "d = 0 \<or> d = 1 \<or> d = 2 \<or> d = 3 \<or> d = 4 \<or> d = 5 \<or> d = 6 \<or> d = 7 \<or> d = 8 \<or> d = 9" by arith
  then show ?thesis by (elim disjE) (simp_all add: u_digit_def)
qed

lemma u_digits_value: "foldr (\<lambda>b n. digit_value n b) (u_digits 10 x) 0 = of_nat x \<and> (\<forall>b\<in>set (u_digits 10 x). 48 \<le> b \<and> b \<le> 57)"
proof (induction x rule: less_induct)
  case (less x)
  have d: "ucast (u_digit (x mod 10)) - 48 = (of_nat (x mod 10) :: u32)" "48 \<le> u_digit (x mod 10) \<and> u_digit (x mod 10) \<le> 57"
    using u_digit_value [of "x mod 10"] by simp_all
  show ?case
  proof (cases "x div 10 = 0")
    case True
    then show ?thesis using d by (subst (1 2) u_digits.simps) (simp add: digit_value_def add_diff_eq [symmetric])
  next
    case False
    have "(of_nat x :: u32) = of_nat (x div 10) * 10 + of_nat (x mod 10)"
      by (metis of_nat_add of_nat_mult of_nat_numeral div_mult_mod_eq)
    then show ?thesis using False d less [of "x div 10"]
      by (subst (1 2) u_digits.simps) (simp add: digit_value_def add_diff_eq [symmetric])
  qed
qed

lemma atoi_loop_digits:
  "\<forall>b\<in>set ds. 48 \<le> b \<and> b \<le> 57 \<Longrightarrow> bytes_at m s (length ds) = ds \<Longrightarrow> \<not> (48 \<le> m (s + of_nat (length ds)) \<and> m (s + of_nat (length ds)) \<le> 57) \<Longrightarrow>
     atoi_loop s n m = Some (fold (\<lambda>b n. digit_value n b) ds n)"
proof (induction ds arbitrary: s n)
  case Nil
  then show ?case by (subst atoi_loop.simps) auto
next
  case (Cons d ds)
  then show ?case by (subst atoi_loop.simps) (auto simp: digit_value_def algebra_simps)
qed

lemma atoi_reads_printint:
  assumes "0 \<le> sint xx" and "u_printint xx 10 True = Ret ds" and "bytes_at m s (length ds) = ds" and "m (s + of_nat (length ds)) = 0"
  shows "atoi s m = Some (sint xx)"
proof -
  have p: "ds = rev (u_digits 10 (unat xx))" using assms(1,2) by (simp add: u_printint_def Let_def split: if_splits)
  have "atoi_loop s 0 m = Some (fold (\<lambda>b n. digit_value n b) (rev (u_digits 10 (unat xx))) 0)"
    using assms u_digits_value [of "unat xx"] by (intro atoi_loop_digits) (simp_all add: p)
  then show ?thesis using u_digits_value [of "unat xx"] by (simp add: atoi_def foldr_conv_fold)
qed

end
