(* ===== verification/Umalloc.thy ===== *)
theory Umalloc
  imports Prelude
begin

text \<open>
  The allocator of user programs, \<^verbatim>\<open>umalloc.c\<close>: a circular list of free blocks in the order of their addresses,
  each block led by a header with a pointer to the next free block and its size in units of the header's 8
  bytes. The headers are two functions from addresses, one per field. \<^verbatim>\<open>sbrk\<close> is an argument. The searches are
  partial functions, since on a damaged list they may run forever.
\<close>

section \<open>Operations\<close>

record umem =
  h_ptr :: "u32 \<Rightarrow> u32"
  h_size :: "u32 \<Rightarrow> u32"
  freep :: u32

text \<open>The tests of the loop of \<^verbatim>\<open>free\<close>: of its condition and of the \<^verbatim>\<open>break\<close>.\<close>

definition free_stop :: "u32 \<Rightarrow> u32 \<Rightarrow> umem \<Rightarrow> bool" where
  "free_stop bp p s \<longleftrightarrow>
     (bp > p \<and> bp < h_ptr s p) \<or> (p \<ge> h_ptr s p \<and> (bp > p \<or> bp < h_ptr s p))"

partial_function (option) free_find :: "u32 \<Rightarrow> u32 \<Rightarrow> umem \<Rightarrow> u32 option" where
  "free_find bp p s = (if free_stop bp p s then Some p else free_find bp (h_ptr s p) s)"

definition free_at :: "u32 \<Rightarrow> u32 \<Rightarrow> umem \<Rightarrow> umem" where
  "free_at bp p s =
     (let q = h_ptr s p;
          s = (if bp + 8 * h_size s bp = q
               then s\<lparr>h_size := (h_size s)(bp := h_size s bp + h_size s q), h_ptr := (h_ptr s)(bp := h_ptr s q)\<rparr>
               else s\<lparr>h_ptr := (h_ptr s)(bp := q)\<rparr>);
          s = (if p + 8 * h_size s p = bp
               then s\<lparr>h_size := (h_size s)(p := h_size s p + h_size s bp), h_ptr := (h_ptr s)(p := h_ptr s bp)\<rparr>
               else s\<lparr>h_ptr := (h_ptr s)(p := bp)\<rparr>)
      in s\<lparr>freep := p\<rparr>)"

definition free :: "u32 \<Rightarrow> umem \<Rightarrow> umem option" where
  "free ap s = (let bp = ap - 8 in map_option (\<lambda>p. free_at bp p s) (free_find bp (freep s) s))"

text \<open>The result is the null pointer when \<^verbatim>\<open>sbrk\<close> fails.\<close>

definition morecore :: "(u32 \<Rightarrow> u32) \<Rightarrow> u32 \<Rightarrow> umem \<Rightarrow> (u32 \<times> umem) option" where
  "morecore sbrk nu s =
     (let nu = (if nu < 4096 then 4096 else nu); p = sbrk (nu * 8) in
      if p = - 1 then Some (0, s)
      else map_option (\<lambda>s. (freep s, s)) (free (p + 8) (s\<lparr>h_size := (h_size s)(p := nu)\<rparr>)))"

text \<open>Taking \<open>nunits\<close> units from the block at \<open>p\<close>: all of it, or its tail.\<close>

definition malloc_take :: "u32 \<Rightarrow> u32 \<Rightarrow> u32 \<Rightarrow> umem \<Rightarrow> u32 \<times> umem" where
  "malloc_take nunits prevp p s =
     (let (p, s) =
        (if h_size s p = nunits then (p, s\<lparr>h_ptr := (h_ptr s)(prevp := h_ptr s p)\<rparr>)
         else
           let s = s\<lparr>h_size := (h_size s)(p := h_size s p - nunits)\<rparr>; p = p + 8 * h_size s p in
           (p, s\<lparr>h_size := (h_size s)(p := nunits)\<rparr>))
      in (p + 8, s\<lparr>freep := prevp\<rparr>))"

partial_function (option) malloc_loop :: "(u32 \<Rightarrow> u32) \<Rightarrow> u32 \<Rightarrow> u32 \<Rightarrow> u32 \<Rightarrow> umem \<Rightarrow> (u32 \<times> umem) option" where
  "malloc_loop sbrk nunits prevp p s =
     (if h_size s p \<ge> nunits then Some (malloc_take nunits prevp p s)
      else if p = freep s then
        Option.bind (morecore sbrk nunits s) (\<lambda>(p, s). if p = 0 then Some (0, s) else malloc_loop sbrk nunits p (h_ptr s p) s)
      else malloc_loop sbrk nunits p (h_ptr s p) s)"

text \<open>\<open>base\<close> is the address of the static variable of that name.\<close>

definition malloc :: "(u32 \<Rightarrow> u32) \<Rightarrow> u32 \<Rightarrow> u32 \<Rightarrow> umem \<Rightarrow> (u32 \<times> umem) option" where
  "malloc sbrk base nbytes s =
     (let nunits = (nbytes + 8 - 1) div 8 + 1;
          s = (if freep s = 0
               then s\<lparr>h_ptr := (h_ptr s)(base := base), freep := base, h_size := (h_size s)(base := 0)\<rparr> else s)
      in malloc_loop sbrk nunits (freep s) (h_ptr s (freep s)) s)"

section \<open>The free list\<close>

primrec hpath :: "(u32 \<Rightarrow> u32) \<Rightarrow> u32 \<Rightarrow> u32 list \<Rightarrow> u32 \<Rightarrow> bool" where
  "hpath h x [] y \<longleftrightarrow> x = y"
| "hpath h x (a # as) y \<longleftrightarrow> x = a \<and> hpath h (h a) as y"

lemma hpath_append [simp]: "hpath h x (as @ bs) y \<longleftrightarrow> (\<exists>z. hpath h x as z \<and> hpath h z bs y)"
  by (induction as arbitrary: x) auto

lemma hpath_cong: "\<forall>a\<in>set as. h a = h' a \<Longrightarrow> hpath h x as y \<longleftrightarrow> hpath h' x as y"
  by (induction as arbitrary: x) auto

lemma hpath_upd [simp]: "b \<notin> set as \<Longrightarrow> hpath (h(b := z)) x as y \<longleftrightarrow> hpath h x as y"
  by (rule hpath_cong) auto

definition block_end :: "umem \<Rightarrow> u32 \<Rightarrow> nat" where
  "block_end s a = unat a + 8 * unat (h_size s a)"

definition before :: "umem \<Rightarrow> u32 \<Rightarrow> u32 \<Rightarrow> bool" where
  "before s a b \<longleftrightarrow> a < b \<and> block_end s a \<le> unat b"

definition wf_free :: "u32 \<Rightarrow> u32 list \<Rightarrow> umem \<Rightarrow> bool" where
  "wf_free base xs s \<longleftrightarrow> xs \<noteq> [] \<and> hd xs = base \<and> h_size s base = 0 \<and> hpath (h_ptr s) base xs base \<and>
     sorted_wrt (before s) xs \<and> (\<forall>a\<in>set xs. block_end s a < 2 ^ 32) \<and> freep s \<in> set xs"

text \<open>The bytes of a block, and of all free blocks.\<close>

definition block :: "umem \<Rightarrow> u32 \<Rightarrow> nat set" where
  "block s a = {unat a..<block_end s a}"

definition free_mem :: "u32 list \<Rightarrow> umem \<Rightarrow> nat set" where
  "free_mem xs s = (\<Union>a\<in>set xs. block s a)"

lemma sorted_before_distinct: "sorted_wrt (before s) xs \<Longrightarrow> distinct xs"
  by (induction xs) (auto simp: before_def)

lemma wf_next:
  assumes "wf_free base (as @ p # bs) s"
  shows "h_ptr s p = (case bs of [] \<Rightarrow> base | q # _ \<Rightarrow> q)"
  using assms by (cases bs) (auto simp: wf_free_def)

section \<open>Freeing a block\<close>

lemma free_find_skip:
  "hpath (h_ptr s) x as y \<Longrightarrow> \<forall>a\<in>set as. \<not> free_stop bp a s \<Longrightarrow> free_find bp x s = free_find bp y s"
  by (induction as arbitrary: x) (simp, subst free_find.simps, simp)

text \<open>The place where a block belongs.\<close>

lemma free_place:
  assumes "sorted_wrt (before s) xs" and "xs \<noteq> []" and "hd xs < bp" and "bp \<notin> set xs"
  obtains as p bs where "xs = as @ p # bs" and "\<forall>a\<in>set (as @ [p]). a < bp" and "\<forall>b\<in>set bs. bp < b"
proof -
  let ?l = "takeWhile (\<lambda>a. a < bp) xs" and ?r = "dropWhile (\<lambda>a. a < bp) xs"
  have l: "?l \<noteq> []" using assms(2,3) by (cases xs) auto
  have sr: "sorted_wrt (before s) ?r" using assms(1) by (metis sorted_wrt_append takeWhile_dropWhile_id)
  have "bp < b" if "b \<in> set ?r" for b
  proof -
    have ne: "?r \<noteq> []" using that by (metis empty_iff empty_set)
    have "\<not> hd ?r < bp" by (rule hd_dropWhile [OF ne])
    moreover have "b = hd ?r \<or> before s (hd ?r) b"
      using that sr by (cases ?r) auto
    moreover have "b \<noteq> bp" using that assms(4) set_dropWhileD by fastforce
    ultimately show ?thesis by (auto simp: before_def)
  qed
  then have r: "\<forall>b\<in>set ?r. bp < b" by blast
  have split: "butlast ?l @ [last ?l] = ?l" using l by simp
  have a: "\<forall>a\<in>set (butlast ?l @ [last ?l]). a < bp" unfolding split by (blast dest: set_takeWhileD)
  have "xs = (butlast ?l @ [last ?l]) @ ?r" unfolding split by simp
  then have "xs = butlast ?l @ last ?l # ?r" by (metis append.assoc append_Cons append_Nil)
  from that [OF this a r] show thesis .
qed

lemma free_find_place:
  assumes wf: "wf_free base xs s" and xs: "xs = as @ p # bs" and l: "\<forall>a\<in>set (as @ [p]). a < bp" and r: "\<forall>b\<in>set bs. bp < b"
    and x: "x \<in> set xs"
  shows "free_find bp x s = Some p"
proof -
  have path: "hpath (h_ptr s) base as p" "hpath (h_ptr s) (h_ptr s p) bs base" using wf xs by (auto simp: wf_free_def)
  have srt: "sorted_wrt (before s) (as @ p # bs)" and hd: "hd (as @ p # bs) = base" using wf xs by (simp_all add: wf_free_def)
  have b: "base \<le> p" using srt hd by (cases as) (auto simp: before_def)
  have stop: "free_stop bp p s"
    using wf_next [OF wf [unfolded xs]] l r b by (cases bs) (auto simp: free_stop_def)
  have nl: "\<not> free_stop bp a s" if a: "a \<in> set as" for a
  proof -
    obtain us vs where as: "as = us @ a # vs" using split_list [OF a] by blast
    have "h_ptr s a = (case vs @ p # bs of [] \<Rightarrow> base | q # _ \<Rightarrow> q)" using wf_next [of base us a "vs @ p # bs" s] wf xs as by simp
    then have "h_ptr s a = hd (vs @ [p])" by (cases vs) auto
    then have "h_ptr s a \<in> set (as @ [p])" "a < h_ptr s a"
      using srt as by (cases vs; simp add: sorted_wrt_append before_def)+
    then show ?thesis using l a by (auto simp: free_stop_def)
  qed
  have nr: "\<not> free_stop bp b s" if b: "b \<in> set bs" for b
  proof -
    obtain us vs where bs: "bs = us @ b # vs" using split_list [OF b] by blast
    have "h_ptr s b = (case vs of [] \<Rightarrow> base | q # _ \<Rightarrow> q)" using wf_next [of base "as @ p # us" b vs s] wf xs bs by simp
    then have "h_ptr s b = base \<or> b < h_ptr s b" using srt bs by (cases vs) (simp_all add: sorted_wrt_append before_def)
    moreover have "base \<le> p" "p < bp" "bp < b" using l r b \<open>base \<le> p\<close> by auto
    ultimately show ?thesis by (auto simp: free_stop_def)
  qed
  have fromp: "free_find bp p s = Some p" using stop by (subst free_find.simps) simp
  have frombase: "free_find bp base s = Some p" using free_find_skip [OF path(1)] nl fromp by simp
  show ?thesis
  proof -
    consider "x = p" | "x \<in> set as" | "x \<in> set bs" using x xs by auto
    then show ?thesis
    proof cases
      case 1
      then show ?thesis using fromp by simp
    next
      case 2
      then obtain us vs where as: "as = us @ x # vs" using split_list by metis
      then have "hpath (h_ptr s) x (x # vs) p" using path(1) by auto
      then show ?thesis using free_find_skip [of s x "x # vs" p bp] nl as fromp by simp
    next
      case 3
      then obtain us vs where bs: "bs = us @ x # vs" using split_list by metis
      then have "hpath (h_ptr s) x (x # vs) base" using path(2) by auto
      then show ?thesis using free_find_skip [of s x "x # vs" base bp] nr bs frombase by simp
    qed
  qed
qed

lemma unat_block_end: "block_end s a < 2 ^ 32 \<Longrightarrow> unat (a + 8 * h_size s a) = block_end s a"
  by (simp add: block_end_def unat_word_ariths)

lemma block_end_eq: "block_end s a < 2 ^ 32 \<Longrightarrow> a + 8 * h_size s a = b \<longleftrightarrow> block_end s a = unat b"
  using unat_block_end [of s a] by (metis word_unat_eq_iff)

lemma block_end_cong: "h_size s' a = h_size s a \<Longrightarrow> block_end s' a = block_end s a"
  by (simp add: block_end_def)

lemma before_cong: "h_size s' a = h_size s a \<Longrightarrow> before s' a b = before s a b"
  by (simp add: before_def block_end_def)

lemma sorted_before_cong: "\<forall>a\<in>set xs. h_size s' a = h_size s a \<Longrightarrow> sorted_wrt (before s') xs = sorted_wrt (before s) xs"
  by (induction xs) (simp_all add: before_cong [of s' _ s])

lemma free_mem_cong: "\<forall>a\<in>set xs. h_size s' a = h_size s a \<Longrightarrow> free_mem xs s' = free_mem xs s"
  by (simp add: free_mem_def block_def block_end_def)

text \<open>
  Joining two neighbours \<open>p\<close> and \<open>q\<close> of a sorted list: the block of the first is extended by the second, which
  leaves the list.
\<close>

definition join :: "u32 \<Rightarrow> u32 \<Rightarrow> umem \<Rightarrow> umem" where
  "join p q s = s\<lparr>h_size := (h_size s)(p := h_size s p + h_size s q), h_ptr := (h_ptr s)(p := h_ptr s q)\<rparr>"

lemma join_sizes:
  assumes "block_end s p = unat q" and "block_end s q < 2 ^ 32"
  shows "unat (h_size s p + h_size s q) = unat (h_size s p) + unat (h_size s q)"
    and "h_size s p \<le> h_size s p + h_size s q" and "h_size s q \<le> h_size s p + h_size s q"
proof -
  have "unat (h_size s p) + unat (h_size s q) < 2 ^ 32" using assms by (simp add: block_end_def)
  then show u: "unat (h_size s p + h_size s q) = unat (h_size s p) + unat (h_size s q)" by (simp add: unat_word_ariths)
  show "h_size s p \<le> h_size s p + h_size s q" "h_size s q \<le> h_size s p + h_size s q" by (simp_all only: word_le_nat_alt u le_add1 le_add2)
qed

lemma block_end_join:
  assumes "block_end s p = unat q" and "block_end s q < 2 ^ 32"
  shows "block_end (join p q s) p = block_end s q"
  using assms(1) join_sizes(1) [OF assms] by (simp add: join_def block_end_def)

lemma join_list:
  assumes srt: "sorted_wrt (before s) (as @ p # q # bs)" and path: "hpath (h_ptr s) x (as @ p # q # bs) y"
    and adj: "block_end s p = unat q" and lim: "block_end s q < 2 ^ 32"
  shows "sorted_wrt (before (join p q s)) (as @ p # bs)" and "hpath (h_ptr (join p q s)) x (as @ p # bs) y"
    and "free_mem (as @ p # bs) (join p q s) = free_mem (as @ p # q # bs) s"
proof -
  let ?s = "join p q s"
  have dist: "distinct (as @ p # q # bs)" by (rule sorted_before_distinct [OF srt])
  then have sz: "\<forall>a\<in>set (as @ bs). h_size ?s a = h_size s a" and pt: "\<forall>a\<in>set (as @ bs). h_ptr ?s a = h_ptr s a" by (auto simp: join_def)
  have e: "block_end ?s p = block_end s q" by (rule block_end_join [OF adj lim])
  have "before ?s p b" if "b \<in> set bs" for b using srt that e by (auto simp: sorted_wrt_append before_def)
  then show "sorted_wrt (before ?s) (as @ p # bs)"
    using srt sz sorted_before_cong [of as ?s s] sorted_before_cong [of bs ?s s]
    by (simp add: sorted_wrt_append before_cong [of ?s _ s])
  show "hpath (h_ptr ?s) x (as @ p # bs) y"
    using path pt hpath_cong [of as "h_ptr ?s" "h_ptr s"] hpath_cong [of bs "h_ptr ?s" "h_ptr s"] by (auto simp: join_def)
  have "block ?s p = block s p \<union> block s q" using adj e by (auto simp: block_def block_end_def)
  moreover have "free_mem as ?s = free_mem as s" "free_mem bs ?s = free_mem bs s" using sz by (simp_all add: free_mem_cong [of _ ?s s])
  ultimately show "free_mem (as @ p # bs) ?s = free_mem (as @ p # q # bs) s" by (auto simp: free_mem_def)
qed

text \<open>Freeing joins the block to its neighbours where they meet, and links it in otherwise.\<close>

definition link :: "u32 \<Rightarrow> u32 \<Rightarrow> umem \<Rightarrow> umem" where
  "link p q s = s\<lparr>h_ptr := (h_ptr s)(p := q)\<rparr>"

lemma free_at_eq:
  "free_at bp p s =
     (let q = h_ptr s p;
          t = (if bp + 8 * h_size s bp = q then join bp q s else link bp q s);
          u = (if p + 8 * h_size t p = bp then join p bp t else link p bp t)
      in u\<lparr>freep := p\<rparr>)"
  by (simp add: free_at_def join_def link_def Let_def)

lemma link_sel [simp]: "h_size (link p q s) = h_size s" "h_ptr (link p q s) = (h_ptr s)(p := q)" "freep (link p q s) = freep s"
  "block_end (link p q s) = block_end s" "before (link p q s) = before s" "free_mem xs (link p q s) = free_mem xs s"
  "block (link p q s) = block s"
  by (simp_all add: link_def block_end_def before_def free_mem_def block_def fun_eq_iff)

lemma join_link: "p \<noteq> q \<Longrightarrow> join p q (link p r s) = join p q s"
  by (simp add: join_def link_def)

definition glue :: "u32 \<Rightarrow> u32 \<Rightarrow> umem \<Rightarrow> umem" where
  "glue p q s = (if p + 8 * h_size s p = q then join p q s else link p q s)"

lemma free_at_glue: "free_at bp p s = (glue p bp (glue bp (h_ptr s p) s))\<lparr>freep := p\<rparr>"
  by (simp add: free_at_eq glue_def Let_def)

text \<open>Putting \<open>p\<close> in front of the list at \<open>q\<close>, after \<open>as\<close>.\<close>

lemma glue_list:
  assumes srt: "sorted_wrt (before s) (as @ p # q # bs)" and path: "hpath (h_ptr s) x as p" "hpath (h_ptr s) q (q # bs) y"
    and lim: "block_end s p < 2 ^ 32" "block_end s q < 2 ^ 32"
  obtains bs' where "sorted_wrt (before (glue p q s)) (as @ p # bs')" and "hpath (h_ptr (glue p q s)) x (as @ p # bs') y"
    and "free_mem (as @ p # bs') (glue p q s) = free_mem (as @ p # q # bs) s" and "set bs' \<subseteq> set (q # bs)"
    and "block_end (glue p q s) p < 2 ^ 32" and "\<forall>a. a \<noteq> p \<longrightarrow> h_ptr (glue p q s) a = h_ptr s a \<and> h_size (glue p q s) a = h_size s a"
    and "h_size s p \<le> h_size (glue p q s) p" and "\<exists>c\<in>set (p # bs'). h_size s q \<le> h_size (glue p q s) c"
proof -
  have d: "distinct (as @ p # q # bs)" by (rule sorted_before_distinct [OF srt])
  have linked: "hpath (h_ptr (link p q s)) x (as @ p # q # bs) y" using path d by auto
  show thesis
  proof (cases "p + 8 * h_size s p = q")
    case True
    then have adj: "block_end s p = unat q" using block_end_eq [OF lim(1)] by simp
    have g: "glue p q s = join p q (link p q s)" using True d by (simp add: glue_def join_link)
    note j = join_list [of "link p q s" as p q bs x y, OF _ linked]
    have l: "block_end (link p q s) p = unat q" "block_end (link p q s) q < 2 ^ 32" "sorted_wrt (before (link p q s)) (as @ p # q # bs)"
      using adj lim srt by simp_all
    have e: "block_end (join p q (link p q s)) p < 2 ^ 32" using block_end_join [OF l(1,2)] lim by simp
    have o: "\<forall>a. a \<noteq> p \<longrightarrow> h_ptr (join p q (link p q s)) a = h_ptr s a \<and> h_size (join p q (link p q s)) a = h_size s a"
      by (simp add: join_def)
    have f: "free_mem (as @ p # bs) (join p q (link p q s)) = free_mem (as @ p # q # bs) s" using j(3) [OF l(3,1,2)] by simp
    have "h_size s p \<le> h_size s p + h_size s q" "h_size s q \<le> h_size s p + h_size s q" using join_sizes [OF adj lim(2)] by simp_all
    then have z: "h_size s p \<le> h_size (join p q (link p q s)) p" "\<exists>c\<in>set (p # bs). h_size s q \<le> h_size (join p q (link p q s)) c"
      by (simp_all add: join_def)
    show thesis by (rule that [of bs, unfolded g, OF j(1,2) [OF l(3,1,2)] f _ e o z]) auto
  next
    case False
    then show thesis using srt linked lim by (intro that [of "q # bs"]) (auto simp: glue_def)
  qed
qed

lemma freep_sel [simp]:
  "block_end (s\<lparr>freep := p\<rparr>) = block_end s" "before (s\<lparr>freep := p\<rparr>) = before s" "free_mem xs (s\<lparr>freep := p\<rparr>) = free_mem xs s"
  "block (s\<lparr>freep := p\<rparr>) = block s"
  by (simp_all add: block_end_def before_def free_mem_def block_def fun_eq_iff)

text \<open>A block apart from the free ones: every free block ends before it or begins behind it.\<close>

definition apart :: "u32 \<Rightarrow> u32 list \<Rightarrow> umem \<Rightarrow> bool" where
  "apart bp xs s \<longleftrightarrow> block_end s bp < 2 ^ 32 \<and> (\<forall>a\<in>set xs. before s a bp \<or> before s bp a)"

lemma free_tail:
  assumes "wf_free base (as @ p # bs) s" and "apart bp (as @ p # bs) s" and "\<forall>a\<in>set (as @ [p]). a < bp" and "\<forall>b\<in>set bs. bp < b"
  obtains bs' where "sorted_wrt (before (glue bp (h_ptr s p) s)) (bp # bs')" and "hpath (h_ptr (glue bp (h_ptr s p) s)) bp (bp # bs') base"
    and "free_mem (bp # bs') (glue bp (h_ptr s p) s) = free_mem (bp # bs) s" and "set bs' \<subseteq> set bs"
    and "block_end (glue bp (h_ptr s p) s) bp < 2 ^ 32"
    and "\<forall>a. a \<noteq> bp \<longrightarrow> h_ptr (glue bp (h_ptr s p) s) a = h_ptr s a \<and> h_size (glue bp (h_ptr s p) s) a = h_size s a"
    and "h_size s bp \<le> h_size (glue bp (h_ptr s p) s) bp"
proof (cases bs)
  case Nil
  have q: "h_ptr s p = base" using wf_next [OF assms(1)] Nil by simp
  have "hd (as @ p # bs) = base" using assms(1) by (simp add: wf_free_def)
  then have "base < bp" using assms(3) by (cases as) auto
  then have "bp + 8 * h_size s bp \<noteq> base"
    using assms(2) block_end_eq [of s bp base] by (auto simp: apart_def block_end_def word_less_nat_alt)
  then have "glue bp (h_ptr s p) s = link bp base s" by (simp add: glue_def q)
  then show thesis using assms(2) Nil by (intro that [of "[]"]) (simp_all add: apart_def)
next
  case (Cons q bs')
  have q: "h_ptr s p = q" using wf_next [OF assms(1)] Cons by simp
  have b: "before s bp b" if "b \<in> set bs" for b using that assms(2,4) by (auto simp: apart_def before_def dest: less_asym)
  have srt: "sorted_wrt (before s) ([] @ bp # q # bs')" using assms(1) b Cons by (auto simp: wf_free_def sorted_wrt_append)
  have path: "hpath (h_ptr s) q (q # bs') base" using assms(1) Cons by (auto simp: wf_free_def)
  have lim: "block_end s bp < 2 ^ 32" "block_end s q < 2 ^ 32" using assms(1,2) Cons by (auto simp: wf_free_def apart_def)
  show thesis
  proof (rule glue_list [OF srt _ path lim, of bp])
    show "hpath (h_ptr s) bp [] bp" by simp
    fix cs
    assume "sorted_wrt (before (glue bp q s)) ([] @ bp # cs)" "hpath (h_ptr (glue bp q s)) bp ([] @ bp # cs) base"
      "free_mem ([] @ bp # cs) (glue bp q s) = free_mem ([] @ bp # q # bs') s" "set cs \<subseteq> set (q # bs')" "block_end (glue bp q s) bp < 2 ^ 32"
      "\<forall>a. a \<noteq> bp \<longrightarrow> h_ptr (glue bp q s) a = h_ptr s a \<and> h_size (glue bp q s) a = h_size s a" "h_size s bp \<le> h_size (glue bp q s) bp"
    then show thesis using Cons q by (intro that [of cs]) simp_all
  qed
qed

lemma two_step_limits:
  assumes "\<forall>a\<in>set xs. block_end s a < 2 ^ 32" and "\<forall>a. a \<noteq> bp \<longrightarrow> h_size t a = h_size s a" and "block_end t bp < 2 ^ 32"
    and "\<forall>a. a \<noteq> p \<longrightarrow> h_size u a = h_size t a" and "block_end u p < 2 ^ 32" and "set ys \<subseteq> insert bp (set xs)"
  shows "\<forall>a\<in>set ys. block_end u a < 2 ^ 32"
proof
  fix a
  assume a: "a \<in> set ys"
  have "block_end t a < 2 ^ 32" using assms(1-3,6) a block_end_cong [of t a s] by (cases "a = bp") auto
  then show "block_end u a < 2 ^ 32" using assms(4,5) block_end_cong [of u a t] by (cases "a = p") auto
qed

lemma free_ok:
  assumes wf: "wf_free base xs s" and ap: "apart bp xs s" and b: "base < bp"
  obtains s' ys where "free (bp + 8) s = Some s'" and "wf_free base ys s'" and "free_mem ys s' = free_mem xs s \<union> block s bp"
    and "set ys \<subseteq> insert bp (set xs)" and "\<exists>c\<in>set ys. h_size s bp \<le> h_size s' c"
proof -
  have srt: "sorted_wrt (before s) xs" and ne: "xs \<noteq> []" and hd: "hd xs < bp" using wf b by (auto simp: wf_free_def)
  have "bp \<notin> set xs" using ap by (auto simp: apart_def before_def)
  then obtain as p bs where xs: "xs = as @ p # bs" and l: "\<forall>a\<in>set (as @ [p]). a < bp" and r: "\<forall>b\<in>set bs. bp < b"
    by (rule free_place [OF srt ne hd])
  define t where "t = glue bp (h_ptr s p) s"
  define u where "u = glue p bp t"
  have f: "free (bp + 8) s = Some (u\<lparr>freep := p\<rparr>)"
    using free_find_place [OF wf xs l r, of "freep s"] wf by (simp add: free_def free_at_glue t_def u_def wf_free_def)
  obtain bs' where t: "sorted_wrt (before t) (bp # bs')" "hpath (h_ptr t) bp (bp # bs') base" "free_mem (bp # bs') t = free_mem (bp # bs) s"
      "set bs' \<subseteq> set bs" "block_end t bp < 2 ^ 32" "\<forall>a. a \<noteq> bp \<longrightarrow> h_ptr t a = h_ptr s a \<and> h_size t a = h_size s a"
      "h_size s bp \<le> h_size t bp"
    using free_tail [OF wf [unfolded xs] ap [unfolded xs] l r] unfolding t_def by metis
  have sz: "\<forall>a\<in>set (as @ [p]). h_size t a = h_size s a" and pt: "\<forall>a\<in>set (as @ [p]). h_ptr t a = h_ptr s a" using t(6) l by auto
  have lr: "before t a c" if "a \<in> set (as @ [p])" "c \<in> set (bp # bs')" for a c
  proof -
    have "before s a bp" using that(1) xs ap l by (auto simp: apart_def before_def dest: less_asym)
    moreover have "before s a c" if "c \<in> set bs" using that \<open>a \<in> set (as @ [p])\<close> xs srt by (auto simp: sorted_wrt_append)
    ultimately have "before s a c" using that(2) t(4) by auto
    then show ?thesis using before_cong [of t a s c] sz that by auto
  qed
  have "sorted_wrt (before t) (as @ [p])"
    using srt xs sorted_before_cong [OF sz] by (simp add: sorted_wrt_append)
  then have srt': "sorted_wrt (before t) (as @ p # bp # bs')" using t(1) lr by (auto simp: sorted_wrt_append)
  have path: "hpath (h_ptr t) base as p" using wf xs pt hpath_cong [of as "h_ptr t" "h_ptr s"] by (auto simp: wf_free_def)
  have lim: "block_end t p < 2 ^ 32" using wf xs sz block_end_cong [of t p s] by (auto simp: wf_free_def)
  show thesis
  proof (rule glue_list [OF srt' path t(2) lim t(5)])
    fix cs
    assume u: "sorted_wrt (before (glue p bp t)) (as @ p # cs)" "hpath (h_ptr (glue p bp t)) base (as @ p # cs) base"
      "free_mem (as @ p # cs) (glue p bp t) = free_mem (as @ p # bp # bs') t" "set cs \<subseteq> set (bp # bs')" "block_end (glue p bp t) p < 2 ^ 32"
      "\<forall>a. a \<noteq> p \<longrightarrow> h_ptr (glue p bp t) a = h_ptr t a \<and> h_size (glue p bp t) a = h_size t a" "\<exists>c\<in>set (p # cs). h_size t bp \<le> h_size (glue p bp t) c"
    have lim: "\<forall>a\<in>set (as @ p # cs). block_end u a < 2 ^ 32"
      by (rule two_step_limits [of xs s bp t p])
        (use wf u(4-6) t(4-6) xs in \<open>auto simp: wf_free_def u_def\<close>)
    have "hd xs = base" and z: "h_size s base = 0" using wf by (simp_all add: wf_free_def)
    then have hd: "hd (as @ p # cs) = base" and bl: "base \<in> set (as @ [p])" using xs by (cases as; simp)+
    have zt: "h_size t base = 0" using sz bl z by auto
    have "h_size u base = 0"
    proof (cases "p = base")
      case True
      then have "u = link p bp t" using zt b by (simp add: u_def glue_def)
      then show ?thesis using zt by simp
    qed (use u(6) zt in \<open>simp add: u_def\<close>)
    then have "wf_free base (as @ p # cs) (u\<lparr>freep := p\<rparr>)"
      using u(1,2) lim hd unfolding wf_free_def u_def [symmetric] by simp
    moreover have "free_mem (as @ p # bp # bs') t = free_mem xs s \<union> block s bp"
    proof -
      have "free_mem (as @ [p]) t = free_mem (as @ [p]) s" using sz by (rule free_mem_cong)
      then show ?thesis using t(3) xs by (auto simp: free_mem_def)
    qed
    then have "free_mem (as @ p # cs) (u\<lparr>freep := p\<rparr>) = free_mem xs s \<union> block s bp"
      using u(3) by (simp add: u_def)
    moreover have "set (as @ p # cs) \<subseteq> insert bp (set xs)" using u(4) t(4) xs by auto
    moreover have "\<exists>c\<in>set (as @ p # cs). h_size s bp \<le> h_size (u\<lparr>freep := p\<rparr>) c" 
    proof -
      obtain c where "c \<in> set (p # cs)" "h_size t bp \<le> h_size u c" using u(7) by (auto simp: u_def)
      then show ?thesis using order_trans [OF t(7), of "h_size u c"] by (intro bexI [of _ c]) auto
    qed
    ultimately show thesis using f by (intro that)
  qed
qed

section \<open>Allocating a block\<close>

lemma hpath_map: "hpath h x xs y \<Longrightarrow> xs \<noteq> [] \<Longrightarrow> map h xs = tl xs @ [y]"
proof (induction xs arbitrary: x)
  case (Cons a as)
  then show ?case by (cases as) auto
qed simp

text \<open>No two free blocks have the same successor.\<close>

lemma wf_ptr_inj:
  assumes "wf_free base xs s"
  shows "inj_on (h_ptr s) (set xs)"
proof -
  have x: "hpath (h_ptr s) base xs base" "xs \<noteq> []" "hd xs = base" "sorted_wrt (before s) xs" using assms by (simp_all add: wf_free_def)
  have "distinct (tl xs @ [hd xs])" using sorted_before_distinct [OF x(4)] x(2) by (cases xs) auto
  then have "distinct (map (h_ptr s) xs)" using hpath_map [OF x(1,2)] x(3) by simp
  then show ?thesis by (simp add: distinct_map)
qed

lemma hpath_last: "hpath h (h p) as y \<Longrightarrow> h (last (p # as)) = y"
  by (induction as arbitrary: p) auto

lemma malloc_skip:
  "hpath (h_ptr s) p as y \<Longrightarrow> \<forall>a\<in>set as. h_size s a < n \<and> a \<noteq> freep s \<Longrightarrow>
     malloc_loop sbrk n prevp p s = malloc_loop sbrk n (last (prevp # as)) y s"
proof (induction as arbitrary: p prevp)
  case (Cons a as)
  have "malloc_loop sbrk n prevp p s = malloc_loop sbrk n p (h_ptr s p) s"
    using Cons.prems by (subst malloc_loop.simps) auto
  also have "\<dots> = malloc_loop sbrk n (last (p # as)) y s" using Cons by (intro Cons.IH) auto
  finally show ?case using Cons.prems(1) by simp
qed simp

text \<open>The list from the block behind \<open>freep\<close> around to \<open>freep\<close> itself.\<close>

lemma wf_cycle:
  assumes "wf_free base xs s"
  obtains cyc where "set (cyc @ [freep s]) = set xs" and "distinct (cyc @ [freep s])" and "hpath (h_ptr s) (h_ptr s (freep s)) cyc (freep s)"
proof -
  obtain as bs where xs: "xs = as @ freep s # bs" using assms split_list [of "freep s" xs] by (auto simp: wf_free_def)
  have "distinct xs" using assms sorted_before_distinct by (auto simp: wf_free_def)
  moreover have "hpath (h_ptr s) base xs base" using assms by (simp add: wf_free_def)
  then have "hpath (h_ptr s) (h_ptr s (freep s)) (bs @ as) (freep s)" unfolding xs by auto
  ultimately show thesis using xs by (intro that [of "bs @ as"]) auto
qed

text \<open>With a large enough block in the list the search takes the first such block it meets.\<close>

lemma malloc_finds:
  assumes "wf_free base xs s" and "\<exists>c\<in>set xs. n \<le> h_size s c"
  obtains prevp c where "prevp \<in> set xs" and "c \<in> set xs" and "n \<le> h_size s c" and "h_ptr s prevp = c"
    and "malloc_loop sbrk n (freep s) (h_ptr s (freep s)) s = Some (malloc_take n prevp c s)"
proof -
  obtain cyc where cyc: "set (cyc @ [freep s]) = set xs" "distinct (cyc @ [freep s])" "hpath (h_ptr s) (h_ptr s (freep s)) cyc (freep s)"
    by (rule wf_cycle [OF assms(1)])
  have "\<exists>c\<in>set (cyc @ [freep s]). n \<le> h_size s c" unfolding cyc(1) by (rule assms(2))
  then obtain us c vs where c: "cyc @ [freep s] = us @ c # vs" "n \<le> h_size s c" "\<forall>a\<in>set us. \<not> n \<le> h_size s a"
    by (rule split_list_first_propE)
  have us: "set us \<subseteq> set cyc" "freep s \<notin> set us" using c(1) cyc(2) by (cases vs rule: rev_cases; auto)+
  have path: "hpath (h_ptr s) (h_ptr s (freep s)) us c" using c(1) cyc(3) by (cases vs rule: rev_cases) auto
  have "malloc_loop sbrk n (freep s) (h_ptr s (freep s)) s = malloc_loop sbrk n (last (freep s # us)) c s"
    using us c(3) by (intro malloc_skip [OF path]) auto
  also have "\<dots> = Some (malloc_take n (last (freep s # us)) c s)" using c(2) by (subst malloc_loop.simps) simp
  finally have m: "malloc_loop sbrk n (freep s) (h_ptr s (freep s)) s = Some (malloc_take n (last (freep s # us)) c s)" .
  show thesis
  proof (rule that [OF _ _ c(2) hpath_last [OF path] m])
    have "set (freep s # us) \<subseteq> set xs" using us(1) cyc(1) by auto
    then show "last (freep s # us) \<in> set xs" using last_in_set [of "freep s # us"] by blast
    show "c \<in> set xs" using cyc(1) c(1) by (metis in_set_conv_decomp)
  qed
qed

lemma malloc_extends:
  assumes "wf_free base xs s" and "\<forall>c\<in>set xs. h_size s c < n"
  shows "malloc_loop sbrk n (freep s) (h_ptr s (freep s)) s =
    Option.bind (morecore sbrk n s) (\<lambda>(p, s). if p = 0 then Some (0, s) else malloc_loop sbrk n p (h_ptr s p) s)"
proof -
  obtain cyc where cyc: "set (cyc @ [freep s]) = set xs" "distinct (cyc @ [freep s])" "hpath (h_ptr s) (h_ptr s (freep s)) cyc (freep s)"
    by (rule wf_cycle [OF assms(1)])
  have "\<not> n \<le> h_size s (freep s)" using cyc(1) assms(2) by (auto simp: not_le)
  moreover have "malloc_loop sbrk n (freep s) (h_ptr s (freep s)) s = malloc_loop sbrk n (last (freep s # cyc)) (freep s) s"
    using cyc(1,2) assms(2) by (intro malloc_skip [OF cyc(3)]) auto
  moreover have "malloc_loop sbrk n p (freep s) s = Option.bind (morecore sbrk n s)
      (\<lambda>(p, s). if p = 0 then Some (0, s) else malloc_loop sbrk n p (h_ptr s p) s)" if "\<not> n \<le> h_size s (freep s)" for p
    by (subst malloc_loop.simps) (simp only: that if_False refl if_True)
  ultimately show ?thesis by simp
qed

lemma sorted_blocks_disjoint:
  assumes "sorted_wrt (before s) (as @ c # bs)"
  shows "block s c \<inter> free_mem (as @ bs) s = {}"
proof -
  have "block s c \<inter> block s a = {}" if "a \<in> set (as @ bs)" for a
  proof -
    have "before s a c \<or> before s c a" using that assms by (auto simp: sorted_wrt_append)
    then show ?thesis by (auto simp: before_def block_def block_end_def)
  qed
  then show ?thesis by (auto simp: free_mem_def)
qed

lemma take_whole_block:
  assumes wf: "wf_free base xs s" and c: "c \<in> set xs" "h_size s c \<noteq> 0" and pr: "prevp \<in> set xs" "h_ptr s prevp = c"
  defines "t \<equiv> (link prevp (h_ptr s c) s)\<lparr>freep := prevp\<rparr>"
  obtains ys where "wf_free base ys t" and "free_mem ys t = free_mem xs s - block s c" and "apart c ys t"
proof -
  have x: "hd xs = base" "h_size s base = 0" "hpath (h_ptr s) base xs base" "sorted_wrt (before s) xs" "\<forall>a\<in>set xs. block_end s a < 2 ^ 32"
    using wf by (simp_all add: wf_free_def)
  obtain us bs where xs: "xs = us @ c # bs" using split_list [OF c(1)] by blast
  have "us \<noteq> []" using xs x(1,2) c(2) by (cases us) auto
  then obtain as p where us: "us = as @ [p]" by (metis rev_exhaust)
  have "h_ptr s p = c" using wf_next [of base as p "c # bs" s] wf xs us by simp
  then have p: "prevp = p" using inj_onD [OF wf_ptr_inj [OF wf], of prevp p] pr xs us by simp
  have d: "distinct (as @ p # c # bs)" using sorted_before_distinct [OF x(4)] xs us by simp
  have "hpath (h_ptr s) base as p" "hpath (h_ptr s) (h_ptr s c) bs base" using x(3) xs us by auto
  then have path: "hpath (h_ptr t) base (as @ p # bs) base" using d p by (auto simp: t_def)
  have srt: "sorted_wrt (before t) (as @ p # bs)" using x(4) xs us by (auto simp: t_def sorted_wrt_append)
  have "hd (as @ p # bs) = base" using x(1) xs us by (cases as) auto
  then have "wf_free base (as @ p # bs) t" using path srt x(2,5) p xs us by (auto simp: wf_free_def t_def)
  moreover have "free_mem (as @ p # bs) t = free_mem xs s - block s c"
    using sorted_blocks_disjoint [of s "as @ [p]" c bs] x(4) xs us by (auto simp: t_def free_mem_def)
  moreover have "apart c (as @ p # bs) t" using x(4,5) xs us by (auto simp: apart_def t_def sorted_wrt_append)
  ultimately show thesis by (rule that)
qed

lemma take_tail_block:
  assumes wf: "wf_free base xs s" and c: "c \<in> set xs" and n: "0 < n" "n < h_size s c" and pr: "prevp \<in> set xs"
  defines "r \<equiv> c + 8 * (h_size s c - n)"
  defines "t \<equiv> s\<lparr>h_size := (h_size s)(c := h_size s c - n, r := n), freep := prevp\<rparr>"
  shows "wf_free base xs t" and "free_mem xs t = free_mem xs s - block t r" and "apart r xs t" and "block t r \<subseteq> free_mem xs s" and "c < r"
proof -
  have x: "xs \<noteq> []" "hd xs = base" "h_size s base = 0" "hpath (h_ptr s) base xs base" "sorted_wrt (before s) xs" "\<forall>a\<in>set xs. block_end s a < 2 ^ 32"
    using wf by (simp_all add: wf_free_def)
  obtain as bs where xs: "xs = as @ c # bs" using split_list [OF c] by blast
  have e: "block_end s c < 2 ^ 32" using x(6) c by simp
  have u: "unat (h_size s c - n) = unat (h_size s c) - unat n" "unat n < unat (h_size s c)" "0 < unat n"
    using n by (simp_all add: unat_sub word_less_nat_alt order_less_imp_le word_le_nat_alt)
  have r: "unat r = block_end s c - 8 * unat n"
    using e u unat_block_end [of "s\<lparr>h_size := (h_size s)(c := h_size s c - n)\<rparr>" c] unfolding r_def by (simp add: block_end_def)
  have cr: "unat c < unat r" "unat r < block_end s c" using r u by (simp_all add: block_end_def)
  then show "c < r" by (simp add: word_less_nat_alt)
  have out: "before s a c \<or> a = c \<or> before s c a" if "a \<in> set xs" for a using that x(5) xs by (auto simp: sorted_wrt_append)
  then have rx: "r \<notin> set xs" using cr by (fastforce simp: before_def block_end_def)
  have sz: "h_size t a = (if a = r then n else if a = c then h_size s c - n else h_size s a)" for a using cr by (auto simp: t_def)
  have cr': "c \<noteq> r" using cr by auto
  have er: "block_end t r = block_end s c" using r u sz [of r] by (simp add: block_end_def)
  have ec: "block_end t c = unat r" using r u sz [of c] cr' by (simp add: block_end_def)
  have eo: "block_end t a = block_end s a" if "a \<in> set xs" "a \<noteq> c" for a
    using that rx sz [of a] by (intro block_end_cong) auto
  have le: "block_end t a \<le> block_end s a" if "a \<in> set xs" for a using eo [OF that] ec cr by (cases "a = c") auto
  have "sorted_wrt (before t) xs"
    by (rule sorted_wrt_mono_rel [OF _ x(5)]) (use le in \<open>fastforce simp: before_def\<close>)
  moreover have "base \<in> set xs" using x(1,2) by auto
  then have "h_size t base = 0" using sz x(3) rx n by auto
  moreover have "\<forall>a\<in>set xs. block_end t a < 2 ^ 32" using le x(6) by fastforce
  moreover have "hpath (h_ptr t) base xs base" "freep t \<in> set xs" using x(4) pr by (simp_all add: t_def)
  ultimately show "wf_free base xs t" using x(1,2) by (simp add: wf_free_def)
  have ap: "before t a r \<or> before t r a" if "a \<in> set xs" for a
  proof (cases "a = c")
    case True
    then show ?thesis using ec cr by (simp add: before_def word_less_nat_alt)
  next
    case False
    then show ?thesis using out [OF that] eo [OF that False] er cr by (auto simp: before_def word_less_nat_alt)
  qed
  then show "apart r xs t" using e er by (simp add: apart_def)
  have bc: "block t c = block s c - block t r" "block t r \<subseteq> block s c" using er ec cr by (auto simp: block_def)
  then show "block t r \<subseteq> free_mem xs s" using c by (auto simp: free_mem_def)
  have o: "block t a = block s a" if "a \<in> set (as @ bs)" for a
  proof -
    have "a \<in> set xs" "a \<noteq> c" using that xs sorted_before_distinct [OF x(5)] by auto
    then show ?thesis using eo by (simp add: block_def)
  qed
  then have "free_mem (as @ bs) t = free_mem (as @ bs) s" by (auto simp: free_mem_def)
  moreover have "free_mem (as @ bs) s \<inter> block t r = {}"
    using sorted_blocks_disjoint [of s as c bs] x(5) xs bc(2) by auto
  moreover have "free_mem xs u = free_mem (as @ bs) u \<union> block u c" for u by (auto simp: free_mem_def xs)
  ultimately show "free_mem xs t = free_mem xs s - block t r" using bc(1) by auto
qed

lemma base_below:
  assumes "wf_free base xs s" and "c \<in> set xs" and "h_size s c \<noteq> 0"
  shows "base < c"
proof -
  have x: "xs \<noteq> []" "hd xs = base" "h_size s base = 0" "sorted_wrt (before s) xs" using assms(1) by (simp_all add: wf_free_def)
  then show ?thesis using assms(2,3) by (cases xs) (auto simp: before_def)
qed

text \<open>Taking a block from a list: the taken block is apart from the remaining ones and nothing else is lost.\<close>

lemma malloc_take_ok:
  assumes wf: "wf_free base xs s" and c: "c \<in> set xs" "n \<le> h_size s c" and n: "0 < n" and pr: "prevp \<in> set xs" "h_ptr s prevp = c"
  obtains r t ys where "malloc_take n prevp c s = (r + 8, t)" and "wf_free base ys t" and "h_size t r = n" and "apart r ys t"
    and "free_mem ys t = free_mem xs s - block t r" and "block t r \<subseteq> free_mem xs s" and "base < r"
proof (cases "h_size s c = n")
  case True
  let ?t = "(link prevp (h_ptr s c) s)\<lparr>freep := prevp\<rparr>"
  have m: "malloc_take n prevp c s = (c + 8, ?t)" using True by (simp add: malloc_take_def link_def)
  have nz: "h_size s c \<noteq> 0" using True n by auto
  obtain ys where y: "wf_free base ys ?t" "free_mem ys ?t = free_mem xs s - block s c" "apart c ys ?t"
    by (rule take_whole_block [OF wf c(1) nz pr])
  have "block ?t c = block s c" by (simp add: block_def)
  moreover have "block s c \<subseteq> free_mem xs s" using c(1) by (auto simp: free_mem_def)
  moreover have "base < c" by (rule base_below [OF wf c(1) nz])
  ultimately show thesis using y True by (intro that [OF m y(1) _ y(3)]) auto
next
  case False
  then have l: "n < h_size s c" using c(2) by simp
  note t = take_tail_block [OF wf c(1) n l pr(1)]
  let ?r = "c + 8 * (h_size s c - n)"
  let ?t = "s\<lparr>h_size := (h_size s)(c := h_size s c - n, ?r := n), freep := prevp\<rparr>"
  have m: "malloc_take n prevp c s = (?r + 8, ?t)" using False by (simp add: malloc_take_def Let_def)
  have "base < c" using l by (intro base_below [OF wf c(1)]) auto
  then have "base < ?r" using t(5) by (rule order.strict_trans)
  then show thesis using t(1-4) by (intro that [OF m t(1) _ t(3,2,4)]) auto
qed

text \<open>
  What \<^verbatim>\<open>sbrk\<close> promises: it fails, or delivers memory of the requested size behind all blocks, without wrapping around.
\<close>

definition sbrk_ok :: "(u32 \<Rightarrow> u32) \<Rightarrow> u32 \<Rightarrow> u32 list \<Rightarrow> umem \<Rightarrow> bool" where
  "sbrk_ok sbrk nu xs s \<longleftrightarrow> sbrk (nu * 8) = - 1 \<or>
     (\<forall>a\<in>set xs. a < sbrk (nu * 8) \<and> block_end s a \<le> unat (sbrk (nu * 8))) \<and> unat (sbrk (nu * 8)) + 8 * unat nu < 2 ^ 32"

definition core_units :: "u32 \<Rightarrow> u32" where
  "core_units n = (if n < 4096 then 4096 else n)"

lemma core_units_ge: "n \<le> core_units n"
  by (auto simp: core_units_def less_imp_le)

lemma morecore_ok:
  assumes wf: "wf_free base xs s" and base: "0 < base" and sb: "sbrk_ok sbrk (core_units n) xs s" and ok: "sbrk (core_units n * 8) \<noteq> - 1"
  obtains s' ys where "morecore sbrk n s = Some (freep s', s')" and "freep s' \<noteq> 0" and "wf_free base ys s'" and "\<exists>c\<in>set ys. n \<le> h_size s' c"
    and "free_mem ys s' = free_mem xs s \<union> {unat (sbrk (core_units n * 8))..<unat (sbrk (core_units n * 8)) + 8 * unat (core_units n)}"
proof -
  define a where "a = sbrk (core_units n * 8)"
  define s1 where "s1 = s\<lparr>h_size := (h_size s)(a := core_units n)\<rparr>"
  have sb': "\<forall>x\<in>set xs. x < a \<and> block_end s x \<le> unat a" "unat a + 8 * unat (core_units n) < 2 ^ 32"
    using sb ok by (auto simp: sbrk_ok_def a_def)
  then have ax: "a \<notin> set xs" by auto
  then have sz: "\<forall>x\<in>set xs. h_size s1 x = h_size s x" by (auto simp: s1_def)
  have bx: "base \<in> set xs" using wf by (auto simp: wf_free_def)
  have e: "\<forall>x\<in>set xs. block_end s1 x = block_end s x" using sz by (auto intro: block_end_cong)
  have wf1: "wf_free base xs s1"
    using wf sz bx e sorted_before_cong [OF sz] by (simp add: wf_free_def) (simp add: s1_def)
  have ap: "apart a xs s1" using sb' e by (auto simp: apart_def before_def) (simp add: block_end_def s1_def)
  have "base < a" using bx sb' by auto
  then obtain s' ys where f: "free (a + 8) s1 = Some s'" "wf_free base ys s'" "free_mem ys s' = free_mem xs s1 \<union> block s1 a"
      "set ys \<subseteq> insert a (set xs)" "\<exists>c\<in>set ys. h_size s1 a \<le> h_size s' c"
    by (rule free_ok [OF wf1 ap])
  have "morecore sbrk n s = Some (freep s', s')"
    using ok f(1) by (simp add: morecore_def core_units_def [symmetric] Let_def a_def s1_def)
  moreover have "freep s' \<noteq> 0"
  proof -
    have y: "ys \<noteq> []" "hd ys = base" "sorted_wrt (before s') ys" "freep s' \<in> set ys" using f(2) by (simp_all add: wf_free_def)
    then have "base \<le> freep s'" by (cases ys) (auto simp: before_def)
    then show ?thesis using base by auto
  qed
  moreover have "\<exists>c\<in>set ys. n \<le> h_size s' c"
  proof -
    obtain c where "c \<in> set ys" "core_units n \<le> h_size s' c" using f(5) by (auto simp: s1_def)
    then show ?thesis using order_trans [OF core_units_ge [of n]] by blast
  qed
  moreover have "free_mem xs s1 = free_mem xs s" using sz by (rule free_mem_cong)
  moreover have "block s1 a = {unat a..<unat a + 8 * unat (core_units n)}" by (simp add: block_def block_end_def s1_def)
  ultimately show thesis using f(2,3) by (intro that) (simp_all add: a_def)
qed

lemma malloc_loop_ok:
  assumes wf: "wf_free base xs s" and base: "0 < base" and n: "0 < n" and sb: "sbrk_ok sbrk (core_units n) xs s"
  obtains "malloc_loop sbrk n (freep s) (h_ptr s (freep s)) s = Some (0, s)" and "sbrk (core_units n * 8) = - 1"
  | r t ys fresh where "malloc_loop sbrk n (freep s) (h_ptr s (freep s)) s = Some (r + 8, t)" and "wf_free base ys t" and "h_size t r = n"
    and "apart r ys t" and "base < r" and "free_mem ys t = (free_mem xs s \<union> fresh) - block t r" and "block t r \<subseteq> free_mem xs s \<union> fresh"
    and "fresh = {} \<or> sbrk (core_units n * 8) \<noteq> - 1 \<and>
      fresh = {unat (sbrk (core_units n * 8))..<unat (sbrk (core_units n * 8)) + 8 * unat (core_units n)}"
proof (cases "\<exists>c\<in>set xs. n \<le> h_size s c")
  case True
  obtain prevp c where p: "prevp \<in> set xs" "c \<in> set xs" "n \<le> h_size s c" "h_ptr s prevp = c"
      "malloc_loop sbrk n (freep s) (h_ptr s (freep s)) s = Some (malloc_take n prevp c s)"
    by (rule malloc_finds [OF wf True])
  show thesis
  proof (rule malloc_take_ok [OF wf p(2,3) n p(1,4)])
    fix r t ys
    assume "malloc_take n prevp c s = (r + 8, t)" "wf_free base ys t" "h_size t r = n" "apart r ys t"
      "free_mem ys t = free_mem xs s - block t r" "block t r \<subseteq> free_mem xs s" "base < r"
    then show thesis using p(5) by (intro that(2) [where r = r and t = t and ys = ys and fresh = "{}"]) simp_all
  qed
next
  case False
  then have m: "malloc_loop sbrk n (freep s) (h_ptr s (freep s)) s =
      Option.bind (morecore sbrk n s) (\<lambda>(p, s). if p = 0 then Some (0, s) else malloc_loop sbrk n p (h_ptr s p) s)"
    using wf by (intro malloc_extends) (auto simp: not_le)
  show thesis
  proof (cases "sbrk (core_units n * 8) = - 1")
    case True
    then have "morecore sbrk n s = Some (0, s)" by (simp add: morecore_def core_units_def [symmetric] Let_def)
    then show thesis using m that(1) True by simp
  next
    case False
    obtain s' ys where s': "morecore sbrk n s = Some (freep s', s')" "freep s' \<noteq> 0" "wf_free base ys s'" "\<exists>c\<in>set ys. n \<le> h_size s' c"
        "free_mem ys s' = free_mem xs s \<union> {unat (sbrk (core_units n * 8))..<unat (sbrk (core_units n * 8)) + 8 * unat (core_units n)}"
      by (rule morecore_ok [OF wf base sb False])
    obtain prevp c where p: "prevp \<in> set ys" "c \<in> set ys" "n \<le> h_size s' c" "h_ptr s' prevp = c"
        "malloc_loop sbrk n (freep s') (h_ptr s' (freep s')) s' = Some (malloc_take n prevp c s')"
      by (rule malloc_finds [OF s'(3,4)])
    show thesis
    proof (rule malloc_take_ok [OF s'(3) p(2,3) n p(1,4)])
      fix r t zs
      assume t: "malloc_take n prevp c s' = (r + 8, t)" "wf_free base zs t" "h_size t r = n" "apart r zs t"
        "free_mem zs t = free_mem ys s' - block t r" "block t r \<subseteq> free_mem ys s'" "base < r"
      have "malloc_loop sbrk n (freep s) (h_ptr s (freep s)) s = Some (r + 8, t)" using m s'(1,2) p(5) t(1) by simp
      then show thesis by (rule that(2) [OF _ t(2-4,7) t(5,6) [unfolded s'(5)]]) (use False in simp)
    qed
  qed
qed

text \<open>The units for a request: a header and the bytes rounded up. A request close to the word size would wrap around.\<close>

lemma units_ok:
  fixes nbytes :: u32
  assumes "unat nbytes < 2 ^ 32 - 8"
  defines "n \<equiv> (nbytes + 8 - 1) div 8 + 1"
  shows "0 < n" and "unat nbytes + 8 \<le> 8 * unat n"
proof -
  have "nbytes + 8 - 1 = nbytes + 7" by simp
  moreover have "unat (nbytes + 7) = unat nbytes + 7" using assms(1) by (simp add: unat_word_ariths)
  moreover have "unat ((nbytes + 7) div 8) = unat (nbytes + 7) div unat (8 :: u32)" by (rule unat_div)
  moreover have "unat (8 :: u32) = 8" by simp
  ultimately have "unat ((nbytes + 8 - 1) div 8) = (unat nbytes + 7) div 8" by (simp only:)
  moreover have "(unat nbytes + 7) div 8 + 1 < 2 ^ 32" using u32_bound [of nbytes] by simp
  ultimately have u: "unat n = (unat nbytes + 7) div 8 + 1" unfolding n_def by (simp add: unat_word_ariths)
  show "unat nbytes + 8 \<le> 8 * unat n" unfolding u by simp
  have "0 < unat n" unfolding u by simp
  then show "0 < n" by (simp add: word_less_nat_alt)
qed

definition initial_list :: "u32 \<Rightarrow> umem \<Rightarrow> umem" where
  "initial_list base s =
     (if freep s = 0 then s\<lparr>h_ptr := (h_ptr s)(base := base), freep := base, h_size := (h_size s)(base := 0)\<rparr> else s)"

lemma malloc_eq:
  "malloc sbrk base nbytes s =
     (let n = (nbytes + 8 - 1) div 8 + 1; s = initial_list base s in malloc_loop sbrk n (freep s) (h_ptr s (freep s)) s)"
  by (simp add: malloc_def initial_list_def Let_def)

text \<open>The first call sets up a list of the empty block \<open>base\<close>.\<close>

lemma initial_list_wf: "freep s = 0 \<Longrightarrow> wf_free base [base] (initial_list base s)"
  using u32_bound [of base] by (simp add: wf_free_def initial_list_def block_end_def)

text \<open>A taken block, given back, restores the free memory.\<close>

lemma malloc_free:
  assumes wf: "wf_free base xs (initial_list base s)" and base: "0 < base" and nb: "unat nbytes < 2 ^ 32 - 8"
    and sb: "sbrk_ok sbrk (core_units ((nbytes + 8 - 1) div 8 + 1)) xs (initial_list base s)"
  shows "\<exists>p t. malloc sbrk base nbytes s = Some (p, t) \<and>
    (if p = 0 then t = initial_list base s \<and> (\<exists>r. sbrk r = - 1)
     else \<exists>ys taken fresh u zs. wf_free base ys t \<and> {unat p..<unat p + unat nbytes} \<subseteq> taken \<and>
       taken \<subseteq> free_mem xs (initial_list base s) \<union> fresh \<and> free_mem ys t = (free_mem xs (initial_list base s) \<union> fresh) - taken \<and>
       (fresh = {} \<or> (\<exists>r. fresh = {unat (sbrk r)..<unat (sbrk r) + unat r})) \<and>
       free p t = Some u \<and> wf_free base zs u \<and> free_mem zs u = free_mem xs (initial_list base s) \<union> fresh)"
proof -
  define i n where "i = initial_list base s" and "n = (nbytes + 8 - 1) div 8 + 1"
  note wf = wf [folded i_def] and sb = sb [folded i_def n_def]
  have n: "0 < n" "unat nbytes + 8 \<le> 8 * unat n" using units_ok [OF nb] by (simp_all add: n_def)
  have m: "malloc sbrk base nbytes s = malloc_loop sbrk n (freep i) (h_ptr i (freep i)) i"
    by (simp add: malloc_eq i_def n_def Let_def)
  show ?thesis
  proof (rule malloc_loop_ok [OF wf base n(1) sb])
    assume "malloc_loop sbrk n (freep i) (h_ptr i (freep i)) i = Some (0, i)" "sbrk (core_units n * 8) = - 1"
    then show ?thesis using m by (auto simp: i_def)
  next
    fix r t ys fresh
    assume r: "malloc_loop sbrk n (freep i) (h_ptr i (freep i)) i = Some (r + 8, t)" "wf_free base ys t" "h_size t r = n"
      "apart r ys t" "base < r" "free_mem ys t = free_mem xs i \<union> fresh - block t r" "block t r \<subseteq> free_mem xs i \<union> fresh"
      "fresh = {} \<or> sbrk (core_units n * 8) \<noteq> - 1 \<and>
        fresh = {unat (sbrk (core_units n * 8))..<unat (sbrk (core_units n * 8)) + 8 * unat (core_units n)}"
    have e: "unat r + 8 * unat n < 2 ^ 32" using r(3,4) by (simp add: apart_def block_end_def)
    then have p: "unat (r + 8) = unat r + 8" using n by (simp add: unat_word_ariths)
    then have p0: "r + 8 \<noteq> 0" by (metis add_is_0 unat_0 zero_neq_numeral)
    have bl: "{unat (r + 8)..<unat (r + 8) + unat nbytes} \<subseteq> block t r" using n p r(3) by (auto simp: block_def block_end_def)
    have fr: "fresh = {} \<or> (\<exists>q. fresh = {unat (sbrk q)..<unat (sbrk q) + unat q})"
    proof (cases "fresh = {}")
      case False
      then have "8 * unat (core_units n) < 2 ^ 32" using r(8) sb by (auto simp: sbrk_ok_def)
      then have "unat (core_units n * 8) = 8 * unat (core_units n)" by (simp add: unat_word_ariths)
      then show ?thesis using r(8) False by metis
    qed simp
    obtain u zs where u: "free (r + 8) t = Some u" "wf_free base zs u" "free_mem zs u = free_mem ys t \<union> block t r"
      by (rule free_ok [OF r(2,4,5)])
    then have "free_mem zs u = free_mem xs i \<union> fresh" using r(6,7) by auto
    then have "wf_free base ys t \<and> {unat (r + 8)..<unat (r + 8) + unat nbytes} \<subseteq> block t r \<and> block t r \<subseteq> free_mem xs i \<union> fresh \<and>
        free_mem ys t = free_mem xs i \<union> fresh - block t r \<and> (fresh = {} \<or> (\<exists>q. fresh = {unat (sbrk q)..<unat (sbrk q) + unat q})) \<and>
        free (r + 8) t = Some u \<and> wf_free base zs u \<and> free_mem zs u = free_mem xs i \<union> fresh"
      using r(2,6,7) bl fr u(1,2) by blast
    then show ?thesis using m r(1) p0 unfolding i_def [symmetric]
      by (intro exI [of _ "r + 8"] exI [of _ t] conjI) (simp, simp only: if_False, blast)
  qed
qed

text \<open>
  C13: The allocator neither loses nor shares memory. On a well-formed free list, the empty one of the first call
  included, \<^verbatim>\<open>malloc\<close> returns; unless \<^verbatim>\<open>sbrk\<close> fails it hands out a block that holds the requested bytes and comes from
  the free memory or from fresh memory of \<^verbatim>\<open>sbrk\<close>, leaves a well-formed list with exactly the rest, and \<^verbatim>\<open>free\<close> of
  that block returns too and gives all of it back, whatever neighbours it is joined with.
\<close>

theorem malloc_free_conserve:
  assumes "wf_free base xs (initial_list base s)" and "0 < base" and "unat nbytes < 2 ^ 32 - 8"
    and "sbrk_ok sbrk (core_units ((nbytes + 8 - 1) div 8 + 1)) xs (initial_list base s)"
  shows "\<exists>p t. malloc sbrk base nbytes s = Some (p, t) \<and>
    (if p = 0 then t = initial_list base s \<and> (\<exists>r. sbrk r = - 1)
     else \<exists>ys taken fresh u zs. wf_free base ys t \<and> {unat p..<unat p + unat nbytes} \<subseteq> taken \<and>
       taken \<subseteq> free_mem xs (initial_list base s) \<union> fresh \<and> free_mem ys t = (free_mem xs (initial_list base s) \<union> fresh) - taken \<and>
       (fresh = {} \<or> (\<exists>r. fresh = {unat (sbrk r)..<unat (sbrk r) + unat r})) \<and>
       free p t = Some u \<and> wf_free base zs u \<and> free_mem zs u = free_mem xs (initial_list base s) \<union> fresh)"
  by (rule malloc_free [OF assms])

text \<open>A first request of 100 bytes, with memory at 0x3000.\<close>

theorem malloc_free_conserve_witness:
  "\<exists>p t u. malloc (\<lambda>_. 0x3000) 0x2000 100 \<lparr>h_ptr = (\<lambda>_. 0), h_size = (\<lambda>_. 0), freep = 0\<rparr> = Some (p, t) \<and> p \<noteq> 0 \<and>
     free p t = Some u \<and> wf_free 0x2000 [0x2000] (initial_list 0x2000 \<lparr>h_ptr = (\<lambda>_. 0), h_size = (\<lambda>_. 0), freep = 0\<rparr>)"
proof -
  let ?s = "\<lparr>h_ptr = (\<lambda>_. 0), h_size = (\<lambda>_. 0), freep = 0\<rparr> :: umem"
  have wf: "wf_free 0x2000 [0x2000] (initial_list 0x2000 ?s)" by (rule initial_list_wf) simp
  have n: "core_units ((100 + 8 - 1) div 8 + 1) = 4096" by (simp add: core_units_def)
  have sb: "sbrk_ok (\<lambda>_. 0x3000) (core_units ((100 + 8 - 1) div 8 + 1)) [0x2000] (initial_list 0x2000 ?s)"
    unfolding n by (simp add: sbrk_ok_def initial_list_def block_end_def)
  obtain p t where m: "malloc (\<lambda>_. 0x3000) 0x2000 100 ?s = Some (p, t)"
    and c: "if p = 0 then t = initial_list 0x2000 ?s \<and> (\<exists>r::u32. (0x3000::u32) = - 1)
     else \<exists>ys taken fresh u zs. wf_free 0x2000 ys t \<and> {unat p..<unat p + unat (100::u32)} \<subseteq> taken \<and>
       taken \<subseteq> free_mem [0x2000] (initial_list 0x2000 ?s) \<union> fresh \<and> free_mem ys t = (free_mem [0x2000] (initial_list 0x2000 ?s) \<union> fresh) - taken \<and>
       (fresh = {} \<or> (\<exists>r::u32. fresh = {unat (0x3000::u32)..<unat (0x3000::u32) + unat r})) \<and>
       free p t = Some u \<and> wf_free 0x2000 zs u \<and> free_mem zs u = free_mem [0x2000] (initial_list 0x2000 ?s) \<union> fresh"
    using malloc_free_conserve [OF wf _ _ sb] by auto
  have "p \<noteq> 0" using c by auto
  then obtain u where "free p t = Some u" using c by auto
  then show ?thesis using m \<open>p \<noteq> 0\<close> wf by blast
qed

end
