(* ===== verification/Mp.thy ===== *)
theory Mp
  imports Kalloc
begin

text \<open>
  Discovery of the processors, \<^verbatim>\<open>mp.c\<close> with the tables of \<^verbatim>\<open>mp.h\<close>: the search for the floating pointer structure in the
  memory of the BIOS, the checks of the configuration table, and the scan of its entries, which fills \<^verbatim>\<open>cpus\<close>. Pointers
  are addresses of the byte memory, and the fields of a structure are read at their offsets. A loop that never ends
  is \<open>None\<close>, and \<open>Blocked\<close> as an outcome of \<^verbatim>\<open>mpinit\<close>.
\<close>

section \<open>State\<close>

text \<open>\<open>mp_ports\<close> lists the bytes written to ports.\<close>

record mp_state = kmem_state +
  lapic :: u32
  ioapicid :: u8
  mp_ports :: "(u16 \<times> u8) list"

definition MPPROC :: u8 where "MPPROC = 0"
definition MPBUS :: u8 where "MPBUS = 1"
definition MPIOAPIC :: u8 where "MPIOAPIC = 2"
definition MPIOINTR :: u8 where "MPIOINTR = 3"
definition MPLINTR :: u8 where "MPLINTR = 4"

lemmas mp_types = MPPROC_def MPBUS_def MPIOAPIC_def MPIOINTR_def MPLINTR_def

definition load16 :: "mem \<Rightarrow> u32 \<Rightarrow> u32" where
  "load16 m a = push_bit 8 (ucast (m (a + 1))) OR ucast (m a)"

text \<open>\<^verbatim>\<open>struct mp\<close> (16 bytes) and \<^verbatim>\<open>struct mpconf\<close> (44 bytes).\<close>

definition mp_physaddr :: "mem \<Rightarrow> u32 \<Rightarrow> u32" where "mp_physaddr m p = load32 m (p + 4)"
definition mp_imcrp :: "mem \<Rightarrow> u32 \<Rightarrow> u8" where "mp_imcrp m p = m (p + 12)"
definition conf_length :: "mem \<Rightarrow> u32 \<Rightarrow> u32" where "conf_length m c = load16 m (c + 4)"
definition conf_version :: "mem \<Rightarrow> u32 \<Rightarrow> u8" where "conf_version m c = m (c + 6)"
definition conf_lapicaddr :: "mem \<Rightarrow> u32 \<Rightarrow> u32" where "conf_lapicaddr m c = load32 m (c + 36)"

section \<open>Operations\<close>

primrec sum_loop :: "nat \<Rightarrow> u32 \<Rightarrow> mem \<Rightarrow> int \<Rightarrow> int" where
  "sum_loop 0 addr m acc = acc"
| "sum_loop (Suc n) addr m acc = sum_loop n (addr + 1) m (acc + uint (m addr))"

definition mp_sum :: "u32 \<Rightarrow> u32 \<Rightarrow> mem \<Rightarrow> u8" where
  "mp_sum addr len m = of_int (sum_loop (unat len) addr m 0)"

partial_function (option) mpsearch1_loop :: "u32 \<Rightarrow> u32 \<Rightarrow> mem \<Rightarrow> u32 option" where
  "mpsearch1_loop p e m =
     (if p < e
      then if bytes_at m p 4 = [0x5F, 0x4D, 0x50, 0x5F] \<and> mp_sum p 16 m = 0 then Some p else mpsearch1_loop (p + 16) e m
      else Some 0)"

definition mpsearch1 :: "u32 \<Rightarrow> u32 \<Rightarrow> mem \<Rightarrow> u32 option" where
  "mpsearch1 a len m = (let addr = P2V a; e = addr + len in mpsearch1_loop addr e m)"

definition mpsearch :: "mem \<Rightarrow> u32 option" where
  "mpsearch m =
     (let bda = P2V 0x400;
          p = push_bit 4 (load16 m (bda + 0x0E));
          first = (if p \<noteq> 0 then mpsearch1 p 1024 m
                   else mpsearch1 (load16 m (bda + 0x13) * 1024 - 1024) 1024 m)
      in case first of None \<Rightarrow> None | Some mp \<Rightarrow> if mp \<noteq> 0 then Some mp else mpsearch1 0xF0000 0x10000 m)"

text \<open>The result is \<^verbatim>\<open>conf\<close>, or 0, together with \<^verbatim>\<open>*pmp\<close>.\<close>

definition mpconfig :: "mem \<Rightarrow> (u32 \<times> u32) option" where
  "mpconfig m = (case mpsearch m of None \<Rightarrow> None | Some mp \<Rightarrow>
     if mp = 0 \<or> mp_physaddr m mp = 0 then Some (0, 0)
     else let conf = P2V (mp_physaddr m mp) in
       if bytes_at m conf 4 \<noteq> [0x50, 0x43, 0x4D, 0x50] then Some (0, 0)
       else if conf_version m conf \<noteq> 1 \<and> conf_version m conf \<noteq> 4 then Some (0, 0)
       else if mp_sum conf (conf_length m conf) m \<noteq> 0 then Some (0, 0)
       else Some (conf, mp))"

text \<open>An element of the zeroed array \<^verbatim>\<open>cpus\<close>.\<close>

definition zero_cpu :: cpu where
  "zero_cpu = \<lparr>apicid = 0, ncli = 0, intena = False, cpu_proc = None, started = False,
     gdt = replicate NSEGS \<lparr>lim_15_0 = 0, base_15_0 = 0, base_23_16 = 0, sd_type = 0, sd_s = 0, sd_dpl = 0, sd_p = 0,
       lim_19_16 = 0, sd_avl = 0, sd_rsv1 = 0, sd_db = 0, sd_g = 0, base_31_24 = 0\<rparr>,
     ts = \<lparr>ts_esp0 = 0, ts_ss0 = 0, ts_iomb = 0\<rparr>\<rparr>"

text \<open>The loop over the entries. The \<^verbatim>\<open>break\<close> of its default case leaves only the \<^verbatim>\<open>switch\<close>.\<close>

partial_function (option) mpinit_loop :: "u32 \<Rightarrow> u32 \<Rightarrow> bool \<Rightarrow> 'a mp_state_scheme \<Rightarrow> (bool \<times> 'a mp_state_scheme) option" where
  "mpinit_loop p e ismp s =
     (if p < e then
        if mem s p = MPPROC then
          mpinit_loop (p + 20) e ismp
            (if length (cpus s) < NCPU then s\<lparr>cpus := cpus s @ [zero_cpu\<lparr>apicid := mem s (p + 1)\<rparr>]\<rparr> else s)
        else if mem s p = MPIOAPIC then mpinit_loop (p + 8) e ismp (s\<lparr>ioapicid := mem s (p + 1)\<rparr>)
        else if mem s p = MPBUS \<or> mem s p = MPIOINTR \<or> mem s p = MPLINTR then mpinit_loop (p + 8) e ismp s
        else mpinit_loop p e False s
      else Some (ismp, s))"

text \<open>\<open>imcr\<close> is what port 0x23 delivers.\<close>

definition mpinit :: "u8 \<Rightarrow> 'a mp_state_scheme \<Rightarrow> 'a mp_state_scheme outcome" where
  "mpinit imcr s =
     (case mpconfig (mem s) of None \<Rightarrow> Blocked
      | Some (conf, mp) \<Rightarrow>
        if conf = 0 then Panic ''Expect to run on an SMP''
        else
          let s = s\<lparr>lapic := conf_lapicaddr (mem s) conf\<rparr> in
          case mpinit_loop (conf + 44) (conf + conf_length (mem s) conf) True s of None \<Rightarrow> Blocked
          | Some (ismp, s) \<Rightarrow>
            if \<not> ismp then Panic ''Didn't find a suitable machine''
            else if mp_imcrp (mem s) mp \<noteq> 0 then Ret (s\<lparr>mp_ports := mp_ports s @ [(0x22, 0x70), (0x23, imcr OR 1)]\<rparr>)
            else Ret s)"

section \<open>The search\<close>

definition is_mp :: "mem \<Rightarrow> u32 \<Rightarrow> bool" where
  "is_mp m p \<longleftrightarrow> bytes_at m p 4 = [0x5F, 0x4D, 0x50, 0x5F] \<and> mp_sum p 16 m = 0"

text \<open>The search of a range that does not reach the end of the address space delivers its first structure.\<close>

lemma mpsearch1_first:
  assumes "unat p + 16 * n < 2 ^ 32"
  shows "mpsearch1_loop p (p + of_nat (16 * n)) m =
    Some (case find (\<lambda>q. is_mp m q) (map (\<lambda>i. p + of_nat (16 * i)) [0..<n]) of None \<Rightarrow> 0 | Some q \<Rightarrow> q)"
  using assms
proof (induction n arbitrary: p)
  case 0
  then show ?case by (subst mpsearch1_loop.simps) simp
next
  case (Suc n)
  have p: "unat (p + of_nat (16 * Suc n)) = unat p + 16 * Suc n" "unat (p + 16) = unat p + 16"
    using Suc.prems by (simp_all add: unat_word_ariths unat_of_nat)
  have lt: "p < p + of_nat (16 * Suc n)" unfolding word_less_nat_alt p(1) by simp
  have l: "map (\<lambda>i. p + of_nat (16 * i)) [0..<Suc n] = p # map (\<lambda>i. p + 16 + of_nat (16 * i)) [0..<n]"
    by (simp add: upt_conv_Cons map_Suc_upt [symmetric] comp_def del: upt_Suc)
  have "mpsearch1_loop (p + 16) (p + 16 + of_nat (16 * n)) m =
    Some (case find (is_mp m) (map (\<lambda>i. p + 16 + of_nat (16 * i)) [0..<n]) of None \<Rightarrow> 0 | Some q \<Rightarrow> q)"
    using Suc.prems p(2) by (intro Suc.IH) simp
  then show ?case unfolding l using lt by (subst mpsearch1_loop.simps) (simp add: is_mp_def add.assoc)
qed

lemma load16_less: "unat (load16 m a) < 2 ^ 16"
proof -
  have "take_bit 16 (load16 m a) = load16 m a"
    by (rule bit_word_eqI) (auto simp: load16_def bit_simps dest: bit_imp_le_length)
  then have "unat (load16 m a) = take_bit 16 (unat (load16 m a))" by (metis unsigned_take_bit_eq)
  then show ?thesis by (metis take_bit_nat_less_exp)
qed

lemma mpsearch1_returns:
  assumes "unat (P2V a) + 16 * n < 2 ^ 32" and "len = of_nat (16 * n)"
  shows "\<exists>p. mpsearch1 a len m = Some p"
  using mpsearch1_first [OF assms(1), of m] assms(2) by (simp add: mpsearch1_def Let_def)

lemma mpsearch_returns: "\<exists>p. mpsearch m = Some p"
proof -
  have ebda: "\<exists>q. mpsearch1 (push_bit 4 (load16 m a)) 1024 m = Some q" for a
  proof (rule mpsearch1_returns [of _ 64])
    have "unat (push_bit 4 (load16 m a)) = 16 * unat (load16 m a)"
      using load16_less [of m a] by (simp add: push_bit_eq_mult unat_word_ariths)
    then show "unat (P2V (push_bit 4 (load16 m a))) + 16 * 64 < 2 ^ 32"
      using load16_less [of m a] by (simp add: P2V_def unat_word_ariths)
  qed simp
  have base: "\<exists>q. mpsearch1 (load16 m a * 1024 - 1024) 1024 m = Some q" for a
  proof (rule mpsearch1_returns [of _ 64])
    let ?w = "load16 m a"
    have "P2V (?w * 1024 - 1024) = 0x7FFFFC00 + ?w * 1024" by (simp add: P2V_def)
    moreover have "unat (?w * 1024) = 1024 * unat ?w" using load16_less [of m a] by (simp add: unat_word_ariths)
    ultimately show "unat (P2V (?w * 1024 - 1024)) + 16 * 64 < 2 ^ 32"
      using load16_less [of m a] by (simp add: unat_word_ariths)
  qed simp
  have rom: "\<exists>q. mpsearch1 0xF0000 0x10000 m = Some q"
    by (rule mpsearch1_returns [of _ 4096]) (simp_all add: P2V_def)
  show ?thesis using ebda [of "P2V 0x400 + 0x0E"] base [of "P2V 0x400 + 0x13"] rom
    by (auto simp: mpsearch_def Let_def split: if_splits)
qed

lemma mpconfig_returns: "mpconfig m \<noteq> None"
  using mpsearch_returns [of m] by (auto simp: mpconfig_def Let_def)

section \<open>The entries of the table\<close>

text \<open>The entries that \<^verbatim>\<open>mpinit\<close> knows; \<open>entries_at m e p es q\<close>: the entries \<open>es\<close> fill the memory from \<open>p\<close> to \<open>q\<close>, each beginning below \<open>e\<close>.\<close>

datatype mp_entry = EProc u8 | EIoapic u8 | EOther u8

fun entries_at :: "mem \<Rightarrow> u32 \<Rightarrow> u32 \<Rightarrow> mp_entry list \<Rightarrow> u32 \<Rightarrow> bool" where
  "entries_at m e p [] q = (p = q)"
| "entries_at m e p (EProc a # es) q = (p < e \<and> m p = MPPROC \<and> m (p + 1) = a \<and> entries_at m e (p + 20) es q)"
| "entries_at m e p (EIoapic a # es) q = (p < e \<and> m p = MPIOAPIC \<and> m (p + 1) = a \<and> entries_at m e (p + 8) es q)"
| "entries_at m e p (EOther t # es) q = (p < e \<and> m p = t \<and> t \<in> {MPBUS, MPIOINTR, MPLINTR} \<and> entries_at m e (p + 8) es q)"

definition apic_ids :: "mp_entry list \<Rightarrow> u8 list" where
  "apic_ids es = concat (map (\<lambda>x. case x of EProc a \<Rightarrow> [a] | _ \<Rightarrow> []) es)"

definition ioapic_ids :: "mp_entry list \<Rightarrow> u8 list" where
  "ioapic_ids es = concat (map (\<lambda>x. case x of EIoapic a \<Rightarrow> [a] | _ \<Rightarrow> []) es)"

definition with_entries :: "mp_entry list \<Rightarrow> 'a mp_state_scheme \<Rightarrow> 'a mp_state_scheme" where
  "with_entries es s = s\<lparr>cpus := cpus s @ map (\<lambda>a. zero_cpu\<lparr>apicid := a\<rparr>) (take (NCPU - length (cpus s)) (apic_ids es)),
     ioapicid := last (ioapicid s # ioapic_ids es)\<rparr>"

lemma mpinit_loop_entries:
  "entries_at (mem s) e p es q \<Longrightarrow> mpinit_loop p e ismp s = mpinit_loop q e ismp (with_entries es s)"
proof (induction es arbitrary: p s)
  case Nil
  then show ?case by (simp add: with_entries_def apic_ids_def ioapic_ids_def)
next
  case (Cons x es)
  show ?case
  proof (cases x)
    case (EProc a)
    let ?t = "if length (cpus s) < NCPU then s\<lparr>cpus := cpus s @ [zero_cpu\<lparr>apicid := a\<rparr>]\<rparr> else s"
    have "with_entries es ?t = with_entries (x # es) s"
    proof (cases "length (cpus s) < NCPU")
      case True
      then have "NCPU - length (cpus s) = Suc (NCPU - Suc (length (cpus s)))" by simp
      then show ?thesis using EProc True by (simp add: with_entries_def apic_ids_def ioapic_ids_def del: diff_Suc_Suc)
    qed (use EProc in \<open>simp add: with_entries_def apic_ids_def ioapic_ids_def\<close>)
    moreover have "mpinit_loop p e ismp s = mpinit_loop (p + 20) e ismp ?t"
      using Cons.prems EProc by (subst mpinit_loop.simps) simp
    moreover have "mpinit_loop (p + 20) e ismp ?t = mpinit_loop q e ismp (with_entries es ?t)"
      using Cons.prems EProc by (intro Cons.IH) simp
    ultimately show ?thesis by simp
  next
    case (EIoapic a)
    let ?t = "s\<lparr>ioapicid := a\<rparr>"
    have "with_entries es ?t = with_entries (x # es) s" using EIoapic by (simp add: with_entries_def apic_ids_def ioapic_ids_def)
    moreover have "mpinit_loop p e ismp s = mpinit_loop (p + 8) e ismp ?t"
      using Cons.prems EIoapic by (subst mpinit_loop.simps) (simp add: mp_types)
    moreover have "mpinit_loop (p + 8) e ismp ?t = mpinit_loop q e ismp (with_entries es ?t)"
      using Cons.prems EIoapic by (intro Cons.IH) simp
    ultimately show ?thesis by simp
  next
    case (EOther t)
    have "with_entries es s = with_entries (x # es) s" using EOther by (simp add: with_entries_def apic_ids_def ioapic_ids_def)
    moreover have "mpinit_loop p e ismp s = mpinit_loop (p + 8) e ismp s"
      using Cons.prems EOther by (subst mpinit_loop.simps) (auto simp: mp_types)
    moreover have "mpinit_loop (p + 8) e ismp s = mpinit_loop q e ismp (with_entries es s)"
      using Cons.prems EOther by (intro Cons.IH) simp
    ultimately show ?thesis by simp
  qed
qed

text \<open>The loop does not come to an end at an entry of another type, and the flag \<^verbatim>\<open>ismp\<close> never comes back cleared.\<close>

definition known_type :: "u8 \<Rightarrow> bool" where
  "known_type t \<longleftrightarrow> t = MPPROC \<or> t = MPBUS \<or> t = MPIOAPIC \<or> t = MPIOINTR \<or> t = MPLINTR"

lemma mpinit_loop_result:
  assumes "mpinit_loop p e ismp s = Some r"
  shows "(p < e \<longrightarrow> known_type (mem s p)) \<and> fst r = ismp"
proof (rule mpinit_loop.raw_induct [where P = "\<lambda>p e ismp s r. (p < e \<longrightarrow> known_type (mem s p)) \<and> fst r = ismp", OF _ assms])
  fix loop :: "u32 \<Rightarrow> u32 \<Rightarrow> bool \<Rightarrow> 'a mp_state_scheme \<Rightarrow> (bool \<times> 'a mp_state_scheme) option" and p e ismp s r
  assume IH: "\<And>p e ismp s r. loop p e ismp s = Some r \<Longrightarrow> (p < e \<longrightarrow> known_type (mem s p)) \<and> fst r = ismp"
    and r: "(if p < e then
        if mem s p = MPPROC then
          loop (p + 20) e ismp (if length (cpus s) < NCPU then s\<lparr>cpus := cpus s @ [zero_cpu\<lparr>apicid := mem s (p + 1)\<rparr>]\<rparr> else s)
        else if mem s p = MPIOAPIC then loop (p + 8) e ismp (s\<lparr>ioapicid := mem s (p + 1)\<rparr>)
        else if mem s p = MPBUS \<or> mem s p = MPIOINTR \<or> mem s p = MPLINTR then loop (p + 8) e ismp s
        else loop p e False s
      else Some (ismp, s)) = Some r"
  show "(p < e \<longrightarrow> known_type (mem s p)) \<and> fst r = ismp"
  proof (cases "p < e \<and> \<not> known_type (mem s p)")
    case True
    then have "loop p e False s = Some r" using r by (simp add: known_type_def)
    from IH [OF this] True show ?thesis by simp
  next
    case False
    then show ?thesis using r by (auto split: if_splits simp: known_type_def dest!: IH)
  qed
qed

section \<open>Start-up\<close>

lemma mpinit_loop_unknown: "p < e \<Longrightarrow> \<not> known_type (mem s p) \<Longrightarrow> mpinit_loop p e ismp s = None"
  using mpinit_loop_result [of p e ismp s] by (cases "mpinit_loop p e ismp s") auto

lemma mycpu_listed:
  assumes "a \<in> apicid ` set (cpus s)"
  shows "returns (mycpu (cli (s\<lparr>lapicid := a\<rparr>))) (\<lambda>i. i < length (cpus s) \<and> apicid (cpus s ! i) = a)"
proof (cases "find_index (\<lambda>c. apicid c = a) (cpus s)")
  case None
  then show ?thesis using assms by (auto simp: find_index_None)
next
  case (Some i)
  then show ?thesis using find_index_Some [OF Some] by (simp add: mycpu_def cli_def readeflags_IF_def)
qed

text \<open>The state with the contents of the configuration table.\<close>

definition discovered :: "mp_entry list \<Rightarrow> u32 \<Rightarrow> u32 \<Rightarrow> u8 \<Rightarrow> 'a mp_state_scheme \<Rightarrow> 'a mp_state_scheme" where
  "discovered es conf mp imcr s = s\<lparr>lapic := conf_lapicaddr (mem s) conf,
     cpus := map (\<lambda>a. zero_cpu\<lparr>apicid := a\<rparr>) (take NCPU (apic_ids es)),
     ioapicid := last (ioapicid s # ioapic_ids es),
     mp_ports := mp_ports s @ (if mp_imcrp (mem s) mp = 0 then [] else [(0x22, 0x70), (0x23, imcr OR 1)])\<rparr>"


text \<open>The memory of a machine with two processors and an I/O APIC.\<close>

definition put_at :: "u32 \<Rightarrow> u8 list \<Rightarrow> mem \<Rightarrow> mem" where
  "put_at base bs m = (\<lambda>a. if unat (a - base) < length bs then bs ! unat (a - base) else m a)"

definition demo_conf :: "u8 list" where
  "demo_conf = [80, 67, 77, 80, 100, 0, 4, 128] @ replicate 26 0 @ [4, 0, 0, 0, 0xE0, 0xFE] @ replicate 4 0 @
    ([0, 0] @ replicate 18 0) @ ([0, 1] @ replicate 18 0) @ ([1] @ replicate 7 0) @ ([2, 2] @ replicate 6 0)"

definition demo_bios :: mem where
  "demo_bios = put_at 0x8000040E [0xC0, 0x9F]
     (put_at 0x8009FC00 [95, 77, 80, 95, 0, 253, 9, 0, 1, 4, 154, 0, 0, 0, 0, 0] (put_at 0x8009FD00 demo_conf (\<lambda>_. 0)))"

definition demo_mp :: mp_state where
  "demo_mp = kmem_state.extend (boot_kmem\<lparr>mem := demo_bios, cpus := []\<rparr>) \<lparr>lapic = 0, ioapicid = 0, mp_ports = []\<rparr>"

lemma sum_loop_bytes: "sum_loop n a m k = k + (\<Sum>b\<leftarrow>bytes_at m a n. uint b)"
proof (induction n arbitrary: a k)
  case (Suc n)
  have "bytes_at m a (Suc n) = m a # bytes_at m (a + 1) n"
    by (simp add: bytes_at_def upt_conv_Cons map_Suc_upt [symmetric] comp_def add.assoc del: upt_Suc)
  then show ?case using Suc by simp
qed (simp add: bytes_at_def)

lemma bytes_at_put_at:
  assumes "n \<le> length bs" and "length bs < 2 ^ 32"
  shows "bytes_at (put_at a bs m) a n = take n bs"
  using assms by (intro nth_equalityI) (auto simp: put_at_def unat_of_nat)

lemma bytes_at_put_other:
  assumes "length bs \<le> unat (a - b)" and "unat (a - b) + n < 2 ^ 32"
  shows "bytes_at (put_at b bs m) a n = bytes_at m a n"
proof (intro nth_equalityI)
  fix i
  assume "i < length (bytes_at (put_at b bs m) a n)"
  then have i: "i < n" by simp
  have e: "a + of_nat i - b = (a - b) + of_nat i" by simp
  have "unat (a + of_nat i - b) = unat (a - b) + i"
    unfolding e unat_word_ariths using assms(2) i by (simp add: unat_of_nat)
  then show "bytes_at (put_at b bs m) a n ! i = bytes_at m a n ! i" using assms(1) i by (simp add: put_at_def)
qed simp

lemma demo_mp_bytes: "bytes_at demo_bios 0x8009FC00 16 = [95, 77, 80, 95, 0, 253, 9, 0, 1, 4, 154, 0, 0, 0, 0, 0]"
  unfolding demo_bios_def by (simp add: bytes_at_put_at bytes_at_put_other)

lemma demo_conf_bytes: "bytes_at demo_bios 0x8009FD00 100 = demo_conf"
  unfolding demo_bios_def by (simp add: bytes_at_put_at bytes_at_put_other demo_conf_def)

lemmas demo_simps = demo_bios_def demo_conf_def put_at_def nth_append

lemma demo_reads:
  "load16 demo_bios 0x8000040E = 0x9FC0" "mp_physaddr demo_bios 0x8009FC00 = 0x9FD00"
  "conf_version demo_bios 0x8009FD00 = 4" "conf_length demo_bios 0x8009FD00 = 100" "conf_lapicaddr demo_bios 0x8009FD00 = 0xFEE00000"
  by (simp_all add: demo_simps load16_def load32_def mp_physaddr_def conf_version_def conf_length_def conf_lapicaddr_def)

lemma demo_entries: "entries_at demo_bios 0x8009FD64 0x8009FD2C [EProc 0, EProc 1, EOther MPBUS, EIoapic 2] 0x8009FD64"
  by (simp add: demo_simps mp_types)

lemma demo_config: "mpconfig demo_bios = Some (0x8009FD00, 0x8009FC00)"
proof -
  have four: "bytes_at m a 4 = take 4 (bytes_at m a n)" if "4 \<le> n" for m a n
    using that by (intro nth_equalityI) simp_all
  have sig: "bytes_at demo_bios 0x8009FC00 4 = [0x5F, 0x4D, 0x50, 0x5F]" "bytes_at demo_bios 0x8009FD00 4 = [0x50, 0x43, 0x4D, 0x50]"
    using four [of 16 demo_bios "0x8009FC00"] four [of 100 demo_bios "0x8009FD00"]
    by (simp_all add: demo_mp_bytes demo_conf_bytes demo_conf_def sum_list_replicate)
  have sums: "mp_sum 0x8009FC00 16 demo_bios = 0" "mp_sum 0x8009FD00 100 demo_bios = 0"
    by (simp_all add: mp_sum_def sum_loop_bytes demo_mp_bytes demo_conf_bytes demo_conf_def sum_list_replicate)
  have "mpsearch1_loop 0x8009FC00 0x800A0000 demo_bios = Some 0x8009FC00"
    using sig(1) sums(1) by (subst mpsearch1_loop.simps) simp
  then have "mpsearch demo_bios = Some 0x8009FC00"
    using demo_reads(1) by (simp add: mpsearch_def mpsearch1_def P2V_def Let_def push_bit_eq_mult)
  then show ?thesis using sig sums demo_reads by (simp add: mpconfig_def P2V_def Let_def)
qed


end
