(* ===== verification/Dropbox.thy ===== *)
theory Dropbox
  imports Cstring Bytes
begin

text \<open>
  The file synchronization program of \<^verbatim>\<open>src/dropbox\<close>: the server \<^verbatim>\<open>sserver.c\<close> with its list of file versions and the
  requests it serves, and the messages of the client \<^verbatim>\<open>sclient.c\<close>. A C string is the list of its bytes before the
  terminating zero. A linked list is the list of its nodes. The blocks for the copies of names are allocated one byte short:
  \<open>usable n\<close> is the number of bytes that the allocator really provides for a request of \<open>n\<close>, and a copy that does not fit there is
  undefined. A connection is
  the list of the packets that \<^verbatim>\<open>recv\<close> will deliver and whether the other side closes it behind them: \<^verbatim>\<open>recv\<close> on an open
  connection without packets is \<open>Blocked\<close>. The threads of the server are modelled as running one after the other.
  Which file a path names is left to the file system: \<open>file_at\<close> gives the file, \<open>dir\<close> its contents, and
  \<open>writable\<close> the paths that can be opened for writing. A call of
  \<^verbatim>\<open>exit\<close>, which ends the whole server, is the outcome \<open>Panic\<close>. The messages printed on the terminal are left out.
\<close>

section \<open>Connections\<close>

record conn =
  packets :: "u8 list list"
  closed :: bool

definition recv :: "nat \<Rightarrow> conn \<Rightarrow> (u8 list \<times> conn) outcome" where
  "recv n c = (case packets c of
     [] \<Rightarrow> if closed c then Ret ([], c) else Blocked
   | p # ps \<Rightarrow> Ret (take n p, c\<lparr>packets := (if drop n p = [] then ps else drop n p # ps)\<rparr>))"

text \<open>\<^verbatim>\<open>send\<close> takes some of the bytes: \<open>acc\<close> lists how many each call accepts, 0 once the connection is lost.\<close>

fun send_mes :: "nat list \<Rightarrow> u8 list \<Rightarrow> u8 list" where
  "send_mes [] data = []"
| "send_mes (a # acc) data =
     (let s = min a (length data) in
      if data = [] \<or> s = 0 then [] else take s data @ send_mes acc (drop s data))"

function recv_fixed_len :: "nat \<Rightarrow> conn \<Rightarrow> (u8 list \<times> conn) outcome" where
  "recv_fixed_len len c =
     (if len = 0 then Ret ([], c)
      else bindO (recv len c) (\<lambda>(bs, c).
        if bs = [] then Ret ([], c)
        else bindO (recv_fixed_len (len - length bs) c) (\<lambda>(rest, c). Ret (bs @ rest, c))))"
  by pat_completeness auto

termination
  by (relation "measure fst") (auto simp: recv_def split: list.splits if_splits)

declare recv_fixed_len.simps [simp del]

text \<open>An \<^verbatim>\<open>int\<close> as the four bytes of its storage.\<close>

definition int_bytes :: "int \<Rightarrow> u8 list" where "int_bytes v = put32 [0, 0, 0, 0] 0 (of_int v)"

definition int_of_bytes :: "u8 list \<Rightarrow> int" where "int_of_bytes bs = sint (get32 bs 0)"

section \<open>The list of versions\<close>

record meta_data =
  md_version :: int
  md_len :: int
  md_name :: "u8 list"

record server =
  front :: "meta_data list"
  theNumberOf :: int
  dir :: "u8 list \<Rightarrow> u8 list option"
  file_at :: "u8 list \<Rightarrow> u8 list"
  writable :: "u8 list \<Rightarrow> bool"
  usable :: "nat \<Rightarrow> nat"

text \<open>The loop of \<^verbatim>\<open>new_list\<close> from the node \<^verbatim>\<open>cur\<close> on; the result tells whether a node was added.\<close>

fun new_list_loop :: "meta_data \<Rightarrow> meta_data list \<Rightarrow> meta_data list \<times> bool" where
  "new_list_loop new [] = ([], False)"
| "new_list_loop new (cur # rest) =
     (if md_name cur = md_name new then (cur\<lparr>md_version := md_version cur + 1\<rparr> # rest, False)
      else if rest = [] then ([cur, new], True)
      else let (rest, added) = new_list_loop new rest in (cur # rest, added))"

definition new_list :: "u8 list \<Rightarrow> server \<Rightarrow> server outcome" where
  "new_list file_name s =
     (if usable s (length file_name) < length file_name + 1 then UB
      else
        let new = \<lparr>md_version = 0, md_len = int (length file_name), md_name = file_name\<rparr> in
        if front s = [] then Ret (s\<lparr>front := [new], theNumberOf := theNumberOf s + 1\<rparr>)
        else let (l, added) = new_list_loop new (front s) in
          Ret (s\<lparr>front := l, theNumberOf := theNumberOf s + (if added then 1 else 0)\<rparr>))"

text \<open>\<^verbatim>\<open>find_version\<close> has no \<^verbatim>\<open>return\<close> behind its loop: \<open>junk\<close> is what the caller then finds in the result register.\<close>

primrec find_version_loop :: "int \<Rightarrow> u8 list \<Rightarrow> meta_data list \<Rightarrow> int" where
  "find_version_loop junk given_name [] = junk"
| "find_version_loop junk given_name (c # cs) =
     (if md_name c = given_name then md_version c else find_version_loop junk given_name cs)"

definition find_version :: "int \<Rightarrow> u8 list \<Rightarrow> server \<Rightarrow> int" where
  "find_version junk given_name s = find_version_loop junk given_name (front s)"

section \<open>Requests\<close>

text \<open>The messages of one request; each is sent with \<^verbatim>\<open>send_mes\<close>.\<close>

definition send_metadata :: "server \<Rightarrow> u8 list list" where
  "send_metadata s = int_bytes (theNumberOf s) #
     concat (map (\<lambda>cur. [int_bytes (md_len cur), md_name cur, int_bytes (md_version cur)]) (front s))"

definition path_of :: "u8 list \<Rightarrow> u8 list \<Rightarrow> u8 list" where
  "path_of pwd file_name = [46, 47] @ pwd @ [47] @ file_name"

text \<open>\<^verbatim>\<open>put_file\<close> writes \<^verbatim>\<open>strlen(data)\<close> bytes; the path is put together in a block of 48 bytes.\<close>

definition put_file :: "u8 list \<Rightarrow> u8 list \<Rightarrow> u8 list \<Rightarrow> server \<Rightarrow> server outcome" where
  "put_file file_name data pwd s =
     (let path = path_of pwd file_name in
      if length path \<ge> 48 then UB
      else if \<not> writable s path then Panic ''No Such File''
      else Ret (s\<lparr>dir := (dir s)(file_at s path \<mapsto> takeWhile (\<lambda>b. b \<noteq> 0) data)\<rparr>))"

lemma recv_shrinks:
  assumes "recv n c = Ret (bs, c')" and "bs \<noteq> []"
  shows "length (concat (packets c')) < length (concat (packets c))"
  using assms by (cases "packets c") (auto simp: recv_def split: if_splits)

text \<open>
  The loop that receives until the other side closes the connection; \<open>None\<close> is the null pointer. The first packet is
  copied only up to its first zero byte: the bytes behind the first zero differ from the model's, but nothing reads them.
\<close>

function recv_all :: "conn \<Rightarrow> (u8 list option \<times> conn) outcome" where
  "recv_all c =
     bindO (recv 1023 c) (\<lambda>(bs, c').
       if bs = [] then Ret (None, c')
       else bindO (recv_all c') (\<lambda>(rest, c). Ret (Some (bs @ (case rest of None \<Rightarrow> [] | Some r \<Rightarrow> r)), c)))"
  by pat_completeness auto

termination
  by (relation "measure (\<lambda>c. length (concat (packets c)))") (use recv_shrinks in auto)

declare recv_all.simps [simp del]

definition server_put :: "int \<Rightarrow> conn \<Rightarrow> u8 list \<Rightarrow> u8 list \<Rightarrow> server \<Rightarrow> (u8 list list \<times> server) outcome" where
  "server_put junk c file_name pwd s =
     bindO (recv_all c) (\<lambda>(data, c).
       let version = find_version junk file_name s in
       case data of
         None \<Rightarrow> UB
       | Some data \<Rightarrow> 
           bindO (put_file file_name data pwd s) (\<lambda>s.
           bindO (new_list file_name s) (\<lambda>s. Ret ([int_bytes version], s))))"

text \<open>\<^verbatim>\<open>get\<close> writes a zero byte to the block it allocates in the size of the file.\<close>

definition get :: "int \<Rightarrow> u8 list \<Rightarrow> u8 list \<Rightarrow> server \<Rightarrow> (u8 list list \<times> server) outcome" where
  "get junk file_name pwd s =
     (let path = path_of pwd file_name in
      if length path \<ge> 48 then UB
      else case dir s (file_at s path) of
        None \<Rightarrow> Panic ''NULL''
      | Some bytes \<Rightarrow> if bytes = [] then UB else Ret ([int_bytes (find_version junk file_name s), bytes], s))"

text \<open>A name that \<^verbatim>\<open>child_proc\<close> receives into its buffer of 1024 bytes, whose contents behind the received bytes are not determined.\<close>

definition recv_name :: "conn \<Rightarrow> (u8 list \<times> conn) outcome" where
  "recv_name c =
     bindO (recv 4 c) (\<lambda>(k, c).
       if length k < 4 \<or> int_of_bytes k < 0 then UB
       else bindO (recv (nat (int_of_bytes k)) c) (\<lambda>(buf, c).
         if length buf > 1024 \<or> 0 \<notin> set buf then UB else Ret (takeWhile (\<lambda>b. b \<noteq> 0) buf, c)))"

definition child_proc :: "int \<Rightarrow> u8 list \<Rightarrow> conn \<Rightarrow> server \<Rightarrow> (u8 list list \<times> server) outcome" where
  "child_proc junk cwd c s =
     bindO (recv 4 c) (\<lambda>(buf_s, c).
       if length buf_s < 4 then UB
       else if int_of_bytes buf_s = 1 then Ret (send_metadata s, s)
       else if int_of_bytes buf_s = 2 then
         bindO (recv_name c) (\<lambda>(buf, c). if 47 \<in> set buf then Panic ''exit'' else get junk buf cwd s)
       else if int_of_bytes buf_s = 3 then
         bindO (recv_name c) (\<lambda>(buf, c). server_put junk c buf cwd s)
       else Ret ([], s))"

section \<open>The client\<close>

text \<open>The messages with which the client asks for a file and sends one.\<close>

definition get_send :: "u8 list \<Rightarrow> u8 list list" where
  "get_send file_name = [int_bytes 2, int_bytes (int (length file_name) + 1), file_name @ [0]]"

definition put_send :: "u8 list \<Rightarrow> u8 list list \<Rightarrow> u8 list list" where
  "put_send file_name data = [int_bytes 3, int_bytes (int (length file_name) + 1), file_name @ [0]] @ data"

text \<open>The pointer \<^verbatim>\<open>checker\<close> of the client is the position of its node, if it is not null.\<close>

record client =
  cl_front :: "meta_data list"
  checker :: "nat option"
  cl_number :: int
  cl_usable :: "nat \<Rightarrow> nat"

definition client_new_list :: "u8 list \<Rightarrow> int \<Rightarrow> client \<Rightarrow> client outcome" where
  "client_new_list file_name v_from_server s =
     (if cl_usable s (length file_name) < length file_name + 1 then UB
      else
        let new = \<lparr>md_version = v_from_server, md_len = int (length file_name), md_name = file_name\<rparr> in
        Ret (s\<lparr>cl_number := cl_number s + 1, cl_front := cl_front s @ [new],
          checker := (if cl_front s = [] then Some 0 else checker s)\<rparr>))"

definition regular_file_check :: "u8 list \<Rightarrow> bool outcome" where
  "regular_file_check name =
     (if name = [] then UB else Ret (hd name \<noteq> 46 \<and> name \<noteq> [52, 57, 49, 51] \<and> last name \<noteq> 126))"

text \<open>The loop of \<^verbatim>\<open>list_find\<close> does not advance its pointer; the result tells whether the name was found.\<close>

partial_function (option) list_find_loop :: "u8 list \<Rightarrow> meta_data list \<Rightarrow> bool option" where
  "list_find_loop name c = (case c of [] \<Rightarrow> Some False | x # _ \<Rightarrow> if md_name x = name then Some True else list_find_loop name c)"

definition list_find :: "u8 list \<Rightarrow> client \<Rightarrow> client outcome option" where
  "list_find name s = map_option (\<lambda>found. if found then Ret s else client_new_list name 0 s) (list_find_loop name (cl_front s))"

section \<open>Transfers\<close>

lemma int_bytes_length [simp]: "length (int_bytes v) = 4"
  by (simp add: int_bytes_def)

lemma int_bytes_back: "- (2 ^ 31) \<le> v \<Longrightarrow> v < 2 ^ 31 \<Longrightarrow> int_of_bytes (int_bytes v) = v"
proof -
  assume v: "- (2 ^ 31) \<le> v" "v < 2 ^ 31"
  have "sint (word_of_int v :: u32) = signed_take_bit 31 (take_bit 32 v)"
    by (simp add: sint_uint uint_word_of_int take_bit_eq_mod)
  also have "\<dots> = v" using v by (simp add: signed_take_bit_take_bit signed_take_bit_int_eq_self)
  finally show ?thesis by (simp add: int_bytes_def int_of_bytes_def)
qed

text \<open>However the bytes of a message are split on the way, they arrive.\<close>

lemma recv_fixed_len_ok:
  assumes "concat (packets c) = bs @ rest" and "[] \<notin> set (packets c)" and "length bs = n"
  shows "returns (recv_fixed_len n c) (\<lambda>(xs, c'). xs = bs \<and> concat (packets c') = rest \<and> [] \<notin> set (packets c') \<and> closed c' = closed c)"
  using assms
proof (induction n arbitrary: c bs rule: less_induct)
  case (less n)
  show ?case
  proof (cases "n = 0")
    case True
    then show ?thesis using less.prems by (subst recv_fixed_len.simps) simp
  next
    case False
    then obtain p ps where p: "packets c = p # ps" "p \<noteq> []" using less.prems by (cases "packets c") auto
    let ?c = "c\<lparr>packets := (if drop n p = [] then ps else drop n p # ps)\<rparr>"
    have r: "recv n c = Ret (take n p, ?c)" using p by (simp add: recv_def)
    have cc: "take n p @ concat (packets ?c) = bs @ rest" using less.prems(1) p by (simp flip: append_assoc)
    let ?m = "length (take n p)"
    have m: "0 < ?m" "?m \<le> n" using p(2) False by simp_all
    have bs: "bs = take n p @ drop ?m bs" and rest: "concat (packets ?c) = drop ?m bs @ rest"
    proof -
      have "take ?m (bs @ rest) = take n p" unfolding cc [symmetric] by (cases "n \<le> length p") (simp_all add: min_def)
      then have t: "take ?m bs = take n p" using m less.prems(3) by simp
      then show "bs = take n p @ drop ?m bs" by (metis append_take_drop_id)
      have "drop ?m (bs @ rest) = concat (packets ?c)" unfolding cc [symmetric] by simp
      then show "concat (packets ?c) = drop ?m bs @ rest" using m less.prems(3) by simp
    qed
    have "returns (recv_fixed_len (n - ?m) ?c) (\<lambda>(xs, c'). xs = drop ?m bs \<and> concat (packets c') = rest \<and> [] \<notin> set (packets c') \<and> closed c' = closed ?c)"
      using less.prems p m False by (intro less.IH [OF _ rest]) auto
    then show ?thesis
      using False r m bs by (subst recv_fixed_len.simps) (auto simp: returns_bindO elim!: returns_mono)
  qed
qed

lemma send_mes_all: "\<forall>a\<in>set acc. 0 < a \<Longrightarrow> length data \<le> length acc \<Longrightarrow> send_mes acc data = data"
proof (induction acc data rule: send_mes.induct)
  case (2 a acc data)
  show ?case
  proof (cases "data = []")
    case False
    then have "0 < min a (length data)" using 2 by simp
    moreover from this have "length data - min a (length data) \<le> length acc" using "2.prems"(2) by (simp del: min_less_iff_conj)
    ultimately show ?thesis using 2 False by (simp add: Let_def)
  qed simp
qed simp

lemma recv_all_closed:
  assumes "closed c" and "[] \<notin> set (packets c)"
  shows "\<exists>c'. recv_all c = Ret (if packets c = [] then None else Some (concat (packets c)), c')"
  using assms
proof (induction c rule: recv_all.induct)
  case (1 c)
  show ?case
  proof (cases "packets c")
    case Nil
    then show ?thesis using 1 by (subst recv_all.simps) (simp add: recv_def)
  next
    case (Cons p ps)
    let ?c = "c\<lparr>packets := (if drop 1023 p = [] then ps else drop 1023 p # ps)\<rparr>"
    have r: "recv 1023 c = Ret (take 1023 p, ?c)" using Cons by (simp add: recv_def)
    have p: "p \<noteq> []" "take 1023 p \<noteq> []" "[] \<notin> set (packets ?c)" using Cons "1.prems" by auto
    obtain c' where c': "recv_all ?c = Ret (if packets ?c = [] then None else Some (concat (packets ?c)), c')"
      using "1.IH" [OF r] p "1.prems"(1) by auto
    have "take 1023 p @ concat (packets ?c) = concat (packets c)" using Cons by (simp flip: append_assoc)
    then show ?thesis using r p c' Cons by (subst recv_all.simps) (auto split: if_splits)
  qed
qed

text \<open>On a connection that stays open the server receives for ever.\<close>

lemma recv_all_open:
  assumes "\<not> closed c" and "[] \<notin> set (packets c)"
  shows "recv_all c = Blocked"
  using assms
proof (induction c rule: recv_all.induct)
  case (1 c)
  show ?case
  proof (cases "packets c")
    case Nil
    then show ?thesis using 1 by (subst recv_all.simps) (simp add: recv_def)
  next
    case (Cons p ps)
    let ?c = "c\<lparr>packets := (if drop 1023 p = [] then ps else drop 1023 p # ps)\<rparr>"
    have r: "recv 1023 c = Ret (take 1023 p, ?c)" using Cons by (simp add: recv_def)
    have p: "p \<noteq> []" "[] \<notin> set (packets ?c)" using Cons "1.prems" by auto
    then have "recv_all ?c = Blocked" using "1.IH" [OF r] "1.prems"(1) by auto
    then show ?thesis using r p by (subst recv_all.simps) simp
  qed
qed

section \<open>Requests of the client\<close>

definition put_conn :: "u8 list \<Rightarrow> u8 list list \<Rightarrow> bool \<Rightarrow> conn" where
  "put_conn name chunks cl = \<lparr>packets = put_send name chunks, closed = cl\<rparr>"

definition get_conn :: "u8 list \<Rightarrow> conn" where
  "get_conn name = \<lparr>packets = get_send name, closed = True\<rparr>"

definition name_ok :: "u8 list \<Rightarrow> u8 list \<Rightarrow> bool" where
  "name_ok cwd name \<longleftrightarrow> 0 \<notin> set name \<and> length (path_of cwd name) < 48"

lemma recv_name_ok:
  assumes "name_ok cwd name"
  shows "recv_name \<lparr>packets = int_bytes (int (length name) + 1) # (name @ [0]) # ps, closed = cl\<rparr> = Ret (name, \<lparr>packets = ps, closed = cl\<rparr>)"
proof -
  have b: "int_of_bytes (int_bytes (int (length name) + 1)) = int (length name) + 1"
    using assms by (intro int_bytes_back) (simp_all add: name_ok_def path_of_def)
  have n: "nat (int (length name) + 1) = Suc (length name)" by simp
  have t: "take 4 (int_bytes v) = int_bytes v" "drop 4 (int_bytes v) = []" for v by simp_all
  have w: "takeWhile (\<lambda>b. b \<noteq> 0) (name @ [0]) = name" using assms by (subst takeWhile_append2) (auto simp: name_ok_def path_of_def)
  show ?thesis using assms b n w by (simp add: recv_name_def recv_def t name_ok_def path_of_def)
qed

definition stored :: "u8 list \<Rightarrow> u8 list \<Rightarrow> u8 list \<Rightarrow> server \<Rightarrow> server" where
  "stored cwd name data s = s\<lparr>dir := (dir s)(file_at s (path_of cwd name) \<mapsto> takeWhile (\<lambda>b. b \<noteq> 0) data)\<rparr>"

lemma put_request:
  assumes "name_ok cwd name" and "chunks \<noteq> []" and "[] \<notin> set chunks" and "writable s (path_of cwd name)"
  shows "child_proc junk cwd (put_conn name chunks True) s =
      bindO (new_list name (stored cwd name (concat chunks) s)) (\<lambda>t. Ret ([int_bytes (find_version junk name s)], t))"
    and "child_proc junk cwd (put_conn name chunks False) s = Blocked"
proof -
  have t: "take 4 (int_bytes 3) = int_bytes 3" "drop 4 (int_bytes 3) = []" "int_of_bytes (int_bytes 3) = 3"
    by (simp_all add: int_bytes_back)
  obtain c' where c': "recv_all \<lparr>packets = chunks, closed = True\<rparr> = Ret (Some (concat chunks), c')"
    using recv_all_closed [of "\<lparr>packets = chunks, closed = True\<rparr>"] assms by auto
  show "child_proc junk cwd (put_conn name chunks True) s =
      bindO (new_list name (stored cwd name (concat chunks) s)) (\<lambda>t. Ret ([int_bytes (find_version junk name s)], t))"
    using recv_name_ok [OF assms(1)] c' t assms(1,4)
    by (simp add: child_proc_def put_conn_def put_send_def recv_def server_put_def put_file_def stored_def name_ok_def Let_def)
  have "recv_all \<lparr>packets = chunks, closed = False\<rparr> = Blocked" using recv_all_open assms by simp
  then show "child_proc junk cwd (put_conn name chunks False) s = Blocked"
    using recv_name_ok [OF assms(1)] t by (simp add: child_proc_def put_conn_def put_send_def recv_def server_put_def)
qed

lemma get_request:
  assumes "name_ok cwd name" and "47 \<notin> set name"
  shows "child_proc junk cwd (get_conn name) s = get junk name cwd s"
proof -
  have t: "take 4 (int_bytes 2) = int_bytes 2" "drop 4 (int_bytes 2) = []" "int_of_bytes (int_bytes 2) = 2"
    by (simp_all add: int_bytes_back)
  show ?thesis using recv_name_ok [OF assms(1), of "[]" True] assms(2) t by (simp add: child_proc_def get_conn_def get_send_def recv_def)
qed

section \<open>Versions\<close>

text \<open>The names in the order of their first occurrence.\<close>

definition firsts :: "u8 list list \<Rightarrow> u8 list list" where "firsts ns = rev (remdups (rev ns))"

definition meta_of :: "u8 list list \<Rightarrow> u8 list \<Rightarrow> meta_data" where
  "meta_of ns n = \<lparr>md_version = int (count_list ns n) - 1, md_len = int (length n), md_name = n\<rparr>"

lemma firsts_snoc: "firsts (ns @ [n]) = (if n \<in> set ns then firsts ns else firsts ns @ [n])"
  by (simp add: firsts_def)

lemma firsts_set [simp]: "set (firsts ns) = set ns" "distinct (firsts ns)"
  by (simp_all add: firsts_def)

lemma new_list_loop_eq:
  assumes "distinct (map md_name l)" and "l \<noteq> []"
  shows "new_list_loop new l = (if md_name new \<in> md_name ` set l
    then (map (\<lambda>x. if md_name x = md_name new then x\<lparr>md_version := md_version x + 1\<rparr> else x) l, False) else (l @ [new], True))"
  using assms
proof (induction l)
  case (Cons x l)
  have "map (\<lambda>y. if md_name y = md_name new then y\<lparr>md_version := md_version y + 1\<rparr> else y) l = l" if "md_name x = md_name new"
    using that Cons.prems by (intro map_idI) (auto simp: image_iff)
  then show ?case using Cons by auto
qed simp

lemma count_list_snoc: "count_list (ns @ [n]) m = count_list ns m + (if m = n then 1 else 0)"
  by (induction ns) auto

text \<open>After the uploads \<open>ns\<close> the list has each name once, with the number of its uploads after the first one as version.\<close>

lemma new_list_step:
  assumes "front s = map (meta_of ns) (firsts ns)" and "theNumberOf s = int (length (firsts ns))" and "length n < usable s (length n)"
  shows "returns (new_list n s) (\<lambda>t. front t = map (meta_of (ns @ [n])) (firsts (ns @ [n])) \<and>
    theNumberOf t = int (length (firsts (ns @ [n]))) \<and> dir t = dir s \<and> file_at t = file_at s \<and> writable t = writable s \<and> usable t = usable s)"
proof -
  let ?new = "\<lparr>md_version = 0, md_len = int (length n), md_name = n\<rparr>"
  have d: "distinct (map md_name (front s))" using assms(1) by (simp add: comp_def meta_of_def)
  have m: "md_name ` set (front s) = set ns" using assms(1) by (auto simp: meta_of_def image_iff)
  have other: "meta_of (ns @ [n]) k = meta_of ns k" if "k \<noteq> n" for k using that by (simp add: meta_of_def count_list_snoc)
  have bump: "map (\<lambda>x. if md_name x = n then x\<lparr>md_version := md_version x + 1\<rparr> else x) (front s) = map (meta_of (ns @ [n])) (firsts ns)"
    unfolding assms(1) by (auto simp: meta_of_def count_list_snoc)
  have new: "map (meta_of ns) (firsts ns) @ [?new] = map (meta_of (ns @ [n])) (firsts ns @ [n])" if "n \<notin> set ns"
    using that other by (auto simp: meta_of_def count_list_snoc)
  show ?thesis
  proof (cases "front s = []")
    case True
    then have "ns = []" using m by simp
    then show ?thesis using True assms(2,3) by (simp add: new_list_def Let_def firsts_def meta_of_def)
  next
    case False
    then show ?thesis
      using new_list_loop_eq [OF d False, of ?new] m bump new assms by (simp add: new_list_def Let_def firsts_snoc)
  qed
qed

section \<open>Uploads and downloads\<close>

primrec serve_puts :: "int \<Rightarrow> u8 list \<Rightarrow> (u8 list \<times> u8 list list) list \<Rightarrow> server \<Rightarrow> server outcome" where
  "serve_puts junk cwd [] s = Ret s"
| "serve_puts junk cwd (r # rs) s = bindO (child_proc junk cwd (put_conn (fst r) (snd r) True) s) (\<lambda>(_, s). serve_puts junk cwd rs s)"

definition put_ok :: "u8 list \<Rightarrow> server \<Rightarrow> u8 list \<times> u8 list list \<Rightarrow> bool" where
  "put_ok cwd s r \<longleftrightarrow> name_ok cwd (fst r) \<and> snd r \<noteq> [] \<and> [] \<notin> set (snd r) \<and> 0 \<notin> set (concat (snd r)) \<and>
     writable s (path_of cwd (fst r)) \<and> length (fst r) < usable s (length (fst r))"

text \<open>The uploads by the files that their names stand for.\<close>

definition by_file :: "u8 list \<Rightarrow> server \<Rightarrow> (u8 list \<times> u8 list list) list \<Rightarrow> (u8 list \<times> u8 list list) list" where
  "by_file cwd s rs = map (\<lambda>r. (file_at s (path_of cwd (fst r)), snd r)) rs"

text \<open>The state after the uploads: the list and the files; the rest is unchanged.\<close>

definition after_puts :: "u8 list \<Rightarrow> u8 list list \<Rightarrow> (u8 list \<times> u8 list list) list \<Rightarrow> server \<Rightarrow> server \<Rightarrow> bool" where
  "after_puts cwd ns rs s t \<longleftrightarrow> front t = map (meta_of (ns @ map fst rs)) (firsts (ns @ map fst rs)) \<and>
    theNumberOf t = int (length (firsts (ns @ map fst rs))) \<and>
    (\<forall>f. dir t f = (case map_of (rev (by_file cwd s rs)) f of None \<Rightarrow> dir s f | Some cs \<Rightarrow> Some (concat cs))) \<and>
    writable t = writable s \<and> file_at t = file_at s \<and> usable t = usable s"

lemma map_of_rev_Cons: "map_of (rev (r # rs)) n = (case map_of (rev rs) n of None \<Rightarrow> if n = fst r then Some (snd r) else None | Some cs \<Rightarrow> Some cs)"
  by (cases r) (simp add: map_add_def split: option.splits)

lemma serve_puts_ok:
  assumes "\<forall>r\<in>set rs. put_ok cwd s r" and "front s = map (meta_of ns) (firsts ns)" and "theNumberOf s = int (length (firsts ns))"
  shows "returns (serve_puts junk cwd rs s) (after_puts cwd ns rs s)"
  using assms
proof (induction rs arbitrary: s ns)
  case (Cons r rs)
  let ?n = "fst r"
  let ?s = "stored cwd ?n (concat (snd r)) s"
  have r: "name_ok cwd ?n" "snd r \<noteq> []" "[] \<notin> set (snd r)" "writable s (path_of cwd ?n)"
    "takeWhile (\<lambda>b. b \<noteq> 0) (concat (snd r)) = concat (snd r)" "length ?n < usable s (length ?n)"
    using Cons.prems(1) by (auto simp: put_ok_def takeWhile_eq_all_conv)
  have s: "front ?s = map (meta_of ns) (firsts ns)" "theNumberOf ?s = int (length (firsts ns))" "length ?n < usable ?s (length ?n)"
    using Cons.prems r(6) by (simp_all add: stored_def)
  obtain u where u: "new_list ?n ?s = Ret u" "front u = map (meta_of (ns @ [?n])) (firsts (ns @ [?n]))"
    "theNumberOf u = int (length (firsts (ns @ [?n])))" "dir u = dir ?s" "file_at u = file_at s" "writable u = writable s" "usable u = usable s"
    using new_list_step [OF s] by (auto simp: stored_def elim: returnsE)
  have bf: "by_file cwd u rs = by_file cwd s rs" by (simp add: by_file_def u(5))
  have d: "dir u f = (if f = file_at s (path_of cwd ?n) then Some (concat (snd r)) else dir s f)" for f
    unfolding u(4) by (simp add: stored_def r(5))
  have "returns (serve_puts junk cwd rs u) (after_puts cwd (ns @ [?n]) rs u)"
    using Cons.prems(1) u(6,7) by (intro Cons.IH u(2,3)) (simp add: put_ok_def)
  moreover have "after_puts cwd ns (r # rs) s t" if t: "after_puts cwd (ns @ [?n]) rs u t" for t
  proof -
    have "by_file cwd s (r # rs) = (file_at s (path_of cwd ?n), snd r) # by_file cwd s rs" by (simp add: by_file_def)
    then have mo: "map_of (rev (by_file cwd s (r # rs))) f = (case map_of (rev (by_file cwd s rs)) f of
        None \<Rightarrow> if f = file_at s (path_of cwd ?n) then Some (snd r) else None | Some cs \<Rightarrow> Some cs)" for f
      by (simp only: map_of_rev_Cons fst_conv snd_conv)
    have "dir t f = (case map_of (rev (by_file cwd s (r # rs))) f of None \<Rightarrow> dir s f | Some cs \<Rightarrow> Some (concat cs))" for f
      using t unfolding after_puts_def bf mo by (auto simp: d split: option.splits)
    then show ?thesis using t u(5-7) by (simp add: after_puts_def)
  qed
  ultimately have "returns (serve_puts junk cwd rs u) (after_puts cwd ns (r # rs) s)" by (rule returns_mono)
  then show ?case using put_request(1) [OF r(1-4), of junk] u(1) by simp
qed (simp add: after_puts_def by_file_def)

lemma find_version_list: "find_version_loop junk n (map (meta_of ns) l) = (if n \<in> set l then md_version (meta_of ns n) else junk)"
  by (induction l) (auto simp: meta_of_def)


text \<open>
  The file \<^verbatim>\<open>a\<close> uploaded, then \<^verbatim>\<open>b\<close>, then \<^verbatim>\<open>./a\<close>, which is the same file as \<^verbatim>\<open>a\<close>, in two packets; the allocator provides
  24 bytes and then steps of 16.
\<close>

definition dropbox_start :: server where
  "dropbox_start = \<lparr>front = [], theNumberOf = 0, dir = \<lambda>_. None,
     file_at = \<lambda>p. if p = path_of [100] [46, 47, 97] then path_of [100] [97] else p, writable = \<lambda>_. True,
     usable = \<lambda>n. max 24 ((n + 23) div 16 * 16 - 8)\<rparr>"


text \<open>The search of the client for a name ends only when its list is empty or begins with the name.\<close>

lemma list_find_stuck:
  assumes "cl_front s = x # xs" and "md_name x \<noteq> name"
  shows "list_find name s = None"
proof -
  have ends: "c = [] \<or> md_name (hd c) = n" if "list_find_loop n c = Some y" for n c y
    by (rule list_find_loop.raw_induct [where P = "\<lambda>n c y. c = [] \<or> md_name (hd c) = n", OF _ that])
      (fastforce split: list.splits if_splits)
  show ?thesis
  proof (cases "list_find_loop name (cl_front s)")
    case (Some found)
    then show ?thesis using ends [OF Some] assms by simp
  qed (simp add: list_find_def)
qed

end
