(* ===== verification/Spec2Isabelle.thy ===== *)
theory Spec2Isabelle
  imports Trap Ide Mkfs Paths Kbd Grep Sh Ulib Umalloc Mp Dropbox
begin

text \<open>
  A verification of the teaching operating system in \<^verbatim>\<open>src/xv6_lab3\<close>: the xv6 kernel with a priority scheduler,
  exit statuses, \<^verbatim>\<open>waitpid\<close> and a user stack that grows on page faults, of the logic in its user programs, and of the file
  synchronization server in \<^verbatim>\<open>src/dropbox\<close>.

  \<^bold>\<open>The program.\<close> A process enters the kernel through \<^verbatim>\<open>trap()\<close>, which serves device interrupts, page faults and
  system calls. System calls fetch their arguments from user memory and act on processes (\<^verbatim>\<open>proc.c\<close>) or on open
  files, which are pipes or inodes (\<^verbatim>\<open>file.c\<close>, \<^verbatim>\<open>pipe.c\<close>, \<^verbatim>\<open>fs.c\<close>). The file system changes blocks only inside
  transactions of the write-ahead log (\<^verbatim>\<open>log.c\<close>), the log works on the buffer cache (\<^verbatim>\<open>bio.c\<close>) and the cache on
  the disk driver. Processes have page tables (\<^verbatim>\<open>vm.c\<close>) in pages of the physical allocator (\<^verbatim>\<open>kalloc.c\<close>). Everything
  is protected by spin locks (\<^verbatim>\<open>spinlock.c\<close>) and, where a thread may sleep, by sleep locks (\<^verbatim>\<open>sleeplock.c\<close>) built on
  \<^verbatim>\<open>sleep\<close> and \<^verbatim>\<open>wakeup\<close> of \<^verbatim>\<open>proc.c\<close>.

  \<^bold>\<open>How the code is modelled.\<close> Every C function is a HOL function on an explicit state. The state of the kernel is one
  extensible record: \<open>machine\<close> (CPUs, interrupt flag, spin locks), extended by \<open>kmem_state\<close> (memory and the free list),
  \<open>proc_state\<close> (process table), \<open>sleep_state\<close>, \<open>bio_state\<close> (buffer cache and disk), \<open>log_state\<close>, \<open>fs_state\<close>, \<open>cons_state\<close>,
  \<open>pipe_state\<close>, \<open>file_state\<close> and \<open>life_state\<close>, so that an operation of a lower layer applies unchanged to the state of a
  higher one and leaves the fields it does not know alone. A result is an \<open>outcome\<close>: \<open>Ret\<close> a value, \<open>Panic\<close> with
  the message of the \<^verbatim>\<open>panic\<close> call (\<open>UB\<close> where C leaves the behaviour undefined), or \<open>Blocked\<close> when the thread spins or sleeps and nobody will wake it. \<open>returns\<close> is
  total correctness (the operation returns, and its result satisfies the predicate); \<open>whenever\<close> is partial
  correctness. \<^verbatim>\<open>uint\<close> is a 32-bit word with wrap-around, \<^verbatim>\<open>int\<close> an integer or, where the code relies on conversion,
  a word read with \<open>sint\<close>; pointers into kernel tables are indices, pointers into memory are words into a byte memory.

  What other threads do while a thread waits is an argument of the operation that waits: \<open>resume\<close> for a switch to
  the scheduler and back, and a list \<open>ws\<close> (or \<open>wakes\<close>) with one step of the environment for each time the thread
  goes to sleep; the operation is \<open>Blocked\<close> when the list is used up.

  \<^bold>\<open>Theories, from the bottom up.\<close>

  \<^item> \<open>Prelude\<close>: machine types (\<^verbatim>\<open>types.h\<close>), outcomes and their calculus, byte memory, ring buffers, and the interface
    \<open>byte_queue\<close>. \<open>Layout\<close>: constants and address macros (\<^verbatim>\<open>param.h\<close>, \<^verbatim>\<open>memlayout.h\<close>, \<^verbatim>\<open>mmu.h\<close>). \<open>Bytes\<close>: integers inside blocks.
  \<^item> \<open>Cstring\<close>: \<^verbatim>\<open>string.c\<close>. Copying works for overlapping regions and the word-wise fill equals the bytewise one.
  \<^item> \<open>Spinlock\<close>: \<^verbatim>\<open>spinlock.c\<close>, \<^verbatim>\<open>mycpu\<close>, \<^verbatim>\<open>cpuid\<close>. Sequentially, a critical section restores the machine; for several
    CPUs, a step relation on the single accesses of \<^verbatim>\<open>acquire\<close> and \<^verbatim>\<open>release\<close> and mutual exclusion in every reachable state.
  \<^item> \<open>Kalloc\<close>: \<^verbatim>\<open>kalloc.c\<close>. The free list threaded through memory is a stack of distinct pages; the contract is the
    locale \<open>page_allocator\<close>, interpreted on \<^verbatim>\<open>kalloc\<close> and \<^verbatim>\<open>kfree\<close>.
  \<^item> \<open>Mp\<close>: \<^verbatim>\<open>mp.c\<close>. The search for the tables of the BIOS ends, and \<^verbatim>\<open>mpinit\<close> makes \<^verbatim>\<open>mycpu\<close> work on the processors it finds.
  \<^item> \<open>Proc\<close>: \<^verbatim>\<open>proc.h\<close> and the part of \<^verbatim>\<open>proc.c\<close> without files. The invariant of the process table; the scheduler picks the first
    runnable process of the highest priority, and its loop (\<open>scheduler_loop\<close>) lets none of them wait longer than \<^verbatim>\<open>NPROC\<close> iterations; no
    wakeup is lost.
  \<^item> \<open>Vm\<close>: \<^verbatim>\<open>vm.c\<close>. A page table in memory denotes a map from pages to entries; \<^verbatim>\<open>mappages\<close> refines an update of that map.
    User memory is read and written through the table of the current process (\<open>user_bytes\<close>, \<open>user_buffer\<close>).
  \<^item> \<open>Sleeplock\<close>: \<^verbatim>\<open>sleeplock.c\<close>, exclusive also while others wait. \<open>Bio\<close>: \<^verbatim>\<open>bio.c\<close> on \<^verbatim>\<open>memide.c\<close>. The ring of buffers is a list in order of use, and the
    cache together with the disk denotes one content per block, which reading and releasing keep and writing changes. The field \<open>disk_trace\<close> has no counterpart in the
    code: \<^verbatim>\<open>iderw\<close> appends the disk to it at every block write, and no operation reads it.
  \<^item> \<open>Log\<close>: \<^verbatim>\<open>log.c\<close>. \<open>Crash\<close>: every disk in the trace of a run of \<^verbatim>\<open>commit\<close>, one for each block write, recovers to the state before or after
    the transaction, and the code of recovery computes that state. \<open>Txn\<close>: \<^verbatim>\<open>begin_op\<close>, \<^verbatim>\<open>log_write\<close> and \<^verbatim>\<open>end_op\<close>
    around block updates; the interface \<open>block_store\<close>, interpreted on updates through the log and on direct ones.
  \<^item> \<open>Ide\<close>: \<^verbatim>\<open>ide.c\<close>, the driver for a real disk with the interface of \<^verbatim>\<open>memide.c\<close>. Its runs are a step relation of requests and
    interrupts; by rule induction, the commands it writes are the requests in their order, one at a time.
  \<^item> \<open>Fs\<close>: \<^verbatim>\<open>fs.c\<close>. \<open>Fsblocks\<close>: the block allocator and its panics. \<open>Inode\<close>: inodes on disk and in the cache, \<^verbatim>\<open>readi\<close>.
    \<open>Fwrite\<close>: \<^verbatim>\<open>writei\<close> followed by \<^verbatim>\<open>readi\<close>. \<open>Paths\<close>: path components and directory entries.
  \<^item> \<open>Mkfs\<close>: \<^verbatim>\<open>mkfs.c\<close>, the program that builds the disk image. The image is seen as a table of files; the program refines
    updates of that table, and a kernel that runs on the image finds every file.
  \<^item> \<open>Console\<close>: \<^verbatim>\<open>console.c\<close>, \<^verbatim>\<open>uartputc\<close>; the interrupt handler refines line editing on lists, and control-P prints the listing of \<^verbatim>\<open>procdump\<close>, which is modelled there, too. \<open>Kbd\<close>: \<^verbatim>\<open>kbd.c\<close> and its tables.
  \<^item> \<open>Pipe\<close>: \<^verbatim>\<open>pipe.c\<close>; the ring is an interpretation of \<open>byte_queue\<close>, and bytes go from the memory of the writer to that of the reader in order. \<open>File\<close>: \<^verbatim>\<open>file.c\<close> and \<^verbatim>\<open>pipealloc\<close>.
  \<^item> \<open>Lifecycle\<close>: the rest of \<^verbatim>\<open>proc.c\<close> (\<^verbatim>\<open>userinit\<close>, \<^verbatim>\<open>fork\<close>, \<^verbatim>\<open>exit\<close>, \<^verbatim>\<open>wait\<close>, \<^verbatim>\<open>waitpid\<close>). \<open>Exec\<close>: \<^verbatim>\<open>exec.c\<close>. \<open>Syscall\<close>: \<^verbatim>\<open>syscall.c\<close>,
    \<^verbatim>\<open>sysproc.c\<close>, \<^verbatim>\<open>sysfile.c\<close>. \<open>Trap\<close>: \<^verbatim>\<open>trap.c\<close>.
  \<^item> User programs: \<open>Ulib\<close> (\<^verbatim>\<open>ulib.c\<close>, \<^verbatim>\<open>printf.c\<close>), \<open>Umalloc\<close> (\<^verbatim>\<open>umalloc.c\<close>: the circular free list stays well formed and
    memory is conserved), \<open>Grep\<close> (\<^verbatim>\<open>grep.c\<close>: the matcher decides the language of the pattern), \<open>Sh\<close> (\<^verbatim>\<open>sh.c\<close>: the parser ends
    on every line with a well-formed command or a panic, and the tree of processes that a command makes is the one it prescribes, with the open descriptors and the waits of each process).
  \<^item> \<open>Dropbox\<close>: \<^verbatim>\<open>sserver.c\<close> and the messages of \<^verbatim>\<open>sclient.c\<close>. The server answers a download with the last upload to the file and its version. Which file
    a path names (\<open>file_at\<close>) and how large the blocks of the allocator are (\<open>usable\<close>) are parameters.

  \<^bold>\<open>Bounds and fuel.\<close> Loops that go up or down a range are total functions with a measure. The loops of \<open>Vm\<close> over pages
  carry a number of rounds computed from their own limits; running out is \<open>Blocked\<close>, and lemmas of the
  theory show that more rounds change nothing or that the loop returns. \<open>balloc_loop\<close> has a round for every bitmap block
  of the disk, and its end is the panic with which the C loop ends, too. The parser of the shell carries fuel
  of four times the length of the line plus four, which \<open>parse_enough_fuel\<close> shows to be enough for every line. Loops that end
  only on well-formed data (strings, the free list of \<^verbatim>\<open>umalloc.c\<close>) are partial functions into \<open>option\<close>, and the theorems
  state that they return.

  \<^bold>\<open>Not modelled.\<close> The device drivers that only touch hardware registers (\<^verbatim>\<open>lapic.c\<close>, \<^verbatim>\<open>ioapic.c\<close>, \<^verbatim>\<open>picirq.c\<close>, \<^verbatim>\<open>timer.c\<close>), the boot loader and
  start-up order (\<^verbatim>\<open>bootmain.c\<close>, \<^verbatim>\<open>main.c\<close>), assembly, messages printed for debugging (diagnostics before a
  panic or a kill, the call stacks recorded in spin locks), user programs that only call system calls (\<^verbatim>\<open>cat\<close>, \<^verbatim>\<open>echo\<close>, \<^verbatim>\<open>ls\<close>, \<^verbatim>\<open>init\<close> and others), the
  test programs, the threads and main loops of \<^verbatim>\<open>src/dropbox\<close>, and the socket exercises in the other directories of \<^verbatim>\<open>src\<close>.
\<close>

end
